(* ===== verification/Bolt_Prelude.thy ===== *)
theory Bolt_Prelude
  imports Main "HOL-Library.Word"
begin

unbundle bit_operations_syntax

text \<open>
  Shared vocabulary of the development: the machine types of the C++ sources, the generic
  facts on words and lists that the wire codecs need, reading at a cursor inside a buffer,
  and the interface that every self-delimiting wire codec of the program meets.
\<close>

type_synonym byte = "8 word"
type_synonym u16 = "16 word"
type_synonym u32 = "32 word"
type_synonym u64 = "64 word"

text \<open>Collections: facts that move a word expression to \<open>nat\<close>, and codec rewrite rules.\<close>

named_theorems word_nat \<open>word expressions read through unat\<close>
named_theorems codec_simps \<open>decoders applied to encoder output\<close>

section \<open>Words as natural numbers\<close>

lemma nat_or_disjoint:
  fixes a b :: nat
  assumes "2 ^ k dvd a" "b < 2 ^ k"
  shows "a OR b = a + b"
proof -
  have "\<not> bit a n \<or> \<not> bit b n" for n
  proof (cases "n < k")
    case True
    with assms(1) have "\<not> bit a n"
      by (metis bit_push_bit_iff dvd_div_mult_self not_less push_bit_eq_mult)
    then show ?thesis by simp
  next
    case False
    with assms(2) have "b < 2 ^ n"
      by (meson less_le_trans not_less one_le_numeral power_increasing)
    then have "\<not> bit b n"
      by (simp add: bit_iff_odd)
    then show ?thesis by simp
  qed
  then show ?thesis by (simp add: disjunctive_add)
qed

lemma unat_or_disjoint:
  fixes a b :: "'a::len word"
  assumes "2 ^ k dvd unat a" "unat b < 2 ^ k"
  shows "unat (a OR b) = unat a + unat b"
  using nat_or_disjoint [OF assms] by (simp add: unsigned_or_eq)

lemma unat_ucast_mod [word_nat]:
  "unat (ucast (w :: 'a::len word) :: 'b::len word) = unat w mod 2 ^ LENGTH('b)"
  by (simp add: unsigned_ucast_eq take_bit_eq_mod)

lemma unat_drop_bit_div [word_nat]: "unat (drop_bit n w) = unat w div 2 ^ n"
  unfolding unat_drop_bit_eq by (simp only: drop_bit_eq_div)

lemma unat_push_bit_mod [word_nat]:
  "unat (push_bit n (w :: 'a::len word)) = (unat w * 2 ^ n) mod 2 ^ LENGTH('a)"
  unfolding unsigned_push_bit_eq by (simp only: push_bit_eq_mult take_bit_eq_mod)

lemma nat_and_mask: "(x::nat) AND (2 ^ n - 1) = x mod 2 ^ n"
  by (simp only: take_bit_eq_mod [symmetric] take_bit_eq_mask mask_eq_exp_minus_1)

lemma unat_and_low:
  fixes w m :: "'a::len word"
  assumes "unat m = 2 ^ n - 1"
  shows "unat (w AND m) = unat w mod 2 ^ n"
  unfolding unsigned_and_eq assms by (rule nat_and_mask)

lemma u64_and_FF [word_nat]: "unat ((w::u64) AND 0xFF) = unat w mod 256"
  using unat_and_low [of "0xFF::u64" 8 w] by simp

lemma byte_and_3F [word_nat]: "unat ((w::byte) AND 0x3F) = unat w mod 64"
  using unat_and_low [of "0x3F::byte" 6 w] by simp

lemma byte_less_256 [simp]: "unat (b::byte) < 256"
  using unsigned_less [of b] by simp

lemma u16_less: "unat (w::u16) < 65536"
  using unsigned_less [of w] by simp

lemma u32_less: "unat (w::u32) < 4294967296"
  using unsigned_less [of w] by simp

lemma u64_less: "unat (w::u64) < 18446744073709551616"
  using unsigned_less [of w] by simp

lemma byte_le_255 [simp]: "unat (b::byte) \<le> 255"
  using byte_less_256 [of b] by linarith

lemma unat_ucast_byte_u64 [word_nat, simp]: "unat (ucast (b::byte) :: u64) = unat b"
  by (simp add: unat_ucast_mod less_trans [OF byte_less_256])

lemma word_eq_of_unat: "unat (a::'a::len word) = unat b \<Longrightarrow> a = b"
  by (simp add: word_unat_eq_iff)

lemma unat_add_small:
  "unat (a :: 'a::len word) + unat b < 2 ^ LENGTH('a) \<Longrightarrow> unat (a + b) = unat a + unat b"
  by (simp add: unat_word_ariths)

lemma unat_sub_small: "b \<le> a \<Longrightarrow> unat (a - b) = unat a - unat (b :: 'a::len word)"
  by (rule unat_sub)

text \<open>Shifting a byte into the low end of an accumulator, as every big-endian loop does.\<close>

lemma unat_shift_in_byte:
  fixes v :: u64 and b :: byte
  assumes "unat v < 2 ^ 56"
  shows "unat (push_bit 8 v OR ucast b) = unat v * 256 + unat b"
proof -
  have sh: "unat (push_bit 8 v) = unat v * 2 ^ 8"
    using assms by (simp add: unat_push_bit_mod)
  have "unat (push_bit 8 v OR ucast b) = unat (push_bit 8 v) + unat (ucast b :: u64)"
    by (rule unat_or_disjoint [of 8]) (simp_all add: sh)
  then show ?thesis by (simp add: sh)
qed

text \<open>The number a big-endian byte sequence denotes.\<close>

definition be_nat :: "byte list \<Rightarrow> nat" where
  "be_nat bs = foldl (\<lambda>a b. a * 256 + unat b) 0 bs"

lemma be_nat_foldl:
  "foldl (\<lambda>a b. a * 256 + unat b) a bs = a * 256 ^ length bs + be_nat bs"
proof (induction bs arbitrary: a)
  case Nil
  then show ?case by (simp add: be_nat_def)
next
  case (Cons b bs)
  show ?case
    using Cons [of "a * 256 + unat b"] Cons [of "unat b"]
    by (simp add: be_nat_def algebra_simps)
qed

lemma be_nat_Nil [simp]: "be_nat [] = 0"
  by (simp add: be_nat_def)

lemma be_nat_Cons [simp]: "be_nat (b # bs) = unat b * 256 ^ length bs + be_nat bs"
  using be_nat_foldl [of "unat b" bs] by (simp add: be_nat_def)

lemma be_nat_less: "be_nat bs < 256 ^ length bs"
proof (induction bs)
  case (Cons b bs)
  have "unat b * 256 ^ length bs + be_nat bs < unat b * 256 ^ length bs + 256 ^ length bs"
    using Cons by simp
  also have "\<dots> = (unat b + 1) * 256 ^ length bs"
    by (simp add: algebra_simps)
  also have "\<dots> \<le> 256 * 256 ^ length bs"
    by (intro mult_right_mono) simp_all
  finally show ?case by simp
qed simp

text \<open>The low \<open>n\<close> bytes of a number, most significant first.\<close>

fun be_bytes :: "nat \<Rightarrow> nat \<Rightarrow> byte list" where
  "be_bytes 0 x = []"
| "be_bytes (Suc n) x = of_nat (x div 256 ^ n) # be_bytes n x"

lemma length_be_bytes [simp]: "length (be_bytes n x) = n"
  by (induction n) auto

lemma be_bytes_numeral [simp]:
  "be_bytes (numeral k) x = of_nat (x div 256 ^ pred_numeral k) # be_bytes (pred_numeral k) x"
  by (simp add: numeral_eq_Suc)

lemma unat_of_nat_byte [simp]: "unat (of_nat x :: byte) = x mod 256"
  by (simp add: unat_of_nat)

lemma be_nat_be_bytes: "be_nat (be_bytes n x) = x mod 256 ^ n"
proof (induction n)
  case (Suc n)
  have "x mod 256 ^ Suc n = x div 256 ^ n mod 256 * 256 ^ n + x mod 256 ^ n"
    using mod_mult2_eq [of x "256 ^ n" 256] by (simp add: mult.commute add.commute)
  with Suc show ?case by simp
qed simp

lemma be_bytes_mod: "n \<le> m \<Longrightarrow> be_bytes n (x mod 256 ^ m) = be_bytes n x"
proof (induction n)
  case (Suc n)
  then have "x mod 256 ^ m div 256 ^ n mod 256 = x div 256 ^ n mod 256"
  proof -
    have "256 ^ Suc n dvd (256 ^ m :: nat)"
      using Suc.prems by (intro le_imp_power_dvd)
    then have "x mod 256 ^ m mod 256 ^ Suc n = x mod 256 ^ Suc n"
      by (rule mod_mod_cancel)
    moreover have "y div 256 ^ n mod 256 = y mod 256 ^ Suc n div 256 ^ n" for y :: nat
      using mod_mult2_eq [of y "256 ^ n" 256] by (simp add: mult.commute)
    ultimately show ?thesis by metis
  qed
  then have "(of_nat (x mod 256 ^ m div 256 ^ n) :: byte) = of_nat (x div 256 ^ n)"
    by (intro word_eq_of_unat) simp
  with Suc show ?case by simp
qed simp

lemma be_bytes_be_nat: "be_bytes (length bs) (be_nat bs) = bs"
proof (induction bs)
  case (Cons b bs)
  have "be_nat (b # bs) div 256 ^ length bs = unat b"
    using be_nat_less [of bs] by simp
  moreover have "be_bytes (length bs) (be_nat (b # bs)) = be_bytes (length bs) (be_nat bs)"
    using be_bytes_mod [of "length bs" "length bs" "be_nat (b # bs)"] be_nat_less [of bs] by simp
  ultimately show ?case using Cons by simp
qed simp

lemma ucast_digit:
  "ucast (drop_bit (8 * k) v AND 0xFF :: u64) = (of_nat (unat v div 256 ^ k) :: byte)"
  by (rule word_eq_of_unat) (simp add: word_nat power_mult)

lemma ucast_digit':
  "ucast (drop_bit (k * 8) v AND 0xFF :: u64) = (of_nat (unat v div 256 ^ k) :: byte)"
  using ucast_digit [of k v] by (simp add: mult.commute)

text \<open>
  The big-endian accumulation loop \<^verbatim>\<open>v = (v << 8) | byte\<close> that the varint decoder, the
  packet number decoder and the fixed-width field readers all run.
\<close>

fun shift_in_bytes :: "u64 \<Rightarrow> byte list \<Rightarrow> u64" where
  "shift_in_bytes v [] = v"
| "shift_in_bytes v (b # bs) = shift_in_bytes (push_bit 8 v OR ucast b) bs"

lemma unat_shift_in_bytes:
  assumes "unat v * 256 ^ length bs + be_nat bs < 2 ^ 64"
  shows "unat (shift_in_bytes v bs) = unat v * 256 ^ length bs + be_nat bs"
  using assms
proof (induction bs arbitrary: v)
  case (Cons b bs)
  have "unat v * 256 \<le> unat v * 256 ^ length (b # bs)"
    by simp
  also have "\<dots> < 2 ^ 64"
    using Cons.prems by linarith
  finally have "unat (push_bit 8 v OR ucast b) = unat v * 256 + unat b"
    by (intro unat_shift_in_byte) simp
  with Cons.IH [of "push_bit 8 v OR ucast b"] Cons.prems show ?case
    by (simp add: algebra_simps)
qed simp

lemma unat_shift_in_bytes_0:
  assumes "length bs \<le> 8"
  shows "unat (shift_in_bytes 0 bs) = be_nat bs"
proof -
  have "(256::nat) ^ length bs \<le> 256 ^ 8"
    using assms by (intro power_increasing) auto
  then show ?thesis
    using be_nat_less [of bs] by (subst unat_shift_in_bytes) auto
qed

text \<open>Fixed-width big-endian fields: the shift-and-or loads and the shift-and-mask stores.\<close>

definition load_be16 :: "byte \<Rightarrow> byte \<Rightarrow> u16" where
  "load_be16 a b = push_bit 8 (ucast a) OR ucast b"

definition load_be32 :: "byte \<Rightarrow> byte \<Rightarrow> byte \<Rightarrow> byte \<Rightarrow> u32" where
  "load_be32 a b c d =
     push_bit 24 (ucast a) OR (push_bit 16 (ucast b) OR (push_bit 8 (ucast c) OR ucast d))"

definition store_be16 :: "u16 \<Rightarrow> byte list" where
  "store_be16 v = [ucast (drop_bit 8 v AND 0xFF), ucast (v AND 0xFF)]"

definition store_be32 :: "u32 \<Rightarrow> byte list" where
  "store_be32 v = [ucast (drop_bit 24 v AND 0xFF), ucast (drop_bit 16 v AND 0xFF),
     ucast (drop_bit 8 v AND 0xFF), ucast (v AND 0xFF)]"

lemma unat_byte_shift:
  assumes "k + 8 \<le> LENGTH('a)"
  shows "unat (push_bit k (ucast (b::byte) :: 'a::len word)) = unat b * 2 ^ k"
proof -
  have "unat b * 2 ^ k < 2 ^ 8 * 2 ^ k"
    by simp
  also have "(2::nat) ^ 8 * 2 ^ k = 2 ^ (k + 8)"
    by (simp add: power_add)
  also have "\<dots> \<le> 2 ^ LENGTH('a)"
    using assms by (intro power_increasing) auto
  finally have "unat b * 2 ^ k < 2 ^ LENGTH('a)" .
  moreover have "unat b < 2 ^ LENGTH('a)"
  proof -
    have "(2::nat) ^ 8 \<le> 2 ^ LENGTH('a)" using assms by (intro power_increasing) auto
    then show ?thesis by (intro less_le_trans [OF byte_less_256]) simp
  qed
  ultimately show ?thesis by (simp add: unat_push_bit_mod unat_ucast_mod)
qed

lemmas unat_byte_shifts =
  unat_byte_shift [of 0, simplified] unat_byte_shift [of 8] unat_byte_shift [of 16] unat_byte_shift [of 24]

lemma unat_load_be16: "unat (load_be16 a b) = be_nat [a, b]"
  unfolding load_be16_def
  by (subst unat_or_disjoint [of 8]) (simp_all add: unat_byte_shifts)

lemma unat_load_be32: "unat (load_be32 a b c d) = be_nat [a, b, c, d]"
proof -
  have l8: "unat (push_bit 8 (ucast c) OR ucast d :: u32) = unat c * 256 + unat d"
    by (subst unat_or_disjoint [of 8]) (simp_all add: unat_byte_shifts)
  have b16: "unat c * 256 + unat d < 65536"
    using byte_le_255 [of c] byte_le_255 [of d] by linarith
  have l16: "unat (push_bit 16 (ucast b) OR (push_bit 8 (ucast c) OR ucast d) :: u32) =
      unat b * 65536 + (unat c * 256 + unat d)"
    using b16 by (subst unat_or_disjoint [of 16]) (simp_all add: unat_byte_shifts l8)
  have "unat b * 65536 + (unat c * 256 + unat d) < 16777216"
    using b16 byte_le_255 [of b] by linarith
  then show ?thesis
    unfolding load_be32_def
    by (subst unat_or_disjoint [of 24]) (simp_all add: unat_byte_shifts l16)
qed

lemma u32_and_FF [word_nat]: "unat ((w::u32) AND 0xFF) = unat w mod 256"
  using unat_and_low [of "0xFF::u32" 8 w] by simp

lemma u16_and_FF [word_nat]: "unat ((w::u16) AND 0xFF) = unat w mod 256"
  using unat_and_low [of "0xFF::u16" 8 w] by simp

lemma store_be16_be_bytes: "store_be16 v = be_bytes 2 (unat v)"
  by (simp add: store_be16_def word_unat_eq_iff word_nat)

lemma store_be32_be_bytes: "store_be32 v = be_bytes 4 (unat v)"
  by (simp add: store_be32_def word_unat_eq_iff word_nat)

lemma length_store_be [simp]: "length (store_be16 v) = 2" "length (store_be32 w) = 4"
  by (simp_all add: store_be16_def store_be32_def)

lemma load_store_be16: "store_be16 v = [a, b] \<Longrightarrow> load_be16 a b = v"
  using be_nat_be_bytes [of 2 "unat v"] u16_less [of v]
  by (intro word_eq_of_unat) (simp add: unat_load_be16 store_be16_be_bytes)

lemma load_store_be32: "store_be32 v = [a, b, c, d] \<Longrightarrow> load_be32 a b c d = v"
  using be_nat_be_bytes [of 4 "unat v"] u32_less [of v]
  by (intro word_eq_of_unat) (simp add: unat_load_be32 store_be32_be_bytes)

section \<open>Reading inside a buffer\<close>

lemma drop_length_plus_append [simp]: "drop (length xs + n) (xs @ ys) = drop n ys"
  by simp

lemma take_append_drop_append: "take n bs @ drop n bs @ rest = bs @ rest"
  by (simp flip: append_assoc)

text \<open>Index arithmetic of the fixed rings.\<close>

lemma mod_add_small:
  fixes at k cap :: nat
  assumes "k < cap"
  shows "(at + k) mod cap = (if at mod cap + k < cap then at mod cap + k else at mod cap + k - cap)"
proof -
  have "(at + k) mod cap = (at mod cap + k) mod cap" by (simp add: mod_add_left_eq)
  moreover have "at mod cap + k - cap < cap"
    using assms mod_less_divisor [of cap at] by linarith
  ultimately show ?thesis by (auto simp: le_mod_geq)
qed

lemma mod_add_inj:
  fixes t i j cap :: nat
  assumes "i < cap" "j < cap"
  shows "(t + i) mod cap = (t + j) mod cap \<longleftrightarrow> i = j"
proof -
  have "t mod cap < cap" using assms by simp
  then show ?thesis using assms by (auto simp: mod_add_small split: if_splits)
qed

text \<open>Two buffers that agree on their first \<open>m\<close> bytes.\<close>

definition agree :: "nat \<Rightarrow> 'a list \<Rightarrow> 'a list \<Rightarrow> bool" where
  "agree m xs ys \<longleftrightarrow> m \<le> length xs \<and> m \<le> length ys \<and> take m xs = take m ys"

lemma agree_refl: "m \<le> length xs \<Longrightarrow> agree m xs xs"
  by (simp add: agree_def)

lemma agree_append: "m \<le> length xs \<Longrightarrow> agree m xs (take m xs @ rest)"
  by (simp add: agree_def)

lemma agree_nth: "agree m xs ys \<Longrightarrow> i < m \<Longrightarrow> ys ! i = xs ! i"
  by (metis agree_def nth_take)

lemma agree_slice: "agree m xs ys \<Longrightarrow> p + k \<le> m \<Longrightarrow> take k (drop p ys) = take k (drop p xs)"
proof -
  assume a: "agree m xs ys" and k: "p + k \<le> m"
  have "take k (drop p zs) = take k (drop p (take m zs))" for zs :: "'a list"
    using k by (simp add: drop_take min_def)
  then show ?thesis using a by (metis agree_def)
qed

lemma agree_length: "agree m xs ys \<Longrightarrow> m \<le> length ys"
  by (simp add: agree_def)

text \<open>
  The parsers keep a cursor \<open>pos\<close> and call the decoder on \<open>buf + pos, len - pos\<close>;
  \<open>None\<close> is the decoder's need-more answer.
\<close>

definition read_at :: "(byte list \<Rightarrow> (nat \<times> 'a) option) \<Rightarrow> byte list \<Rightarrow> nat \<Rightarrow> ('a \<times> nat) option" where
  "read_at dec buf pos = (case dec (drop pos buf) of None \<Rightarrow> None | Some (c, v) \<Rightarrow> Some (v, pos + c))"

text \<open>Results of the header and frame parsers: a value with the bytes consumed, or a failure.\<close>

datatype 'a parsed = Parsed 'a nat | NeedMore | Malformed

section \<open>The interface of a self-delimiting codec\<close>

text \<open>
  An encoder and a decoder of one wire element. The provider promises that decoding an
  encoding followed by anything returns the value and exactly the encoding's length, that a
  successful decode consumes at least one byte of those present and yields a legal value,
  and that it depends on the consumed bytes only.
\<close>

locale prefix_codec =
  fixes enc :: "'a \<Rightarrow> byte list"
    and dec :: "byte list \<Rightarrow> (nat \<times> 'a) option"
    and valid :: "'a \<Rightarrow> bool"
  assumes dec_enc: "valid x \<Longrightarrow> dec (enc x @ rest) = Some (length (enc x), x)"
    and dec_consumed: "dec bs = Some (n, x) \<Longrightarrow> 0 < n \<and> n \<le> length bs \<and> valid x"
    and dec_local: "dec bs = Some (n, x) \<Longrightarrow> dec (take n bs @ rest) = Some (n, x)"
begin

lemma enc_nonempty: "valid x \<Longrightarrow> enc x \<noteq> []"
  using dec_enc [of x "[]"] dec_consumed [of "enc x" "length (enc x)" x] by auto

lemma dec_extend: "dec bs = Some (n, x) \<Longrightarrow> dec (bs @ rest) = Some (n, x)"
  using dec_local [of bs n x "drop n bs @ rest"] by (simp add: take_append_drop_append)

text \<open>A truncated encoding is recognised as incomplete, never misread.\<close>

lemma dec_strict_prefix:
  assumes "valid x" "n < length (enc x)"
  shows "dec (take n (enc x)) = None"
proof (rule ccontr)
  assume "dec (take n (enc x)) \<noteq> None"
  then obtain m y where d: "dec (take n (enc x)) = Some (m, y)" by auto
  then have "dec (enc x) = Some (m, y)"
    using dec_extend [OF d, of "drop n (enc x)"] by simp
  then have "m = length (enc x)"
    using dec_enc [OF assms(1), of "[]"] by simp
  moreover have "m \<le> n"
    using dec_consumed [OF d] by simp
  ultimately show False using assms(2) by simp
qed

text \<open>Encodings are prefix-free and injective on legal values.\<close>

lemma enc_prefix_free:
  assumes "valid x" "valid y" "enc x @ r = enc y @ s"
  shows "x = y \<and> r = s"
  using dec_enc [OF assms(1), of r] dec_enc [OF assms(2), of s] assms(3) by auto

lemma read_at_enc:
  assumes "valid x"
  shows "read_at dec (pre @ enc x @ rest) (length pre) = Some (x, length pre + length (enc x))"
  by (simp add: read_at_def dec_enc [OF assms])

lemma dec_agree:
  assumes "dec (drop pos xs) = Some (n, x)" "agree m xs ys" "pos + n \<le> m"
  shows "dec (drop pos ys) = Some (n, x)"
proof -
  have "take n (drop pos ys) = take n (drop pos xs)"
    using agree_slice [OF assms(2,3)] .
  then show ?thesis
    using dec_local [OF assms(1), of "drop n (drop pos ys)"] by (metis append_take_drop_id)
qed

lemma read_at_bound:
  assumes "read_at dec buf pos = Some (x, pos')" "pos \<le> length buf"
  shows "pos < pos' \<and> pos' \<le> length buf \<and> valid x"
  using assms by (auto simp: read_at_def dest!: dec_consumed split: option.splits)

end

end
