(* ===== verification/Quic_Pn_Space.thy ===== *)
theory Quic_Pn_Space
  imports Bolt_Prelude
begin

text \<open>
  Packet number spaces and the truncated packet number codec
  (\<^verbatim>\<open>include/boltapi/quic/pn_space.h\<close>), with the two connection helpers that put a
  truncated number on the wire and read it back (\<^verbatim>\<open>write_pn\<close> and \<^verbatim>\<open>decode_pn\<close> of
  \<^verbatim>\<open>connection.h\<close>). Packet numbers are 64-bit words; the signed "largest so far" fields
  are integers with \<open>-1\<close> for none, and the source's casts to \<^verbatim>\<open>int64_t\<close> are \<open>sint\<close>.
\<close>

datatype PacketNumberSpace = kInitial | kHandshake | kApplication

definition kPacketNumberMax :: u64 where "kPacketNumberMax = push_bit 62 1 - 1"

section \<open>The truncated codec\<close>

definition pn_encode_length :: "u64 \<Rightarrow> nat" where
  "pn_encode_length pn =
     (if pn < 0x100 then 1 else if pn < 0x10000 then 2 else if pn < 0x1000000 then 3 else 4)"

definition pn_encode_length_truncated :: "u64 \<Rightarrow> u64 \<Rightarrow> nat" where
  "pn_encode_length_truncated full_pn largest_acked =
     (let diff = full_pn - largest_acked; range = diff * 4
      in if range < 0x80 then 1
         else if range < 0x4000 then 2
         else if range < 0x200000 then 3
         else 4)"

definition pn_decode :: "u64 \<Rightarrow> u64 \<Rightarrow> nat \<Rightarrow> u64" where
  "pn_decode truncated_pn largest_acked pn_nbits =
     (let expected_pn = largest_acked + 1;
          pn_win = push_bit pn_nbits 1;
          pn_hwin = pn_win div 2;
          pn_mask = pn_win - 1;
          candidate_pn = (expected_pn AND NOT pn_mask) OR truncated_pn
      in if pn_hwin \<le> expected_pn \<and> candidate_pn \<le> expected_pn - pn_hwin \<and>
            candidate_pn < push_bit 62 1 - pn_win
         then candidate_pn + pn_win
         else if expected_pn + pn_hwin < candidate_pn \<and> pn_win \<le> candidate_pn
         then candidate_pn - pn_win
         else candidate_pn)"

text \<open>The sender writes the low \<open>pn_len\<close> bytes, most significant first.\<close>

definition write_pn :: "u64 \<Rightarrow> nat \<Rightarrow> byte list" where
  "write_pn pn pn_len = map (\<lambda>i. ucast (drop_bit ((pn_len - 1 - i) * 8) pn AND 0xFF)) [0..<pn_len]"

section \<open>Per-space state\<close>

record PacketNumberSpaceState =
  space :: PacketNumberSpace
  next_pn :: u64
  largest_received :: int
  largest_acked :: int

definition pn_space_init :: PacketNumberSpaceState where
  "pn_space_init = \<lparr>space = kInitial, next_pn = 0, largest_received = -1, largest_acked = -1\<rparr>"

definition initialize :: "PacketNumberSpace \<Rightarrow> PacketNumberSpaceState \<Rightarrow> PacketNumberSpaceState" where
  "initialize sp s = s\<lparr>space := sp\<rparr>"

definition next_packet_number :: "PacketNumberSpaceState \<Rightarrow> u64 \<times> PacketNumberSpaceState" where
  "next_packet_number s = (next_pn s, s\<lparr>next_pn := next_pn s + 1\<rparr>)"

definition on_packet_received :: "u64 \<Rightarrow> PacketNumberSpaceState \<Rightarrow> PacketNumberSpaceState" where
  "on_packet_received pn s =
     (if largest_received s < sint pn then s\<lparr>largest_received := sint pn\<rparr> else s)"

definition on_largest_acked :: "u64 \<Rightarrow> PacketNumberSpaceState \<Rightarrow> PacketNumberSpaceState" where
  "on_largest_acked pn s =
     (if largest_acked s < sint pn then s\<lparr>largest_acked := sint pn\<rparr> else s)"

text \<open>The manager's array of three states, indexed by the space.\<close>

definition pn_space_manager :: "PacketNumberSpace \<Rightarrow> PacketNumberSpaceState" where
  "pn_space_manager sp = initialize sp pn_space_init"

text \<open>Packet number recovery on receipt; \<open>pn_bytes\<close> are the unprotected number bytes.\<close>

definition decode_pn :: "byte list \<Rightarrow> PacketNumberSpaceState \<Rightarrow> u64" where
  "decode_pn pn_bytes s =
     (let trunc = shift_in_bytes 0 pn_bytes; largest = largest_received s
      in if largest < 0 then trunc
         else pn_decode trunc (word_of_int largest) (length pn_bytes * 8))"

section \<open>The codec as arithmetic\<close>

lemma kPacketNumberMax_eq [simp]: "kPacketNumberMax = 4611686018427387903"
  by (simp add: kPacketNumberMax_def push_bit_eq_mult)

lemma word_and_not_low:
  "(w :: 'a::len word) AND NOT (mask n) = push_bit n (drop_bit n w)"
  by (rule bit_word_eqI) (auto simp: bit_simps)

lemma unat_and_not_low:
  "unat ((w :: 'a::len word) AND NOT (mask n)) = unat w div 2 ^ n * 2 ^ n"
proof -
  have "unat w div 2 ^ n * 2 ^ n \<le> unat w" by simp
  also have "\<dots> < 2 ^ LENGTH('a)" by (rule unsigned_less)
  finally show ?thesis
    unfolding word_and_not_low by (simp add: word_nat del: drop_bit_eq_div push_bit_eq_mult)
qed

lemma unat_pn_candidate:
  fixes e t :: u64
  assumes "unat t < 2 ^ n"
  shows "unat ((e AND NOT (mask n)) OR t) = unat e div 2 ^ n * 2 ^ n + unat t"
  using unat_or_disjoint [of n "e AND NOT (mask n)" t] assms by (simp add: unat_and_not_low)

text \<open>
  The recovered number as a function on naturals, and the window argument of RFC 9000
  Appendix A.3: inside the half-open window around the expected number, the candidate that
  shares the expected number's block is off by at most one block.
\<close>

definition pn_nat_decode :: "nat \<Rightarrow> nat \<Rightarrow> nat \<Rightarrow> nat" where
  "pn_nat_decode w e t =
     (let c = e div w * w + t
      in if w div 2 \<le> e \<and> c \<le> e - w div 2 \<and> c < 2 ^ 62 - w then c + w
         else if e + w div 2 < c \<and> w \<le> c then c - w else c)"

lemma pn_nat_decode_window:
  assumes w: "0 < w" "even w" and lim: "pn < 2 ^ 62"
    and up: "pn \<le> e + w div 2" and lo: "e < pn + w div 2"
  shows "pn_nat_decode w e (pn mod w) = pn"
proof -
  define c where "c = e div w * w + pn mod w"
  define h where "h = w div 2"
  have wh: "w = 2 * h" and h: "0 < h" using w by (auto simp: h_def)
  have pd: "pn = pn div w * w + pn mod w" by simp
  have ed: "e = e div w * w + e mod w" by simp
  have em: "e mod w < w" and pm: "pn mod w < w" using w by auto
  consider "pn div w = e div w" | "pn div w = Suc (e div w)" | "Suc (pn div w) = e div w"
  proof -
    have "(e div w + 2) * w = e div w * w + 2 * w" by (rule distrib_right)
    then have "pn < (e div w + 2) * w"
      using up ed em wh h unfolding h_def [symmetric] by linarith
    then have "pn div w < e div w + 2"
      using w by (simp add: div_less_iff_less_mult)
    moreover have "(pn div w + 2) * w = pn div w * w + 2 * w" by (rule distrib_right)
    then have "e < (pn div w + 2) * w"
      using lo pd pm wh h unfolding h_def [symmetric] by linarith
    then have "e div w < pn div w + 2"
      using w by (simp add: div_less_iff_less_mult)
    ultimately show thesis using that by linarith
  qed
  then show ?thesis
  proof cases
    case 1
    then have "c = pn" using pd by (simp add: c_def)
    with up lo h show ?thesis
      unfolding pn_nat_decode_def c_def [symmetric] h_def [symmetric] Let_def by auto
  next
    case 2
    then have "c + w = pn" using pd by (simp add: c_def algebra_simps)
    with up lo h wh lim show ?thesis
      unfolding pn_nat_decode_def c_def [symmetric] h_def [symmetric] Let_def by auto
  next
    case 3
    have "e div w * w = pn div w * w + w" using 3 [symmetric] by simp
    then have "c = pn + w" using pd by (simp add: c_def)
    with up lo h wh show ?thesis
      unfolding pn_nat_decode_def c_def [symmetric] h_def [symmetric] Let_def by auto
  qed
qed

lemma unat_pn_decode:
  fixes t largest :: u64
  assumes n: "0 < n" "n \<le> 32" and t: "unat t < 2 ^ n" and l: "largest \<le> kPacketNumberMax"
  shows "unat (pn_decode t largest n) = pn_nat_decode (2 ^ n) (unat largest + 1) (unat t)"
proof -
  define e where "e = largest + 1"
  define w :: u64 where "w = push_bit n 1"
  define c where "c = (e AND NOT (w - 1)) OR t"
  have l': "unat largest < 2 ^ 62" using l by (simp add: word_le_nat_alt)
  have ue: "unat e = unat largest + 1"
    unfolding e_def using unat_add_small [of largest 1] l' by simp
  have n32: "(2::nat) ^ n \<le> 2 ^ 32" using n by (intro power_increasing) auto
  have uw: "unat w = 2 ^ n"
    using n32 unfolding w_def by (simp add: unat_push_bit_mod del: push_bit_of_1)
  have "w - 1 = mask n"
    by (simp add: w_def mask_eq_exp_minus_1)
  then have uc: "unat c = (unat largest + 1) div 2 ^ n * 2 ^ n + unat t"
    unfolding c_def using unat_pn_candidate [OF t, of e] ue by simp
  have "(unat largest + 1) div 2 ^ n * 2 ^ n \<le> unat largest + 1" by simp
  then have cb: "unat c \<le> 2 ^ 62 + 2 ^ 32" using uc t n32 l' by linarith
  have uh: "unat (w div 2) = 2 ^ n div 2" by (simp add: unat_div uw)
  have u62: "unat (push_bit 62 1 - w) = 2 ^ 62 - 2 ^ n"
    using unat_sub_small [of w "push_bit 62 1"] uw n32 by (simp add: word_le_nat_alt unat_push_bit_mod)
  have a1: "unat (c + w) = unat c + 2 ^ n"
    using unat_add_small [of c w] cb n32 uw by simp
  have a2: "unat (e + w div 2) = unat largest + 1 + 2 ^ n div 2"
    using unat_add_small [of e "w div 2"] ue uh n32 l' by simp
  have s1: "w div 2 \<le> e \<Longrightarrow> unat (e - w div 2) = unat largest + 1 - 2 ^ n div 2"
    using unat_sub_small [of "w div 2" e] ue uh by simp
  have s2: "w \<le> c \<Longrightarrow> unat (c - w) = unat c - 2 ^ n"
    using unat_sub_small [of w c] uw by simp
  have "pn_decode t largest n =
    (if w div 2 \<le> e \<and> c \<le> e - w div 2 \<and> c < push_bit 62 1 - w then c + w
     else if e + w div 2 < c \<and> w \<le> c then c - w else c)"
    unfolding pn_decode_def Let_def e_def w_def c_def by simp
  then show ?thesis
    using s1 s2 a1 a2 u62 ue uh uw uc unfolding pn_nat_decode_def Let_def
    by (auto simp: word_le_nat_alt word_less_nat_alt)
qed

lemma write_pn_be_bytes: "write_pn pn n = be_bytes n (unat pn)"
proof -
  have "be_bytes n x = map (\<lambda>i. of_nat (x div 256 ^ (n - 1 - i))) [0..<n]" for x
    by (induction n) (simp_all add: upt_conv_Cons map_Suc_upt [symmetric] del: upt_Suc)
  then show ?thesis
    unfolding write_pn_def by (simp add: ucast_digit')
qed

lemma unat_of_largest:
  "0 \<le> i \<Longrightarrow> i < 2 ^ 62 \<Longrightarrow> unat (word_of_int i :: u64) = nat i"
  by (simp add: unat_eq_nat_uint uint_word_of_int)

lemma sint_packet_number: "pn \<le> kPacketNumberMax \<Longrightarrow> sint pn = int (unat pn)"
proof -
  assume "pn \<le> kPacketNumberMax"
  then have "uint pn < 2 ^ 62" by (simp add: word_le_def)
  moreover have "- (2 ^ 63) \<le> uint pn"
    by (rule order_trans [OF _ uint_nonnegative]) simp
  ultimately have "signed_take_bit 63 (uint pn) = uint pn"
    by (intro signed_take_bit_int_eq_self) simp_all
  then show ?thesis by (simp add: sint_uint)
qed

lemma decode_pn_write_pn:
  assumes n: "1 \<le> n" "n \<le> 4" and pn: "pn \<le> kPacketNumberMax"
    and L: "-1 \<le> largest_received s" "largest_received s < 2 ^ 62"
    and up: "int (unat pn) \<le> largest_received s + 1 + 2 ^ (8 * n - 1)"
    and lo: "largest_received s + 1 < int (unat pn) + 2 ^ (8 * n - 1)"
  shows "decode_pn (write_pn pn n) s = pn"
proof -
  define P where "P = unat pn"
  define h :: nat where "h = 2 ^ (8 * n - 1)"
  have ih: "(2::int) ^ (8 * n - 1) = int h" by (simp add: h_def)
  have up': "int P \<le> largest_received s + 1 + int h"
    using up unfolding ih P_def .
  have lo': "largest_received s + 1 < int P + int h"
    using lo unfolding ih P_def .
  have p62: "P < 2 ^ 62" using pn by (simp add: word_le_nat_alt P_def)
  have pow: "(256::nat) ^ n = 2 ^ (8 * n)" by (simp add: power_mult)
  have half: "2 ^ (8 * n) = 2 * h"
  proof -
    obtain m where m: "8 * n = Suc m" using n by (cases "8 * n") auto
    show ?thesis unfolding h_def m by simp
  qed
  have tr: "unat (shift_in_bytes 0 (write_pn pn n)) = P mod 2 ^ (8 * n)"
    using unat_shift_in_bytes_0 [of "write_pn pn n"] n
    by (simp add: write_pn_be_bytes be_nat_be_bytes P_def pow)
  show ?thesis
  proof (cases "largest_received s < 0")
    case True
    then have "P \<le> h" using up' L by linarith
    moreover have "0 < h" by (simp add: h_def)
    ultimately have "P < 2 ^ (8 * n)" unfolding half by linarith
    then have "shift_in_bytes 0 (write_pn pn n) = pn"
      using tr by (intro word_eq_of_unat) (simp add: P_def)
    with True show ?thesis by (simp add: decode_pn_def)
  next
    case False
    define l where "l = (word_of_int (largest_received s) :: u64)"
    have ul: "int (unat l) = largest_received s"
      using False L unat_of_largest [of "largest_received s"] by (simp add: l_def)
    have "pn_nat_decode (2 ^ (8 * n)) (unat l + 1) (P mod 2 ^ (8 * n)) = P"
    proof (rule pn_nat_decode_window)
      show "P \<le> unat l + 1 + 2 ^ (8 * n) div 2"
        using up' half unfolding ul [symmetric] by linarith
      show "unat l + 1 < P + 2 ^ (8 * n) div 2"
        using lo' half unfolding ul [symmetric] by linarith
    qed (use n p62 in auto)
    moreover have "l \<le> kPacketNumberMax"
      using L(2) unfolding ul [symmetric] by (simp add: word_le_nat_alt del: of_nat_unat)
    then have "unat (pn_decode (shift_in_bytes 0 (write_pn pn n)) l (8 * n)) =
        pn_nat_decode (2 ^ (8 * n)) (unat l + 1) (P mod 2 ^ (8 * n))"
      using unat_pn_decode [of "8 * n" "shift_in_bytes 0 (write_pn pn n)" l] n tr by simp
    ultimately have "pn_decode (shift_in_bytes 0 (write_pn pn n)) l (8 * n) = pn"
      by (intro word_eq_of_unat) (simp add: P_def)
    with False show ?thesis
      by (simp add: decode_pn_def Let_def l_def write_pn_be_bytes mult.commute)
  qed
qed

section \<open>Runs of one packet number space\<close>

text \<open>
  How the connection drives a space: it allocates numbers for the packets it sends (guarded
  by the exhaustion assertion), records every number it decrypts, and records an
  acknowledged number only after \<^verbatim>\<open>handle_ack\<close> has compared it with the next number to
  send. The list holds the numbers issued so far, latest first.
\<close>

inductive pn_run :: "u64 list \<Rightarrow> PacketNumberSpaceState \<Rightarrow> bool" where
  start: "pn_run [] (pn_space_manager sp)"
| issue: "pn_run issued s \<Longrightarrow> next_pn s \<le> kPacketNumberMax \<Longrightarrow> next_packet_number s = (pn, s') \<Longrightarrow>
    pn_run (pn # issued) s'"
| receive: "pn_run issued s \<Longrightarrow> pn \<le> kPacketNumberMax \<Longrightarrow> pn_run issued (on_packet_received pn s)"
| acked: "pn_run issued s \<Longrightarrow> pn < next_pn s \<Longrightarrow> pn_run issued (on_largest_acked pn s)"

lemma pn_run_inv:
  "pn_run issued s \<Longrightarrow>
     unat (next_pn s) = length issued \<and> unat (next_pn s) \<le> 2 ^ 62 \<and>
     map unat issued = rev [0..<length issued] \<and>
     -1 \<le> largest_received s \<and> largest_received s < 2 ^ 62 \<and>
     -1 \<le> largest_acked s \<and> largest_acked s < int (unat (next_pn s))"
proof (induction rule: pn_run.induct)
  case (start sp)
  then show ?case by (simp add: pn_space_manager_def initialize_def pn_space_init_def)
next
  case (issue issued s pn s')
  then have "unat (next_pn s + 1) = unat (next_pn s) + 1"
    using unat_add_small [of "next_pn s" 1] by (simp add: word_le_nat_alt)
  with issue show ?case
    by (auto simp: next_packet_number_def word_le_nat_alt simp del: of_nat_unat)
next
  case (receive issued s pn)
  then show ?case
    by (auto simp: on_packet_received_def sint_packet_number word_le_nat_alt simp del: of_nat_unat)
next
  case (acked issued s pn)
  then have "pn \<le> kPacketNumberMax"
    by (auto simp: word_le_nat_alt word_less_nat_alt)
  with acked show ?case
    by (auto simp: on_largest_acked_def sint_packet_number word_less_nat_alt simp del: of_nat_unat)
qed

section \<open>Properties\<close>

lemma pn_window_sharp:
  "pn_encode_length_truncated 1000 999 = 1"
  "decode_pn (write_pn 1000 1) (s\<lparr>largest_received := 1126\<rparr>) = 1000"
  "decode_pn (write_pn 1000 1) (s\<lparr>largest_received := 1127\<rparr>) = 1256"
  by (simp_all add: pn_encode_length_truncated_def decode_pn_def write_pn_def pn_decode_def Let_def)

text \<open>C25. the length \<open>n\<close> chosen by \<^verbatim>\<open>pn_encode_length_truncated\<close> against the largest acknowledged
  number is enough under two conditions: at most \<open>2 ^ 31\<close> packets are unacknowledged, and the largest
  number the receiver has seen is neither below the sender's largest acknowledged one nor
  \<open>2 ^ (8 * n - 1) - 1\<close> or more past the number being sent, i.e. at most 126 packets past it when one
  byte is sent, 32766 for two. Then the receiver recovers the number. The window is sharp: number 1000,
  sent as one byte against 999 acknowledged, is recovered when the receiver has seen 1126, and is taken
  for 1256 when it has seen 1127, so a packet delayed behind more later packets is misread.\<close>

theorem pn_truncation_sufficient:
  assumes "full_pn \<le> kPacketNumberMax" "largest \<le> full_pn" "unat full_pn - unat largest \<le> 2 ^ 31"
    and "int (unat largest) \<le> largest_received s"
    and "largest_received s + 1 < int (unat full_pn) + 2 ^ (8 * pn_encode_length_truncated full_pn largest - 1)"
    and "largest_received s < 2 ^ 62"
  shows "1 \<le> pn_encode_length_truncated full_pn largest \<and> pn_encode_length_truncated full_pn largest \<le> 4 \<and>
    decode_pn (write_pn full_pn (pn_encode_length_truncated full_pn largest)) s = full_pn \<and>
    pn_encode_length_truncated 1000 999 = 1 \<and>
    decode_pn (write_pn 1000 1) (s\<lparr>largest_received := 1126\<rparr>) = 1000 \<and>
    decode_pn (write_pn 1000 1) (s\<lparr>largest_received := 1127\<rparr>) = 1256"
proof -
  define n where "n = pn_encode_length_truncated full_pn largest"
  define d where "d = unat full_pn - unat largest"
  have le: "unat largest \<le> unat full_pn" using assms(2) by (simp add: word_le_nat_alt)
  define D where "D = full_pn - largest"
  have ud: "unat D = d"
    using unat_sub_small [OF assms(2)] by (simp add: d_def D_def)
  have d31: "d \<le> 2 ^ 31" using assms(3) by (simp add: d_def)
  then have ur: "unat (D * 4) = d * 4"
    by (simp add: unat_word_ariths ud)
  have n: "1 \<le> n \<and> n \<le> 4 \<and> d \<le> 2 ^ (8 * n - 1)"
    using d31 unfolding n_def pn_encode_length_truncated_def Let_def D_def [symmetric]
    by (auto simp: word_less_nat_alt ur)
  have "int d \<le> 2 ^ (8 * n - 1)"
    using n by (metis of_nat_le_iff of_nat_numeral of_nat_power)
  moreover have "int (unat full_pn) = int (unat largest) + int d"
    using le by (simp add: d_def del: of_nat_unat)
  ultimately have "int (unat full_pn) \<le> largest_received s + 1 + 2 ^ (8 * n - 1)"
    and "largest_received s + 1 < int (unat full_pn) + 2 ^ (8 * n - 1)"
    and "-1 \<le> largest_received s"
    using assms(4,5) unfolding n_def [symmetric] by linarith+
  then show ?thesis
    using decode_pn_write_pn [of n full_pn s] assms(1,6) n pn_window_sharp unfolding n_def [symmetric] by blast
qed

theorem pn_truncation_sufficient_witness:
  "pn_encode_length_truncated 0xac5c02 0xabe8b3 = 3 \<and>
   decode_pn (write_pn 0xac5c02 3) (pn_space_init\<lparr>largest_received := 0xabe8bc\<rparr>) = 0xac5c02"
proof -
  have l: "pn_encode_length_truncated 0xac5c02 0xabe8b3 = 3"
    by (simp add: pn_encode_length_truncated_def Let_def)
  then show ?thesis
    using pn_truncation_sufficient [of "0xac5c02" "0xabe8b3" "pn_space_init\<lparr>largest_received := 0xabe8bc\<rparr>"]
    by simp
qed

text \<open>C26. however sends, receipts and acknowledgements interleave, a space issues every packet
  number at most once and in increasing order, and the source's assertions hold: what it
  records as acknowledged was issued, and no recorded number leaves the packet number range.\<close>

theorem packet_numbers_never_reused:
  assumes "pn_run issued s"
  shows "distinct issued \<and> sorted (rev (map unat issued)) \<and> next_pn s \<notin> set issued \<and>
    largest_acked s < int (unat (next_pn s)) \<and>
    (0 \<le> largest_acked s \<longrightarrow> word_of_int (largest_acked s) \<in> set issued) \<and>
    largest_received s \<le> int (unat kPacketNumberMax)"
proof -
  note inv = pn_run_inv [OF assms]
  have m: "map unat issued = rev [0..<length issued]" using inv by blast
  have "distinct (map unat issued)" unfolding m by simp
  then have "distinct issued" by (simp add: distinct_map)
  moreover have "sorted (rev (map unat issued))" unfolding m by simp
  moreover have mem: "x \<in> set issued \<longleftrightarrow> unat x < length issued" for x
  proof -
    have "unat x \<in> set (map unat issued) \<longleftrightarrow> unat x < length issued" unfolding m by simp
    then show ?thesis by (auto dest: word_eq_of_unat)
  qed
  moreover have "unat (word_of_int (largest_acked s) :: u64) < length issued" if "0 \<le> largest_acked s"
  proof -
    have "largest_acked s < int (length issued)" "int (length issued) \<le> 2 ^ 62"
      using inv by (auto simp del: of_nat_unat)
    then show ?thesis using that unat_of_largest [of "largest_acked s"] by simp
  qed
  ultimately show ?thesis using inv by (simp del: of_nat_unat)
qed

theorem packet_numbers_never_reused_witness:
  "distinct [1, 0 :: u64] \<and> pn_run [1, 0] (on_largest_acked 1
     (snd (next_packet_number (snd (next_packet_number (pn_space_manager kInitial))))))"
proof -
  let ?s0 = "pn_space_manager kInitial"
  let ?s1 = "snd (next_packet_number ?s0)"
  let ?s2 = "snd (next_packet_number ?s1)"
  note defs = pn_space_manager_def initialize_def pn_space_init_def next_packet_number_def
  have "pn_run [0] ?s1"
    by (rule pn_run.issue [OF pn_run.start [of kInitial]]) (simp_all add: defs)
  then have "pn_run [1, 0] ?s2"
    by (rule pn_run.issue) (simp_all add: defs)
  then have r: "pn_run [1, 0] (on_largest_acked 1 ?s2)"
    by (rule pn_run.acked) (simp add: defs)
  then show ?thesis using packet_numbers_never_reused [OF r] by blast
qed

end
