(* ===== verification/Quic_Varint.thy ===== *)
theory Quic_Varint
  imports Bolt_Prelude
begin

text \<open>
  The QUIC variable-length integer codec (\<^verbatim>\<open>include/boltapi/quic/varint.h\<close>).
  Values are 64-bit words, an output buffer is the byte list written to it, and the
  decoder's \<^verbatim>\<open>kVarIntNeedMore\<close> is \<open>None\<close>. The two bits above \<open>2 ^ 62\<close> are
  excluded by the source's assertions, which appear here as hypotheses of the encoder's
  theorems and as conclusions of the decoder's.
\<close>

definition kVarIntMax :: u64 where "kVarIntMax = push_bit 62 1 - 1"
definition kVarInt1Max :: u64 where "kVarInt1Max = 63"
definition kVarInt2Max :: u64 where "kVarInt2Max = 16383"
definition kVarInt4Max :: u64 where "kVarInt4Max = 1073741823"
definition kVarIntMaxBytes :: nat where "kVarIntMaxBytes = 8"

definition varint_encoded_size :: "u64 \<Rightarrow> nat" where
  "varint_encoded_size value =
     (if value \<le> kVarInt1Max then 1
      else if value \<le> kVarInt2Max then 2
      else if value \<le> kVarInt4Max then 4
      else 8)"

definition varint_encode :: "u64 \<Rightarrow> byte list" where
  "varint_encode value =
     (if value \<le> kVarInt1Max then [ucast value]
      else if value \<le> kVarInt2Max then
        [ucast (0x40 OR drop_bit 8 value), ucast (value AND 0xFF)]
      else if value \<le> kVarInt4Max then
        [ucast (0x80 OR drop_bit 24 value), ucast (drop_bit 16 value AND 0xFF),
         ucast (drop_bit 8 value AND 0xFF), ucast (value AND 0xFF)]
      else
        ucast (0xC0 OR drop_bit 56 value) #
        map (\<lambda>i. ucast (drop_bit (8 * (7 - i)) value AND 0xFF)) [1..<kVarIntMaxBytes])"

definition varint_decode :: "byte list \<Rightarrow> (nat \<times> u64) option" where
  "varint_decode data =
     (case data of
        [] \<Rightarrow> None
      | b0 # rest \<Rightarrow>
          let prefix = drop_bit 6 b0;
              bytes = push_bit (unat prefix) (1::nat)
          in if length data < bytes then None
             else Some (bytes, shift_in_bytes (ucast (b0 AND 0x3F)) (take (bytes - 1) rest)))"

section \<open>Lemmas\<close>

lemmas varint_consts = kVarInt1Max_def kVarInt2Max_def kVarInt4Max_def kVarIntMaxBytes_def

lemma kVarIntMax_eq [simp]: "kVarIntMax = 4611686018427387903"
  by (simp add: kVarIntMax_def push_bit_eq_mult)

text \<open>The decoder, as arithmetic: the prefix selects the size, the rest is big-endian.\<close>

definition varint_nat_decode :: "byte list \<Rightarrow> (nat \<times> nat) option" where
  "varint_nat_decode data =
     (case data of
        [] \<Rightarrow> None
      | b0 # rest \<Rightarrow>
          let bytes = 2 ^ (unat b0 div 64)
          in if length data < bytes then None
             else Some (bytes, unat b0 mod 64 * 256 ^ (bytes - 1) + be_nat (take (bytes - 1) rest)))"

lemma varint_value_bound:
  assumes "k < 4" "m < 64" "length bs = 2 ^ k - 1"
  shows "m * 256 ^ (2 ^ k - 1) + be_nat bs < 2 ^ 62"
proof -
  have "m * 256 ^ (2 ^ k - 1) + be_nat bs < (m + 1) * 256 ^ (2 ^ k - 1)"
    using be_nat_less [of bs] assms(3) by (simp add: algebra_simps)
  also have "\<dots> \<le> 64 * 256 ^ (2 ^ k - 1)"
    using assms(2) by (intro mult_right_mono) auto
  also have "\<dots> \<le> 64 * 256 ^ 7"
  proof -
    have "(2::nat) ^ k \<le> 2 ^ 3"
      using assms(1) by (intro power_increasing) auto
    then have "(256::nat) ^ (2 ^ k - 1) \<le> 256 ^ 7"
      by (intro power_increasing) auto
    then show ?thesis by simp
  qed
  finally show ?thesis by simp
qed

lemma byte_prefix_less: "unat (b::byte) div 64 < 4"
  using byte_less_256 [of b] by (simp add: div_less_iff_less_mult)

lemma varint_decode_nat:
  "map_option (map_prod id unat) (varint_decode data) = varint_nat_decode data"
proof (cases data)
  case Nil
  then show ?thesis by (simp add: varint_decode_def varint_nat_decode_def)
next
  case (Cons b0 rest)
  define k where "k = unat b0 div 64"
  have pre: "unat (drop_bit 6 b0) = k"
    by (simp add: unat_drop_bit_div k_def)
  have m: "unat (ucast (b0 AND 0x3F) :: u64) = unat b0 mod 64"
    by (simp add: byte_and_3F)
  have "unat (shift_in_bytes (ucast (b0 AND 0x3F)) (take (2 ^ k - 1) rest)) =
      unat b0 mod 64 * 256 ^ (2 ^ k - 1) + be_nat (take (2 ^ k - 1) rest)"
    if "\<not> length data < 2 ^ k"
  proof -
    have len: "length (take (2 ^ k - 1) rest) = 2 ^ k - 1"
      using that Cons by simp
    have "unat b0 mod 64 * 256 ^ (2 ^ k - 1) + be_nat (take (2 ^ k - 1) rest) < 2 ^ 62"
      unfolding k_def
      by (rule varint_value_bound) (use len byte_prefix_less in \<open>simp_all add: k_def\<close>)
    then show ?thesis
      using unat_shift_in_bytes [of "ucast (b0 AND 0x3F)" "take (2 ^ k - 1) rest"]
      unfolding len m by simp
  qed
  with Cons show ?thesis
    by (simp add: varint_decode_def varint_nat_decode_def pre push_bit_eq_mult Let_def flip: k_def)
qed

lemma varint_decode_Some_iff:
  "varint_decode data = Some (n, v) \<longleftrightarrow> varint_nat_decode data = Some (n, unat v)"
  unfolding varint_decode_nat [symmetric]
  by (cases "varint_decode data") (auto simp: word_unat_eq_iff)

lemma varint_decode_None_iff: "varint_decode data = None \<longleftrightarrow> varint_nat_decode data = None"
  unfolding varint_decode_nat [symmetric] by simp

text \<open>
  The encoder, as arithmetic: with \<open>k\<close> the two-bit prefix, the first byte carries the
  prefix and the top bits and the others are the remaining big-endian digits.
\<close>

lemma unat_prefix_byte:
  fixes p v :: u64
  assumes "unat p = k * 64" "k < 4" "unat v div 256 ^ n < 64"
  shows "unat (ucast (p OR drop_bit (8 * n) v) :: byte) = k * 64 + unat v div 256 ^ n"
proof -
  have d: "unat (drop_bit (8 * n) v) = unat v div 256 ^ n"
    by (simp add: unat_drop_bit_div power_mult)
  have "unat (p OR drop_bit (8 * n) v) = unat p + unat (drop_bit (8 * n) v)"
    by (rule unat_or_disjoint [of 6]) (use assms in \<open>simp_all add: d\<close>)
  moreover have "k * 64 + unat v div 256 ^ n < 256"
    using assms by linarith
  ultimately show ?thesis
    by (simp add: unat_ucast_mod d assms)
qed

lemma varint_nat_decode_form:
  assumes "unat b = k * 64 + x div 256 ^ (2 ^ k - 1)" "x div 256 ^ (2 ^ k - 1) < 64"
    and "bs = be_bytes (2 ^ k - 1) x"
  shows "varint_nat_decode ((b # bs) @ rest) = Some (2 ^ k, x)"
proof -
  have "unat b div 64 = k" "unat b mod 64 = x div 256 ^ (2 ^ k - 1)"
    using assms(1,2) by simp_all
  moreover have "(1::nat) \<le> 2 ^ k" by simp
  moreover have "x div 256 ^ (2 ^ k - 1) * 256 ^ (2 ^ k - 1) + x mod 256 ^ (2 ^ k - 1) = x"
    by (rule div_mult_mod_eq)
  ultimately show ?thesis
    by (simp add: varint_nat_decode_def assms(3) be_nat_be_bytes Let_def)
qed

definition varint_prefix :: "u64 \<Rightarrow> nat" where
  "varint_prefix v =
     (if v \<le> kVarInt1Max then 0 else if v \<le> kVarInt2Max then 1
      else if v \<le> kVarInt4Max then 2 else 3)"

lemma varint_encode_form:
  assumes "v \<le> kVarIntMax"
  defines "k \<equiv> varint_prefix v"
  obtains b where "varint_encode v = b # be_bytes (2 ^ k - 1) (unat v)"
    and "unat b = k * 64 + unat v div 256 ^ (2 ^ k - 1)"
    and "unat v div 256 ^ (2 ^ k - 1) < 64"
proof -
  have max: "unat v \<le> 4611686018427387903"
    using assms(1) by (simp add: word_le_nat_alt)
  consider "unat v \<le> 63" | "63 < unat v" "unat v \<le> 16383"
    | "16383 < unat v" "unat v \<le> 1073741823" | "1073741823 < unat v"
    by linarith
  then show thesis
  proof cases
    case 1
    then have "k = 0" by (simp add: k_def varint_prefix_def varint_consts word_le_nat_alt)
    with 1 show thesis
      by (intro that [of "ucast v"])
         (simp_all add: varint_encode_def varint_consts word_le_nat_alt unat_ucast_mod)
  next
    case 2
    then have k: "k = 1" by (simp add: k_def varint_prefix_def varint_consts word_le_nat_alt)
    have dv: "unat v div 256 < 64" using 2 by (simp add: div_less_iff_less_mult)
    show thesis
    proof (rule that [of "ucast (0x40 OR drop_bit 8 v)"])
      show "unat (ucast (0x40 OR drop_bit 8 v) :: byte) = k * 64 + unat v div 256 ^ (2 ^ k - 1)"
        using unat_prefix_byte [of "0x40" 1 v 1] dv k by simp
    qed (use 2 k dv ucast_digit [of 0 v] in
        \<open>simp_all add: varint_encode_def varint_consts word_le_nat_alt\<close>)
  next
    case 3
    then have k: "k = 2" by (simp add: k_def varint_prefix_def varint_consts word_le_nat_alt)
    have dv: "unat v div 16777216 < 64" using 3 by (simp add: div_less_iff_less_mult)
    show thesis
    proof (rule that [of "ucast (0x80 OR drop_bit 24 v)"])
      show "unat (ucast (0x80 OR drop_bit 24 v) :: byte) = k * 64 + unat v div 256 ^ (2 ^ k - 1)"
        using unat_prefix_byte [of "0x80" 2 v 3] dv k by simp
    qed (use 3 k dv ucast_digit [of 0 v] ucast_digit [of 1 v] ucast_digit [of 2 v] in
        \<open>simp_all add: varint_encode_def varint_consts word_le_nat_alt numeral_3_eq_3\<close>)
  next
    case 4
    then have k: "k = 3" by (simp add: k_def varint_prefix_def varint_consts word_le_nat_alt)
    have dv: "unat v div 72057594037927936 < 64" using max by (simp add: div_less_iff_less_mult)
    have tail: "map (\<lambda>i. ucast (drop_bit (8 * (7 - i)) v AND 0xFF)) [1..<8] = be_bytes 7 (unat v)"
      unfolding ucast_digit by (simp add: upt_conv_Cons)
    show thesis
    proof (rule that [of "ucast (0xC0 OR drop_bit 56 v)"])
      show "unat (ucast (0xC0 OR drop_bit 56 v) :: byte) = k * 64 + unat v div 256 ^ (2 ^ k - 1)"
        using unat_prefix_byte [of "0xC0" 3 v 7] dv k by simp
    qed (use 4 k dv tail in \<open>simp_all add: varint_encode_def varint_consts word_le_nat_alt\<close>)
  qed
qed

lemma varint_encoded_size_prefix: "varint_encoded_size v = 2 ^ varint_prefix v"
  by (simp add: varint_encoded_size_def varint_prefix_def)

lemma length_varint_encode [simp]: "length (varint_encode v) = varint_encoded_size v"
  by (simp add: varint_encode_def varint_encoded_size_def kVarIntMaxBytes_def)

lemma varint_dec_enc [codec_simps]:
  assumes "v \<le> kVarIntMax"
  shows "varint_decode (varint_encode v @ rest) = Some (varint_encoded_size v, v)"
proof -
  obtain b where "varint_encode v = b # be_bytes (2 ^ varint_prefix v - 1) (unat v)"
    "unat b = varint_prefix v * 64 + unat v div 256 ^ (2 ^ varint_prefix v - 1)"
    "unat v div 256 ^ (2 ^ varint_prefix v - 1) < 64"
    using varint_encode_form [OF assms] .
  then show ?thesis
    unfolding varint_decode_Some_iff varint_encoded_size_prefix
    using varint_nat_decode_form by metis
qed

lemma varint_nat_decode_bound:
  assumes "varint_nat_decode data = Some (n, x)"
  shows "x < 2 ^ 62 \<and> 0 < n \<and> n \<le> length data \<and> (\<exists>k < 4. n = 2 ^ k \<and> x < 64 * 256 ^ (n - 1))"
proof -
  from assms obtain b0 rest where d: "data = b0 # rest"
    by (auto simp: varint_nat_decode_def split: list.splits)
  define k where "k = unat b0 div 64"
  from assms d have n: "n = 2 ^ k" and len: "2 ^ k \<le> length data"
    and x: "x = unat b0 mod 64 * 256 ^ (2 ^ k - 1) + be_nat (take (2 ^ k - 1) rest)"
    by (auto simp: varint_nat_decode_def Let_def k_def split: if_splits)
  have "k < 4" unfolding k_def by (rule byte_prefix_less)
  have l: "length (take (2 ^ k - 1) rest) = 2 ^ k - 1"
    using len d by simp
  have "x < (unat b0 mod 64 + 1) * 256 ^ (2 ^ k - 1)"
    using be_nat_less [of "take (2 ^ k - 1) rest"] l x by (simp add: algebra_simps)
  also have "\<dots> \<le> 64 * 256 ^ (2 ^ k - 1)"
    by (intro mult_right_mono) (simp_all add: Suc_le_eq)
  finally have "x < 64 * 256 ^ (n - 1)" by (simp add: n)
  moreover have "x < 2 ^ 62"
    using varint_value_bound [OF \<open>k < 4\<close>, of "unat b0 mod 64" "take (2 ^ k - 1) rest"] l x by simp
  ultimately show ?thesis using n len \<open>k < 4\<close> by auto
qed

lemma varint_decode_bound:
  assumes "varint_decode data = Some (n, v)"
  shows "0 < n \<and> n \<le> length data \<and> v \<le> kVarIntMax \<and> (\<exists>k < 4. n = 2 ^ k)"
    and "unat v < 64 * 256 ^ (n - 1)"
  using varint_nat_decode_bound [of data n "unat v"] assms
  by (auto simp: varint_decode_Some_iff word_le_nat_alt)

lemma varint_decode_local:
  assumes "varint_decode bs = Some (n, v)"
  shows "varint_decode (take n bs @ rest) = Some (n, v)"
proof -
  from assms obtain b0 r where d: "bs = b0 # r"
    by (auto simp: varint_decode_def split: list.splits)
  define k where "k = unat b0 div 64"
  have n: "n = 2 ^ k" and len: "2 ^ k \<le> length bs"
    and x: "unat v = unat b0 mod 64 * 256 ^ (2 ^ k - 1) + be_nat (take (2 ^ k - 1) r)"
    using assms d unfolding varint_decode_Some_iff
    by (auto simp: varint_nat_decode_def Let_def k_def split: if_splits)
  obtain m where m: "(2::nat) ^ k = Suc m"
    by (metis gr0_conv_Suc zero_less_numeral zero_less_power)
  show ?thesis
    using len d x unfolding varint_decode_Some_iff
    by (simp add: varint_nat_decode_def Let_def n m min_def flip: k_def)
qed

text \<open>The varint codec meets the interface of a self-delimiting codec.\<close>

interpretation varint: prefix_codec varint_encode varint_decode "\<lambda>v. v \<le> kVarIntMax"
  by unfold_locales
    (use varint_dec_enc varint_decode_bound varint_decode_local in \<open>auto\<close>)

lemma varint_prefix_least:
  assumes "unat v < 64 * 256 ^ (2 ^ k - 1)" "k < 4"
  shows "varint_prefix v \<le> k"
proof -
  from assms(2) consider "k = 0" | "k = 1" | "k = 2" | "k = 3" by linarith
  then show ?thesis
    using assms(1)
    by cases (auto simp: varint_prefix_def varint_consts word_le_nat_alt)
qed

section \<open>Properties\<close>

lemma varint_decode_sound:
  assumes "varint_decode data = Some (n, v)"
  shows "n \<in> {1, 2, 4, 8} \<and> n \<le> length data \<and> v \<le> kVarIntMax \<and> varint_encoded_size v \<le> n \<and>
    (\<forall>m < length (varint_encode v). varint_decode (take m (varint_encode v)) = None)"
proof -
  obtain k where k: "k < 4" "n = 2 ^ k"
    using varint_decode_bound(1) [OF assms] by auto
  then have "n \<in> {1, 2, 4, 8}"
    by (auto simp: numeral_eq_Suc less_Suc_eq)
  moreover have "varint_encoded_size v \<le> n"
    using varint_prefix_least [of v k] varint_decode_bound(2) [OF assms] k
    by (simp add: varint_encoded_size_prefix)
  ultimately show ?thesis
    using varint.dec_consumed [OF assms] varint.dec_strict_prefix [of v] by auto
qed

text \<open>
  C40. The variable-length integers. Every value up to \<open>2 ^ 62 - 1\<close> survives \<^verbatim>\<open>varint_encode\<close> followed by
  \<^verbatim>\<open>varint_decode\<close>, whatever bytes follow it in the buffer, and the decoder consumes exactly
  \<^verbatim>\<open>varint_encoded_size\<close> bytes. A successful decode of any input reads 1, 2, 4 or 8 bytes that are present, yields a
  value within \<open>2 ^ 62 - 1\<close>, and never uses fewer bytes than the encoder does for that value; cutting the
  encoder's output short anywhere makes the decoder ask for more.
\<close>

theorem varint_codec:
  "(v \<le> kVarIntMax \<longrightarrow> varint_decode (varint_encode v @ rest) = Some (varint_encoded_size v, v)) \<and>
   (varint_decode data = Some (n, w) \<longrightarrow>
      n \<in> {1, 2, 4, 8} \<and> n \<le> length data \<and> w \<le> kVarIntMax \<and> varint_encoded_size w \<le> n \<and>
      (\<forall>m < length (varint_encode w). varint_decode (take m (varint_encode w)) = None))"
proof (intro conjI impI)
  show "varint_decode (varint_encode v @ rest) = Some (varint_encoded_size v, v)" if "v \<le> kVarIntMax"
    using varint.dec_enc [OF that, of rest] by simp
qed (use varint_decode_sound [of data n w] in simp_all)

theorem varint_codec_witness:
  "varint_decode (varint_encode 15293 @ [7]) = Some (2, 15293) \<and> varint_encode 15293 = [0x7B, 0xBD] \<and>
   varint_decode [0x40, 0x25] = Some (2, 37) \<and> varint_encoded_size 37 \<le> 2"
proof -
  have d: "varint_decode [0x40, 0x25] = Some (2, 37)" by (simp add: varint_decode_def)
  have e: "varint_encoded_size 15293 = 2" "varint_encode 15293 = [0x7B, 0xBD]" "(15293 :: u64) \<le> kVarIntMax"
    by (simp_all add: varint_encoded_size_def varint_encode_def varint_consts)
  then show ?thesis using varint_codec [of 15293 "[7]" "[0x40, 0x25]" 2 37] d by simp
qed

end
