(* ===== verification/Quic_Packet.thy ===== *)
theory Quic_Packet
  imports Quic_Varint
begin

text \<open>
  QUIC packet headers (\<^verbatim>\<open>include/boltapi/quic/packet.h\<close>) and the long header writer of
  \<^verbatim>\<open>connection.h\<close>. A datagram is a byte list. Parsers return the source's result code, the
  header structure as it stands when they return (a failed parse leaves the fields it had
  already filled, which the connection reads when it answers an unsupported version) and the
  offset of the first protected byte. A connection id is its bytes; a borrowed token is the
  bytes it points at.
\<close>

type_synonym ConnectionId = "byte list"

datatype parse_code = kParseOk | kParseNeedMore | kParseError

datatype LongPacketType = LpInitial | LpZeroRtt | LpHandshake | LpRetry

datatype PacketForm =
  kShort | kLongInitial | kLongZeroRtt | kLongHandshake | kLongRetry | kVersionNegotiation

definition kMaxConnectionIdLen :: nat where "kMaxConnectionIdLen = 20"
definition kQuicVersion1 :: u32 where "kQuicVersion1 = 1"
definition kQuicVersionNegotiation :: u32 where "kQuicVersionNegotiation = 0"

record LongHeader =
  lh_type :: LongPacketType
  lh_version :: u32
  lh_dest_cid :: ConnectionId
  lh_source_cid :: ConnectionId
  lh_token :: "byte list"
  lh_length :: u64
  lh_has_length :: bool

definition long_header_init :: LongHeader where
  "long_header_init = \<lparr>lh_type = LpInitial, lh_version = 0, lh_dest_cid = [], lh_source_cid = [],
     lh_token = [], lh_length = 0, lh_has_length = False\<rparr>"

record ShortHeader =
  sh_spin_bit :: bool
  sh_key_phase :: bool
  sh_dest_cid :: ConnectionId

section \<open>Discrimination\<close>

definition is_long_header :: "byte \<Rightarrow> bool" where
  "is_long_header first_byte = (first_byte AND 0x80 \<noteq> 0)"

definition has_fixed_bit :: "byte \<Rightarrow> bool" where
  "has_fixed_bit first_byte = (first_byte AND 0x40 \<noteq> 0)"

definition is_version_negotiation :: "byte \<Rightarrow> u32 \<Rightarrow> bool" where
  "is_version_negotiation first_byte version =
     (is_long_header first_byte \<and> version = kQuicVersionNegotiation)"

definition read_version :: "byte list \<Rightarrow> u32 option" where
  "read_version data =
     (if length data < 5 then None
      else Some (load_be32 (data ! 1) (data ! 2) (data ! 3) (data ! 4)))"

text \<open>The two type bits of the first byte, as the enumeration cast reads them.\<close>

definition long_type_bits :: "byte \<Rightarrow> LongPacketType" where
  "long_type_bits first =
     (let t = drop_bit 4 first AND 0x03
      in if t = 0 then LpInitial else if t = 1 then LpZeroRtt
         else if t = 2 then LpHandshake else LpRetry)"

fun long_form :: "LongPacketType \<Rightarrow> PacketForm" where
  "long_form LpInitial = kLongInitial"
| "long_form LpZeroRtt = kLongZeroRtt"
| "long_form LpHandshake = kLongHandshake"
| "long_form LpRetry = kLongRetry"

definition parse_form :: "byte list \<Rightarrow> parse_code \<times> PacketForm option" where
  "parse_form data =
     (if length data < 1 then (kParseNeedMore, None)
      else if \<not> is_long_header (data ! 0) then (kParseOk, Some kShort)
      else case read_version data of
             None \<Rightarrow> (kParseNeedMore, None)
           | Some version \<Rightarrow>
               if version = kQuicVersionNegotiation then (kParseOk, Some kVersionNegotiation)
               else (kParseOk, Some (long_form (long_type_bits (data ! 0)))))"

section \<open>Header parsers\<close>

text \<open>One length-prefixed connection id at the cursor; both ids of a long header are read so.\<close>

definition parse_cid :: "byte list \<Rightarrow> nat \<Rightarrow> parse_code \<times> ConnectionId \<times> nat" where
  "parse_cid data pos =
     (if length data < pos + 1 then (kParseNeedMore, [], pos)
      else let cid_len = unat (data ! pos); pos = pos + 1
      in if kMaxConnectionIdLen < cid_len then (kParseError, [], pos)
         else if length data < pos + cid_len then (kParseNeedMore, [], pos)
         else (kParseOk, take cid_len (drop pos data), pos + cid_len))"

text \<open>The part after the connection ids: an Initial's token, then the Length field.\<close>

definition parse_token :: "byte list \<Rightarrow> nat \<Rightarrow> LongHeader \<Rightarrow> parse_code \<times> LongHeader \<times> nat" where
  "parse_token data pos out =
     (if lh_type out = LpInitial then
        (case varint_decode (drop pos data) of
           None \<Rightarrow> (kParseNeedMore, out, 0)
         | Some (c, token_len) \<Rightarrow>
             let pos = pos + c
             in if length data < pos + unat token_len then (kParseNeedMore, out, 0)
                else (kParseOk, out\<lparr>lh_token := take (unat token_len) (drop pos data)\<rparr>,
                      pos + unat token_len))
      else (kParseOk, out\<lparr>lh_token := []\<rparr>, pos))"

definition parse_length :: "byte list \<Rightarrow> nat \<Rightarrow> LongHeader \<Rightarrow> parse_code \<times> LongHeader \<times> nat" where
  "parse_length data pos out =
     (case varint_decode (drop pos data) of
        None \<Rightarrow> (kParseNeedMore, out, 0)
      | Some (c, l) \<Rightarrow> (kParseOk, out\<lparr>lh_length := l, lh_has_length := True\<rparr>, pos + c))"

definition parse_after_cids :: "byte list \<Rightarrow> nat \<Rightarrow> LongHeader \<Rightarrow> parse_code \<times> LongHeader \<times> nat" where
  "parse_after_cids data pos out =
     (if lh_version out = kQuicVersionNegotiation \<or> lh_type out = LpRetry
      then (kParseOk, out\<lparr>lh_has_length := False, lh_token := []\<rparr>, pos)
      else case parse_token data pos out of
             (code, out, pos) \<Rightarrow> if code = kParseOk then parse_length data pos out else (code, out, pos))"

definition parse_long_header :: "byte list \<Rightarrow> LongHeader \<Rightarrow> parse_code \<times> LongHeader \<times> nat" where
  "parse_long_header data out =
     (if length data < 1 then (kParseNeedMore, out, 0)
      else if \<not> is_long_header (data ! 0) then (kParseError, out, 0)
      else if length data < 1 + 4 then (kParseNeedMore, out, 0)
      else
        let out = out\<lparr>lh_version := load_be32 (data ! 1) (data ! 2) (data ! 3) (data ! 4),
                      lh_type := long_type_bits (data ! 0)\<rparr>
        in case parse_cid data 5 of (code, dcid, pos) \<Rightarrow>
             if code \<noteq> kParseOk then (code, out, 0)
             else let out = out\<lparr>lh_dest_cid := dcid\<rparr>
             in case parse_cid data pos of (code, scid, pos) \<Rightarrow>
                  if code \<noteq> kParseOk then (code, out, 0)
                  else parse_after_cids data pos (out\<lparr>lh_source_cid := scid\<rparr>))"

definition parse_short_header :: "byte list \<Rightarrow> nat \<Rightarrow> ShortHeader \<Rightarrow> parse_code \<times> ShortHeader \<times> nat" where
  "parse_short_header data dcid_len out =
     (if length data < 1 then (kParseNeedMore, out, 0)
      else if is_long_header (data ! 0) then (kParseError, out, 0)
      else
        let out = out\<lparr>sh_spin_bit := (data ! 0 AND 0x20 \<noteq> 0), sh_key_phase := (data ! 0 AND 0x04 \<noteq> 0)\<rparr>
        in if length data < 1 + dcid_len then (kParseNeedMore, out, 0)
           else (kParseOk, out\<lparr>sh_dest_cid := take dcid_len (drop 1 data)\<rparr>, 1 + dcid_len))"

section \<open>The writers\<close>

text \<open>
  \<^verbatim>\<open>write_long_header\<close> with the connection fields it reads as arguments: the version it
  answers under, both connection ids, the role and the Retry token the client holds.
\<close>

definition write_token :: "bool \<Rightarrow> byte list \<Rightarrow> byte list" where
  "write_token is_server retry_token =
     (if \<not> is_server \<and> 0 < length retry_token
      then varint_encode (of_nat (length retry_token)) @ retry_token
      else [0x00])"

definition write_long_header ::
    "PacketForm \<Rightarrow> bool \<Rightarrow> u32 \<Rightarrow> ConnectionId \<Rightarrow> ConnectionId \<Rightarrow> bool \<Rightarrow> byte list \<Rightarrow> u64 \<Rightarrow> byte list" where
  "write_long_header form level_initial ver peer_cid local_cid is_server retry_token length_field =
     (let type_bits = (if form = kLongInitial then 0 else 2 :: byte)
      in [0xC0 OR push_bit 4 type_bits OR 0x03] @ store_be32 ver @
         [of_nat (length peer_cid)] @ peer_cid @
         [of_nat (length local_cid)] @ local_cid @
         (if level_initial then write_token is_server retry_token else []) @
         varint_encode length_field)"

text \<open>The clear part of a 1-RTT packet written by \<^verbatim>\<open>send_app_packet\<close> (four-byte packet number).\<close>

definition write_short_header :: "bool \<Rightarrow> ConnectionId \<Rightarrow> byte list" where
  "write_short_header phase peer_cid =
     (let first = 0x40 OR 0x03; first = (if phase then first OR 0x04 else first)
      in first # peer_cid)"

section \<open>Lemmas\<close>

lemma parse_cid_written:
  assumes "length cid \<le> kMaxConnectionIdLen"
  shows "parse_cid (pre @ of_nat (length cid) # cid @ rest) (length pre) =
     (kParseOk, cid, length pre + 1 + length cid)"
proof -
  have u: "unat (of_nat (length cid) :: byte) = length cid"
    using assms by (simp add: kMaxConnectionIdLen_def)
  show ?thesis
    unfolding parse_cid_def Let_def
    using assms by (simp add: nth_append u del: unat_of_nat_byte)
qed

lemma parse_cid_Ok:
  assumes "parse_cid data pos = (kParseOk, cid, pos')"
  shows "pos' = pos + 1 + length cid" "pos' \<le> length data" "length cid \<le> kMaxConnectionIdLen"
  using assms by (auto simp: parse_cid_def Let_def split: if_splits)

lemma parse_cid_agree:
  assumes "parse_cid data pos = (kParseOk, cid, pos')" "agree m data data'" "pos' \<le> m"
  shows "parse_cid data' pos = (kParseOk, cid, pos')"
proof -
  have n: "data' ! pos = data ! pos"
    using parse_cid_Ok(1) [OF assms(1)] assms(2,3) by (simp add: agree_nth)
  have c: "take (unat (data ! pos)) (drop (pos + 1) data') = cid" "unat (data ! pos) = length cid"
    using assms agree_slice [OF assms(2), of "pos + 1" "unat (data ! pos)"] agree_length [OF assms(2)]
    by (auto simp: parse_cid_def Let_def split: if_splits)
  show ?thesis
    using parse_cid_Ok [OF assms(1)] agree_length [OF assms(2)] assms(3) c
    by (simp add: parse_cid_def Let_def n)
qed

lemma parse_token_Ok:
  assumes "parse_token data pos out = (kParseOk, out', pos')" "pos \<le> length data"
  shows "pos \<le> pos' \<and> pos' \<le> length data \<and> (\<exists>t. out' = out\<lparr>lh_token := t\<rparr> \<and> length t \<le> pos' - pos)"
  using assms varint_decode_bound(1) [of "drop pos data"]
  by (auto simp: parse_token_def Let_def split: if_splits option.splits prod.splits)

lemma parse_token_agree:
  assumes "parse_token data pos out = (kParseOk, out', pos')" "agree m data data'" "pos' \<le> m"
  shows "parse_token data' pos out = (kParseOk, out', pos')"
proof (cases "lh_type out = LpInitial")
  case True
  with assms(1) obtain c tl where d: "varint_decode (drop pos data) = Some (c, tl)"
    and p: "pos' = pos + c + unat tl"
    and o: "out' = out\<lparr>lh_token := take (unat tl) (drop (pos + c) data)\<rparr>"
    by (auto simp: parse_token_def Let_def split: option.splits prod.splits if_splits)
  have "varint_decode (drop pos data') = Some (c, tl)"
    using varint.dec_agree [OF d assms(2)] p assms(3) by simp
  then show ?thesis
    using True p o assms(3) agree_length [OF assms(2)] agree_slice [OF assms(2), of "pos + c" "unat tl"]
    by (simp add: parse_token_def Let_def)
next
  case False
  with assms show ?thesis by (auto simp: parse_token_def)
qed

lemma parse_length_Ok:
  assumes "parse_length data pos out = (code, out', pos')" "code = kParseOk" "pos \<le> length data"
  shows "pos < pos' \<and> pos' \<le> length data \<and>
    (\<exists>l \<le> kVarIntMax. out' = out\<lparr>lh_length := l, lh_has_length := True\<rparr>)"
  using assms varint_decode_bound(1) [of "drop pos data"]
  by (auto simp: parse_length_def split: option.splits prod.splits)

lemma parse_length_agree:
  assumes "parse_length data pos out = (kParseOk, out', pos')" "agree m data data'" "pos' \<le> m"
  shows "parse_length data' pos out = (kParseOk, out', pos')"
  using assms varint.dec_agree [of pos data _ _ m data']
  by (auto simp: parse_length_def split: option.splits prod.splits)

lemma parse_after_cids_Ok:
  assumes "parse_after_cids data pos out = (kParseOk, h, c)" "pos \<le> length data"
  shows "pos \<le> c" "c \<le> length data" "lh_dest_cid h = lh_dest_cid out"
    "lh_source_cid h = lh_source_cid out" "length (lh_token h) \<le> c"
proof -
  have "pos \<le> c \<and> c \<le> length data \<and> lh_dest_cid h = lh_dest_cid out \<and>
    lh_source_cid h = lh_source_cid out \<and> length (lh_token h) \<le> c"
  proof (cases "lh_version out = kQuicVersionNegotiation \<or> lh_type out = LpRetry")
    case True
    with assms show ?thesis by (auto simp: parse_after_cids_def)
  next
    case False
    with assms(1) obtain out' p where t: "parse_token data pos out = (kParseOk, out', p)"
      and l: "parse_length data p out' = (kParseOk, h, c)"
      by (auto simp: parse_after_cids_def split: prod.splits if_splits)
    show ?thesis
      using parse_token_Ok [OF t assms(2)] parse_length_Ok [OF l] by auto
  qed
  then show "pos \<le> c" "c \<le> length data" "lh_dest_cid h = lh_dest_cid out"
    "lh_source_cid h = lh_source_cid out" "length (lh_token h) \<le> c" by auto
qed

lemma parse_after_cids_agree:
  assumes "parse_after_cids data pos out = (kParseOk, h, c)" "agree m data data'" "c \<le> m"
    "pos \<le> length data"
  shows "parse_after_cids data' pos out = (kParseOk, h, c)"
proof (cases "lh_version out = kQuicVersionNegotiation \<or> lh_type out = LpRetry")
  case True
  with assms show ?thesis by (auto simp: parse_after_cids_def)
next
  case False
  with assms(1) obtain out' p where t: "parse_token data pos out = (kParseOk, out', p)"
    and l: "parse_length data p out' = (kParseOk, h, c)"
    by (auto simp: parse_after_cids_def split: prod.splits if_splits)
  have "parse_token data' pos out = (kParseOk, out', p)"
    using parse_token_agree [OF t assms(2)] parse_token_Ok [OF t assms(4)] parse_length_Ok [OF l]
      assms(3) by simp
  then show ?thesis
    using False parse_length_agree [OF l assms(2,3)] by (simp add: parse_after_cids_def)
qed

text \<open>A successful long header parse, opened up.\<close>

lemma parse_long_header_Ok:
  assumes "parse_long_header data out = (kParseOk, h, c)"
  obtains dcid scid p q where
    "5 \<le> length data" "is_long_header (data ! 0)"
    "parse_cid data 5 = (kParseOk, dcid, p)" "parse_cid data p = (kParseOk, scid, q)"
    "parse_after_cids data q (out\<lparr>lh_version := load_be32 (data ! 1) (data ! 2) (data ! 3) (data ! 4),
        lh_type := long_type_bits (data ! 0), lh_dest_cid := dcid, lh_source_cid := scid\<rparr>) = (kParseOk, h, c)"
  using assms unfolding parse_long_header_def
  by (auto simp: Let_def split: if_splits prod.splits)

lemma parse_long_header_bound:
  assumes "parse_long_header data out = (kParseOk, h, c)"
  shows "7 \<le> c" "c \<le> length data" "length (lh_dest_cid h) \<le> kMaxConnectionIdLen"
    "length (lh_source_cid h) \<le> kMaxConnectionIdLen" "length (lh_token h) \<le> c"
proof -
  obtain dcid scid p q where o: "parse_cid data 5 = (kParseOk, dcid, p)"
      "parse_cid data p = (kParseOk, scid, q)"
    and r: "parse_after_cids data q (out\<lparr>lh_version := load_be32 (data ! 1) (data ! 2) (data ! 3) (data ! 4),
        lh_type := long_type_bits (data ! 0), lh_dest_cid := dcid, lh_source_cid := scid\<rparr>) = (kParseOk, h, c)"
    by (rule parse_long_header_Ok [OF assms])
  note b = parse_cid_Ok [OF o(1)] parse_cid_Ok [OF o(2)]
  note t = parse_after_cids_Ok [OF r b(5)]
  show "7 \<le> c" "c \<le> length data" "length (lh_dest_cid h) \<le> kMaxConnectionIdLen"
    "length (lh_source_cid h) \<le> kMaxConnectionIdLen" "length (lh_token h) \<le> c"
    using b t by simp_all
qed

lemma parse_long_header_agree:
  assumes "parse_long_header data out = (kParseOk, h, c)" "agree m data data'" "c \<le> m"
  shows "parse_long_header data' out = (kParseOk, h, c)"
proof -
  obtain dcid scid p q where l: "5 \<le> length data" "is_long_header (data ! 0)"
    and o: "parse_cid data 5 = (kParseOk, dcid, p)" "parse_cid data p = (kParseOk, scid, q)"
    and r: "parse_after_cids data q (out\<lparr>lh_version := load_be32 (data ! 1) (data ! 2) (data ! 3) (data ! 4),
        lh_type := long_type_bits (data ! 0), lh_dest_cid := dcid, lh_source_cid := scid\<rparr>) = (kParseOk, h, c)"
    by (rule parse_long_header_Ok [OF assms(1)])
  note b = parse_cid_Ok [OF o(1)] parse_cid_Ok [OF o(2)]
  note t = parse_after_cids_Ok [OF r b(5)]
  have o': "parse_cid data' 5 = (kParseOk, dcid, p)" "parse_cid data' p = (kParseOk, scid, q)"
    using parse_cid_agree [OF o(1) assms(2)] parse_cid_agree [OF o(2) assms(2)] b t assms(3) by simp_all
  have n: "data' ! i = data ! i" if "i < 7" for i
    using agree_nth [OF assms(2)] that assms(3) parse_long_header_bound(1) [OF assms(1)] by simp
  have l': "7 \<le> length data'" "data' \<noteq> []"
    using agree_length [OF assms(2)] assms(3) parse_long_header_bound(1) [OF assms(1)] by auto
  show ?thesis
    using l l' o' parse_after_cids_agree [OF r assms(2,3) b(5)]
    by (simp add: parse_long_header_def Let_def n)
qed

lemma parse_token_written:
  assumes "length retry_token < 2 ^ 62" "lh_type out = LpInitial"
  shows "parse_token (pre @ write_token is_server retry_token @ rest) (length pre) out =
    (kParseOk, out\<lparr>lh_token := (if is_server then [] else retry_token)\<rparr>,
     length pre + length (write_token is_server retry_token))"
proof -
  have "(of_nat (length retry_token) :: u64) \<le> kVarIntMax" "unat (of_nat (length retry_token) :: u64) = length retry_token"
    using assms(1) by (simp_all add: word_le_nat_alt unat_of_nat)
  moreover have "varint_decode (0 # rest) = Some (1, 0)"
    using varint_dec_enc [of 0 rest] by (simp add: varint_encode_def varint_encoded_size_def)
  ultimately show ?thesis
    using assms(2) by (auto simp: parse_token_def write_token_def Let_def codec_simps)
qed

lemma parse_after_cids_written:
  assumes "length retry_token < 2 ^ 62" "length_field \<le> kVarIntMax"
    "lh_version out \<noteq> kQuicVersionNegotiation"
    "lh_type out = (if initial then LpInitial else LpHandshake)"
    "tok = (if initial then write_token is_server retry_token else [])"
  shows "parse_after_cids (pre @ tok @ varint_encode length_field @ rest) (length pre) out =
    (kParseOk, out\<lparr>lh_token := (if initial \<and> \<not> is_server then retry_token else []),
       lh_length := length_field, lh_has_length := True\<rparr>,
     length (pre @ tok @ varint_encode length_field))"
proof -
  have len: "parse_length (xs @ varint_encode length_field @ rest) (length xs) o' =
    (kParseOk, o'\<lparr>lh_length := length_field, lh_has_length := True\<rparr>, length (xs @ varint_encode length_field))"
    for xs o'
    using assms(2) by (simp add: parse_length_def codec_simps)
  show ?thesis
    using assms parse_token_written [OF assms(1), of out pre is_server] len [of "pre @ tok"] len [of pre]
    by (auto simp: parse_after_cids_def parse_token_def)
qed

section \<open>Properties\<close>

lemma parse_long_header_sound:
  assumes "parse_long_header data out = (kParseOk, h, c)"
  shows "7 \<le> c \<and> c \<le> length data \<and> length (lh_dest_cid h) \<le> kMaxConnectionIdLen \<and>
    length (lh_source_cid h) \<le> kMaxConnectionIdLen \<and> length (lh_token h) \<le> c \<and>
    (\<forall>rest. parse_long_header (take c data @ rest) out = (kParseOk, h, c))"
  using parse_long_header_bound [OF assms]
    parse_long_header_agree [OF assms agree_append] by simp

lemma long_header_read_back:
  assumes "ver \<noteq> kQuicVersionNegotiation"
    and "length peer_cid \<le> kMaxConnectionIdLen" "length local_cid \<le> kMaxConnectionIdLen"
    and "form = (if initial then kLongInitial else kLongHandshake)"
    and "length retry_token < 2 ^ 62" "length_field \<le> kVarIntMax"
    and "hdr = write_long_header form initial ver peer_cid local_cid is_server retry_token length_field"
  shows "parse_long_header (hdr @ rest) long_header_init =
    (kParseOk,
     \<lparr>lh_type = (if initial then LpInitial else LpHandshake), lh_version = ver,
      lh_dest_cid = peer_cid, lh_source_cid = local_cid,
      lh_token = (if initial \<and> \<not> is_server then retry_token else []),
      lh_length = length_field, lh_has_length = True\<rparr>,
     length hdr)"
proof -
  define fb :: byte where "fb = 0xC0 OR push_bit 4 (if form = kLongInitial then 0 else 2) OR 0x03"
  define tok where "tok = (if initial then write_token is_server retry_token else [])"
  define p0 where "p0 = fb # store_be32 ver"
  define p1 where "p1 = p0 @ of_nat (length peer_cid) # peer_cid"
  define p2 where "p2 = p1 @ of_nat (length local_cid) # local_cid"
  have hdr: "hdr = p2 @ tok @ varint_encode length_field"
    by (simp add: assms(7) write_long_header_def p2_def p1_def p0_def tok_def fb_def)
  have l0: "length p0 = 5" by (simp add: p0_def length_store_be)
  have fb: "is_long_header fb" "long_type_bits fb = (if initial then LpInitial else LpHandshake)"
    using assms(4) by (auto simp: fb_def is_long_header_def long_type_bits_def)
  have v: "load_be32 (hdr' ! 1) (hdr' ! 2) (hdr' ! 3) (hdr' ! 4) = ver \<and> hdr' ! 0 = fb \<and> 5 \<le> length hdr'"
    if "hdr' = p0 @ xs" for hdr' xs
    using that load_store_be32 [of ver]
    by (auto simp: p0_def store_be32_def)
  have c1: "parse_cid (hdr @ rest) 5 = (kParseOk, peer_cid, length p1)"
    using parse_cid_written [OF assms(2), of p0] l0 by (simp add: hdr p2_def p1_def)
  have c2: "parse_cid (hdr @ rest) (length p1) = (kParseOk, local_cid, length p2)"
    using parse_cid_written [OF assms(3), of p1] by (simp add: hdr p2_def)
  have tail: "parse_after_cids (hdr @ rest) (length p2) o' =
     (kParseOk, o'\<lparr>lh_token := (if initial \<and> \<not> is_server then retry_token else []),
        lh_length := length_field, lh_has_length := True\<rparr>, length hdr)"
    if "lh_version o' = ver" "lh_type o' = (if initial then LpInitial else LpHandshake)" for o'
    using parse_after_cids_written [OF assms(5,6) _ that(2) tok_def, of p2 rest] that(1) assms(1)
    by (simp add: hdr)
  have "hdr @ rest \<noteq> []" by (simp add: hdr p2_def p1_def p0_def)
  then show ?thesis
    using v [of "hdr @ rest"] c1 c2 fb tail
    by (auto simp: parse_long_header_def hdr p2_def p1_def long_header_init_def)
qed

lemma short_header_read_back:
  "parse_short_header (write_short_header phase cid @ rest) (length cid) sh =
     (kParseOk, \<lparr>sh_spin_bit = False, sh_key_phase = phase, sh_dest_cid = cid\<rparr>,
      length (write_short_header phase cid)) \<and>
   parse_form (write_short_header phase cid @ rest) = (kParseOk, Some kShort)"
  by (simp add: parse_short_header_def write_short_header_def parse_form_def is_long_header_def)

text \<open>
  C35. Writing then reading a packet header. For an Initial or a Handshake packet of a non-zero
  version, the receiver's parser recovers the packet type, the version, both connection ids
  (the sender's destination is the header's destination), the Retry token a client echoes and
  the Length field, and stops exactly where the packet number starts. For a 1-RTT header, given the
  receiver knows the length of its own connection id, the destination id and the key phase are
  recovered and the header is not mistaken for a long one. Whatever long header is accepted, the parser
  neither reads nor reports a position past the datagram, never accepts a connection id longer than 20
  bytes, and its answer depends only on the bytes it consumed.
\<close>

theorem packet_header_codec:
  assumes "ver \<noteq> kQuicVersionNegotiation"
    and "length peer_cid \<le> kMaxConnectionIdLen" "length local_cid \<le> kMaxConnectionIdLen"
    and "form = (if initial then kLongInitial else kLongHandshake)"
    and "length retry_token < 2 ^ 62" "length_field \<le> kVarIntMax"
    and "hdr = write_long_header form initial ver peer_cid local_cid is_server retry_token length_field"
  shows "parse_long_header (hdr @ rest) long_header_init =
    (kParseOk,
     \<lparr>lh_type = (if initial then LpInitial else LpHandshake), lh_version = ver,
      lh_dest_cid = peer_cid, lh_source_cid = local_cid,
      lh_token = (if initial \<and> \<not> is_server then retry_token else []),
      lh_length = length_field, lh_has_length = True\<rparr>,
     length hdr) \<and>
   parse_short_header (write_short_header phase cid @ rest) (length cid) sh =
     (kParseOk, \<lparr>sh_spin_bit = False, sh_key_phase = phase, sh_dest_cid = cid\<rparr>,
      length (write_short_header phase cid)) \<and>
   parse_form (write_short_header phase cid @ rest) = (kParseOk, Some kShort) \<and>
   (parse_long_header data out = (kParseOk, h, c) \<longrightarrow>
     7 \<le> c \<and> c \<le> length data \<and> length (lh_dest_cid h) \<le> kMaxConnectionIdLen \<and>
     length (lh_source_cid h) \<le> kMaxConnectionIdLen \<and> length (lh_token h) \<le> c \<and>
     (\<forall>rest. parse_long_header (take c data @ rest) out = (kParseOk, h, c)))"
  using long_header_read_back [OF assms, of rest] short_header_read_back [of phase cid rest sh] parse_long_header_sound [of data out h c] by blast

theorem packet_header_codec_witness:
  "kQuicVersion1 \<noteq> kQuicVersionNegotiation \<and>
   parse_long_header (write_long_header kLongInitial True kQuicVersion1 [1, 2, 3] [4] False [9, 9] 40 @ [5, 5])
     long_header_init =
   (kParseOk, \<lparr>lh_type = LpInitial, lh_version = kQuicVersion1, lh_dest_cid = [1, 2, 3],
      lh_source_cid = [4], lh_token = [9, 9], lh_length = 40, lh_has_length = True\<rparr>, 15) \<and>
   (\<exists>h. parse_long_header [0xC3, 0, 0, 0, 1, 2, 7, 8, 1, 9, 0, 5, 1, 1, 1] long_header_init = (kParseOk, h, 12) \<and>
     length (lh_dest_cid h) \<le> kMaxConnectionIdLen)"
proof -
  have v: "kQuicVersion1 \<noteq> kQuicVersionNegotiation"
    by (simp add: kQuicVersion1_def kQuicVersionNegotiation_def)
  have l: "length (write_long_header kLongInitial True kQuicVersion1 [1, 2, 3] [4] False [9, 9] 40) = 15"
    by code_simp
  have p: "parse_long_header [0xC3, 0, 0, 0, 1, 2, 7, 8, 1, 9, 0, 5, 1, 1, 1] long_header_init =
    (kParseOk, \<lparr>lh_type = LpInitial, lh_version = 1, lh_dest_cid = [7, 8], lh_source_cid = [9],
       lh_token = [], lh_length = 5, lh_has_length = True\<rparr>, 12)" (is "?parse = (_, ?h, _)")
    by code_simp
  have "parse_long_header (write_long_header kLongInitial True kQuicVersion1 [1, 2, 3] [4] False [9, 9] 40 @ [5, 5])
     long_header_init =
   (kParseOk, \<lparr>lh_type = LpInitial, lh_version = kQuicVersion1, lh_dest_cid = [1, 2, 3],
      lh_source_cid = [4], lh_token = [9, 9], lh_length = 40, lh_has_length = True\<rparr>, 15) \<and>
    length (lh_dest_cid ?h) \<le> kMaxConnectionIdLen"
    using packet_header_codec [OF v, of "[1, 2, 3]" "[4]" kLongInitial True "[9, 9]" 40 _ False "[5, 5]"
        False "[]" _ "[0xC3, 0, 0, 0, 1, 2, 7, 8, 1, 9, 0, 5, 1, 1, 1]" long_header_init ?h 12] l p
    by (simp add: kMaxConnectionIdLen_def word_le_nat_alt)
  then show ?thesis using v p by blast
qed

end
