(* ===== verification/Quic_Frames.thy ===== *)
theory Quic_Frames
  imports Quic_Varint
begin

text \<open>
  QUIC frames (\<^verbatim>\<open>include/boltapi/quic/frames.h\<close>): the parsers and serializers of STREAM,
  CRYPTO, ACK and CONNECTION_CLOSE and the PADDING run. A frame is a record of the fields the
  source declares; a borrowed payload (pointer and length) is the bytes it denotes, so the
  length field is the length of that list. A parser runs on the bytes after the type byte and
  returns the frame with the number of bytes it consumed, or the source's failure code.
\<close>

datatype FrameType =
  FtPadding | FtPing | FtAck | FtAckEcn | FtResetStream | FtStopSending | FtCrypto | FtNewToken |
  FtStream | FtMaxData | FtMaxStreamData | FtMaxStreamsBidi | FtMaxStreamsUni | FtDataBlocked |
  FtStreamDataBlocked | FtStreamsBlockedBidi | FtStreamsBlockedUni | FtNewConnectionId |
  FtRetireConnectionId | FtPathChallenge | FtPathResponse | FtConnectionClose |
  FtConnectionCloseApp | FtHandshakeDone | FtDatagram | FtDatagramWithLen

fun frame_type_code :: "FrameType \<Rightarrow> byte" where
  "frame_type_code FtPadding = 0x00"
| "frame_type_code FtPing = 0x01"
| "frame_type_code FtAck = 0x02"
| "frame_type_code FtAckEcn = 0x03"
| "frame_type_code FtResetStream = 0x04"
| "frame_type_code FtStopSending = 0x05"
| "frame_type_code FtCrypto = 0x06"
| "frame_type_code FtNewToken = 0x07"
| "frame_type_code FtStream = 0x08"
| "frame_type_code FtMaxData = 0x10"
| "frame_type_code FtMaxStreamData = 0x11"
| "frame_type_code FtMaxStreamsBidi = 0x12"
| "frame_type_code FtMaxStreamsUni = 0x13"
| "frame_type_code FtDataBlocked = 0x14"
| "frame_type_code FtStreamDataBlocked = 0x15"
| "frame_type_code FtStreamsBlockedBidi = 0x16"
| "frame_type_code FtStreamsBlockedUni = 0x17"
| "frame_type_code FtNewConnectionId = 0x18"
| "frame_type_code FtRetireConnectionId = 0x19"
| "frame_type_code FtPathChallenge = 0x1A"
| "frame_type_code FtPathResponse = 0x1B"
| "frame_type_code FtConnectionClose = 0x1C"
| "frame_type_code FtConnectionCloseApp = 0x1D"
| "frame_type_code FtHandshakeDone = 0x1E"
| "frame_type_code FtDatagram = 0x30"
| "frame_type_code FtDatagramWithLen = 0x31"

definition kStreamFlagFin :: byte where "kStreamFlagFin = 0x01"
definition kStreamFlagLen :: byte where "kStreamFlagLen = 0x02"
definition kStreamFlagOff :: byte where "kStreamFlagOff = 0x04"
definition kStreamTypeBase :: byte where "kStreamTypeBase = 0x08"
definition kMaxAckRanges :: nat where "kMaxAckRanges = 256"

definition is_stream_frame_type :: "byte \<Rightarrow> bool" where
  "is_stream_frame_type t \<longleftrightarrow> 0x08 \<le> t \<and> t \<le> 0x0F"

text \<open>The step every parser repeats: decode a varint at the cursor, or ask for more bytes.\<close>

definition with_varint :: "byte list \<Rightarrow> nat \<Rightarrow> (u64 \<Rightarrow> nat \<Rightarrow> 'a parsed) \<Rightarrow> 'a parsed" where
  "with_varint buf pos k =
     (case varint_decode (drop pos buf) of None \<Rightarrow> NeedMore | Some (c, v) \<Rightarrow> k v (pos + c))"

text \<open>The tail the payload-carrying frames share: borrow the announced bytes if they are there.\<close>

definition with_payload :: "byte list \<Rightarrow> nat \<Rightarrow> nat \<Rightarrow> (byte list \<Rightarrow> 'a) \<Rightarrow> 'a parsed" where
  "with_payload buf pos len k =
     (if length buf < pos + len then NeedMore
      else Parsed (k (take len (drop pos buf))) (pos + len))"

section \<open>STREAM\<close>

record StreamFrame =
  sf_stream_id :: u64
  sf_offset :: u64
  sf_fin :: bool
  sf_data :: "byte list"

definition stream_frame_parse :: "byte \<Rightarrow> byte list \<Rightarrow> StreamFrame parsed" where
  "stream_frame_parse frame_type buf =
     (let flags = frame_type AND 0x07;
          fin = (flags AND kStreamFlagFin \<noteq> 0);
          has_off = (flags AND kStreamFlagOff \<noteq> 0);
          has_len = (flags AND kStreamFlagLen \<noteq> 0);
          body = (\<lambda>sid off len pos. with_payload buf pos len
            (\<lambda>d. \<lparr>sf_stream_id = sid, sf_offset = off, sf_fin = fin, sf_data = d\<rparr>));
          lenp = (\<lambda>sid off pos.
            if has_len then with_varint buf pos (\<lambda>l pos. body sid off (unat l) pos)
            else body sid off (length buf - pos) pos)
      in with_varint buf 0 (\<lambda>sid pos.
           if has_off then with_varint buf pos (\<lambda>off pos. lenp sid off pos)
           else lenp sid 0 pos))"

definition stream_frame_serialize :: "StreamFrame \<Rightarrow> byte list" where
  "stream_frame_serialize f =
     (let type_byte = kStreamTypeBase OR kStreamFlagOff OR kStreamFlagLen;
          type_byte = (if sf_fin f then type_byte OR kStreamFlagFin else type_byte)
      in type_byte # varint_encode (sf_stream_id f) @ varint_encode (sf_offset f) @
         varint_encode (of_nat (length (sf_data f))) @ sf_data f)"

section \<open>CRYPTO\<close>

record CryptoFrame =
  cf_offset :: u64
  cf_data :: "byte list"

definition crypto_frame_parse :: "byte list \<Rightarrow> CryptoFrame parsed" where
  "crypto_frame_parse buf =
     with_varint buf 0 (\<lambda>off pos. with_varint buf pos (\<lambda>l pos.
       with_payload buf pos (unat l) (\<lambda>d. \<lparr>cf_offset = off, cf_data = d\<rparr>)))"

definition crypto_frame_serialize :: "CryptoFrame \<Rightarrow> byte list" where
  "crypto_frame_serialize f =
     frame_type_code FtCrypto # varint_encode (cf_offset f) @
     varint_encode (of_nat (length (cf_data f))) @ cf_data f"

section \<open>ACK\<close>

record AckRange =
  ar_gap :: u64
  ar_length :: u64

record AckFrame =
  af_largest_acked :: u64
  af_ack_delay :: u64
  af_first_ack_range :: u64
  af_ranges :: "AckRange list"
  af_has_ecn :: bool
  af_ect0 :: u64
  af_ect1 :: u64
  af_ecn_ce :: u64

text \<open>The loop over the announced ranges.\<close>

fun parse_ack_ranges :: "byte list \<Rightarrow> nat \<Rightarrow> nat \<Rightarrow> (AckRange list \<Rightarrow> nat \<Rightarrow> 'a parsed) \<Rightarrow> 'a parsed" where
  "parse_ack_ranges buf 0 pos k = k [] pos"
| "parse_ack_ranges buf (Suc n) pos k =
     with_varint buf pos (\<lambda>g pos. with_varint buf pos (\<lambda>l pos.
       parse_ack_ranges buf n pos (\<lambda>rs pos. k (\<lparr>ar_gap = g, ar_length = l\<rparr> # rs) pos)))"

text \<open>The ECN counts keep their default when the frame is a plain ACK.\<close>

definition parse_ecn_counts ::
    "byte list \<Rightarrow> bool \<Rightarrow> nat \<Rightarrow> (u64 \<Rightarrow> u64 \<Rightarrow> u64 \<Rightarrow> 'a) \<Rightarrow> 'a parsed" where
  "parse_ecn_counts buf with_ecn pos k =
     (if with_ecn then
        with_varint buf pos (\<lambda>a pos. with_varint buf pos (\<lambda>b pos.
          with_varint buf pos (\<lambda>c pos. Parsed (k a b c) pos)))
      else Parsed (k 0 0 0) pos)"

definition ack_frame_parse :: "byte list \<Rightarrow> bool \<Rightarrow> AckFrame parsed" where
  "ack_frame_parse buf with_ecn =
     with_varint buf 0 (\<lambda>largest pos. with_varint buf pos (\<lambda>delay pos.
     with_varint buf pos (\<lambda>range_cnt pos.
       if kMaxAckRanges < unat range_cnt then Malformed
       else with_varint buf pos (\<lambda>first pos.
         parse_ack_ranges buf (unat range_cnt) pos (\<lambda>rs pos.
           parse_ecn_counts buf with_ecn pos (\<lambda>a b c.
             \<lparr>af_largest_acked = largest, af_ack_delay = delay,
              af_first_ack_range = first, af_ranges = rs, af_has_ecn = with_ecn,
              af_ect0 = a, af_ect1 = b, af_ecn_ce = c\<rparr>))))))"

definition ack_range_bytes :: "AckRange \<Rightarrow> byte list" where
  "ack_range_bytes r = varint_encode (ar_gap r) @ varint_encode (ar_length r)"

definition ecn_bytes :: "AckFrame \<Rightarrow> byte list" where
  "ecn_bytes f =
     (if af_has_ecn f
      then varint_encode (af_ect0 f) @ varint_encode (af_ect1 f) @ varint_encode (af_ecn_ce f)
      else [])"

definition ack_frame_serialize :: "AckFrame \<Rightarrow> byte list" where
  "ack_frame_serialize f =
     frame_type_code (if af_has_ecn f then FtAckEcn else FtAck) #
     varint_encode (af_largest_acked f) @ varint_encode (af_ack_delay f) @
     varint_encode (of_nat (length (af_ranges f))) @ varint_encode (af_first_ack_range f) @
     concat (map ack_range_bytes (af_ranges f)) @ ecn_bytes f"

section \<open>CONNECTION_CLOSE\<close>

record ConnectionCloseFrame =
  cc_error_code :: u64
  cc_frame_type :: u64
  cc_reason :: "byte list"
  cc_is_application :: bool

definition connection_close_parse :: "byte list \<Rightarrow> bool \<Rightarrow> ConnectionCloseFrame parsed" where
  "connection_close_parse buf is_app =
     (let reason = (\<lambda>err ft pos. with_varint buf pos (\<lambda>l pos. with_payload buf pos (unat l)
            (\<lambda>d. \<lparr>cc_error_code = err, cc_frame_type = ft, cc_reason = d, cc_is_application = is_app\<rparr>)))
      in with_varint buf 0 (\<lambda>err pos.
           if \<not> is_app then with_varint buf pos (\<lambda>ft pos. reason err ft pos)
           else reason err 0 pos))"

definition connection_close_serialize :: "ConnectionCloseFrame \<Rightarrow> byte list" where
  "connection_close_serialize f =
     frame_type_code (if cc_is_application f then FtConnectionCloseApp else FtConnectionClose) #
     varint_encode (cc_error_code f) @
     (if \<not> cc_is_application f then varint_encode (cc_frame_type f) else []) @
     varint_encode (of_nat (length (cc_reason f))) @ cc_reason f"

section \<open>PADDING\<close>

fun parse_padding_run :: "byte list \<Rightarrow> nat" where
  "parse_padding_run (b # bs) = (if b = 0x00 then Suc (parse_padding_run bs) else 0)"
| "parse_padding_run [] = 0"

section \<open>Lemmas\<close>

lemma drop_varint_encode [simp]:
  "drop (varint_encoded_size v) (varint_encode v @ xs) = xs"
  "drop (varint_encoded_size v + n) (varint_encode v @ xs) = drop n xs"
  by (simp_all flip: length_varint_encode)

lemma drop_append_plus: "drop pos buf = xs @ rest \<Longrightarrow> drop (pos + length xs) buf = rest"
  by (metis append_eq_conv_conj drop_drop add.commute)

lemma drop_encode:
  assumes "drop pos buf = varint_encode v @ rest"
  shows "drop (pos + varint_encoded_size v) buf = rest"
  using drop_append_plus [OF assms] by simp

lemma with_varint_enc [codec_simps]:
  assumes "v \<le> kVarIntMax" "drop pos buf = varint_encode v @ rest"
  shows "with_varint buf pos k = k v (pos + varint_encoded_size v)"
  using assms by (simp add: with_varint_def codec_simps)

lemma with_payload_enc [codec_simps]:
  assumes "drop pos buf = d @ rest" "pos \<le> length buf"
  shows "with_payload buf pos (length d) k = Parsed (k d) (pos + length d)"
proof -
  have "length buf - pos = length d + length rest"
    by (metis assms(1) length_append length_drop)
  then show ?thesis using assms by (simp add: with_payload_def)
qed

text \<open>
  Every successful result of a parser lies between a position and the end of the buffer and
  satisfies a predicate; the combinators the parsers are built from propagate this.
\<close>

definition in_bounds :: "nat \<Rightarrow> byte list \<Rightarrow> 'a parsed \<Rightarrow> ('a \<Rightarrow> nat \<Rightarrow> bool) \<Rightarrow> bool" where
  "in_bounds lo buf r P = (case r of Parsed x n \<Rightarrow> lo \<le> n \<and> n \<le> length buf \<and> P x n | _ \<Rightarrow> True)"

lemma in_bounds_simps [simp]:
  "in_bounds lo buf (Parsed x n) P \<longleftrightarrow> lo \<le> n \<and> n \<le> length buf \<and> P x n"
  "in_bounds lo buf NeedMore P" "in_bounds lo buf Malformed P"
  by (simp_all add: in_bounds_def)

lemma in_bounds_varint:
  assumes "pos \<le> length buf"
    and "\<And>v p. pos < p \<Longrightarrow> p \<le> length buf \<Longrightarrow> in_bounds lo buf (k v p) P"
  shows "in_bounds lo buf (with_varint buf pos k) P"
  using assms varint_decode_bound(1) [of "drop pos buf"]
  by (force simp: with_varint_def split: option.splits prod.splits)

lemma in_bounds_payload:
  assumes "lo \<le> pos" "\<And>d n. n \<le> length buf \<Longrightarrow> d = drop (n - length d) (take n buf) \<Longrightarrow> P (k d) n"
  shows "in_bounds lo buf (with_payload buf pos len k) P"
proof (cases "length buf < pos + len")
  case True
  then show ?thesis by (simp add: with_payload_def)
next
  case False
  then show ?thesis
    using assms(1) assms(2) [of "pos + len" "take len (drop pos buf)"]
    by (simp add: with_payload_def take_drop add.commute)
qed

lemma in_bounds_ack_ranges:
  assumes "pos \<le> length buf"
    and "\<And>rs p. pos \<le> p \<Longrightarrow> p \<le> length buf \<Longrightarrow> length rs = n \<Longrightarrow> in_bounds lo buf (k rs p) P"
  shows "in_bounds lo buf (parse_ack_ranges buf n pos k) P"
  using assms
proof (induction n arbitrary: pos k)
  case 0
  then show ?case by simp
next
  case (Suc n)
  show ?case
    by (auto intro!: in_bounds_varint Suc)
qed

lemmas in_bounds_intros = in_bounds_varint in_bounds_payload in_bounds_ack_ranges

lemma varint_length:
  assumes "n < 2 ^ 62"
  shows "(of_nat n :: u64) \<le> kVarIntMax" "unat (of_nat n :: u64) = n"
  using assms by (simp_all add: word_le_nat_alt unat_of_nat)

lemmas varint_length_simps [simp] = varint_length [simplified]

lemma payload_written [simp]:
  assumes "length d < 2 ^ 62" "drop pos buf = varint_encode (of_nat (length d)) @ d @ rest"
  shows "with_varint buf pos (\<lambda>l p. with_payload buf p (unat l) k) =
    Parsed (k d) (pos + varint_encoded_size (of_nat (length d)) + length d)"
proof -
  let ?n = "varint_encoded_size (of_nat (length d))"
  have d: "drop (pos + ?n) buf = d @ rest"
    by (rule drop_encode [OF assms(2)])
  have "length buf - pos = ?n + length d + length rest"
    by (metis assms(2) length_append length_drop length_varint_encode add.assoc)
  then have "pos + ?n \<le> length buf"
    by (cases "pos \<le> length buf") (auto simp: varint_encoded_size_prefix)
  then show ?thesis
    using assms(1) by (simp add: with_varint_enc [OF _ assms(2)] with_payload_enc [OF d])
qed

lemma stream_frame_parse_serialize:
  assumes "sf_stream_id f \<le> kVarIntMax" "sf_offset f \<le> kVarIntMax" "length (sf_data f) < 2 ^ 62"
  shows "stream_frame_parse (hd (stream_frame_serialize f)) (tl (stream_frame_serialize f) @ rest) =
    Parsed f (length (tl (stream_frame_serialize f)))"
proof -
  define tb where "tb = hd (stream_frame_serialize f)"
  have flags: "((tb AND 7) AND kStreamFlagOff \<noteq> 0) = True" "((tb AND 7) AND kStreamFlagLen \<noteq> 0) = True"
    "((tb AND 7) AND kStreamFlagFin \<noteq> 0) = sf_fin f"
    by (simp_all add: tb_def stream_frame_serialize_def Let_def kStreamFlagFin_def kStreamFlagOff_def
        kStreamFlagLen_def kStreamTypeBase_def)
  have tl: "tl (stream_frame_serialize f) @ rest = varint_encode (sf_stream_id f) @
      varint_encode (sf_offset f) @ varint_encode (of_nat (length (sf_data f))) @ sf_data f @ rest"
    by (simp add: stream_frame_serialize_def Let_def)
  show ?thesis
    unfolding stream_frame_parse_def Let_def flags tl tb_def [symmetric]
    using assms by (simp add: codec_simps stream_frame_serialize_def Let_def)
qed

lemma crypto_frame_parse_serialize:
  assumes "cf_offset f \<le> kVarIntMax" "length (cf_data f) < 2 ^ 62"
  shows "crypto_frame_parse (tl (crypto_frame_serialize f) @ rest) =
    Parsed f (length (tl (crypto_frame_serialize f)))"
  unfolding crypto_frame_parse_def
  using assms by (simp add: codec_simps crypto_frame_serialize_def)

lemma connection_close_parse_serialize:
  assumes "cc_error_code f \<le> kVarIntMax" "cc_frame_type f \<le> kVarIntMax" "length (cc_reason f) < 2 ^ 62"
    "cc_is_application f \<longrightarrow> cc_frame_type f = 0"
  shows "connection_close_parse (tl (connection_close_serialize f) @ rest) (cc_is_application f) =
    Parsed f (length (tl (connection_close_serialize f)))"
  unfolding connection_close_parse_def Let_def
  using assms by (simp add: codec_simps connection_close_serialize_def)

lemma parse_ack_ranges_serialize:
  assumes "list_all (\<lambda>r. ar_gap r \<le> kVarIntMax \<and> ar_length r \<le> kVarIntMax) rs"
    "drop pos buf = concat (map ack_range_bytes rs) @ rest"
  shows "parse_ack_ranges buf (length rs) pos k = k rs (pos + length (concat (map ack_range_bytes rs)))"
  using assms
proof (induction rs arbitrary: pos k)
  case Nil
  then show ?case by simp
next
  case (Cons r rs)
  have d: "drop pos buf = varint_encode (ar_gap r) @ varint_encode (ar_length r) @
      concat (map ack_range_bytes rs) @ rest"
    using Cons.prems(2) by (simp add: ack_range_bytes_def [of r])
  note d1 = drop_encode [OF d]
  note d2 = drop_encode [OF d1]
  have eta: "\<lparr>ar_gap = ar_gap r, ar_length = ar_length r\<rparr> = r" by (cases r) simp
  show ?case
    using Cons.prems(1) Cons.IH [OF _ d2]
    by (simp add: eta with_varint_enc [OF _ d] with_varint_enc [OF _ d1] ack_range_bytes_def [of r] add.assoc)
qed

lemma parse_ecn_counts_written:
  assumes "drop pos buf = ecn_bytes f @ rest"
    "if af_has_ecn f then af_ect0 f \<le> kVarIntMax \<and> af_ect1 f \<le> kVarIntMax \<and> af_ecn_ce f \<le> kVarIntMax
     else af_ect0 f = 0 \<and> af_ect1 f = 0 \<and> af_ecn_ce f = 0"
  shows "parse_ecn_counts buf (af_has_ecn f) pos k =
    Parsed (k (af_ect0 f) (af_ect1 f) (af_ecn_ce f)) (pos + length (ecn_bytes f))"
proof (cases "af_has_ecn f")
  case True
  then have d: "drop pos buf = varint_encode (af_ect0 f) @ varint_encode (af_ect1 f) @ varint_encode (af_ecn_ce f) @ rest"
    using assms(1) by (simp add: ecn_bytes_def)
  note d1 = drop_encode [OF d]
  note d2 = drop_encode [OF d1]
  show ?thesis
    using True assms(2)
    by (simp add: parse_ecn_counts_def ecn_bytes_def with_varint_enc [OF _ d] with_varint_enc [OF _ d1]
        with_varint_enc [OF _ d2])
next
  case False
  then show ?thesis using assms by (simp add: parse_ecn_counts_def ecn_bytes_def)
qed

lemma ack_frame_parse_serialize:
  assumes "af_largest_acked f \<le> kVarIntMax" "af_ack_delay f \<le> kVarIntMax" "af_first_ack_range f \<le> kVarIntMax"
    "list_all (\<lambda>r. ar_gap r \<le> kVarIntMax \<and> ar_length r \<le> kVarIntMax) (af_ranges f)"
    "length (af_ranges f) \<le> kMaxAckRanges"
    "if af_has_ecn f then af_ect0 f \<le> kVarIntMax \<and> af_ect1 f \<le> kVarIntMax \<and> af_ecn_ce f \<le> kVarIntMax
     else af_ect0 f = 0 \<and> af_ect1 f = 0 \<and> af_ecn_ce f = 0"
  shows "ack_frame_parse (tl (ack_frame_serialize f) @ rest) (af_has_ecn f) =
    Parsed f (length (tl (ack_frame_serialize f)))"
proof -
  have n: "length (af_ranges f) < 2 ^ 62" "\<not> kMaxAckRanges < length (af_ranges f)"
    using assms(5) by (simp_all add: kMaxAckRanges_def)
  define m :: u64 where "m = of_nat (length (af_ranges f))"
  have m: "m \<le> kVarIntMax" "unat m = length (af_ranges f)"
    using varint_length [OF n(1)] by (simp_all add: m_def)
  have tl: "tl (ack_frame_serialize f) = varint_encode (af_largest_acked f) @ varint_encode (af_ack_delay f) @
     varint_encode m @ varint_encode (af_first_ack_range f) @ concat (map ack_range_bytes (af_ranges f)) @ ecn_bytes f"
    by (simp add: ack_frame_serialize_def m_def)
  define rb where "rb = concat (map ack_range_bytes (af_ranges f))"
  have rb: "parse_ack_ranges buf (length (af_ranges f)) pos k = k (af_ranges f) (pos + length rb)"
    if "drop pos buf = rb @ rest'" for buf pos rest' and k :: "AckRange list \<Rightarrow> nat \<Rightarrow> AckFrame parsed"
    using parse_ack_ranges_serialize [OF assms(4)] that by (simp add: rb_def)
  define buf where "buf = tl (ack_frame_serialize f) @ rest"
  have d0: "drop 0 buf = varint_encode (af_largest_acked f) @ varint_encode (af_ack_delay f) @
     varint_encode m @ varint_encode (af_first_ack_range f) @ rb @ ecn_bytes f @ rest"
    by (simp add: buf_def tl rb_def)
  note d1 = drop_encode [OF d0]
  note d2 = drop_encode [OF d1]
  note d3 = drop_encode [OF d2]
  note d4 = drop_encode [OF d3]
  note d5 = drop_append_plus [OF d4]
  show ?thesis
    unfolding ack_frame_parse_def buf_def [symmetric] with_varint_enc [OF assms(1) d0]
      with_varint_enc [OF assms(2) d1] with_varint_enc [OF m(1) d2] with_varint_enc [OF assms(3) d3] m(2)
      rb [OF d4] parse_ecn_counts_written [OF d5 assms(6)]
    using n(2) by (simp add: tl rb_def [symmetric])
qed

lemma stream_frame_in_bounds:
  "in_bounds 1 buf (stream_frame_parse t buf) (\<lambda>f n. sf_data f = drop (n - length (sf_data f)) (take n buf))"
  unfolding stream_frame_parse_def Let_def
  by (auto intro!: in_bounds_intros)

lemma crypto_frame_in_bounds:
  "in_bounds 1 buf (crypto_frame_parse buf) (\<lambda>f n. cf_data f = drop (n - length (cf_data f)) (take n buf))"
  unfolding crypto_frame_parse_def
  by (auto intro!: in_bounds_intros)

lemma connection_close_in_bounds:
  "in_bounds 1 buf (connection_close_parse buf app)
     (\<lambda>f n. cc_reason f = drop (n - length (cc_reason f)) (take n buf))"
  unfolding connection_close_parse_def Let_def
  by (auto intro!: in_bounds_intros)

lemma ack_frame_in_bounds:
  "in_bounds 1 buf (ack_frame_parse buf ecn) (\<lambda>f n. length (af_ranges f) \<le> kMaxAckRanges)"
  unfolding ack_frame_parse_def parse_ecn_counts_def
  by (auto intro!: in_bounds_intros)

section \<open>Properties\<close>

text \<open>
  C27. Every frame the endpoint serializes is read back by the peer's parser: after the type byte,
  parsing the serialized body followed by any further frames returns the same frame and consumes
  exactly the body. Stated for STREAM (with its FIN flag in the type byte), CRYPTO, ACK and ACK_ECN,
  and both CONNECTION_CLOSE variants, for field values that fit a varint.
\<close>

theorem frames_roundtrip:
  assumes "sf_stream_id sf \<le> kVarIntMax" "sf_offset sf \<le> kVarIntMax" "length (sf_data sf) < 2 ^ 62"
    and "cf_offset cf \<le> kVarIntMax" "length (cf_data cf) < 2 ^ 62"
    and "af_largest_acked af \<le> kVarIntMax" "af_ack_delay af \<le> kVarIntMax" "af_first_ack_range af \<le> kVarIntMax"
      "list_all (\<lambda>r. ar_gap r \<le> kVarIntMax \<and> ar_length r \<le> kVarIntMax) (af_ranges af)"
      "length (af_ranges af) \<le> kMaxAckRanges"
      "if af_has_ecn af then af_ect0 af \<le> kVarIntMax \<and> af_ect1 af \<le> kVarIntMax \<and> af_ecn_ce af \<le> kVarIntMax
       else af_ect0 af = 0 \<and> af_ect1 af = 0 \<and> af_ecn_ce af = 0"
    and "cc_error_code ccf \<le> kVarIntMax" "cc_frame_type ccf \<le> kVarIntMax" "length (cc_reason ccf) < 2 ^ 62"
      "cc_is_application ccf \<longrightarrow> cc_frame_type ccf = 0"
  shows "(\<exists>t body. stream_frame_serialize sf = t # body \<and> is_stream_frame_type t \<and>
      stream_frame_parse t (body @ rest) = Parsed sf (length body)) \<and>
    (\<exists>body. crypto_frame_serialize cf = frame_type_code FtCrypto # body \<and>
      crypto_frame_parse (body @ rest) = Parsed cf (length body)) \<and>
    (\<exists>body. ack_frame_serialize af = frame_type_code (if af_has_ecn af then FtAckEcn else FtAck) # body \<and>
      ack_frame_parse (body @ rest) (af_has_ecn af) = Parsed af (length body)) \<and>
    (\<exists>body. connection_close_serialize ccf =
        frame_type_code (if cc_is_application ccf then FtConnectionCloseApp else FtConnectionClose) # body \<and>
      connection_close_parse (body @ rest) (cc_is_application ccf) = Parsed ccf (length body))"
proof (intro conjI)
  have "is_stream_frame_type (hd (stream_frame_serialize sf))"
    by (simp add: stream_frame_serialize_def is_stream_frame_type_def Let_def
        kStreamFlagFin_def kStreamFlagOff_def kStreamFlagLen_def kStreamTypeBase_def)
  moreover have "stream_frame_serialize sf = hd (stream_frame_serialize sf) # tl (stream_frame_serialize sf)"
    by (simp add: stream_frame_serialize_def Let_def)
  ultimately show "\<exists>t body. stream_frame_serialize sf = t # body \<and> is_stream_frame_type t \<and>
      stream_frame_parse t (body @ rest) = Parsed sf (length body)"
    using stream_frame_parse_serialize [OF assms(1-3)] by blast
  show "\<exists>body. crypto_frame_serialize cf = frame_type_code FtCrypto # body \<and>
      crypto_frame_parse (body @ rest) = Parsed cf (length body)"
    using crypto_frame_parse_serialize [OF assms(4,5), of rest] by (simp add: crypto_frame_serialize_def)
  show "\<exists>body. ack_frame_serialize af = frame_type_code (if af_has_ecn af then FtAckEcn else FtAck) # body \<and>
      ack_frame_parse (body @ rest) (af_has_ecn af) = Parsed af (length body)"
    using ack_frame_parse_serialize [OF assms(6-11), of rest] by (simp add: ack_frame_serialize_def)
  show "\<exists>body. connection_close_serialize ccf =
        frame_type_code (if cc_is_application ccf then FtConnectionCloseApp else FtConnectionClose) # body \<and>
      connection_close_parse (body @ rest) (cc_is_application ccf) = Parsed ccf (length body)"
    using connection_close_parse_serialize [OF assms(12-15), of rest] by (simp add: connection_close_serialize_def)
qed

theorem frames_roundtrip_witness:
  "\<exists>body. crypto_frame_serialize \<lparr>cf_offset = 70, cf_data = [1, 2]\<rparr> = frame_type_code FtCrypto # body \<and>
      crypto_frame_parse (body @ [0, 0]) = Parsed \<lparr>cf_offset = 70, cf_data = [1, 2]\<rparr> (length body)"
  using frames_roundtrip [of "\<lparr>sf_stream_id = 4, sf_offset = 9, sf_fin = True, sf_data = [7]\<rparr>"
      "\<lparr>cf_offset = 70, cf_data = [1, 2]\<rparr>"
      "\<lparr>af_largest_acked = 9, af_ack_delay = 0, af_first_ack_range = 2,
        af_ranges = [\<lparr>ar_gap = 1, ar_length = 0\<rparr>], af_has_ecn = True, af_ect0 = 1, af_ect1 = 2, af_ecn_ce = 3\<rparr>"
      "\<lparr>cc_error_code = 10, cc_frame_type = 0, cc_reason = [65], cc_is_application = True\<rparr>" "[0, 0]"]
  by (simp add: kMaxAckRanges_def word_le_nat_alt)

text \<open>
  C34. No frame parser runs past the buffer: whatever bytes a peer sends, a successful parse
  consumed at least one byte and at most the bytes there are, the borrowed payload lies inside
  them, and an ACK never delivers more than 256 ranges (the capacity of the frame's array).
\<close>

theorem frame_parsers_in_bounds:
  "in_bounds 1 buf (stream_frame_parse t buf) (\<lambda>f n. sf_data f = drop (n - length (sf_data f)) (take n buf)) \<and>
   in_bounds 1 buf (crypto_frame_parse buf) (\<lambda>f n. cf_data f = drop (n - length (cf_data f)) (take n buf)) \<and>
   in_bounds 1 buf (connection_close_parse buf app)
     (\<lambda>f n. cc_reason f = drop (n - length (cc_reason f)) (take n buf)) \<and>
   in_bounds 1 buf (ack_frame_parse buf ecn) (\<lambda>f n. length (af_ranges f) \<le> kMaxAckRanges)"
  by (intro conjI stream_frame_in_bounds crypto_frame_in_bounds connection_close_in_bounds ack_frame_in_bounds)

end
