(* ===== verification/Quic_Ack.thy ===== *)
theory Quic_Ack
  imports Quic_Frames
begin

text \<open>
  The received-packet tracker (\<^verbatim>\<open>include/boltapi/quic/ack.h\<close>), the ACK frame it builds, and
  the walk over a received ACK frame that \<^verbatim>\<open>connection.h\<close> makes in \<^verbatim>\<open>process_ack\<close>. The
  fixed array with its counter is a list of at most 256 ranges, in the array's order
  (descending).
\<close>

record Range =
  rg_start :: u64
  rg_end :: u64

type_synonym AckRangeTracker = "Range list"

definition kMaxTrackedRanges :: nat where "kMaxTrackedRanges = kMaxAckRanges"

definition ack_largest :: "AckRangeTracker \<Rightarrow> u64 option" where
  "ack_largest rs = (if rs = [] then None else Some (rg_end (rs ! 0)))"

definition is_sorted_descending :: "AckRangeTracker \<Rightarrow> bool" where
  "is_sorted_descending rs = (\<forall>i \<in> {1..<length rs}. \<not> rg_start (rs ! (i - 1)) \<le> rg_end (rs ! i))"

definition insert_at :: "nat \<Rightarrow> Range \<Rightarrow> AckRangeTracker \<Rightarrow> AckRangeTracker" where
  "insert_at idx r rs =
     (if length rs = kMaxTrackedRanges then
        (if idx = length rs then rs
         else let rs = take (length rs - 1) rs in take idx rs @ r # drop idx rs)
      else take idx rs @ r # drop idx rs)"

definition remove_at :: "nat \<Rightarrow> AckRangeTracker \<Rightarrow> AckRangeTracker" where
  "remove_at idx rs = take idx rs @ drop (idx + 1) rs"

text \<open>The descending scan for the first range whose start does not exceed the number.\<close>

fun scan_index :: "AckRangeTracker \<Rightarrow> u64 \<Rightarrow> nat" where
  "scan_index [] pn = 0"
| "scan_index (r # rs) pn = (if rg_start r > pn then Suc (scan_index rs pn) else 0)"

definition ack_record :: "AckRangeTracker \<Rightarrow> u64 \<Rightarrow> AckRangeTracker" where
  "ack_record rs pn =
     (let i = scan_index rs pn
      in if i < length rs \<and> pn \<ge> rg_start (rs ! i) \<and> pn \<le> rg_end (rs ! i) then rs
         else
           let join_above = (i > 0 \<and> pn + 1 = rg_start (rs ! (i - 1)));
               join_below = (i < length rs \<and> pn = rg_end (rs ! i) + 1)
           in if join_above \<and> join_below then
                remove_at i (rs[i - 1 := (rs ! (i - 1))\<lparr>rg_start := rg_start (rs ! i)\<rparr>])
              else if join_above then rs[i - 1 := (rs ! (i - 1))\<lparr>rg_start := pn\<rparr>]
              else if join_below then rs[i := (rs ! i)\<lparr>rg_end := pn\<rparr>]
              else insert_at i \<lparr>rg_start = pn, rg_end = pn\<rparr> rs)"

text \<open>The loop of \<^verbatim>\<open>build_ack_frame\<close> over the ranges after the first.\<close>

fun build_gaps :: "u64 \<Rightarrow> AckRangeTracker \<Rightarrow> AckRange list" where
  "build_gaps prev_smallest [] = []"
| "build_gaps prev_smallest (r # rs) =
     \<lparr>ar_gap = prev_smallest - rg_end r - 2, ar_length = rg_end r - rg_start r\<rparr> #
     build_gaps (rg_start r) rs"

definition build_ack_frame :: "AckRangeTracker \<Rightarrow> u64 \<Rightarrow> AckFrame option" where
  "build_ack_frame rs delay =
     (case rs of [] \<Rightarrow> None
      | r # rs' \<Rightarrow> Some \<lparr>af_largest_acked = rg_end r, af_ack_delay = delay,
          af_first_ack_range = rg_end r - rg_start r,
          af_ranges = build_gaps (rg_start r) rs', af_has_ecn = False,
          af_ect0 = 0, af_ect1 = 0, af_ecn_ce = 0\<rparr>)"

text \<open>
  \<^verbatim>\<open>maybe_append_ack\<close> of the connection for one packet number space: the pending flag, the
  tracker and the room left in the payload; the new flag and the bytes written.
\<close>

definition maybe_append_ack :: "bool \<Rightarrow> AckRangeTracker \<Rightarrow> nat \<Rightarrow> bool \<times> byte list" where
  "maybe_append_ack pending rs cap =
     (if \<not> pending then (pending, [])
      else case build_ack_frame rs 0 of
             None \<Rightarrow> (pending, [])
           | Some ack \<Rightarrow> if cap < 64 then (pending, []) else (False, ack_frame_serialize ack))"

text \<open>The packet number intervals \<^verbatim>\<open>process_ack\<close> marks acknowledged, in order.\<close>

fun walk_ack_ranges :: "u64 \<Rightarrow> AckRange list \<Rightarrow> (u64 \<times> u64) list" where
  "walk_ack_ranges smallest [] = []"
| "walk_ack_ranges smallest (r # rs) =
     (if smallest < ar_gap r + 2 then []
      else let smallest = smallest - (ar_gap r + 2); hi = smallest
      in if smallest < ar_length r then []
         else let smallest = smallest - ar_length r
         in (smallest, hi) # walk_ack_ranges smallest rs)"

definition ack_intervals :: "AckFrame \<Rightarrow> (u64 \<times> u64) list" where
  "ack_intervals ack =
     (let lo = af_largest_acked ack - af_first_ack_range ack
      in (lo, af_largest_acked ack) # walk_ack_ranges lo (af_ranges ack))"

section \<open>Invariant and abstraction\<close>

text \<open>
  Ranges are non-empty, within packet numbers, strictly descending and never adjacent (an adjacent
  pair would have been merged). The tracker stands for a set of packet numbers.
\<close>

fun ack_ranges_ok :: "AckRangeTracker \<Rightarrow> bool" where
  "ack_ranges_ok [] = True"
| "ack_ranges_ok (r # rs) \<longleftrightarrow> unat (rg_start r) \<le> unat (rg_end r) \<and> unat (rg_end r) < 2 ^ 62 \<and>
     (rs = [] \<or> unat (rg_end (hd rs)) + 1 < unat (rg_start r)) \<and> ack_ranges_ok rs"

definition ack_inv :: "AckRangeTracker \<Rightarrow> bool" where
  "ack_inv rs \<longleftrightarrow> ack_ranges_ok rs \<and> length rs \<le> kMaxTrackedRanges"

definition range_set :: "Range \<Rightarrow> nat set" where
  "range_set r = {unat (rg_start r)..unat (rg_end r)}"

definition ack_set :: "AckRangeTracker \<Rightarrow> nat set" where
  "ack_set rs = (\<Union>r \<in> set rs. range_set r)"

lemma ack_set_simps [simp]:
  "ack_set [] = {}" "ack_set (r # rs) = range_set r \<union> ack_set rs"
  "ack_set (rs @ rs') = ack_set rs \<union> ack_set rs'"
  by (auto simp: ack_set_def)

lemma ack_ranges_ok_append:
  "ack_ranges_ok (xs @ ys) \<longleftrightarrow> ack_ranges_ok xs \<and> ack_ranges_ok ys \<and>
     (xs = [] \<or> ys = [] \<or> unat (rg_end (hd ys)) + 1 < unat (rg_start (last xs)))"
  by (induction xs) (auto simp: neq_Nil_conv hd_append)

lemma scan_index_split:
  obtains above below where "rs = above @ below" "scan_index rs pn = length above"
    "\<forall>r \<in> set above. pn < rg_start r" "below = [] \<or> \<not> pn < rg_start (hd below)"
proof -
  have "\<exists>above below. rs = above @ below \<and> scan_index rs pn = length above \<and>
    (\<forall>r \<in> set above. pn < rg_start r) \<and> (below = [] \<or> \<not> pn < rg_start (hd below))"
  proof (induction rs)
    case (Cons r rs)
    then obtain a b where *: "rs = a @ b" "scan_index rs pn = length a"
      "\<forall>r \<in> set a. pn < rg_start r" "b = [] \<or> \<not> pn < rg_start (hd b)" by blast
    show ?case
    proof (cases "pn < rg_start r")
      case True
      with * show ?thesis by (intro exI [of _ "r # a"] exI [of _ b]) simp
    next
      case False
      then show ?thesis by (intro exI [of _ "[]"] exI [of _ "r # rs"]) simp
    qed
  qed simp
  with that show thesis by blast
qed

lemma remove_at_append [simp]: "remove_at (length xs) (xs @ y # ys) = xs @ ys"
  by (simp add: remove_at_def)

text \<open>Recording at the split point of the scan, with the comparisons on naturals.\<close>

lemma ack_record_split:
  assumes ok: "ack_ranges_ok (xs @ bs)" and pn: "unat pn < 2 ^ 62"
    and sc: "scan_index (xs @ bs) pn = length xs" "bs = [] \<or> \<not> pn < rg_start (hd bs)"
  shows "ack_record (xs @ bs) pn =
    (let ja = (xs \<noteq> [] \<and> unat (rg_start (last xs)) = unat pn + 1);
         jb = (bs \<noteq> [] \<and> unat pn = unat (rg_end (hd bs)) + 1)
     in if bs \<noteq> [] \<and> unat pn \<le> unat (rg_end (hd bs)) then xs @ bs
        else if ja \<and> jb then butlast xs @ (last xs)\<lparr>rg_start := rg_start (hd bs)\<rparr> # tl bs
        else if ja then butlast xs @ (last xs)\<lparr>rg_start := pn\<rparr> # bs
        else if jb then xs @ (hd bs)\<lparr>rg_end := pn\<rparr> # tl bs
        else insert_at (length xs) \<lparr>rg_start = pn, rg_end = pn\<rparr> (xs @ bs))"
proof -
  let ?rs = "xs @ bs"
  have p1: "unat (pn + 1) = unat pn + 1" using pn by (simp add: unat_add_small)
  have e1: "unat (rg_end (hd bs) + 1) = unat (rg_end (hd bs)) + 1" if "bs \<noteq> []"
    using ok that by (cases bs) (auto simp: ack_ranges_ok_append unat_add_small)
  have last_nth: "?rs ! (length xs - 1) = last xs" if "xs \<noteq> []"
    using that by (simp add: nth_append last_conv_nth)
  have hd_nth: "?rs ! length xs = hd bs" if "bs \<noteq> []"
    using that by (simp add: nth_append hd_conv_nth)
  have ja: "(length xs > 0 \<and> pn + 1 = rg_start (?rs ! (length xs - 1))) \<longleftrightarrow>
      xs \<noteq> [] \<and> unat (rg_start (last xs)) = unat pn + 1"
    using last_nth p1 by (auto simp: word_unat_eq_iff)
  have jb: "(length xs < length ?rs \<and> pn = rg_end (?rs ! length xs) + 1) \<longleftrightarrow>
      bs \<noteq> [] \<and> unat pn = unat (rg_end (hd bs)) + 1"
    using hd_nth e1 by (auto simp: word_unat_eq_iff)
  have cov: "(length xs < length ?rs \<and> pn \<ge> rg_start (?rs ! length xs) \<and> pn \<le> rg_end (?rs ! length xs)) \<longleftrightarrow>
      bs \<noteq> [] \<and> unat pn \<le> unat (rg_end (hd bs))"
    using hd_nth sc(2) by (auto simp: word_le_nat_alt word_less_nat_alt)
  have up1: "?rs[length xs - 1 := r] = butlast xs @ r # bs" if "xs \<noteq> []" for r
    using that by (cases xs rule: rev_cases) (simp_all add: list_update_append)
  have up2: "?rs[length xs := r] = xs @ r # tl bs" if "bs \<noteq> []" for r
    using that by (cases bs) (simp_all add: list_update_append)
  have rm: "remove_at (length xs) (butlast xs @ r # bs) = butlast xs @ r # tl bs" if "xs \<noteq> []" "bs \<noteq> []" for r
    using that by (cases xs rule: rev_cases; cases bs) (simp_all add: remove_at_def)
  show ?thesis
    unfolding ack_record_def sc(1) Let_def ja jb cov
    using last_nth hd_nth up1 up2 rm by (auto simp del: list_update_append)
qed

text \<open>The five outcomes of recording a packet number.\<close>

lemma ack_record_cases:
  assumes ok: "ack_ranges_ok rs" and pn: "unat pn < 2 ^ 62"
  obtains (covered) "ack_record rs pn = rs" "unat pn \<in> ack_set rs"
  | (both) xs a b bs where "rs = xs @ a # b # bs" "ack_record rs pn = xs @ a\<lparr>rg_start := rg_start b\<rparr> # bs"
      "unat (rg_start a) = unat pn + 1" "unat pn = unat (rg_end b) + 1"
  | (above) xs a bs where "rs = xs @ a # bs" "ack_record rs pn = xs @ a\<lparr>rg_start := pn\<rparr> # bs"
      "unat (rg_start a) = unat pn + 1" "bs = [] \<or> unat (rg_end (hd bs)) + 1 < unat pn"
  | (below) xs b bs where "rs = xs @ b # bs" "ack_record rs pn = xs @ b\<lparr>rg_end := pn\<rparr> # bs"
      "unat pn = unat (rg_end b) + 1" "xs = [] \<or> unat pn + 1 < unat (rg_start (last xs))"
  | (fresh) xs bs where "rs = xs @ bs" "ack_record rs pn = insert_at (length xs) \<lparr>rg_start = pn, rg_end = pn\<rparr> (xs @ bs)"
      "xs = [] \<or> unat pn + 1 < unat (rg_start (last xs))" "bs = [] \<or> unat (rg_end (hd bs)) + 1 < unat pn"
proof -
  obtain xs bs where sp: "rs = xs @ bs" "scan_index rs pn = length xs"
    "\<forall>r \<in> set xs. pn < rg_start r" "bs = [] \<or> \<not> pn < rg_start (hd bs)"
    by (rule scan_index_split)
  note rec = ack_record_split [OF ok [unfolded sp(1)] pn sp(2) [unfolded sp(1)] sp(4), folded sp(1), unfolded Let_def]
  have gt: "xs = [] \<or> unat pn < unat (rg_start (last xs))"
    using sp(3) by (cases "xs = []") (auto simp: word_less_nat_alt)
  consider (c) "bs \<noteq> []" "unat pn \<le> unat (rg_end (hd bs))"
    | (ab) "xs \<noteq> []" "unat (rg_start (last xs)) = unat pn + 1" "bs \<noteq> []" "unat pn = unat (rg_end (hd bs)) + 1"
    | (a) "xs \<noteq> []" "unat (rg_start (last xs)) = unat pn + 1" "bs = [] \<or> unat (rg_end (hd bs)) + 1 < unat pn"
    | (b) "xs = [] \<or> unat pn + 1 < unat (rg_start (last xs))" "bs \<noteq> []" "unat pn = unat (rg_end (hd bs)) + 1"
    | (n) "xs = [] \<or> unat pn + 1 < unat (rg_start (last xs))" "bs = [] \<or> unat (rg_end (hd bs)) + 1 < unat pn"
    using gt by (cases "xs = []"; cases "bs = []") force+
  then show thesis
  proof cases
    case c
    then have "unat pn \<in> range_set (hd bs)"
      using sp(4) by (simp add: range_set_def word_less_nat_alt)
    with c show thesis using covered rec sp(1) by (cases bs) auto
  next
    case ab
    with rec sp(1) show thesis by (intro both [of "butlast xs" "last xs" "hd bs" "tl bs"]) auto
  next
    case a
    with rec sp(1) show thesis by (intro above [of "butlast xs" "last xs" bs]) auto
  next
    case b
    with rec sp(1) show thesis by (intro below [of xs "hd bs" "tl bs"]) auto
  next
    case n
    with rec sp(1) show thesis by (intro fresh [of xs bs]) auto
  qed
qed

lemma ack_ranges_ok_mem:
  "ack_ranges_ok rs \<Longrightarrow> r \<in> set rs \<Longrightarrow> unat (rg_start r) \<le> unat (rg_end r) \<and> unat (rg_end r) < 2 ^ 62"
  by (induction rs) auto

lemma insert_at_ok:
  assumes "ack_ranges_ok (xs @ bs)" "unat pn < 2 ^ 62" "length (xs @ bs) \<le> kMaxTrackedRanges"
    "xs = [] \<or> unat pn + 1 < unat (rg_start (last xs))" "bs = [] \<or> unat (rg_end (hd bs)) + 1 < unat pn"
  shows "ack_inv (insert_at (length xs) \<lparr>rg_start = pn, rg_end = pn\<rparr> (xs @ bs))"
    and "length (xs @ bs) < kMaxTrackedRanges \<Longrightarrow>
      insert_at (length xs) \<lparr>rg_start = pn, rg_end = pn\<rparr> (xs @ bs) = xs @ \<lparr>rg_start = pn, rg_end = pn\<rparr> # bs"
    and "length (xs @ bs) = kMaxTrackedRanges \<Longrightarrow>
      insert_at (length xs) \<lparr>rg_start = pn, rg_end = pn\<rparr> (xs @ bs) =
        (if bs = [] then xs else xs @ \<lparr>rg_start = pn, rg_end = pn\<rparr> # butlast bs)"
proof -
  show eq1: "insert_at (length xs) \<lparr>rg_start = pn, rg_end = pn\<rparr> (xs @ bs) = xs @ \<lparr>rg_start = pn, rg_end = pn\<rparr> # bs"
    if "length (xs @ bs) < kMaxTrackedRanges"
    using that by (simp add: insert_at_def)
  show eq2: "insert_at (length xs) \<lparr>rg_start = pn, rg_end = pn\<rparr> (xs @ bs) =
        (if bs = [] then xs else xs @ \<lparr>rg_start = pn, rg_end = pn\<rparr> # butlast bs)"
    if "length (xs @ bs) = kMaxTrackedRanges"
    using that by (cases bs rule: rev_cases) (simp_all add: insert_at_def Let_def)
  have bl: "ack_ranges_ok (butlast bs)" "butlast bs = [] \<or> hd (butlast bs) = hd bs"
    using assms(1) by (cases bs rule: rev_cases; auto simp: ack_ranges_ok_append hd_append)+
  have "bs \<noteq> [] \<Longrightarrow> length bs = Suc (length (butlast bs))" by simp
  then show "ack_inv (insert_at (length xs) \<lparr>rg_start = pn, rg_end = pn\<rparr> (xs @ bs))"
    using assms eq1 eq2 bl by (cases "length (xs @ bs) = kMaxTrackedRanges")
      (auto simp: ack_inv_def ack_ranges_ok_append)
qed

lemma ack_record_inv:
  assumes "ack_inv rs" "unat pn < 2 ^ 62"
  shows "ack_inv (ack_record rs pn)"
proof -
  have ok: "ack_ranges_ok rs" "length rs \<le> kMaxTrackedRanges" using assms(1) by (simp_all add: ack_inv_def)
  show ?thesis
    using ok(1) assms(2)
  proof (cases rule: ack_record_cases)
    case covered
    then show ?thesis using assms(1) by simp
  next
    case both
    then show ?thesis using ok by (auto simp: ack_inv_def ack_ranges_ok_append)
  next
    case above
    then show ?thesis using ok assms(2) by (auto simp: ack_inv_def ack_ranges_ok_append)
  next
    case below
    then show ?thesis using ok assms(2) by (auto simp: ack_inv_def ack_ranges_ok_append)
  next
    case fresh
    then show ?thesis using ok assms(2) insert_at_ok(1) by simp
  qed
qed

lemma ack_record_set:
  assumes "ack_inv rs" "unat pn < 2 ^ 62"
  shows "length rs < kMaxTrackedRanges \<Longrightarrow> ack_set (ack_record rs pn) = insert (unat pn) (ack_set rs)"
    and "ack_set (ack_record rs pn) \<subseteq> insert (unat pn) (ack_set rs)"
    and "rs \<noteq> [] \<Longrightarrow> q \<in> insert (unat pn) (ack_set rs) \<Longrightarrow> unat (rg_end (last rs)) < q \<Longrightarrow>
      q \<in> ack_set (ack_record rs pn)"
proof -
  have ok: "ack_ranges_ok rs" "length rs \<le> kMaxTrackedRanges" using assms(1) by (simp_all add: ack_inv_def)
  have "(length rs < kMaxTrackedRanges \<longrightarrow> ack_set (ack_record rs pn) = insert (unat pn) (ack_set rs)) \<and>
    ack_set (ack_record rs pn) \<subseteq> insert (unat pn) (ack_set rs) \<and>
    (rs \<noteq> [] \<longrightarrow> q \<in> insert (unat pn) (ack_set rs) \<longrightarrow> unat (rg_end (last rs)) < q \<longrightarrow> q \<in> ack_set (ack_record rs pn))" for q
    using ok(1) assms(2)
  proof (cases rule: ack_record_cases)
    case covered
    then show ?thesis by auto
  next
    case (both xs a b bs)
    then have "ack_set (ack_record rs pn) = insert (unat pn) (ack_set rs)"
      using ok(1) by (auto simp: range_set_def ack_ranges_ok_append)
    then show ?thesis by simp
  next
    case above
    then have "ack_set (ack_record rs pn) = insert (unat pn) (ack_set rs)"
      using ok(1) by (auto simp: range_set_def ack_ranges_ok_append)
    then show ?thesis by simp
  next
    case below
    then have "ack_set (ack_record rs pn) = insert (unat pn) (ack_set rs)"
      using ok(1) by (auto simp: range_set_def ack_ranges_ok_append)
    then show ?thesis by simp
  next
    case (fresh xs bs)
    show ?thesis
    proof (cases "length rs < kMaxTrackedRanges")
      case True
      then show ?thesis
        using fresh insert_at_ok(2) [of xs bs pn] ok assms(2) by (auto simp: range_set_def)
    next
      case False
      then have r: "ack_record rs pn = (if bs = [] then xs else xs @ \<lparr>rg_start = pn, rg_end = pn\<rparr> # butlast bs)"
        using fresh insert_at_ok(3) [of xs bs pn] ok assms(2) by simp
      then show ?thesis
        using False fresh(1,3) ack_ranges_ok_mem [OF ok(1), of "last rs"] by (cases bs rule: rev_cases) (auto simp: range_set_def)
    qed
  qed
  then show "length rs < kMaxTrackedRanges \<Longrightarrow> ack_set (ack_record rs pn) = insert (unat pn) (ack_set rs)"
    and "ack_set (ack_record rs pn) \<subseteq> insert (unat pn) (ack_set rs)"
    and "rs \<noteq> [] \<Longrightarrow> q \<in> insert (unat pn) (ack_set rs) \<Longrightarrow> unat (rg_end (last rs)) < q \<Longrightarrow>
      q \<in> ack_set (ack_record rs pn)" by blast+
qed

section \<open>The frame and its walk\<close>

lemma walk_build_gaps:
  assumes "ack_ranges_ok (r # rs)"
  shows "walk_ack_ranges (rg_start r) (build_gaps (rg_start r) rs) = map (\<lambda>r. (rg_start r, rg_end r)) rs \<and>
    list_all (\<lambda>r. ar_gap r \<le> kVarIntMax \<and> ar_length r \<le> kVarIntMax) (build_gaps (rg_start r) rs)"
  using assms
proof (induction rs arbitrary: r)
  case (Cons s rs)
  have b: "unat (rg_start s) \<le> unat (rg_end s)" "unat (rg_end s) < 2 ^ 62"
    "unat (rg_end s) + 1 < unat (rg_start r)" "unat (rg_start r) < 2 ^ 62"
    using Cons.prems by auto
  let ?g = "rg_start r - rg_end s - 2"
  have g1: "unat (rg_start r - rg_end s) = unat (rg_start r) - unat (rg_end s)"
    using b by (simp add: unat_sub_small word_le_nat_alt)
  then have g: "unat ?g = unat (rg_start r) - unat (rg_end s) - 2"
    using b by (simp add: unat_sub_small word_le_nat_alt)
  have l: "unat (rg_end s - rg_start s) = unat (rg_end s) - unat (rg_start s)"
    using b(1) by (simp add: unat_sub_small word_le_nat_alt)
  have n: "\<not> rg_start r < ?g + 2" "\<not> rg_end s < rg_end s - rg_start s"
    using b g1 l by (simp_all add: word_less_nat_alt)
  have "?g \<le> kVarIntMax" "rg_end s - rg_start s \<le> kVarIntMax"
    using g l b by (simp_all add: word_le_nat_alt)
  then show ?case
    using Cons.IH [of s] Cons.prems n by simp
qed simp

lemma length_build_gaps [simp]: "length (build_gaps p rs) = length rs"
  by (induction rs arbitrary: p) simp_all

lemma build_ack_frame_walk:
  assumes "ack_inv rs" "rs \<noteq> []" "delay \<le> kVarIntMax"
  obtains ack where "build_ack_frame rs delay = Some ack"
    "ack_intervals ack = map (\<lambda>r. (rg_start r, rg_end r)) rs"
    "ack_frame_parse (tl (ack_frame_serialize ack) @ rest) False = Parsed ack (length (tl (ack_frame_serialize ack)))"
    "af_first_ack_range ack \<le> af_largest_acked ack"
proof -
  obtain r rs' where rs: "rs = r # rs'" using assms(2) by (cases rs) auto
  have ok: "ack_ranges_ok (r # rs')" "length rs' < kMaxAckRanges"
    using assms(1) by (auto simp: ack_inv_def rs kMaxTrackedRanges_def)
  have d: "unat (rg_end r - rg_start r) = unat (rg_end r) - unat (rg_start r)"
    using ok(1) by (simp add: unat_sub_small word_le_nat_alt)
  have b: "unat (rg_end r) - unat (rg_start r) \<le> 4611686018427387903" using ok(1) by auto
  obtain ack where ack: "build_ack_frame rs delay = Some ack" by (simp add: build_ack_frame_def rs)
  then have e: "ack = \<lparr>af_largest_acked = rg_end r, af_ack_delay = delay,
          af_first_ack_range = rg_end r - rg_start r,
          af_ranges = build_gaps (rg_start r) rs', af_has_ecn = False,
          af_ect0 = 0, af_ect1 = 0, af_ecn_ce = 0\<rparr>" by (simp add: build_ack_frame_def rs)
  have "ack_frame_parse (tl (ack_frame_serialize ack) @ rest) (af_has_ecn ack) =
      Parsed ack (length (tl (ack_frame_serialize ack)))"
    by (rule ack_frame_parse_serialize)
      (use e assms(3) d b ok walk_build_gaps [OF ok(1)] in \<open>simp_all add: word_le_nat_alt\<close>)
  moreover have "ack_intervals ack = map (\<lambda>r. (rg_start r, rg_end r)) rs"
    by (simp add: ack_intervals_def e rs walk_build_gaps [OF ok(1)])
  moreover have "af_first_ack_range ack \<le> af_largest_acked ack"
    by (simp add: e word_le_nat_alt d)
  ultimately show thesis using that ack e by simp
qed

section \<open>Size of the frame\<close>

lemma varint_encoded_size_le_8: "varint_encoded_size v \<le> 8"
  by (simp add: varint_encoded_size_def)

lemma length_ack_ranges_le: "length (concat (map ack_range_bytes rs)) \<le> 16 * length rs"
proof (induction rs)
  case (Cons r rs)
  show ?case
    using Cons.IH varint_encoded_size_le_8 [of "ar_gap r"] varint_encoded_size_le_8 [of "ar_length r"]
    by (simp add: ack_range_bytes_def [of r] del: length_concat)
qed simp

lemma length_maybe_append_ack_le:
  "length (snd (maybe_append_ack pending rs cap)) \<le> 33 + 16 * (length rs - 1)"
proof -
  have "length (ack_frame_serialize f) \<le> 33 + 16 * length (af_ranges f)" if "\<not> af_has_ecn f" for f
    using that length_ack_ranges_le [of "af_ranges f"] varint_encoded_size_le_8 [of "af_largest_acked f"]
      varint_encoded_size_le_8 [of "af_ack_delay f"] varint_encoded_size_le_8 [of "af_first_ack_range f"]
      varint_encoded_size_le_8 [of "of_nat (length (af_ranges f))"]
    by (simp add: ack_frame_serialize_def ecn_bytes_def del: length_concat)
  note len = this
  show ?thesis
  proof (cases rs)
    case (Cons r rs')
    then show ?thesis
      using len [of "the (build_ack_frame rs 0)"] by (simp add: maybe_append_ack_def build_ack_frame_def)
  qed (simp add: maybe_append_ack_def build_ack_frame_def)
qed

text \<open>Packet numbers that arrive at a distance: each opens a range of its own.\<close>

definition spaced_ranges :: "nat \<Rightarrow> Range list" where
  "spaced_ranges n = map (\<lambda>i. \<lparr>rg_start = of_nat (i * 2 ^ 31), rg_end = of_nat (i * 2 ^ 31)\<rparr>) (rev [0..<n])"

lemma spaced_ranges_Suc:
  "spaced_ranges (Suc m) = \<lparr>rg_start = of_nat (m * 2 ^ 31), rg_end = of_nat (m * 2 ^ 31)\<rparr> # spaced_ranges m"
  by (simp add: spaced_ranges_def)

lemma foldl_record_spaced:
  assumes "n \<le> kMaxTrackedRanges"
  shows "foldl ack_record [] (map (\<lambda>i. of_nat (i * 2 ^ 31)) [0..<n]) = spaced_ranges n"
  using assms
proof (induction n)
  case 0
  then show ?case by (simp add: spaced_ranges_def)
next
  case (Suc n)
  then have n: "n < 256" by (simp add: kMaxTrackedRanges_def kMaxAckRanges_def)
  have u: "unat (of_nat (i * 2 ^ 31) :: u64) = i * 2 ^ 31" if "i < 256" for i
    using that by (simp add: unat_of_nat del: of_nat_mult)
  have "ack_record (spaced_ranges n) (of_nat (n * 2 ^ 31)) =
    \<lparr>rg_start = of_nat (n * 2 ^ 31), rg_end = of_nat (n * 2 ^ 31)\<rparr> # spaced_ranges n"
  proof (cases n)
    case 0
    then show ?thesis by (simp add: spaced_ranges_def ack_record_def insert_at_def kMaxTrackedRanges_def kMaxAckRanges_def)
  next
    case (Suc m)
    note sp = spaced_ranges_Suc [of m, folded Suc]
    have lt: "(of_nat (m * 2 ^ 31) :: u64) < of_nat (n * 2 ^ 31)" "of_nat (n * 2 ^ 31) \<noteq> (of_nat (m * 2 ^ 31) + 1 :: u64)"
      using u [of m] u [of n] n Suc by (simp_all add: word_less_nat_alt word_unat_eq_iff unat_add_small del: of_nat_mult)
    have "length (spaced_ranges n) \<noteq> kMaxTrackedRanges"
      using n by (simp add: spaced_ranges_def kMaxTrackedRanges_def kMaxAckRanges_def)
    then show ?thesis
      using lt by (auto simp: sp ack_record_def insert_at_def simp del: of_nat_mult)
  qed
  with Suc show ?case by (simp add: spaced_ranges_def del: of_nat_mult)
qed

lemma length_spaced_ack_ranges:
  "length (concat (map ack_range_bytes (build_gaps (of_nat (n * 2 ^ 31)) (spaced_ranges n)))) = 9 * n"
proof (induction n)
  case (Suc m)
  have g: "of_nat (Suc m * 2 ^ 31) - of_nat (m * 2 ^ 31) - 2 = (0x7FFFFFFE :: u64)"
    by (simp add: distrib_right)
  have "length (ack_range_bytes \<lparr>ar_gap = 0x7FFFFFFE, ar_length = 0\<rparr>) = 9"
    by (simp add: ack_range_bytes_def varint_encoded_size_def varint_consts)
  then show ?case
    using Suc.IH by (simp add: spaced_ranges_Suc g del: of_nat_mult length_concat power_numeral mult_Suc)
qed (simp add: spaced_ranges_def)

section \<open>Properties\<close>

text \<open>
  C23. The received-packet tracker is a set of packet numbers: recording a number keeps the ranges
  non-empty, strictly descending, non-adjacent and at most 256, and adds exactly that number
  while there is room. When all 256 ranges are in use nothing is ever added that was not
  received, and only numbers of the lowest range may be forgotten.
\<close>

theorem ack_record_correct:
  assumes "ack_inv rs" "unat pn < 2 ^ 62"
  shows "ack_inv (ack_record rs pn) \<and>
    (length rs < kMaxTrackedRanges \<longrightarrow> ack_set (ack_record rs pn) = insert (unat pn) (ack_set rs)) \<and>
    ack_set (ack_record rs pn) \<subseteq> insert (unat pn) (ack_set rs) \<and>
    (\<forall>q \<in> insert (unat pn) (ack_set rs). rs \<noteq> [] \<and> unat (rg_end (last rs)) < q \<longrightarrow> q \<in> ack_set (ack_record rs pn))"
  using ack_record_inv [OF assms] ack_record_set [OF assms] by blast

theorem ack_record_correct_witness:
  "ack_record [\<lparr>rg_start = 7, rg_end = 9\<rparr>, \<lparr>rg_start = 2, rg_end = 5\<rparr>] 6 = [\<lparr>rg_start = 2, rg_end = 9\<rparr>] \<and>
   ack_set (ack_record [\<lparr>rg_start = 7, rg_end = 9\<rparr>, \<lparr>rg_start = 2, rg_end = 5\<rparr>] 6) =
     insert 6 (ack_set [\<lparr>rg_start = 7, rg_end = 9\<rparr>, \<lparr>rg_start = 2, rg_end = 5\<rparr>])"
proof -
  let ?rs = "[\<lparr>rg_start = 7, rg_end = 9\<rparr>, \<lparr>rg_start = 2, rg_end = 5\<rparr>]"
  have "ack_inv ?rs" "unat (6 :: u64) < 2 ^ 62" "length ?rs < kMaxTrackedRanges"
    by (simp_all add: ack_inv_def kMaxTrackedRanges_def kMaxAckRanges_def)
  moreover have "ack_record ?rs 6 = [\<lparr>rg_start = 2, rg_end = 9\<rparr>]" by code_simp
  ultimately show ?thesis using ack_record_correct [of ?rs 6] by simp
qed

text \<open>
  C22. What the peer learns from an ACK is what was received: for a tracker in its invariant, the
  frame built, serialized, and parsed by the peer's ACK parser is the same frame, passes the
  peer's check of its first range, and the peer's walk over it marks exactly the tracker's ranges,
  hence exactly the recorded packet numbers.
\<close>

theorem ack_frame_reports_tracker:
  assumes "ack_inv rs" "rs \<noteq> []" "delay \<le> kVarIntMax"
  shows "\<exists>ack body. build_ack_frame rs delay = Some ack \<and>
    ack_frame_serialize ack = frame_type_code FtAck # body \<and>
    ack_frame_parse (body @ rest) False = Parsed ack (length body) \<and>
    af_first_ack_range ack \<le> af_largest_acked ack \<and>
    (\<Union>(lo, hi) \<in> set (ack_intervals ack). {unat lo..unat hi}) = ack_set rs"
proof -
  obtain ack where ack: "build_ack_frame rs delay = Some ack"
    "ack_intervals ack = map (\<lambda>r. (rg_start r, rg_end r)) rs"
    "ack_frame_parse (tl (ack_frame_serialize ack) @ rest) False = Parsed ack (length (tl (ack_frame_serialize ack)))"
    "af_first_ack_range ack \<le> af_largest_acked ack"
    by (rule build_ack_frame_walk [OF assms])
  have "ack_frame_serialize ack = frame_type_code FtAck # tl (ack_frame_serialize ack)"
    using ack(1) by (auto simp: ack_frame_serialize_def build_ack_frame_def split: list.splits)
  moreover have "(\<Union>(lo, hi) \<in> set (ack_intervals ack). {unat lo..unat hi}) = ack_set rs"
    by (simp add: ack(2) ack_set_def range_set_def)
  ultimately show ?thesis using ack(1,3,4) by blast
qed

theorem ack_frame_reports_tracker_witness:
  "\<exists>ack body. build_ack_frame [\<lparr>rg_start = 7, rg_end = 9\<rparr>, \<lparr>rg_start = 2, rg_end = 5\<rparr>] 0 = Some ack \<and>
    ack_frame_parse (body @ [1]) False = Parsed ack (length body)"
  using ack_frame_reports_tracker [of "[\<lparr>rg_start = 7, rg_end = 9\<rparr>, \<lparr>rg_start = 2, rg_end = 5\<rparr>]" 0 "[1]"]
  by (auto simp: ack_inv_def kMaxTrackedRanges_def kMaxAckRanges_def)

text \<open>
  C33. The room check before an ACK is written is not enough. \<^verbatim>\<open>maybe_append_ack\<close> only asks for 64
  free bytes, but 256 packet numbers received 2^31 apart (each within the reach of a four byte
  packet number) leave a tracker whose ACK takes more than the 1400 bytes of the whole payload
  buffer it is written to. The size is bounded, but by the number of tracked ranges:
  33 bytes and 16 for every further range.
\<close>

theorem ack_exceeds_payload_buffer:
  "1400 < length (snd (maybe_append_ack True
      (foldl ack_record [] (map (\<lambda>i. of_nat (i * 2 ^ 31)) [0..<256])) 1400)) \<and>
   length (snd (maybe_append_ack pending rs cap)) \<le> 33 + 16 * (length rs - 1)"
proof -
  have "foldl ack_record [] (map (\<lambda>i. of_nat (i * 2 ^ 31)) [0..<256]) = spaced_ranges 256"
    by (rule foldl_record_spaced) (simp add: kMaxTrackedRanges_def kMaxAckRanges_def)
  moreover have "spaced_ranges 256 =
      \<lparr>rg_start = of_nat (255 * 2 ^ 31), rg_end = of_nat (255 * 2 ^ 31)\<rparr> # spaced_ranges 255"
    using spaced_ranges_Suc [of 255] by (simp del: of_nat_mult)
  ultimately show ?thesis
    using length_spaced_ack_ranges [of 255] length_maybe_append_ack_le
    by (simp add: maybe_append_ack_def build_ack_frame_def ack_frame_serialize_def ecn_bytes_def
        del: length_concat of_nat_mult)
qed

end
