(* ===== verification/Quic_Extents.thy ===== *)
theory Quic_Extents
  imports Bolt_Prelude
begin

text \<open>
  The bounded set of byte extents a QUIC stream keeps above a contiguous cursor
  (\<^verbatim>\<open>Stream::ExtentSet\<close> of \<^verbatim>\<open>include/boltapi/quic/stream.h\<close>), on both sides of a stream:
  received spans above a gap, and acknowledged spans above the lowest unacknowledged byte. The
  array with its counter is a list in the array's order. Offsets are naturals: every offset the
  source passes in is at most \<open>2 ^ 62\<close>, so its 64 bit arithmetic does not wrap.

  The interface the two clients rely on is the locale \<^verbatim>\<open>extent_tracker\<close>; it is interpreted
  on the model of the code below.
\<close>

definition kMaxRecvExtents :: nat where "kMaxRecvExtents = 32"

record Extent =
  ex_start :: nat
  ex_end :: nat

type_synonym ExtentSet = "Extent list"

text \<open>The scan for the first extent that overlaps or touches \<open>[s, e)\<close>, widening it in place.\<close>

fun ext_merge :: "nat \<Rightarrow> nat \<Rightarrow> ExtentSet \<Rightarrow> ExtentSet option" where
  "ext_merge s e [] = None"
| "ext_merge s e (x # xs) =
     (if s \<le> ex_end x \<and> e \<ge> ex_start x
      then Some (\<lparr>ex_start = (if s < ex_start x then s else ex_start x),
                  ex_end = (if e > ex_end x then e else ex_end x)\<rparr> # xs)
      else map_option ((#) x) (ext_merge s e xs))"

definition ext_add :: "nat \<Rightarrow> nat \<Rightarrow> ExtentSet \<Rightarrow> ExtentSet option" where
  "ext_add s e es =
     (case ext_merge s e es of
        Some es' \<Rightarrow> Some es'
      | None \<Rightarrow> if length es \<ge> kMaxRecvExtents then None
                else Some (es @ [\<lparr>ex_start = s, ex_end = e\<rparr>]))"

text \<open>One round of \<^verbatim>\<open>absorb\<close>: the first extent the cursor reaches is dropped, the last extent
  taking its slot.\<close>

fun find_reached :: "nat \<Rightarrow> ExtentSet \<Rightarrow> nat option" where
  "find_reached cursor [] = None"
| "find_reached cursor (x # xs) =
     (if ex_start x \<le> cursor then Some 0 else map_option Suc (find_reached cursor xs))"

fun absorb_rounds :: "nat \<Rightarrow> ExtentSet \<Rightarrow> nat \<Rightarrow> ExtentSet \<times> nat" where
  "absorb_rounds 0 es cursor = (es, cursor)"
| "absorb_rounds (Suc n) es cursor =
     (case find_reached cursor es of
        None \<Rightarrow> (es, cursor)
      | Some i \<Rightarrow> absorb_rounds n (butlast (es[i := last es]))
                   (if ex_end (es ! i) > cursor then ex_end (es ! i) else cursor))"

definition ext_absorb :: "ExtentSet \<Rightarrow> nat \<Rightarrow> ExtentSet \<times> nat" where
  "ext_absorb es cursor = absorb_rounds (kMaxRecvExtents + 1) es cursor"

section \<open>The interface\<close>

text \<open>
  What a stream relies on: adding a span adds exactly its offsets (or is refused and changes
  nothing), and absorbing moves the cursor to the end of what is contiguous: nothing covered is
  lost and the new cursor is not covered, all that is left lies strictly above it.
\<close>

locale extent_tracker =
  fixes empty :: 'e
    and ok :: "'e \<Rightarrow> bool"
    and cover :: "'e \<Rightarrow> nat set"
    and add :: "nat \<Rightarrow> nat \<Rightarrow> 'e \<Rightarrow> 'e option"
    and absorb :: "'e \<Rightarrow> nat \<Rightarrow> 'e \<times> nat"
  assumes empty_ok: "ok empty" "cover empty = {}"
    and add_ok: "ok es \<Longrightarrow> s < e \<Longrightarrow> add s e es = Some es' \<Longrightarrow> ok es' \<and> cover es' = cover es \<union> {s..<e}"
    and absorb_ok: "ok es \<Longrightarrow> absorb es c = (es', c') \<Longrightarrow>
      ok es' \<and> c \<le> c' \<and> {..<c'} \<union> cover es' = {..<c} \<union> cover es \<and> cover es' \<subseteq> {c'<..}"
begin

text \<open>The cursor after an absorb is the first offset that is neither below it nor covered.\<close>

lemma absorb_least_missing:
  assumes "ok es" "absorb es c = (es', c')"
  shows "c' = (LEAST x. x \<notin> {..<c} \<union> cover es)"
proof -
  have *: "{..<c'} \<union> cover es' = {..<c} \<union> cover es" "cover es' \<subseteq> {c'<..}"
    using absorb_ok [OF assms] by blast+
  show ?thesis
  proof (rule Least_equality [symmetric])
    show "c' \<notin> {..<c} \<union> cover es" using * by (metis UnE greaterThan_iff lessThan_iff nless_le subsetD)
    show "c' \<le> y" if "y \<notin> {..<c} \<union> cover es" for y
      using that * by (metis UnI1 lessThan_iff linorder_not_le)
  qed
qed

text \<open>Adding a span at or below the cursor and absorbing covers the same offsets as before.\<close>

lemma add_absorb_cover:
  assumes "ok es" "s < e" "add s e es = Some es1" "absorb es1 c = (es', c')"
  shows "{..<c'} \<union> cover es' = {..<c} \<union> cover es \<union> {s..<e}"
  using add_ok [OF assms(1,2,3)] absorb_ok [OF _ assms(4)] by blast

end

section \<open>The code provides it\<close>

definition ext_cover :: "ExtentSet \<Rightarrow> nat set" where
  "ext_cover es = (\<Union>x \<in> set es. {ex_start x..<ex_end x})"

definition ext_ok :: "ExtentSet \<Rightarrow> bool" where
  "ext_ok es \<longleftrightarrow> length es \<le> kMaxRecvExtents \<and> list_all (\<lambda>x. ex_start x < ex_end x) es"

lemma ext_cover_simps [simp]:
  "ext_cover [] = {}" "ext_cover (x # xs) = {ex_start x..<ex_end x} \<union> ext_cover xs"
  "ext_cover (xs @ ys) = ext_cover xs \<union> ext_cover ys"
  by (auto simp: ext_cover_def)

lemma ext_merge_ok:
  assumes "ext_merge s e es = Some es'" "s < e" "list_all (\<lambda>x. ex_start x < ex_end x) es"
  shows "list_all (\<lambda>x. ex_start x < ex_end x) es' \<and> ext_cover es' = ext_cover es \<union> {s..<e} \<and> length es' = length es"
  using assms by (induction es arbitrary: es') (auto split: if_splits)

lemma ext_add_ok:
  assumes "ext_ok es" "s < e" "ext_add s e es = Some es'"
  shows "ext_ok es' \<and> ext_cover es' = ext_cover es \<union> {s..<e}"
  using assms ext_merge_ok [of s e es]
  by (auto simp: ext_add_def ext_ok_def split: option.splits if_splits)

lemma find_reached_Some:
  "find_reached c es = Some i \<Longrightarrow> i < length es \<and> ex_start (es ! i) \<le> c"
  by (induction es arbitrary: i) (auto split: if_splits)

lemma find_reached_None:
  "find_reached c es = None \<longleftrightarrow> (\<forall>x \<in> set es. c < ex_start x)"
  by (induction es) auto

lemma set_drop_slot:
  assumes "i < length es"
  shows "insert (es ! i) (set (butlast (es[i := last es]))) = set es"
    and "set (butlast (es[i := last es])) \<subseteq> set es"
    and "length (butlast (es[i := last es])) = length es - 1"
proof -
  obtain ys y where es: "es = ys @ [y]" using assms by (cases es rule: rev_cases) auto
  have "i < length ys \<or> i = length ys" using assms es by auto
  moreover have "set (ys[i := y]) \<union> {ys ! i} = insert y (set ys)" if "i < length ys"
    using that by (auto simp: in_set_conv_nth nth_list_update set_update_subset_insert [THEN subsetD]) metis+
  ultimately show "insert (es ! i) (set (butlast (es[i := last es]))) = set es"
    by (auto simp: es nth_append list_update_append)
  then show "set (butlast (es[i := last es])) \<subseteq> set es" by blast
  show "length (butlast (es[i := last es])) = length es - 1" by simp
qed

lemma absorb_rounds_ok:
  assumes "length es < n" "list_all (\<lambda>x. ex_start x < ex_end x) es" "absorb_rounds n es c = (es', c')"
  shows "list_all (\<lambda>x. ex_start x < ex_end x) es' \<and> length es' \<le> length es \<and> c \<le> c' \<and>
    {..<c'} \<union> ext_cover es' = {..<c} \<union> ext_cover es \<and> ext_cover es' \<subseteq> {c'<..}"
  using assms
proof (induction n es c rule: absorb_rounds.induct)
  case (2 n es c)
  show ?case
  proof (cases "find_reached c es")
    case None
    with 2 show ?thesis by (force simp: find_reached_None ext_cover_def)
  next
    case (Some i)
    define es1 where "es1 = butlast (es[i := last es])"
    define c1 where "c1 = (if ex_end (es ! i) > c then ex_end (es ! i) else c)"
    note i = find_reached_Some [OF Some]
    note d = set_drop_slot [OF conjunct1 [OF i], folded es1_def]
    have l: "length es1 < n" using d(3) 2(2) i by auto
    have ok: "list_all (\<lambda>x. ex_start x < ex_end x) es1" using 2(3) d(2) by (auto simp: list_all_iff)
    have r: "absorb_rounds n es1 c1 = (es', c')" using 2(4) Some by (simp add: es1_def c1_def)
    have IH: "list_all (\<lambda>x. ex_start x < ex_end x) es' \<and> length es' \<le> length es1 \<and> c1 \<le> c' \<and>
      {..<c'} \<union> ext_cover es' = {..<c1} \<union> ext_cover es1 \<and> ext_cover es' \<subseteq> {c'<..}"
      using 2(1) [OF Some] l ok r unfolding es1_def c1_def by blast
    have "ext_cover es = {ex_start (es ! i)..<ex_end (es ! i)} \<union> ext_cover es1"
      unfolding ext_cover_def by (simp flip: d(1))
    moreover have "{..<c} \<union> {ex_start (es ! i)..<ex_end (es ! i)} = {..<c1}"
      using i by (auto simp: c1_def)
    ultimately have "{..<c1} \<union> ext_cover es1 = {..<c} \<union> ext_cover es"
      by (simp add: Un_assoc [symmetric])
    moreover have "c \<le> c1" by (simp add: c1_def)
    ultimately show ?thesis using IH d(3) by auto
  qed
qed simp

lemma ext_absorb_ok:
  assumes "ext_ok es" "ext_absorb es c = (es', c')"
  shows "ext_ok es' \<and> c \<le> c' \<and> {..<c'} \<union> ext_cover es' = {..<c} \<union> ext_cover es \<and> ext_cover es' \<subseteq> {c'<..}"
  using absorb_rounds_ok [of es "kMaxRecvExtents + 1" c es' c'] assms
  by (auto simp: ext_absorb_def ext_ok_def)

interpretation extents: extent_tracker "[]" ext_ok ext_cover ext_add ext_absorb
proof unfold_locales
  show "ext_ok []" "ext_cover [] = {}" by (simp_all add: ext_ok_def)
  show "ext_ok es' \<and> ext_cover es' = ext_cover es \<union> {s..<e}"
    if "ext_ok es" "s < e" "ext_add s e es = Some es'" for es s e es'
    using that by (rule ext_add_ok)
  show "ext_ok es' \<and> c \<le> c' \<and> {..<c'} \<union> ext_cover es' = {..<c} \<union> ext_cover es \<and> ext_cover es' \<subseteq> {c'<..}"
    if "ext_ok es" "ext_absorb es c = (es', c')" for es c es' c'
    using that by (rule ext_absorb_ok)
qed

text \<open>The extents of a set may overlap: only the first overlapping extent is widened.\<close>

lemma ext_add_leaves_overlap:
  "ext_add 1 5 [\<lparr>ex_start = 0, ex_end = 2\<rparr>, \<lparr>ex_start = 4, ex_end = 6\<rparr>] =
     Some [\<lparr>ex_start = 0, ex_end = 5\<rparr>, \<lparr>ex_start = 4, ex_end = 6\<rparr>]"
  by (simp add: ext_add_def)

end
