(* ===== verification/Quic_Stream.thy ===== *)
theory Quic_Stream
  imports Quic_Frames Quic_Extents
begin

text \<open>
  QUIC streams (\<^verbatim>\<open>include/boltapi/quic/stream.h\<close>): the flow control windows, the send ring
  with its acknowledged extents and pending bytes, the receive ring with ordered reassembly,
  and the flow control frame serializers. A ring is a memory, a function from index to byte,
  which \<^verbatim>\<open>memcpy\<close> updates; offsets are naturals. The source's 64 bit offsets stay below
  \<open>2 ^ 62 + 2 ^ 18\<close> (\<^verbatim>\<open>receive\<close> refuses anything larger, and the invariant keeps every cursor
  below what was received), and the differences the source takes are never negative under
  the invariant, so naturals compute what the source computes.
\<close>

definition kStreamBufferSize :: nat where "kStreamBufferSize = 256 * 1024"
definition kMaxStreams :: nat where "kMaxStreams = 64"
definition kStreamInitiatorBit :: u64 where "kStreamInitiatorBit = 0x1"
definition kStreamDirBit :: u64 where "kStreamDirBit = 0x2"

definition stream_is_client_initiated :: "u64 \<Rightarrow> bool" where
  "stream_is_client_initiated i = (i AND kStreamInitiatorBit = 0)"

definition stream_is_server_initiated :: "u64 \<Rightarrow> bool" where
  "stream_is_server_initiated i = (i AND kStreamInitiatorBit \<noteq> 0)"

definition stream_is_bidi :: "u64 \<Rightarrow> bool" where
  "stream_is_bidi i = (i AND kStreamDirBit = 0)"

definition stream_is_uni :: "u64 \<Rightarrow> bool" where
  "stream_is_uni i = (i AND kStreamDirBit \<noteq> 0)"

definition make_stream_id :: "u64 \<Rightarrow> bool \<Rightarrow> bool \<Rightarrow> u64" where
  "make_stream_id seq server uni =
     (let low = (if server then kStreamInitiatorBit else 0) OR (if uni then kStreamDirBit else 0)
      in push_bit 2 seq OR low)"

datatype SendState = SsReady | SsSend | SsDataSent | SsResetSent | SsResetRecvd
datatype RecvState = RsRecv | RsSizeKnown | RsDataRecvd | RsResetRecvd

section \<open>Flow control windows\<close>

record StreamFlow =
  send_max :: nat
  send_off :: nat
  recv_max :: nat
  recv_high :: nat

definition can_send :: "StreamFlow \<Rightarrow> nat \<Rightarrow> bool" where
  "can_send f bytes = (send_off f + bytes \<le> send_max f)"

definition send_window :: "StreamFlow \<Rightarrow> nat" where
  "send_window f = (if send_off f < send_max f then send_max f - send_off f else 0)"

definition recv_ok :: "StreamFlow \<Rightarrow> nat \<Rightarrow> bool" where
  "recv_ok f end_off = (end_off \<le> recv_max f)"

section \<open>Rings\<close>

type_synonym ring = "nat \<Rightarrow> byte"

definition memcpy :: "nat \<Rightarrow> byte list \<Rightarrow> ring \<Rightarrow> ring" where
  "memcpy dst src m = (\<lambda>i. if dst \<le> i \<and> i < dst + length src then src ! (i - dst) else m i)"

text \<open>The wrapping copy of both rings: up to the physical end, then from the start.\<close>

definition ring_copy :: "nat \<Rightarrow> nat \<Rightarrow> byte list \<Rightarrow> ring \<Rightarrow> ring" where
  "ring_copy cap at data m =
     (let n = length data; pos = at mod cap;
          first = (if n < cap - pos then n else cap - pos);
          m = (if first > 0 then memcpy pos (take first data) m else m)
      in if n > first then memcpy 0 (drop first data) m else m)"

section \<open>The stream\<close>

record Stream =
  st_id :: u64
  in_use :: bool
  bidi :: bool
  send_st :: SendState
  recv_st :: RecvState
  flow :: StreamFlow
  send_buf :: ring
  send_base :: nat
  send_end :: nat
  send_sent :: nat
  flow_counted :: nat
  ack_ext :: ExtentSet
  want_fin :: bool
  fin_sent :: bool
  fin_acked :: bool
  pending :: "byte list"
  pending_off :: nat
  pending_fin :: bool
  recv_buf :: ring
  recv_cursor :: nat
  read_cursor :: nat
  fin_off :: nat
  have_fin :: bool
  fin_notified :: bool
  window_dirty :: bool
  recv_reset :: bool
  recv_ext :: ExtentSet

definition flow_init :: StreamFlow where
  "flow_init = \<lparr>send_max = 0, send_off = 0, recv_max = 0, recv_high = 0\<rparr>"

text \<open>A free slot with its rings attached: what the default constructor and
  \<^verbatim>\<open>attach_buffers\<close> leave.\<close>

definition attach_buffers :: "ring \<Rightarrow> ring \<Rightarrow> Stream" where
  "attach_buffers send_ring recv_ring =
     \<lparr>st_id = 0, in_use = False, bidi = True, send_st = SsReady, recv_st = RsRecv, flow = flow_init,
      send_buf = send_ring, send_base = 0, send_end = 0, send_sent = 0, flow_counted = 0,
      ack_ext = [], want_fin = False, fin_sent = False, fin_acked = False,
      pending = [], pending_off = 0, pending_fin = False,
      recv_buf = recv_ring, recv_cursor = 0, read_cursor = 0, fin_off = 0, have_fin = False,
      fin_notified = False, window_dirty = False, recv_reset = False, recv_ext = []\<rparr>"

definition open_stream :: "u64 \<Rightarrow> nat \<Rightarrow> nat \<Rightarrow> Stream \<Rightarrow> Stream" where
  "open_stream i init_send_max init_recv_max s =
     s\<lparr>st_id := i, in_use := True, send_st := SsReady, recv_st := RsRecv,
       flow := flow_init\<lparr>send_max := init_send_max, recv_max := init_recv_max\<rparr>,
       bidi := stream_is_bidi i\<rparr>"

definition release :: "Stream \<Rightarrow> Stream" where
  "release s =
     s\<lparr>pending := [], st_id := 0, in_use := False, bidi := True, send_st := SsReady, recv_st := RsRecv,
       flow := flow_init, send_base := 0, send_end := 0, send_sent := 0, flow_counted := 0,
       ack_ext := [], want_fin := False, fin_sent := False, fin_acked := False,
       pending_off := 0, pending_fin := False, recv_cursor := 0, read_cursor := 0, fin_off := 0,
       have_fin := False, fin_notified := False, window_dirty := False, recv_reset := False,
       recv_ext := []\<rparr>"

subsection \<open>Sending\<close>

definition pending_empty :: "Stream \<Rightarrow> bool" where
  "pending_empty s = (pending_off s \<ge> length (pending s) \<and> \<not> pending_fin s)"

definition pending_bytes :: "Stream \<Rightarrow> nat" where
  "pending_bytes s = length (pending s) - pending_off s"

definition ring_put :: "byte list \<Rightarrow> Stream \<Rightarrow> nat \<times> Stream" where
  "ring_put data s =
     (let space = kStreamBufferSize - (send_end s - send_base s);
          n = (if length data < space then length data else space)
      in (n, s\<lparr>send_buf := ring_copy kStreamBufferSize (send_end s) (take n data) (send_buf s),
               send_end := send_end s + n\<rparr>))"

definition stream_write :: "byte list \<Rightarrow> bool \<Rightarrow> Stream \<Rightarrow> nat \<times> Stream" where
  "stream_write data fin s =
     (if \<not> pending_empty s then (0, s)
      else case ring_put data s of (n, s) \<Rightarrow>
        let s = (if fin \<and> n = length data then s\<lparr>want_fin := True\<rparr> else s);
            s = (if send_st s = SsReady \<and> (n > 0 \<or> want_fin s) then s\<lparr>send_st := SsSend\<rparr> else s)
        in (n, s))"

definition refill :: "Stream \<Rightarrow> nat \<times> Stream" where
  "refill s =
     (if pending_empty s then (0, s)
      else case ring_put (drop (pending_off s) (pending s)) s of (n, s) \<Rightarrow>
        let s = s\<lparr>pending_off := pending_off s + n\<rparr>
        in if pending_off s = length (pending s)
           then (n, s\<lparr>want_fin := (if pending_fin s then True else want_fin s),
                      pending_fin := False, pending := [], pending_off := 0\<rparr>)
           else (n, s))"

definition write_owned :: "byte list \<Rightarrow> bool \<Rightarrow> Stream \<Rightarrow> Stream" where
  "write_owned body fin s =
     (let s = s\<lparr>pending := body, pending_off := 0, pending_fin := fin\<rparr>;
          s = (if send_st s = SsReady then s\<lparr>send_st := SsSend\<rparr> else s)
      in snd (refill s))"

definition send_space :: "Stream \<Rightarrow> nat" where
  "send_space s = (if \<not> pending_empty s then 0 else kStreamBufferSize - (send_end s - send_base s))"

definition unsent :: "Stream \<Rightarrow> nat" where
  "unsent s = send_end s - send_sent s"

definition fin_pending :: "Stream \<Rightarrow> bool" where
  "fin_pending s = (want_fin s \<and> \<not> fin_sent s)"

definition has_send_work :: "Stream \<Rightarrow> bool" where
  "has_send_work s = (unsent s > 0 \<or> fin_pending s)"

text \<open>The next chunk to frame: its offset, its bytes in the ring, and whether it carries FIN.\<close>

definition peek_unsent :: "nat \<Rightarrow> Stream \<Rightarrow> bool \<times> nat \<times> byte list \<times> bool" where
  "peek_unsent cap s =
     (let pos = send_sent s mod kStreamBufferSize;
          avail = unsent s;
          avail = (if avail > kStreamBufferSize - pos then kStreamBufferSize - pos else avail);
          len = (if avail < cap then avail else cap)
      in (len > 0 \<or> (want_fin s \<and> \<not> fin_sent s),
          send_sent s,
          map (\<lambda>i. send_buf s (pos + i)) [0..<len],
          want_fin s \<and> send_sent s + len = send_end s))"

definition mark_sent :: "nat \<Rightarrow> bool \<Rightarrow> Stream \<Rightarrow> nat \<times> Stream" where
  "mark_sent len fin s =
     (let new_end = send_sent s + len;
          (fresh, s) = (if new_end > flow_counted s
                        then (new_end - flow_counted s, s\<lparr>flow_counted := new_end\<rparr>) else (0, s));
          s = s\<lparr>send_sent := new_end\<rparr>;
          s = (if send_sent s > send_off (flow s) then s\<lparr>flow := (flow s)\<lparr>send_off := send_sent s\<rparr>\<rparr> else s);
          s = (if fin then s\<lparr>fin_sent := True, send_st := SsDataSent\<rparr> else s)
      in (fresh, s))"

definition rewind_sent :: "nat \<Rightarrow> bool \<Rightarrow> Stream \<Rightarrow> Stream" where
  "rewind_sent off fin_was_sent s =
     (let off = (if off < send_base s then send_base s else off);
          off = (if off > send_end s then send_end s else off);
          s = (if off < send_sent s then s\<lparr>send_sent := off\<rparr> else s);
          s = (if fin_was_sent \<and> \<not> fin_acked s then s\<lparr>fin_sent := False\<rparr> else s)
      in if send_st s = SsDataSent \<and> \<not> fin_acked s then s\<lparr>send_st := SsSend\<rparr> else s)"

definition on_acked :: "nat \<Rightarrow> nat \<Rightarrow> bool \<Rightarrow> Stream \<Rightarrow> Stream" where
  "on_acked off len fin s =
     (let s = (if fin \<and> off + len = send_end s \<and> want_fin s then s\<lparr>fin_acked := True\<rparr> else s);
          end_off = off + len;
          s = (if len > 0 \<and> end_off > send_base s then
                 (let s = (if off \<le> send_base s then s\<lparr>send_base := end_off\<rparr>
                           else case ext_add off end_off (ack_ext s) of
                                  Some es \<Rightarrow> s\<lparr>ack_ext := es\<rparr>
                                | None \<Rightarrow> rewind_sent off False s);
                      (es, base) = ext_absorb (ack_ext s) (send_base s)
                  in s\<lparr>ack_ext := es, send_base := base\<rparr>)
               else s);
          s = (if send_base s > send_end s then s\<lparr>send_base := send_end s\<rparr> else s)
      in if send_sent s < send_base s then s\<lparr>send_sent := send_base s\<rparr> else s)"

definition abandon_send :: "Stream \<Rightarrow> Stream" where
  "abandon_send s =
     s\<lparr>pending := [], pending_off := 0, pending_fin := False, send_base := send_end s,
       send_sent := send_end s, want_fin := False, send_st := SsResetSent\<rparr>"

definition send_done :: "Stream \<Rightarrow> bool" where
  "send_done s = (send_st s = SsResetSent \<or>
     (fin_acked s \<and> send_base s = send_end s \<and> pending_empty s))"

subsection \<open>Receiving\<close>

definition store :: "nat \<Rightarrow> byte list \<Rightarrow> Stream \<Rightarrow> bool \<times> Stream" where
  "store offset data s =
     (if offset < recv_cursor s \<and> recv_cursor s - offset \<ge> length data then (True, s)
      else
        let (from, at) = (if offset < recv_cursor s then (recv_cursor s - offset, recv_cursor s)
                          else (0, offset));
            n = length data - from;
            s = s\<lparr>recv_buf := ring_copy kStreamBufferSize at (drop from data) (recv_buf s)\<rparr>
        in (let added = (if at = recv_cursor s then Some (s\<lparr>recv_cursor := at + n\<rparr>)
                         else map_option (\<lambda>es. s\<lparr>recv_ext := es\<rparr>) (ext_add at (at + n) (recv_ext s)))
            in case added of
                 None \<Rightarrow> (False, s)
               | Some s \<Rightarrow> (case ext_absorb (recv_ext s) (recv_cursor s) of
                   (es, cursor) \<Rightarrow> (True, s\<lparr>recv_ext := es, recv_cursor := cursor\<rparr>))))"

text \<open>The checks \<^verbatim>\<open>receive\<close> makes before it changes anything, and what it notes first.\<close>

definition receive_refused :: "nat \<Rightarrow> nat \<Rightarrow> bool \<Rightarrow> Stream \<Rightarrow> bool" where
  "receive_refused offset len fin s \<longleftrightarrow>
     offset > unat kVarIntMax \<or> len > unat kVarIntMax - offset \<or> \<not> recv_ok (flow s) (offset + len) \<or>
     (have_fin s \<and> (offset + len > fin_off s \<or> (fin \<and> offset + len \<noteq> fin_off s))) \<or>
     (fin \<and> offset + len < recv_high (flow s)) \<or> offset + len > read_cursor s + kStreamBufferSize"

definition receive_note :: "nat \<Rightarrow> bool \<Rightarrow> Stream \<Rightarrow> Stream" where
  "receive_note end_off fin s =
     (let s = (if end_off > recv_high (flow s) then s\<lparr>flow := (flow s)\<lparr>recv_high := end_off\<rparr>\<rparr> else s)
      in if fin then s\<lparr>fin_off := end_off, have_fin := True,
                      recv_st := (if recv_st s = RsRecv then RsSizeKnown else recv_st s)\<rparr>
         else s)"

definition receive :: "nat \<Rightarrow> byte list \<Rightarrow> bool \<Rightarrow> Stream \<Rightarrow> bool \<times> Stream" where
  "receive offset data fin s =
     (if receive_refused offset (length data) fin s then (False, s)
      else let s = receive_note (offset + length data) fin s
      in case (if length data > 0 then store offset data s else (True, s)) of
           (False, s) \<Rightarrow> (False, s)
         | (True, s) \<Rightarrow>
             (True, if have_fin s \<and> recv_cursor s \<ge> fin_off s then s\<lparr>recv_st := RsDataRecvd\<rparr> else s))"

definition recv_available :: "Stream \<Rightarrow> nat" where
  "recv_available s = recv_cursor s - read_cursor s"

definition recv_contiguous :: "Stream \<Rightarrow> nat" where
  "recv_contiguous s =
     (let pos = read_cursor s mod kStreamBufferSize; avail = recv_available s
      in if avail < kStreamBufferSize - pos then avail else kStreamBufferSize - pos)"

text \<open>The bytes a reader sees at \<^verbatim>\<open>recv_peek\<close>: a prefix of the contiguous span.\<close>

definition recv_peek :: "nat \<Rightarrow> Stream \<Rightarrow> byte list" where
  "recv_peek n s = map (\<lambda>i. recv_buf s (read_cursor s mod kStreamBufferSize + i)) [0..<n]"

definition recv_consume :: "nat \<Rightarrow> Stream \<Rightarrow> Stream" where
  "recv_consume n s = s\<lparr>read_cursor := read_cursor s + n\<rparr>"

definition recv_finished :: "Stream \<Rightarrow> bool" where
  "recv_finished s = (have_fin s \<and> read_cursor s \<ge> fin_off s)"

definition take_fin_notice :: "Stream \<Rightarrow> bool \<times> Stream" where
  "take_fin_notice s =
     (if \<not> recv_finished s \<or> fin_notified s then (False, s) else (True, s\<lparr>fin_notified := True\<rparr>))"

definition on_peer_reset :: "Stream \<Rightarrow> Stream" where
  "on_peer_reset s = s\<lparr>recv_reset := True, recv_st := RsResetRecvd\<rparr>"

definition recv_done :: "Stream \<Rightarrow> bool" where
  "recv_done s = (recv_reset s \<or> recv_finished s)"

definition needs_window_update :: "nat \<Rightarrow> Stream \<Rightarrow> bool" where
  "needs_window_update bump_threshold s =
     (recv_max (flow s) - read_cursor s < bump_threshold \<and> \<not> recv_finished s \<and> \<not> recv_reset s)"

definition grow_recv_window :: "nat \<Rightarrow> Stream \<Rightarrow> nat \<times> Stream" where
  "grow_recv_window add s =
     (let add = (if add > kStreamBufferSize then kStreamBufferSize else add);
          next = read_cursor s + add;
          s = (if next > recv_max (flow s) then s\<lparr>flow := (flow s)\<lparr>recv_max := next\<rparr>\<rparr> else s)
      in (recv_max (flow s), s))"

section \<open>Flow control frames\<close>

definition serialize_single_varint :: "FrameType \<Rightarrow> u64 \<Rightarrow> byte list" where
  "serialize_single_varint type v = frame_type_code type # varint_encode v"

definition serialize_stream_pair :: "FrameType \<Rightarrow> u64 \<Rightarrow> u64 \<Rightarrow> byte list" where
  "serialize_stream_pair type i v = frame_type_code type # varint_encode i @ varint_encode v"

definition serialize_reset_stream :: "u64 \<Rightarrow> u64 \<Rightarrow> u64 \<Rightarrow> byte list" where
  "serialize_reset_stream i err final_size =
     frame_type_code FtResetStream # varint_encode i @ varint_encode err @ varint_encode final_size"

definition serialize_stop_sending :: "u64 \<Rightarrow> u64 \<Rightarrow> byte list" where
  "serialize_stop_sending i err = frame_type_code FtStopSending # varint_encode i @ varint_encode err"

end
