(* ===== verification/Quic_Stream_Correct.thy ===== *)
theory Quic_Stream_Correct
  imports Quic_Stream
begin

text \<open>
  Correctness of QUIC streams. The receive side delivers the peer's byte stream in order,
  whatever the order, duplication and overlap of the frames that carried it; the send side
  keeps every byte that is not yet acknowledged in its ring and frames it with its offset.
\<close>

section \<open>Ring lemmas\<close>

lemma ring_copy_at:
  assumes "k < cap" "length data \<le> cap"
  shows "ring_copy cap at data m ((at + k) mod cap) =
    (if k < length data then data ! k else m ((at + k) mod cap))"
proof -
  define p where "p = at mod cap"
  have p: "p < cap" using assms(1) by (simp add: p_def)
  show ?thesis
    using assms p
    unfolding mod_add_small [OF assms(1)] p_def [symmetric] ring_copy_def Let_def
    by (auto simp: memcpy_def)
qed

text \<open>A ring holds a window of \<open>cap\<close> offsets: a copy inside the window changes exactly its offsets.\<close>

lemma ring_copy_window:
  assumes "lo \<le> at" "at + length data \<le> lo + cap" "lo \<le> x" "x < lo + cap"
  shows "ring_copy cap at data m (x mod cap) =
    (if at \<le> x \<and> x < at + length data then data ! (x - at) else m (x mod cap))"
proof (cases "at \<le> x")
  case True
  then obtain k where k: "x = at + k" using le_Suc_ex by blast
  then show ?thesis using ring_copy_at [of k cap data at m] assms by auto
next
  case False
  define k where "k = x + cap - at"
  have "(at + k) mod cap = x mod cap" using False assms by (simp add: k_def)
  moreover have "k < cap" "\<not> k < length data" using False assms by (auto simp: k_def)
  ultimately show ?thesis using ring_copy_at [of k cap data at m] assms False by auto
qed

text \<open>Reading consecutive ring cells from an offset, up to the physical end of the ring.\<close>

lemma ring_read:
  assumes "\<And>x. lo \<le> x \<Longrightarrow> x < hi \<Longrightarrow> m (x mod cap) = f x" "lo + n \<le> hi" "n \<le> cap - lo mod cap"
  shows "map (\<lambda>i. m (lo mod cap + i)) [0..<n] = map f [lo..<lo + n]"
proof (rule nth_equalityI)
  fix i assume i: "i < length (map (\<lambda>i. m (lo mod cap + i)) [0..<n])"
  then have "lo mod cap + i < cap" using assms(3) by simp
  then have "(lo + i) mod cap = lo mod cap + i"
    using mod_add_small [of i cap lo] by simp
  then show "map (\<lambda>i. m (lo mod cap + i)) [0..<n] ! i = map f [lo..<lo + n] ! i"
    using i assms(1) [of "lo + i"] assms(2) by simp
qed simp

section \<open>The receive side\<close>

text \<open>
  Invariant of the receive side for the byte stream \<open>f\<close> the peer is sending and the set \<open>R\<close>
  of offsets accepted so far: the cursor is the first offset not yet received, everything
  received and not yet read is in the ring at its place, and nothing exceeds the advertised window.
\<close>

definition recv_inv :: "(nat \<Rightarrow> byte) \<Rightarrow> nat set \<Rightarrow> Stream \<Rightarrow> bool" where
  "recv_inv f R s \<longleftrightarrow> ext_ok (recv_ext s) \<and> read_cursor s \<le> recv_cursor s \<and>
     recv_cursor s \<le> recv_high (flow s) \<and> recv_high (flow s) \<le> recv_max (flow s) \<and>
     recv_max (flow s) \<le> read_cursor s + kStreamBufferSize \<and>
     {..<recv_cursor s} \<union> ext_cover (recv_ext s) = R \<and>
     ext_cover (recv_ext s) \<subseteq> {recv_cursor s<..} \<and> R \<subseteq> {..<recv_high (flow s)} \<and>
     (\<forall>x \<in> R. read_cursor s \<le> x \<longrightarrow> recv_buf s (x mod kStreamBufferSize) = f x)"

lemma recv_inv_cursor:
  assumes "recv_inv f R s"
  shows "recv_cursor s = (LEAST x. x \<notin> R)"
  using assms by (intro Least_equality [symmetric]) (auto simp: recv_inv_def)

lemma recv_buf_copy:
  assumes inv: "recv_inv f R s" and at: "recv_cursor s \<le> at" "at + length d \<le> read_cursor s + kStreamBufferSize"
    and d: "d = map f [at..<at + length d]"
    and x: "x \<in> R \<union> {at..<at + length d}" "read_cursor s \<le> x"
  shows "ring_copy kStreamBufferSize at d (recv_buf s) (x mod kStreamBufferSize) = f x"
proof -
  have "R \<subseteq> {..<read_cursor s + kStreamBufferSize}" using inv by (auto simp: recv_inv_def)
  then have "x < read_cursor s + kStreamBufferSize" using x(1) at(2) by auto
  moreover have "read_cursor s \<le> at" using inv at(1) by (simp add: recv_inv_def)
  moreover have "d ! (x - at) = f x" if "at \<le> x" "x < at + length d"
  proof -
    have "d ! (x - at) = map f [at..<at + length d] ! (x - at)"
      by (rule arg_cong [where f = "\<lambda>l. l ! (x - at)", OF d])
    also have "\<dots> = f x" using that by simp
    finally show ?thesis .
  qed
  moreover have "recv_buf s (x mod kStreamBufferSize) = f x" if "x \<in> R"
    using inv that x(2) by (simp add: recv_inv_def)
  ultimately show ?thesis
    using ring_copy_window [of "read_cursor s" at d kStreamBufferSize x "recv_buf s"] at(2) x by auto
qed

text \<open>Adding \<open>[at, e)\<close> to a state whose ring already holds its bytes.\<close>

lemma recv_inv_add:
  assumes inv: "recv_inv f R s" and at: "recv_cursor s \<le> at" "at < e" "e \<le> recv_high (flow s)"
    and cell: "\<And>x. x \<in> {at..<e} \<Longrightarrow> recv_buf s (x mod kStreamBufferSize) = f x"
    and t: "(if at = recv_cursor s then Some (s\<lparr>recv_cursor := e\<rparr>)
             else map_option (\<lambda>es. s\<lparr>recv_ext := es\<rparr>) (ext_add at e (recv_ext s))) = Some t"
    and ab: "ext_absorb (recv_ext t) (recv_cursor t) = (es, c)"
  shows "recv_inv f (R \<union> {at..<e}) (t\<lparr>recv_ext := es, recv_cursor := c\<rparr>)"
proof -
  note i = inv [unfolded recv_inv_def]
  have t': "ext_ok (recv_ext t) \<and> recv_cursor s \<le> recv_cursor t \<and>
      {..<recv_cursor t} \<union> ext_cover (recv_ext t) = R \<union> {at..<e} \<and>
      flow t = flow s \<and> recv_buf t = recv_buf s \<and> read_cursor t = read_cursor s"
  proof (cases "at = recv_cursor s")
    case True
    have "{..<e} = {..<recv_cursor s} \<union> {at..<e}" using True at by auto
    then have "{..<e} \<union> ext_cover (recv_ext s) = R \<union> {at..<e}" using i by blast
    then show ?thesis using t i at True by auto
  next
    case False
    then obtain es' where es': "ext_add at e (recv_ext s) = Some es'" "t = s\<lparr>recv_ext := es'\<rparr>"
      using t by (auto split: if_splits)
    have "ext_ok es'" "ext_cover es' = ext_cover (recv_ext s) \<union> {at..<e}"
      using extents.add_ok [OF _ at(2) es'(1)] i by blast+
    moreover from this(2) have "{..<recv_cursor s} \<union> ext_cover es' = R \<union> {at..<e}" using i by blast
    ultimately show ?thesis by (simp add: es'(2))
  qed
  have c: "ext_ok es \<and> recv_cursor t \<le> c \<and> {..<c} \<union> ext_cover es = R \<union> {at..<e} \<and> ext_cover es \<subseteq> {c<..}"
    using extents.absorb_ok [OF _ ab] t' by metis
  have R: "R \<union> {at..<e} \<subseteq> {..<recv_high (flow t)}" using i at t' by (auto dest: subsetD)
  have "{..<c} \<subseteq> R \<union> {at..<e}" using c by (metis Un_upper1)
  with R have "{..<c} \<subseteq> {..<recv_high (flow t)}" by (rule subset_trans [rotated])
  then have "c \<le> recv_high (flow t)" by simp
  moreover have "recv_buf t (x mod kStreamBufferSize) = f x" if "x \<in> R \<union> {at..<e}" "read_cursor t \<le> x" for x
    using that t' i cell by auto
  ultimately show ?thesis using c t' i R by (simp add: recv_inv_def)
qed

lemma store_new:
  assumes "\<not> (offset < recv_cursor s \<and> recv_cursor s - offset \<ge> length data)"
    "at = (if offset < recv_cursor s then recv_cursor s else offset)" "dd = drop (at - offset) data"
  shows "store offset data s =
      (let s1 = s\<lparr>recv_buf := ring_copy kStreamBufferSize at dd (recv_buf s)\<rparr>
       in case (if at = recv_cursor s1 then Some (s1\<lparr>recv_cursor := at + length dd\<rparr>)
             else map_option (\<lambda>es. s1\<lparr>recv_ext := es\<rparr>) (ext_add at (at + length dd) (recv_ext s1))) of
         None \<Rightarrow> (False, s1)
       | Some s \<Rightarrow> (case ext_absorb (recv_ext s) (recv_cursor s) of
           (es, cursor) \<Rightarrow> (True, s\<lparr>recv_ext := es, recv_cursor := cursor\<rparr>)))"
proof -
  have fr: "(if offset < recv_cursor s then (recv_cursor s - offset, recv_cursor s) else (0, offset)) = (at - offset, at)"
    using assms(2) by simp
  have n: "length data - (at - offset) = length dd" by (simp add: assms(3))
  show ?thesis
    unfolding store_def fr Let_def prod.case n assms(3) [symmetric] using assms(1) by (simp only: if_False)
qed

lemma store_inv:
  assumes inv: "recv_inv f R s" and len: "offset + length data \<le> recv_high (flow s)" "0 < length data"
    and d: "data = map f [offset..<offset + length data]"
    and st: "store offset data s = (b, s')"
  shows "recv_inv f (if b then R \<union> {offset..<offset + length data} else R) s'"
proof (cases "offset < recv_cursor s \<and> recv_cursor s - offset \<ge> length data")
  case True
  then have "s' = s" "b" "{offset..<offset + length data} \<subseteq> R"
    using st inv by (auto simp: store_def recv_inv_def)
  then show ?thesis using inv by (simp add: Un_absorb2)
next
  case False
  note i = inv [unfolded recv_inv_def]
  define at where "at = (if offset < recv_cursor s then recv_cursor s else offset)"
  define dd where "dd = drop (at - offset) data"
  define s1 where "s1 = s\<lparr>recv_buf := ring_copy kStreamBufferSize at dd (recv_buf s)\<rparr>"
  have at: "recv_cursor s \<le> at" "offset \<le> at" "at < offset + length data" using False len(2) by (auto simp: at_def)
  have ld: "at + length dd = offset + length data" using at by (simp add: dd_def)
  have dd: "dd = map f [at..<at + length dd]"
    using at unfolding ld dd_def by (subst d) (simp add: drop_map add.commute)
  have bound: "at + length dd \<le> read_cursor s + kStreamBufferSize" using i len(1) ld by linarith
  have cell: "recv_buf s1 (x mod kStreamBufferSize) = f x"
    if "x \<in> R \<union> {at..<at + length dd}" "read_cursor s \<le> x" for x
    using recv_buf_copy [OF inv at(1) bound dd that] by (simp add: s1_def)
  have "{offset..<offset + length data} = {offset..<at} \<union> {at..<at + length dd}" using at ld by auto
  moreover have "{offset..<at} \<subseteq> R" using i by (auto simp: at_def)
  ultimately have R': "R \<union> {offset..<offset + length data} = R \<union> {at..<at + length dd}" by blast
  have inv1: "recv_inv f R s1" using i cell by (simp add: recv_inv_def s1_def)
  have cell1: "recv_buf s1 (x mod kStreamBufferSize) = f x" if "x \<in> {at..<at + length dd}" for x
    using that cell [of x] at(1) i by auto
  have add: "recv_inv f (R \<union> {offset..<offset + length data}) (t\<lparr>recv_ext := es, recv_cursor := c\<rparr>)"
    if "(if at = recv_cursor s1 then Some (s1\<lparr>recv_cursor := at + length dd\<rparr>)
             else map_option (\<lambda>es. s1\<lparr>recv_ext := es\<rparr>) (ext_add at (at + length dd) (recv_ext s1))) = Some t"
      "ext_absorb (recv_ext t) (recv_cursor t) = (es, c)" for t es c
    unfolding R'
    by (rule recv_inv_add [OF inv1 _ _ _ cell1 that]) (use at ld len in \<open>auto simp: s1_def\<close>)
  note st' = st [unfolded store_new [OF False at_def dd_def] Let_def s1_def [symmetric]]
  show ?thesis
  proof (cases "if at = recv_cursor s1 then Some (s1\<lparr>recv_cursor := at + length dd\<rparr>)
             else map_option (\<lambda>es. s1\<lparr>recv_ext := es\<rparr>) (ext_add at (at + length dd) (recv_ext s1))")
    case None
    with st' inv1 show ?thesis by simp
  next
    case (Some t)
    obtain es c where ab: "ext_absorb (recv_ext t) (recv_cursor t) = (es, c)" by fastforce
    show ?thesis using st' [unfolded Some] add [OF Some ab] by (simp add: ab)
  qed
qed

lemma recv_inv_update [simp]:
  "recv_inv f R (s\<lparr>recv_st := x\<rparr>) = recv_inv f R s"
  "recv_inv f R (s\<lparr>fin_off := y\<rparr>) = recv_inv f R s"
  "recv_inv f R (s\<lparr>have_fin := z\<rparr>) = recv_inv f R s"
  "recv_inv f R (s\<lparr>fin_notified := z\<rparr>) = recv_inv f R s"
  by (simp_all add: recv_inv_def)

lemma recv_inv_high:
  assumes "recv_inv f R s" "recv_high (flow s) \<le> h" "h \<le> recv_max (flow s)"
  shows "recv_inv f R (s\<lparr>flow := (flow s)\<lparr>recv_high := h\<rparr>\<rparr>)"
proof -
  have "R \<subseteq> {..<h}"
    using assms by (auto simp: recv_inv_def)
  then show ?thesis using assms by (simp add: recv_inv_def)
qed

lemma receive_note_inv:
  assumes "recv_inv f R s" "\<not> receive_refused offset len fin s"
  shows "recv_inv f R (receive_note (offset + len) fin s)"
    and "offset + len \<le> recv_high (flow (receive_note (offset + len) fin s))"
proof -
  have m: "offset + len \<le> recv_max (flow s)"
    using assms(2) by (simp add: receive_refused_def recv_ok_def)
  show "recv_inv f R (receive_note (offset + len) fin s)"
    using recv_inv_high [OF assms(1) _ m] assms(1) by (simp add: receive_note_def Let_def)
  show "offset + len \<le> recv_high (flow (receive_note (offset + len) fin s))"
    by (simp add: receive_note_def Let_def)
qed

lemma receive_inv:
  assumes inv: "recv_inv f R s" and d: "data = map f [offset..<offset + length data]"
    and r: "receive offset data fin s = (b, s')"
  shows "recv_inv f (if b then R \<union> {offset..<offset + length data} else R) s'"
proof (cases "receive_refused offset (length data) fin s")
  case True
  then show ?thesis using r inv by (simp add: receive_def)
next
  case False
  define s1 where "s1 = receive_note (offset + length data) fin s"
  note n = receive_note_inv [OF inv False, folded s1_def]
  obtain b2 s2 where st: "(if length data > 0 then store offset data s1 else (True, s1)) = (b2, s2)" by fastforce
  have i2: "recv_inv f (if b2 then R \<union> {offset..<offset + length data} else R) s2"
  proof (cases "length data > 0")
    case True
    then have "store offset data s1 = (b2, s2)" using st by simp
    then show ?thesis by (rule store_inv [OF n True d])
  next
    case False
    with st n show ?thesis by simp
  qed
  have "(b, s') = (if b2 then (True, if have_fin s2 \<and> recv_cursor s2 \<ge> fin_off s2 then s2\<lparr>recv_st := RsDataRecvd\<rparr> else s2)
     else (False, s2))"
    using r False unfolding receive_def Let_def s1_def [symmetric] st by (cases b2) simp_all
  then show ?thesis using i2 by (auto split: if_splits)
qed

lemma store_read_cursor: "store offset data s = (b, s') \<Longrightarrow> read_cursor s' = read_cursor s"
  unfolding store_def Let_def
  by (auto split: if_splits prod.splits option.splits)

lemma receive_read_cursor: "receive offset data fin s = (b, s') \<Longrightarrow> read_cursor s' = read_cursor s"
  unfolding receive_def Let_def
  by (auto simp: receive_note_def Let_def split: if_splits prod.splits bool.splits dest!: store_read_cursor)

lemma recv_peek_correct:
  assumes "recv_inv f R s" "n \<le> recv_contiguous s"
  shows "recv_peek n s = map f [read_cursor s..<read_cursor s + n]"
  unfolding recv_peek_def
proof (rule ring_read)
  show "read_cursor s + n \<le> recv_cursor s" "n \<le> kStreamBufferSize - read_cursor s mod kStreamBufferSize"
    using assms by (auto simp: recv_contiguous_def recv_available_def recv_inv_def Let_def split: if_splits)
  show "recv_buf s (x mod kStreamBufferSize) = f x" if "read_cursor s \<le> x" "x < recv_cursor s" for x
  proof -
    have "x \<in> R" using assms(1) that(2) by (auto simp: recv_inv_def)
    then show ?thesis using assms(1) that(1) by (simp add: recv_inv_def)
  qed
qed

lemma recv_consume_inv:
  assumes "recv_inv f R s" "n \<le> recv_available s"
  shows "recv_inv f R (recv_consume n s)"
  using assms by (auto simp: recv_inv_def recv_consume_def recv_available_def)

lemma grow_recv_window_inv:
  assumes "recv_inv f R s"
  shows "recv_inv f R (snd (grow_recv_window add s))"
  using assms by (auto simp: recv_inv_def grow_recv_window_def Let_def)

text \<open>
  Runs of the receive side: a freshly opened stream, frames in any order, overlapping and repeated
  (accepted or refused), reads of what is contiguous, and window updates. \<open>P\<close> says which
  frames can arrive, \<open>R\<close> collects the accepted offsets and \<open>out\<close> the bytes handed to the application.
\<close>

inductive recv_run :: "(nat \<Rightarrow> byte list \<Rightarrow> bool) \<Rightarrow> Stream \<Rightarrow> nat set \<Rightarrow> byte list \<Rightarrow> bool" for P where
  opened: "init_recv_max \<le> kStreamBufferSize \<Longrightarrow>
    recv_run P (open_stream i init_send_max init_recv_max (attach_buffers sr rr)) {} []"
| frame: "recv_run P s R out \<Longrightarrow> P offset data \<Longrightarrow> receive offset data fin s = (b, s') \<Longrightarrow>
    recv_run P s' (if b then R \<union> {offset..<offset + length data} else R) out"
| read: "recv_run P s R out \<Longrightarrow> n \<le> recv_contiguous s \<Longrightarrow>
    recv_run P (recv_consume n s) R (out @ recv_peek n s)"
| window: "recv_run P s R out \<Longrightarrow> recv_run P (snd (grow_recv_window add s)) R out"
| notice: "recv_run P s R out \<Longrightarrow> recv_run P (snd (take_fin_notice s)) R out"

lemma recv_run_inv:
  assumes "recv_run P s R out" and P: "\<And>off d. P off d \<Longrightarrow> d = map f [off..<off + length d]"
  shows "recv_inv f R s \<and> out = map f [0..<read_cursor s]"
  using assms(1)
proof induction
  case (opened m i sm sr rr)
  then show ?case
    by (simp add: recv_inv_def open_stream_def attach_buffers_def flow_init_def extents.empty_ok)
next
  case (frame s R out offset data fin b s')
  show ?case
    using receive_inv [OF _ P [OF frame(2)] frame(3)] receive_read_cursor [OF frame(3)] frame.IH by simp
next
  case (read s R out n)
  then have "n \<le> recv_available s" by (auto simp: recv_contiguous_def Let_def split: if_splits)
  then show ?case
    using read.IH recv_peek_correct [of f R s n] read(2) recv_consume_inv [of f R s n]
    by (simp add: recv_consume_def upt_add_eq_append [of 0, simplified])
next
  case (window s R out add)
  then show ?case using grow_recv_window_inv by (simp add: grow_recv_window_def Let_def)
next
  case (notice s R out)
  then show ?case by (simp add: take_fin_notice_def)
qed

lemma recv_run_offsets:
  assumes "recv_run P s R out" "\<And>off d. P off d \<Longrightarrow> off + length d \<le> m"
  shows "R \<subseteq> {..<m}"
  using assms(1) by induction (auto dest!: assms(2))

section \<open>The send side\<close>

text \<open>
  Invariant of the send side for the bytes \<open>w\<close> queued so far and the set \<open>A\<close> of offsets the peer has
  acknowledged: the ring holds every queued byte from the base up, and the base has only moved past
  acknowledged offsets. An abandoned stream has dropped its bytes.
\<close>

definition send_inv :: "byte list \<Rightarrow> nat set \<Rightarrow> Stream \<Rightarrow> bool" where
  "send_inv w A s \<longleftrightarrow> ext_ok (ack_ext s) \<and> send_end s = length w \<and>
     send_base s \<le> send_sent s \<and> send_sent s \<le> send_end s \<and> send_end s \<le> send_base s + kStreamBufferSize \<and>
     pending_off s \<le> length (pending s) \<and>
     (\<forall>x. send_base s \<le> x \<longrightarrow> x < send_end s \<longrightarrow> send_buf s (x mod kStreamBufferSize) = w ! x) \<and>
     {..<send_base s} \<subseteq> A \<and> ext_cover (ack_ext s) \<subseteq> A"

lemma ring_put_inv:
  assumes inv: "send_inv w A s" and r: "ring_put data s = (n, s')"
  shows "send_inv (w @ take n data) A s' \<and> n \<le> length data \<and>
    n = min (length data) (kStreamBufferSize - (send_end s - send_base s)) \<and>
    s' = s\<lparr>send_buf := send_buf s', send_end := send_end s + n\<rparr>"
proof -
  note i = inv [unfolded send_inv_def]
  define sp where "sp = kStreamBufferSize - (send_end s - send_base s)"
  have n: "n = (if length data < sp then length data else sp)" "s' = s\<lparr>send_buf := ring_copy kStreamBufferSize (send_end s) (take n data) (send_buf s),
               send_end := send_end s + n\<rparr>"
    using r by (auto simp: ring_put_def Let_def sp_def)
  have nl: "n \<le> length data" "send_end s + n \<le> send_base s + kStreamBufferSize"
    using n(1) i by (auto simp: sp_def)
  have cell: "ring_copy kStreamBufferSize (send_end s) (take n data) (send_buf s) (x mod kStreamBufferSize) = (w @ take n data) ! x"
    if x: "send_base s \<le> x" "x < send_end s + n" for x
    using ring_copy_window [of "send_base s" "send_end s" "take n data" kStreamBufferSize x "send_buf s"] x nl i
    by (auto simp: nth_append)
  have "send_inv (w @ take n data) A s'"
    unfolding send_inv_def n(2) using i cell nl by simp
  moreover have "n = min (length data) sp" using n(1) by (simp add: min_def)
  ultimately show ?thesis using nl(1) n(2) by (simp add: sp_def)
qed

lemma send_inv_update [simp]:
  "send_inv w A (s\<lparr>want_fin := b\<rparr>) = send_inv w A s"
  "send_inv w A (s\<lparr>fin_sent := b\<rparr>) = send_inv w A s"
  "send_inv w A (s\<lparr>fin_acked := b\<rparr>) = send_inv w A s"
  "send_inv w A (s\<lparr>send_st := x\<rparr>) = send_inv w A s"
  "send_inv w A (s\<lparr>pending_fin := b\<rparr>) = send_inv w A s"
  "send_inv w A (s\<lparr>flow := fl\<rparr>) = send_inv w A s"
  "send_inv w A (s\<lparr>flow_counted := k\<rparr>) = send_inv w A s"
  by (simp_all add: send_inv_def)

lemma stream_write_inv:
  assumes "send_inv w A s" "stream_write data fin s = (n, s')"
  shows "send_inv (w @ take n data) A s' \<and> n \<le> length data"
proof (cases "pending_empty s")
  case True
  obtain m t where p: "ring_put data s = (m, t)" by fastforce
  note q = ring_put_inv [OF assms(1) p]
  show ?thesis
    using assms(2) True q by (auto simp: stream_write_def p Let_def split: if_splits)
next
  case False
  then show ?thesis using assms by (simp add: stream_write_def)
qed

lemma refill_inv:
  assumes "send_inv w A s" "refill s = (n, s')"
  shows "send_inv (w @ take n (drop (pending_off s) (pending s))) A s' \<and> n \<le> pending_bytes s \<and>
    drop (pending_off s') (pending s') = drop n (drop (pending_off s) (pending s))"
proof (cases "pending_empty s")
  case False
  define d where "d = drop (pending_off s) (pending s)"
  obtain m t where p: "ring_put d s = (m, t)" by fastforce
  note q = ring_put_inv [OF assms(1) p]
  have t: "pending t = pending s" "pending_off t = pending_off s" "pending_fin t = pending_fin s" "want_fin t = want_fin s"
    using p by (auto simp: ring_put_def Let_def)
  have "pending_off s \<le> length (pending s)" using assms(1) by (simp add: send_inv_def)
  then have o: "pending_off s + m \<le> length (pending s)" using q by (simp add: d_def)
  have q1: "send_inv (w @ take m d) A t" using q by blast
  have n: "n = m" and s': "s' = (if pending_off s + m = length (pending s)
      then (t\<lparr>pending_off := pending_off s + m\<rparr>)\<lparr>want_fin := (if pending_fin t then True else want_fin t),
             pending_fin := False, pending := [], pending_off := 0\<rparr>
      else t\<lparr>pending_off := pending_off s + m\<rparr>)"
    using assms(2) False p t by (auto simp: refill_def d_def Let_def split: if_splits)
  have "send_inv (w @ take m d) A s'" using q1 o t unfolding s' send_inv_def by simp
  moreover have "m \<le> pending_bytes s" using q by (simp add: d_def pending_bytes_def)
  moreover have "drop (pending_off s') (pending s') = drop m d" using t unfolding s' by (simp add: d_def add.commute)
  ultimately show ?thesis by (simp add: n d_def)
next
  case True
  then show ?thesis using assms by (simp add: refill_def)
qed

lemma write_owned_inv:
  assumes "send_inv w A s"
  shows "\<exists>n. send_inv (w @ take n body) A (write_owned body fin s) \<and>
    drop (pending_off (write_owned body fin s)) (pending (write_owned body fin s)) = drop n body"
proof -
  define s1 where "s1 = s\<lparr>pending := body, pending_off := 0, pending_fin := fin\<rparr>"
  have i: "send_inv w A s1" using assms by (simp add: send_inv_def s1_def)
  define s2 where "s2 = (if send_st s1 = SsReady then s1\<lparr>send_st := SsSend\<rparr> else s1)"
  have i2: "send_inv w A s2" "drop (pending_off s2) (pending s2) = body" using i by (simp_all add: s2_def s1_def)
  obtain n t where "refill s2 = (n, t)" by fastforce
  then show ?thesis
    using refill_inv [OF i2(1), of n t] i2(2) by (auto simp: write_owned_def Let_def s1_def [symmetric] s2_def [symmetric])
qed

lemma mark_sent_inv:
  assumes "send_inv w A s" "send_sent s + len \<le> send_end s"
  shows "send_inv w A (snd (mark_sent len fin s))"
proof -
  have "send_inv w A (s\<lparr>send_sent := send_sent s + len\<rparr>)" "send_inv w A (s\<lparr>flow_counted := k, send_sent := send_sent s + len\<rparr>)" for k
    using assms by (simp_all add: send_inv_def)
  then show ?thesis by (simp add: mark_sent_def Let_def)
qed

lemma send_inv_sent:
  assumes "send_inv w A s" "send_base s \<le> off" "off \<le> send_end s"
  shows "send_inv w A (s\<lparr>send_sent := off\<rparr>)"
  using assms by (simp add: send_inv_def)

lemma rewind_sent_inv:
  assumes "send_inv w A s"
  shows "send_inv w A (rewind_sent off fin s)"
proof -
  define o1 where "o1 = (if off < send_base s then send_base s else off)"
  define o2 where "o2 = (if o1 > send_end s then send_end s else o1)"
  have o: "send_base s \<le> o2" "o2 \<le> send_end s" using assms by (auto simp: o2_def o1_def send_inv_def)
  define s1 where "s1 = (if o2 < send_sent s then s\<lparr>send_sent := o2\<rparr> else s)"
  define s2 where "s2 = (if fin \<and> \<not> fin_acked s1 then s1\<lparr>fin_sent := False\<rparr> else s1)"
  have "send_inv w A s1" using send_inv_sent [OF assms o] assms by (simp add: s1_def)
  then have "send_inv w A s2" by (simp add: s2_def)
  then show ?thesis
    unfolding rewind_sent_def Let_def o1_def [symmetric] o2_def [symmetric] s1_def [symmetric] s2_def [symmetric]
    by simp
qed

lemma peek_unsent_correct:
  assumes "send_inv w A s" "peek_unsent cap s = (work, off, d, fin)"
  shows "d = take (length d) (drop off w) \<and> off + length d \<le> length w \<and> length d \<le> cap \<and>
    off = send_sent s \<and> (fin \<longrightarrow> off + length d = length w) \<and> work = (d \<noteq> [] \<or> fin_pending s)"
proof -
  define pos where "pos = send_sent s mod kStreamBufferSize"
  define avail where "avail = (if unsent s > kStreamBufferSize - pos then kStreamBufferSize - pos else unsent s)"
  define n where "n = (if avail < cap then avail else cap)"
  have r: "work = (n > 0 \<or> (want_fin s \<and> \<not> fin_sent s))" "off = send_sent s"
    "d = map (\<lambda>i. send_buf s (pos + i)) [0..<n]" "fin = (want_fin s \<and> send_sent s + n = send_end s)"
    using assms(2)
    unfolding peek_unsent_def Let_def pos_def [symmetric] avail_def [symmetric] n_def [symmetric] by auto
  have n: "n \<le> unsent s" "n \<le> cap" "n \<le> kStreamBufferSize - pos" by (auto simp: n_def avail_def)
  have i: "send_end s = length w" "send_base s \<le> send_sent s" "send_sent s \<le> send_end s"
    "\<And>x. send_base s \<le> x \<Longrightarrow> x < send_end s \<Longrightarrow> send_buf s (x mod kStreamBufferSize) = w ! x"
    using assms(1) by (simp_all add: send_inv_def)
  have b: "send_sent s + n \<le> send_end s" using n(1) i(3) by (simp add: unsent_def)
  have "d = map ((!) w) [send_sent s..<send_sent s + n]"
    unfolding r(3) pos_def by (rule ring_read [OF _ b n(3) [unfolded pos_def]]) (use i in auto)
  moreover have "\<dots> = take n (drop (send_sent s) w)"
    using b i(1) by (intro nth_equalityI) simp_all
  moreover have "length d = n" using r(3) by simp
  ultimately show ?thesis using r b n i(1) by (auto simp: fin_pending_def)
qed

text \<open>One acknowledgement: the base only moves over acknowledged offsets and never past the queue.\<close>

lemma on_acked_note_inv:
  assumes inv: "send_inv w A s" and len: "off + len \<le> send_end s" "0 < len" "send_base s < off + len"
    and A: "{off..<off + len} \<subseteq> A"
    and s1: "s1 = (if off \<le> send_base s then s\<lparr>send_base := off + len\<rparr>
        else case ext_add off (off + len) (ack_ext s) of Some es \<Rightarrow> s\<lparr>ack_ext := es\<rparr> | None \<Rightarrow> rewind_sent off False s)"
    and ab: "ext_absorb (ack_ext s1) (send_base s1) = (es, base)"
  shows "ext_ok es" "{..<base} \<subseteq> A" "ext_cover es \<subseteq> A" "send_base s \<le> base"
    "send_end s1 = send_end s" "send_buf s1 = send_buf s" "pending s1 = pending s" "pending_off s1 = pending_off s"
    "send_sent s1 \<le> send_end s"
proof -
  have i: "ext_ok (ack_ext s)" "{..<send_base s} \<subseteq> A" "ext_cover (ack_ext s) \<subseteq> A" "send_sent s \<le> send_end s"
    using inv by (simp_all add: send_inv_def)
  have r: "ack_ext (rewind_sent off False s) = ack_ext s" "send_base (rewind_sent off False s) = send_base s"
    "send_end (rewind_sent off False s) = send_end s" "send_buf (rewind_sent off False s) = send_buf s"
    "pending (rewind_sent off False s) = pending s" "pending_off (rewind_sent off False s) = pending_off s"
    by (simp_all add: rewind_sent_def Let_def)
  have rs: "send_sent (rewind_sent off False s) \<le> send_end s"
    using rewind_sent_inv [OF inv, of off False] r by (simp add: send_inv_def)
  have k: "ext_ok (ack_ext s1) \<and> {..<send_base s1} \<subseteq> A \<and> ext_cover (ack_ext s1) \<subseteq> A \<and> send_base s \<le> send_base s1"
  proof (cases "off \<le> send_base s")
    case True
    have "{..<off + len} \<subseteq> {..<send_base s} \<union> {off..<off + len}" using True by auto
    then show ?thesis using True i A len by (simp add: s1) blast
  next
    case False
    show ?thesis
    proof (cases "ext_add off (off + len) (ack_ext s)")
      case None
      then show ?thesis using False i r by (simp add: s1)
    next
      case (Some es')
      then show ?thesis
        using False i A extents.add_ok [OF i(1) _ Some] len(2) by (simp add: s1)
    qed
  qed
  show "send_end s1 = send_end s" "send_buf s1 = send_buf s" "pending s1 = pending s" "pending_off s1 = pending_off s"
    "send_sent s1 \<le> send_end s"
    using r rs i(4) by (auto simp: s1 split: option.splits)
  have a: "ext_ok es \<and> send_base s1 \<le> base \<and> {..<base} \<union> ext_cover es = {..<send_base s1} \<union> ext_cover (ack_ext s1)"
    using extents.absorb_ok [OF _ ab] k by blast
  then have "{..<base} \<union> ext_cover es \<subseteq> A" using k by blast
  then show "ext_ok es" "{..<base} \<subseteq> A" "ext_cover es \<subseteq> A" "send_base s \<le> base"
    using a k by auto
qed

lemma on_acked_inv:
  assumes inv: "send_inv w A s" and len: "off + len \<le> send_end s"
  shows "send_inv w (A \<union> {off..<off + len}) (on_acked off len fin s)"
proof -
  define A' where "A' = A \<union> {off..<off + len}"
  define s0 where "s0 = (if fin \<and> off + len = send_end s \<and> want_fin s then s\<lparr>fin_acked := True\<rparr> else s)"
  have i0: "send_inv w A' s0" using inv by (auto simp: s0_def A'_def send_inv_def)
  have e0: "send_end s0 = send_end s" by (simp add: s0_def)
  define s1 where "s1 = (if off \<le> send_base s0 then s0\<lparr>send_base := off + len\<rparr>
        else case ext_add off (off + len) (ack_ext s0) of Some es \<Rightarrow> s0\<lparr>ack_ext := es\<rparr> | None \<Rightarrow> rewind_sent off False s0)"
  obtain es base where ab: "ext_absorb (ack_ext s1) (send_base s1) = (es, base)" by fastforce
  define s2 where "s2 = (if len > 0 \<and> off + len > send_base s0 then s1\<lparr>ack_ext := es, send_base := base\<rparr> else s0)"
  define s3 where "s3 = (if send_base s2 > send_end s2 then s2\<lparr>send_base := send_end s2\<rparr> else s2)"
  have eq: "on_acked off len fin s = (if send_sent s3 < send_base s3 then s3\<lparr>send_sent := send_base s3\<rparr> else s3)"
    unfolding on_acked_def Let_def s0_def [symmetric] s1_def [symmetric] ab prod.case s2_def [symmetric] s3_def [symmetric] ..
  note j = i0 [unfolded send_inv_def]
  have "ext_ok (ack_ext s2) \<and> {..<send_base s2} \<subseteq> A' \<and> ext_cover (ack_ext s2) \<subseteq> A' \<and> send_base s0 \<le> send_base s2 \<and>
     send_end s2 = send_end s0 \<and> send_buf s2 = send_buf s0 \<and> pending s2 = pending s0 \<and> pending_off s2 = pending_off s0 \<and>
     send_sent s2 \<le> send_end s0"
  proof (cases "len > 0 \<and> off + len > send_base s0")
    case True
    have "{off..<off + len} \<subseteq> A'" by (simp add: A'_def)
    from on_acked_note_inv [OF i0 _ _ _ this s1_def ab] True len e0 show ?thesis by (simp add: s2_def)
  next
    case False
    then have "s2 = s0" unfolding s2_def by (rule if_not_P)
    then show ?thesis using j by simp
  qed
  then have "send_inv w A' (if send_sent s3 < send_base s3 then s3\<lparr>send_sent := send_base s3\<rparr> else s3)"
    using j by (auto simp: s3_def send_inv_def)
  then show ?thesis by (simp add: eq A'_def)
qed

text \<open>
  Runs of the send side: writes, frames taken from the frontier, rewinds by loss recovery, and
  acknowledgements of queued offsets. \<open>w\<close> is what the application wrote: the bytes \<^verbatim>\<open>write\<close> reported
  as queued and the whole body of each \<^verbatim>\<open>write_owned\<close>, which needs an empty queue as the source asserts;
  a refill moves bytes and writes none. \<open>A\<close> is what was acknowledged, \<open>F\<close> the frames (offset and bytes)
  put on the wire.
\<close>

inductive send_run :: "byte list \<Rightarrow> nat set \<Rightarrow> (nat \<times> byte list) set \<Rightarrow> Stream \<Rightarrow> bool" where
  opened: "send_run [] {} {} (open_stream i init_send_max init_recv_max (attach_buffers sr rr))"
| wrote: "send_run w A F s \<Longrightarrow> stream_write data fin s = (n, s') \<Longrightarrow> send_run (w @ take n data) A F s'"
| owned: "send_run w A F s \<Longrightarrow> pending_empty s \<Longrightarrow> send_run (w @ body) A F (write_owned body fin s)"
| refill: "send_run w A F s \<Longrightarrow> send_run w A F (snd (refill s))"
| emit: "send_run w A F s \<Longrightarrow> peek_unsent cap s = (work, off, d, fin) \<Longrightarrow> k \<le> length d \<Longrightarrow>
    send_run w A (insert (off, take k d) F) (snd (mark_sent k fin' s))"
| lost: "send_run w A F s \<Longrightarrow> send_run w A F (rewind_sent off fin s)"
| acked: "send_run w A F s \<Longrightarrow> off + len \<le> send_end s \<Longrightarrow>
    send_run w (A \<union> {off..<off + len}) F (on_acked off len fin s)"

definition frames_of :: "byte list \<Rightarrow> (nat \<times> byte list) set \<Rightarrow> bool" where
  "frames_of w F \<longleftrightarrow> (\<forall>(off, d) \<in> F. off + length d \<le> length w \<and> d = take (length d) (drop off w))"

lemma frames_of_append: "frames_of w F \<Longrightarrow> frames_of (w @ x) F"
  by (auto simp: frames_of_def)

text \<open>
  What was written is what entered the ring followed by what is still held back.
\<close>

definition written_inv :: "byte list \<Rightarrow> nat set \<Rightarrow> (nat \<times> byte list) set \<Rightarrow> Stream \<Rightarrow> bool" where
  "written_inv w A F s \<longleftrightarrow>
     (\<exists>q. w = q @ drop (pending_off s) (pending s) \<and> send_inv q A s \<and> frames_of q F)"

lemma written_invI: "send_inv q A s \<Longrightarrow> frames_of q F \<Longrightarrow> w = q @ drop (pending_off s) (pending s) \<Longrightarrow> written_inv w A F s"
  by (auto simp: written_inv_def)

lemma pending_kept [simp]:
  "pending (snd (mark_sent k fin s)) = pending s" "pending_off (snd (mark_sent k fin s)) = pending_off s"
  "pending (rewind_sent off fin s) = pending s" "pending_off (rewind_sent off fin s) = pending_off s"
  by (simp_all add: mark_sent_def rewind_sent_def Let_def)

lemma pending_acked [simp]: "pending (on_acked off len fin s) = pending s" "pending_off (on_acked off len fin s) = pending_off s"
  by (simp_all add: on_acked_def Let_def split: option.split prod.split)

lemma pending_written:
  assumes "stream_write data fin s = (n, s')"
  shows "pending s' = pending s \<and> pending_off s' = pending_off s \<and> (\<not> pending_empty s \<longrightarrow> n = 0 \<and> s' = s)"
proof (cases "pending_empty s")
  case True
  obtain m t where "ring_put data s = (m, t)" by fastforce
  then show ?thesis using assms True by (auto simp: stream_write_def ring_put_def Let_def)
qed (use assms in \<open>simp add: stream_write_def\<close>)

lemma pending_empty_drop: "pending_empty s \<Longrightarrow> drop (pending_off s) (pending s) = []"
  by (simp add: pending_empty_def)

lemma written_inv_refill:
  assumes "written_inv w A F s"
  shows "written_inv w A F (snd (refill s))"
proof -
  obtain n s' where r: "refill s = (n, s')" by fastforce
  obtain q where q: "w = q @ drop (pending_off s) (pending s)" "send_inv q A s" "frames_of q F" using assms by (auto simp: written_inv_def)
  let ?d = "drop (pending_off s) (pending s)"
  note R = refill_inv [OF q(2) r]
  show ?thesis unfolding r snd_conv
  proof (rule written_invI)
    show "send_inv (q @ take n ?d) A s'" "frames_of (q @ take n ?d) F" using R frames_of_append q(3) by blast+
    have "w = (q @ take n ?d) @ drop n ?d" using q(1) by (simp only: append_assoc append_take_drop_id)
    then show "w = (q @ take n ?d) @ drop (pending_off s') (pending s')" using R by simp
  qed
qed

lemma written_inv_owned:
  assumes "written_inv w A F s" "pending_empty s"
  shows "written_inv (w @ body) A F (write_owned body fin s)"
proof -
  have q: "send_inv w A s" "frames_of w F" using assms pending_empty_drop [OF assms(2)] by (auto simp: written_inv_def)
  obtain n where n: "send_inv (w @ take n body) A (write_owned body fin s)"
    "drop (pending_off (write_owned body fin s)) (pending (write_owned body fin s)) = drop n body"
    using write_owned_inv [OF q(1)] by blast
  show ?thesis by (rule written_invI [OF n(1)]) (use q(2) n(2) frames_of_append in auto)
qed

lemma written_inv_write:
  assumes "written_inv w A F s" "stream_write data fin s = (n, s')"
  shows "written_inv (w @ take n data) A F s'"
proof (cases "pending_empty s")
  case True
  then have q: "send_inv w A s" "frames_of w F" using assms(1) pending_empty_drop [OF True] by (auto simp: written_inv_def)
  show ?thesis
    by (rule written_invI [of "w @ take n data"])
      (use stream_write_inv [OF q(1) assms(2)] frames_of_append [OF q(2)] pending_written [OF assms(2)] pending_empty_drop [OF True] in auto)
next
  case False
  then show ?thesis using assms pending_written [OF assms(2)] by simp
qed

lemma written_inv_emit:
  assumes "written_inv w A F s" "peek_unsent cap s = (work, off, d, fin)" "k \<le> length d"
  shows "written_inv w A (insert (off, take k d) F) (snd (mark_sent k fin' s))"
proof -
  obtain q where q: "w = q @ drop (pending_off s) (pending s)" "send_inv q A s" "frames_of q F" using assms(1) by (auto simp: written_inv_def)
  note p = peek_unsent_correct [OF q(2) assms(2)]
  have e: "send_end s = length q" using q(2) by (simp add: send_inv_def)
  have "take k d = take k (drop off q)" using p assms(3) by (metis min.absorb1 take_take)
  then have "send_inv q A (snd (mark_sent k fin' s)) \<and> frames_of q (insert (off, take k d) F)"
    using q p assms(3) e mark_sent_inv [of q A s k fin'] by (auto simp: frames_of_def)
  then show ?thesis using q(1) by (auto simp: written_inv_def)
qed

lemma send_run_written:
  assumes "send_run w A F s"
  shows "written_inv w A F s"
  using assms
proof induction
  case (opened i sm m sr rr)
  then show ?case
    by (auto simp: written_inv_def send_inv_def open_stream_def attach_buffers_def extents.empty_ok frames_of_def)
next
  case (lost w A F s off fin)
  then show ?case using rewind_sent_inv by (fastforce simp: written_inv_def)
next
  case (acked w A F s off len fin)
  then show ?case using on_acked_inv by (fastforce simp: written_inv_def)
qed (simp_all add: written_inv_write written_inv_owned written_inv_refill written_inv_emit)

lemma ring_byte_retransmittable:
  assumes inv: "send_inv w A s" and "x < length w" "x \<notin> A" "0 < cap"
  shows "send_buf s (x mod kStreamBufferSize) = w ! x \<and>
    (x < send_sent s \<longrightarrow>
      (\<exists>d fin. peek_unsent cap (rewind_sent x lost_fin s) = (True, x, w ! x # d, fin)))"
proof -
  have "{..<send_base s} \<subseteq> A" using inv by (simp add: send_inv_def)
  then have b: "send_base s \<le> x" using assms(3) by (meson lessThan_iff not_less subsetD)
  have e: "send_end s = length w" using inv by (simp add: send_inv_def)
  have "\<exists>d fin. peek_unsent cap (rewind_sent x lost_fin s) = (True, x, w ! x # d, fin)" if x: "x < send_sent s"
  proof -
    obtain work off d fin where p: "peek_unsent cap (rewind_sent x lost_fin s) = (work, off, d, fin)"
      by (metis prod.collapse)
    note q = peek_unsent_correct [OF rewind_sent_inv [OF inv] p]
    have s: "send_sent (rewind_sent x lost_fin s) = x" "send_end (rewind_sent x lost_fin s) = length w"
      using x b e assms(2) by (simp_all add: rewind_sent_def Let_def)
    have "0 < kStreamBufferSize - x mod kStreamBufferSize" by (simp add: kStreamBufferSize_def)
    then have "d \<noteq> []"
      using p s assms(2,4) unfolding peek_unsent_def Let_def unsent_def by (auto split: if_splits)
    then have "d ! 0 = w ! x" "work" using q s(1)
      by (metis add.right_neutral assms(2) hd_conv_nth hd_drop_conv_nth hd_take length_greater_0_conv, blast)
    then have "d = w ! x # tl d" using \<open>d \<noteq> []\<close> by (cases d) auto
    then show ?thesis using p q s(1) \<open>work\<close> by metis
  qed
  then show ?thesis using inv b assms(2) e by (auto simp: send_inv_def)
qed

section \<open>Properties\<close>

text \<open>
  C1. Ordered delivery: whatever the order, overlap and duplication of the frames that carry a
  peer's byte stream \<open>f\<close>, and however reads and window updates interleave, the application reads
  exactly a prefix of \<open>f\<close>; the receive cursor is always the first offset not yet received, so
  everything contiguous is readable at once; and the advertised window never exceeds the ring.
\<close>

theorem stream_delivers_in_order:
  assumes "recv_run (\<lambda>off d. d = map f [off..<off + length d]) s R out"
  shows "out = map f [0..<length out] \<and> read_cursor s = length out \<and> read_cursor s \<le> recv_cursor s \<and>
    recv_cursor s = (LEAST x. x \<notin> R) \<and> recv_max (flow s) \<le> read_cursor s + kStreamBufferSize"
proof -
  have "recv_inv f R s" "out = map f [0..<read_cursor s]" using recv_run_inv [OF assms, of f] by blast+
  moreover from this(1) have "read_cursor s \<le> recv_cursor s" "recv_max (flow s) \<le> read_cursor s + kStreamBufferSize"
    by (simp_all add: recv_inv_def)
  ultimately show ?thesis using recv_inv_cursor [of f R s] by simp
qed

lemma ext_absorb_single:
  "ext_absorb [] c = ([], c)"
  "ext_absorb [x] c = (if ex_start x \<le> c then ([], if ex_end x > c then ex_end x else c) else ([x], c))"
  by (simp_all add: ext_absorb_def kMaxRecvExtents_def numeral_eq_Suc)

text \<open>A concrete run: the second frame arrives first, then the first, then three bytes are read.\<close>

definition example_stream :: Stream where
  "example_stream = open_stream 0 10 10 (attach_buffers (\<lambda>_. 0) (\<lambda>_. 0))"

definition example_stream1 :: Stream where
  "example_stream1 = example_stream\<lparr>flow := (flow example_stream)\<lparr>recv_high := 3\<rparr>,
     recv_buf := memcpy 1 [8, 9] (\<lambda>_. 0), recv_ext := [\<lparr>ex_start = 1, ex_end = 3\<rparr>]\<rparr>"

definition example_stream2 :: Stream where
  "example_stream2 = example_stream1\<lparr>recv_buf := memcpy 0 [7] (recv_buf example_stream1),
     recv_cursor := 3, recv_ext := []\<rparr>"

lemmas stream_eval = receive_def receive_refused_def receive_note_def store_def recv_ok_def ext_add_def
  ext_absorb_single kMaxRecvExtents_def kStreamBufferSize_def ring_copy_def Let_def

lemma example_receive1: "receive 1 [8, 9] False example_stream = (True, example_stream1)"
proof -
  have "flow example_stream = \<lparr>send_max = 10, send_off = 0, recv_max = 10, recv_high = 0\<rparr>"
    "have_fin example_stream = False" "recv_cursor example_stream = 0" "read_cursor example_stream = 0"
    "recv_ext example_stream = []" "recv_buf example_stream = (\<lambda>_. 0)"
    by (simp_all add: example_stream_def open_stream_def attach_buffers_def flow_init_def)
  then show ?thesis by (simp add: stream_eval example_stream1_def)
qed

lemma example_receive2: "receive 0 [7] False example_stream1 = (True, example_stream2)"
proof -
  have "flow example_stream1 = \<lparr>send_max = 10, send_off = 0, recv_max = 10, recv_high = 3\<rparr>"
    "have_fin example_stream1 = False" "recv_cursor example_stream1 = 0" "read_cursor example_stream1 = 0"
    "recv_ext example_stream1 = [\<lparr>ex_start = 1, ex_end = 3\<rparr>]"
    by (simp_all add: example_stream1_def example_stream_def open_stream_def attach_buffers_def flow_init_def)
  then show ?thesis by (simp add: stream_eval example_stream2_def)
qed

lemma example_read:
  "recv_contiguous example_stream2 = 3" "recv_peek 3 example_stream2 = [7, 8, 9]"
proof -
  have c: "recv_cursor example_stream2 = 3" "read_cursor example_stream2 = 0"
    "recv_buf example_stream2 = memcpy 0 [7] (memcpy 1 [8, 9] (\<lambda>_. 0))"
    by (simp_all add: example_stream2_def example_stream1_def example_stream_def open_stream_def attach_buffers_def)
  show "recv_contiguous example_stream2 = 3"
    by (simp add: c recv_contiguous_def recv_available_def kStreamBufferSize_def)
  have "[0..<3] = [0, 1, 2 :: nat]" by (simp add: upt_rec)
  then show "recv_peek 3 example_stream2 = [7, 8, 9]"
    by (simp add: c recv_peek_def memcpy_def)
qed

theorem stream_delivers_in_order_witness:
  "recv_run (\<lambda>off d. d = map (\<lambda>x. of_nat (7 + x)) [off..<off + length d]) (recv_consume 3 example_stream2) {0..<3} [7, 8, 9] \<and>
    [7, 8, 9 :: byte] = map (\<lambda>x. of_nat (7 + x)) [0..<3]"
proof -
  let ?P = "\<lambda>off d. d = map (\<lambda>x. of_nat (7 + x) :: byte) [off..<off + length d]"
  have "recv_run ?P example_stream {} []"
    unfolding example_stream_def by (rule recv_run.opened) (simp add: kStreamBufferSize_def)
  moreover have "[8, 9 :: byte] = map (\<lambda>x. of_nat (7 + x)) [1..<1 + length [8, 9 :: byte]]"
    by (simp add: upt_rec)
  ultimately have "recv_run ?P example_stream1 ({} \<union> {1..<1 + length [8, 9 :: byte]}) []"
    using recv_run.frame [where P = ?P, OF _ _ example_receive1] by (simp only: if_True)
  moreover have "[7 :: byte] = map (\<lambda>x. of_nat (7 + x)) [0..<0 + length [7 :: byte]]" by simp
  ultimately have "recv_run ?P example_stream2 ({} \<union> {1..<1 + length [8, 9 :: byte]} \<union> {0..<0 + length [7 :: byte]}) []"
    using recv_run.frame [where P = ?P, OF _ _ example_receive2] by (simp only: if_True)
  moreover have "{} \<union> {1..<1 + length [8, 9 :: byte]} \<union> {0..<0 + length [7 :: byte]} = {0..<3}" by auto
  ultimately have "recv_run ?P example_stream2 {0..<3} []" by metis
  from recv_run.read [OF this, of 3] have r: "recv_run ?P (recv_consume 3 example_stream2) {0..<3} [7, 8, 9]"
    by (simp add: example_read)
  have "length [7, 8, 9 :: byte] = 3" by simp
  then show ?thesis using stream_delivers_in_order [OF r] r by metis
qed

text \<open>
  C17. No byte is given up before it is acknowledged: in every run of the send side, each byte the
  application wrote that the peer has not acknowledged is still held, in the ring or, past the ring's
  end, among the pending bytes; and for one in the ring loss recovery can put it on the wire again:
  rewinding to it and taking the next chunk yields a frame at that offset that starts with its byte
  (unless it was not sent yet, when the frontier is still at or below it).
\<close>

theorem unacked_bytes_retransmittable:
  assumes "send_run w A F s" "x < length w" "x \<notin> A" "0 < cap"
  shows "if x < send_end s then
      send_buf s (x mod kStreamBufferSize) = w ! x \<and>
      (x < send_sent s \<longrightarrow>
        (\<exists>d fin. peek_unsent cap (rewind_sent x lost_fin s) = (True, x, w ! x # d, fin)))
    else pending_off s + (x - send_end s) < length (pending s) \<and> pending s ! (pending_off s + (x - send_end s)) = w ! x"
proof -
  obtain q where q: "w = q @ drop (pending_off s) (pending s)" "send_inv q A s"
    using send_run_written [OF assms(1)] by (auto simp: written_inv_def)
  have e: "send_end s = length q" "pending_off s \<le> length (pending s)" using q(2) by (simp_all add: send_inv_def)
  show ?thesis
  proof (cases "x < send_end s")
    case True
    then show ?thesis using ring_byte_retransmittable [OF q(2) _ assms(3,4)] q(1) e(1) by (simp add: nth_append)
  next
    case False
    then show ?thesis using q(1) e assms(2) by (auto simp: nth_append)
  qed
qed
lemma example_write: "\<exists>s. stream_write [5, 6] False example_stream = (2, s) \<and> send_sent s = 0 \<and> send_end s = 2"
proof -
  have e: "send_end example_stream = 0" "send_base example_stream = 0" "pending_empty example_stream"
    "send_sent example_stream = 0"
    by (simp_all add: example_stream_def open_stream_def attach_buffers_def pending_empty_def)
  show ?thesis by (simp add: stream_write_def ring_put_def e kStreamBufferSize_def Let_def)
qed

theorem unacked_bytes_retransmittable_witness:
  "\<exists>s. send_run [5, 6] {} {} s \<and> send_buf s (1 mod kStreamBufferSize) = 6"
proof -
  obtain s where w: "stream_write [5, 6] False example_stream = (2, s)" "send_end s = 2" using example_write by blast
  have "send_run [] {} {} example_stream" unfolding example_stream_def by (rule send_run.opened)
  from send_run.wrote [OF this w(1)] have r: "send_run [5, 6] {} {} s" by simp
  then have "send_buf s (1 mod kStreamBufferSize) = [5, 6] ! 1" using unacked_bytes_retransmittable [OF r, of 1 1 False] w(2) by simp
  then show ?thesis using r by auto
qed

text \<open>
  C18. End to end: if the frames that reach the receiver are frames a sender put on the wire
  (in any order, any number of times, some never), what the receiving application reads is a
  prefix of what the sending application wrote: the bytes \<^verbatim>\<open>write\<close> reported as queued and all of what
  it passed to \<^verbatim>\<open>write_owned\<close>, however much of that waited outside the ring.
\<close>

theorem stream_transfer:
  assumes "send_run w A F s" and "recv_run (\<lambda>off d. (off, d) \<in> F) r R out"
  shows "out = take (length out) w \<and> length out = read_cursor r"
proof -
  have F: "frames_of w F" using send_run_written [OF assms(1)] frames_of_append by (auto simp: written_inv_def)
  have f: "d = map ((!) w) [off..<off + length d]" if "(off, d) \<in> F" for off d
  proof -
    have d: "off + length d \<le> length w" "d = take (length d) (drop off w)"
      using F that by (auto simp: frames_of_def)
    have "map ((!) w) [off..<off + length d] = take (length d) (drop off w)"
      using d(1) by (intro nth_equalityI) simp_all
    with d(2) show ?thesis by simp
  qed
  have r: "recv_inv ((!) w) R r" "out = map ((!) w) [0..<read_cursor r]"
    using recv_run_inv [OF assms(2) f] by blast+
  have "R \<subseteq> {..<length w}"
    by (rule recv_run_offsets [OF assms(2)]) (use F in \<open>auto simp: frames_of_def\<close>)
  moreover have "{..<read_cursor r} \<subseteq> R" using r(1) by (auto simp: recv_inv_def)
  ultimately have "{..<read_cursor r} \<subseteq> {..<length w}" by (metis subset_trans)
  then have "read_cursor r \<le> length w" by simp
  then show ?thesis using r(2) by (auto simp: list_eq_iff_nth_eq)
qed

definition example_sender :: Stream where
  "example_sender = example_stream\<lparr>send_buf := memcpy 0 [7, 8, 9] (\<lambda>_. 0), send_end := 3, send_st := SsSend\<rparr>"

lemma example_write3: "stream_write [7, 8, 9] False example_stream = (3, example_sender)"
proof -
  have e: "send_end example_stream = 0" "send_base example_stream = 0" "pending_empty example_stream"
    "send_buf example_stream = (\<lambda>_. 0)" "send_st example_stream = SsReady"
    by (simp_all add: example_stream_def open_stream_def attach_buffers_def pending_empty_def)
  show ?thesis
    by (simp add: stream_write_def ring_put_def ring_copy_def e kStreamBufferSize_def Let_def example_sender_def)
qed

lemma example_peek:
  "peek_unsent 1 example_sender = (True, 0, [7], False)"
  "peek_unsent 2 (snd (mark_sent 1 False example_sender)) = (True, 1, [8, 9], False)"
proof -
  have e: "send_end example_sender = 3" "send_sent example_sender = 0" "want_fin example_sender = False"
    "send_buf example_sender = memcpy 0 [7, 8, 9] (\<lambda>_. 0)" "flow_counted example_sender = 0" "send_off (flow example_sender) = 0"
    by (simp_all add: example_sender_def example_stream_def open_stream_def attach_buffers_def flow_init_def)
  show "peek_unsent 1 example_sender = (True, 0, [7], False)"
    by (simp add: peek_unsent_def unsent_def e kStreamBufferSize_def memcpy_def)
  have "[0..<2] = [0, 1 :: nat]" by (simp add: upt_rec)
  then show "peek_unsent 2 (snd (mark_sent 1 False example_sender)) = (True, 1, [8, 9], False)"
    by (simp add: peek_unsent_def unsent_def mark_sent_def e kStreamBufferSize_def memcpy_def Let_def)
qed

theorem stream_transfer_witness:
  "\<exists>s. send_run [7, 8, 9] {} {(1, [8, 9]), (0, [7])} s \<and>
    recv_run (\<lambda>off d. (off, d) \<in> {(1, [8, 9]), (0, [7])}) (recv_consume 3 example_stream2) {0..<3} [7, 8, 9] \<and>
    [7, 8, 9 :: byte] = take (length [7, 8, 9 :: byte]) [7, 8, 9]"
proof -
  let ?F = "{(1, [8, 9]), (0, [7 :: byte])}"
  have "send_run [] {} {} example_stream" unfolding example_stream_def by (rule send_run.opened)
  from send_run.wrote [OF this example_write3] have "send_run [7, 8, 9] {} {} example_sender" by simp
  from send_run.emit [OF this example_peek(1), of 1 False]
  have "send_run [7, 8, 9] {} {(0, [7])} (snd (mark_sent 1 False example_sender))" by simp
  from send_run.emit [OF this example_peek(2), of 2 False]
  obtain s where s: "send_run [7, 8, 9] {} ?F s" by auto
  have "recv_run (\<lambda>off d. (off, d) \<in> ?F) example_stream {} []"
    unfolding example_stream_def by (rule recv_run.opened) (simp add: kStreamBufferSize_def)
  from recv_run.frame [OF this _ example_receive1]
  have "recv_run (\<lambda>off d. (off, d) \<in> ?F) example_stream1 ({} \<union> {1..<1 + length [8, 9 :: byte]}) []" by simp
  from recv_run.frame [OF this _ example_receive2]
  have "recv_run (\<lambda>off d. (off, d) \<in> ?F) example_stream2
    ({} \<union> {1..<1 + length [8, 9 :: byte]} \<union> {0..<0 + length [7 :: byte]}) []" by simp
  moreover have "{} \<union> {1..<1 + length [8, 9 :: byte]} \<union> {0..<0 + length [7 :: byte]} = {0..<3}" by auto
  ultimately have "recv_run (\<lambda>off d. (off, d) \<in> ?F) example_stream2 {0..<3} []" by metis
  from recv_run.read [OF this, of 3]
  have r: "recv_run (\<lambda>off d. (off, d) \<in> ?F) (recv_consume 3 example_stream2) {0..<3} [7, 8, 9]"
    by (simp add: example_read)
  show ?thesis using s r stream_transfer [OF s r] by blast
qed

end
