(* ===== verification/Quic_Loss.thy ===== *)
theory Quic_Loss
  imports Bolt_Prelude
begin

text \<open>
  QUIC loss recovery state (\<^verbatim>\<open>include/boltapi/quic/loss.h\<close>): the NewReno congestion controller,
  the RTT estimator and the bounded ring of sent packets. Byte counts and times are naturals
  where the code has 64 bit words: the window grows by at most the bytes acknowledged and times are in
  microseconds, so wrapping them takes \<open>2 ^ 64\<close> acknowledged bytes or microseconds; the RTT
  estimator keeps its 64 bit words, because the acknowledgement delay it adds comes from the peer
  and can make the sum wrap.
\<close>

definition kMaxSentPackets :: nat where "kMaxSentPackets = 256"
definition kMaxFrameRangesPerPacket :: nat where "kMaxFrameRangesPerPacket = 4"
definition kPacketThreshold :: u64 where "kPacketThreshold = 3"
definition kTimeThresholdNum :: nat where "kTimeThresholdNum = 9"
definition kTimeThresholdDen :: nat where "kTimeThresholdDen = 8"
definition kGranularityUs :: nat where "kGranularityUs = 1000"
definition kInitialRttUs :: u64 where "kInitialRttUs = 333000"
definition kMaxPtoBackoffShift :: nat where "kMaxPtoBackoffShift = 6"

record FrameRange =
  fr_is_crypto :: bool
  fr_fin :: bool
  fr_id :: u64
  fr_offset :: nat
  fr_length :: nat

record SentPacketInfo =
  sp_packet_number :: u64
  sp_time_sent :: nat
  sp_size :: nat
  sp_ack_eliciting :: bool
  sp_in_flight :: bool
  sp_acked :: bool
  sp_lost :: bool
  sp_ctrl_flags :: byte
  sp_ranges :: "FrameRange list"

definition sent_packet_init :: SentPacketInfo where
  "sent_packet_init = \<lparr>sp_packet_number = 0, sp_time_sent = 0, sp_size = 0, sp_ack_eliciting = False,
     sp_in_flight = False, sp_acked = False, sp_lost = False, sp_ctrl_flags = 0, sp_ranges = []\<rparr>"

section \<open>NewReno\<close>

definition kMaxDatagram :: nat where "kMaxDatagram = 1200"
definition kInitialWindow :: nat where "kInitialWindow = 10 * 1200"
definition kMinimumWindow :: nat where "kMinimumWindow = 2 * 1200"

record NewRenoCongestion =
  cwnd :: nat
  ssthresh :: nat
  bytes_in_flight :: nat
  recovery_start_us :: nat

definition newreno_init :: NewRenoCongestion where
  "newreno_init = \<lparr>cwnd = kInitialWindow, ssthresh = 2 ^ 64 - 1, bytes_in_flight = 0, recovery_start_us = 0\<rparr>"

definition in_slow_start :: "NewRenoCongestion \<Rightarrow> bool" where
  "in_slow_start cc = (cwnd cc < ssthresh cc)"

definition in_recovery :: "NewRenoCongestion \<Rightarrow> nat \<Rightarrow> bool" where
  "in_recovery cc sent_time_us = (recovery_start_us cc \<noteq> 0 \<and> sent_time_us \<le> recovery_start_us cc)"

definition sub_in_flight :: "nat \<Rightarrow> NewRenoCongestion \<Rightarrow> NewRenoCongestion" where
  "sub_in_flight bytes cc = cc\<lparr>bytes_in_flight :=
     (if bytes_in_flight cc \<ge> bytes then bytes_in_flight cc - bytes else 0)\<rparr>"

definition on_packet_sent :: "nat \<Rightarrow> NewRenoCongestion \<Rightarrow> NewRenoCongestion" where
  "on_packet_sent bytes cc = cc\<lparr>bytes_in_flight := bytes_in_flight cc + bytes\<rparr>"

definition on_packet_acked :: "nat \<Rightarrow> nat \<Rightarrow> NewRenoCongestion \<Rightarrow> NewRenoCongestion" where
  "on_packet_acked bytes sent_time_us cc =
     (let cc = sub_in_flight bytes cc
      in if in_recovery cc sent_time_us then cc
         else if in_slow_start cc then cc\<lparr>cwnd := cwnd cc + bytes\<rparr>
         else cc\<lparr>cwnd := cwnd cc + (kMaxDatagram * bytes) div cwnd cc\<rparr>)"

definition on_congestion_event :: "nat \<Rightarrow> nat \<Rightarrow> NewRenoCongestion \<Rightarrow> NewRenoCongestion" where
  "on_congestion_event sent_time_us now_us cc =
     (if in_recovery cc sent_time_us then cc
      else
        let th = cwnd cc div 2;
            th = (if th < kMinimumWindow then kMinimumWindow else th)
        in cc\<lparr>recovery_start_us := now_us, ssthresh := th, cwnd := th\<rparr>)"

definition on_packet_lost :: "nat \<Rightarrow> NewRenoCongestion \<Rightarrow> NewRenoCongestion" where
  "on_packet_lost bytes cc = sub_in_flight bytes cc"

definition on_persistent_congestion :: "NewRenoCongestion \<Rightarrow> NewRenoCongestion" where
  "on_persistent_congestion cc = cc\<lparr>cwnd := kMinimumWindow, recovery_start_us := 0\<rparr>"

definition cc_can_send :: "NewRenoCongestion \<Rightarrow> nat \<Rightarrow> bool" where
  "cc_can_send cc bytes = (bytes_in_flight cc + bytes \<le> cwnd cc)"

definition reset_in_flight :: "NewRenoCongestion \<Rightarrow> NewRenoCongestion" where
  "reset_in_flight cc = cc\<lparr>bytes_in_flight := 0\<rparr>"

section \<open>RTT\<close>

record RttEstimator =
  latest :: u64
  smoothed :: u64
  rttvar :: u64
  rtt_min :: u64
  have_sample :: bool

definition rtt_init :: RttEstimator where
  "rtt_init = \<lparr>latest = 0, smoothed = kInitialRttUs, rttvar = kInitialRttUs div 2, rtt_min = - 1, have_sample = False\<rparr>"

definition on_rtt_sample :: "u64 \<Rightarrow> u64 \<Rightarrow> RttEstimator \<Rightarrow> RttEstimator" where
  "on_rtt_sample rtt_us ack_delay_us e =
     (let e = e\<lparr>latest := rtt_us\<rparr>;
          e = (if rtt_us < rtt_min e then e\<lparr>rtt_min := rtt_us\<rparr> else e)
      in if \<not> have_sample e then e\<lparr>smoothed := rtt_us, rttvar := rtt_us div 2, have_sample := True\<rparr>
         else
           let adjusted = (if rtt_us \<ge> rtt_min e + ack_delay_us then rtt_us - ack_delay_us else rtt_us);
               diff = (if adjusted > smoothed e then adjusted - smoothed e else smoothed e - adjusted)
           in e\<lparr>rttvar := (3 * rttvar e + diff) div 4, smoothed := (7 * smoothed e + adjusted) div 8\<rparr>)"

definition pto :: "u64 \<Rightarrow> nat \<Rightarrow> RttEstimator \<Rightarrow> u64" where
  "pto max_ack_delay_us backoff e =
     (let var = 4 * rttvar e;
          var = (if var < of_nat kGranularityUs then of_nat kGranularityUs else var);
          shift = (if backoff > kMaxPtoBackoffShift then kMaxPtoBackoffShift else backoff);
          base = smoothed e + var + max_ack_delay_us
      in push_bit shift base)"

definition min_rtt :: "RttEstimator \<Rightarrow> u64" where
  "min_rtt e = (if have_sample e then rtt_min e else 0)"

section \<open>Sent packets\<close>

record SentPacketTracker =
  tk_ring :: "SentPacketInfo list"
  tk_head :: nat
  tk_tail :: nat
  tk_count :: nat
  tk_next_expected :: u64

definition tracker_init :: SentPacketTracker where
  "tracker_init = \<lparr>tk_ring = replicate kMaxSentPackets sent_packet_init, tk_head = 0, tk_tail = 0,
     tk_count = 0, tk_next_expected = 0\<rparr>"

text \<open>
  The slot, its eviction report, and the tracker after \<^verbatim>\<open>record\<close>; the caller completes the entry
  through the slot's reference.
\<close>

definition tracker_record ::
    "u64 \<Rightarrow> nat \<Rightarrow> nat \<Rightarrow> bool \<Rightarrow> SentPacketTracker \<Rightarrow> nat \<times> nat \<times> SentPacketTracker" where
  "tracker_record pn now_us sz ack_eliciting tr =
     (let idx = tk_head tr;
          tr = tr\<lparr>tk_head := (tk_head tr + 1) mod kMaxSentPackets\<rparr>;
          (evicted, tr) =
            (if tk_count tr < kMaxSentPackets then (0, tr\<lparr>tk_count := tk_count tr + 1\<rparr>)
             else (if sp_in_flight (tk_ring tr ! idx) then sp_size (tk_ring tr ! idx) else 0,
                   tr\<lparr>tk_tail := (tk_tail tr + 1) mod kMaxSentPackets\<rparr>));
          s = sent_packet_init\<lparr>sp_packet_number := pn, sp_time_sent := now_us, sp_size := sz,
                sp_ack_eliciting := ack_eliciting, sp_in_flight := ack_eliciting\<rparr>
      in (evicted, idx,
          tr\<lparr>tk_ring := (tk_ring tr)[idx := s],
             tk_next_expected := (if pn \<ge> tk_next_expected tr then pn + 1 else tk_next_expected tr)\<rparr>))"

definition tracker_at :: "SentPacketTracker \<Rightarrow> nat \<Rightarrow> SentPacketInfo" where
  "tracker_at tr i = tk_ring tr ! ((tk_tail tr + i) mod kMaxSentPackets)"

text \<open>A write through the reference \<^verbatim>\<open>at\<close> returns.\<close>

definition tracker_set :: "nat \<Rightarrow> SentPacketInfo \<Rightarrow> SentPacketTracker \<Rightarrow> SentPacketTracker" where
  "tracker_set i s tr = tr\<lparr>tk_ring := (tk_ring tr)[(tk_tail tr + i) mod kMaxSentPackets := s]\<rparr>"

definition find_unacked :: "u64 \<Rightarrow> SentPacketTracker \<Rightarrow> SentPacketInfo option" where
  "find_unacked pn tr = find (\<lambda>s. sp_packet_number s = pn \<and> \<not> sp_acked s \<and> \<not> sp_lost s)
     (map (tracker_at tr) [0..<tk_count tr])"

definition any_ack_eliciting_in_flight :: "SentPacketTracker \<Rightarrow> bool" where
  "any_ack_eliciting_in_flight tr =
     list_ex (\<lambda>s. sp_in_flight s \<and> sp_ack_eliciting s) (map (tracker_at tr) [0..<tk_count tr])"

fun earliest_loop :: "SentPacketInfo list \<Rightarrow> nat option \<Rightarrow> nat option" where
  "earliest_loop [] out = out"
| "earliest_loop (s # ss) out =
     earliest_loop ss
       (if sp_in_flight s \<and> sp_ack_eliciting s \<and> (case out of None \<Rightarrow> True | Some t \<Rightarrow> sp_time_sent s < t)
        then Some (sp_time_sent s) else out)"

definition earliest_in_flight_time :: "SentPacketTracker \<Rightarrow> nat option" where
  "earliest_in_flight_time tr = earliest_loop (map (tracker_at tr) [0..<tk_count tr]) None"

section \<open>The live entries\<close>

text \<open>
  The tracker is a queue of at most 256 packets, oldest first. The invariant ties head, tail and
  count; the abstraction is the list of live entries.
\<close>

definition tracker_ok :: "SentPacketTracker \<Rightarrow> bool" where
  "tracker_ok tr \<longleftrightarrow> length (tk_ring tr) = kMaxSentPackets \<and> tk_tail tr < kMaxSentPackets \<and>
     tk_count tr \<le> kMaxSentPackets \<and> tk_head tr = (tk_tail tr + tk_count tr) mod kMaxSentPackets"

definition entries :: "SentPacketTracker \<Rightarrow> SentPacketInfo list" where
  "entries tr = map (tracker_at tr) [0..<tk_count tr]"

lemma tracker_init_ok: "tracker_ok tracker_init" "entries tracker_init = []"
  by (simp_all add: tracker_ok_def tracker_init_def entries_def kMaxSentPackets_def)

lemma length_entries [simp]: "length (entries tr) = tk_count tr"
  by (simp add: entries_def)

lemma nth_entries: "i < tk_count tr \<Longrightarrow> entries tr ! i = tracker_at tr i"
  by (simp add: entries_def)

lemma tracker_set_ok:
  assumes "tracker_ok tr" "i < tk_count tr"
  shows "tracker_ok (tracker_set i s tr) \<and> entries (tracker_set i s tr) = (entries tr)[i := s] \<and>
    tk_count (tracker_set i s tr) = tk_count tr"
proof -
  have K: "tk_count tr \<le> kMaxSentPackets" "length (tk_ring tr) = kMaxSentPackets" "0 < kMaxSentPackets"
    using assms(1) by (auto simp: tracker_ok_def kMaxSentPackets_def)
  have "entries (tracker_set i s tr) = (entries tr)[i := s]"
  proof (rule nth_equalityI)
    show "length (entries (tracker_set i s tr)) = length ((entries tr)[i := s])"
      by (simp add: tracker_set_def)
    fix j assume "j < length (entries (tracker_set i s tr))"
    then have j: "j < tk_count tr" by (simp add: tracker_set_def)
    have slots: "(tk_tail tr + i) mod kMaxSentPackets = (tk_tail tr + j) mod kMaxSentPackets \<longleftrightarrow> i = j"
      using mod_add_inj [of i kMaxSentPackets j "tk_tail tr"] j assms(2) K by simp
    have "entries (tracker_set i s tr) ! j = tracker_at (tracker_set i s tr) j"
      using j by (simp add: nth_entries tracker_set_def)
    also have "\<dots> = (if i = j then s else tracker_at tr j)"
      using slots K by (auto simp: tracker_at_def tracker_set_def)
    finally show "entries (tracker_set i s tr) ! j = (entries tr)[i := s] ! j"
      using j assms(2) by (simp add: nth_entries nth_list_update)
  qed
  then show ?thesis using assms(1) by (simp add: tracker_ok_def tracker_set_def)
qed

lemma record_wrap_slot:
  assumes "j < kMaxSentPackets" "t < kMaxSentPackets"
  shows "((t + 1) mod kMaxSentPackets + j) mod kMaxSentPackets = (t + Suc j) mod kMaxSentPackets"
    and "(t + Suc j) mod kMaxSentPackets = t \<longleftrightarrow> j = kMaxSentPackets - 1"
proof -
  show "((t + 1) mod kMaxSentPackets + j) mod kMaxSentPackets = (t + Suc j) mod kMaxSentPackets"
    by (simp add: mod_add_left_eq)
  show "(t + Suc j) mod kMaxSentPackets = t \<longleftrightarrow> j = kMaxSentPackets - 1"
  proof (cases "Suc j = kMaxSentPackets")
    case True
    then show ?thesis using assms by auto
  next
    case False
    then show ?thesis using mod_add_inj [of "Suc j" kMaxSentPackets 0 t] assms by auto
  qed
qed

text \<open>Recording is an enqueue; when the ring is full the oldest entry makes room.\<close>

lemma tracker_record_ok:
  assumes ok: "tracker_ok tr" and r: "tracker_record pn now sz ae tr = (evicted, idx, tr')"
  defines "s \<equiv> sent_packet_init\<lparr>sp_packet_number := pn, sp_time_sent := now, sp_size := sz,
                sp_ack_eliciting := ae, sp_in_flight := ae\<rparr>"
  shows "tracker_ok tr' \<and> entries tr' = (if tk_count tr = kMaxSentPackets then tl (entries tr) else entries tr) @ [s] \<and>
    evicted = (if tk_count tr = kMaxSentPackets \<and> sp_in_flight (hd (entries tr)) then sp_size (hd (entries tr)) else 0) \<and>
    0 < tk_count tr' \<and> idx = (tk_tail tr' + (tk_count tr' - 1)) mod kMaxSentPackets"
proof (cases "tk_count tr < kMaxSentPackets")
  case True
  have r': "evicted = 0" "idx = tk_head tr" "tk_tail tr' = tk_tail tr" "tk_count tr' = tk_count tr + 1"
    "tk_head tr' = (tk_head tr + 1) mod kMaxSentPackets" "tk_ring tr' = (tk_ring tr)[tk_head tr := s]"
    using r True by (auto simp: tracker_record_def Let_def s_def)
  have "tracker_at tr' j = (if j = tk_count tr then s else tracker_at tr j)" if "j \<le> tk_count tr" for j
    using ok r' that True mod_add_inj [of j kMaxSentPackets "tk_count tr" "tk_tail tr"]
    by (auto simp: tracker_at_def tracker_ok_def)
  then have "entries tr' = entries tr @ [s]" using r'(4) by (simp add: entries_def)
  moreover have "tracker_ok tr'" using ok r' True by (simp add: tracker_ok_def mod_Suc_eq)
  ultimately show ?thesis using True r' ok by (simp add: tracker_ok_def)
next
  case False
  then have full: "tk_count tr = kMaxSentPackets" using ok by (simp add: tracker_ok_def)
  have K: "0 < kMaxSentPackets" by (simp add: kMaxSentPackets_def)
  have hd: "tk_head tr = tk_tail tr" using ok full by (simp add: tracker_ok_def)
  have r': "evicted = (if sp_in_flight (tk_ring tr ! tk_head tr) then sp_size (tk_ring tr ! tk_head tr) else 0)"
    "idx = tk_head tr" "tk_tail tr' = (tk_tail tr + 1) mod kMaxSentPackets" "tk_count tr' = tk_count tr"
    "tk_head tr' = (tk_head tr + 1) mod kMaxSentPackets" "tk_ring tr' = (tk_ring tr)[tk_head tr := s]"
    using r False by (auto simp: tracker_record_def Let_def s_def)
  have at: "tracker_at tr' j = (if j = kMaxSentPackets - 1 then s else tracker_at tr (Suc j))" if "j < kMaxSentPackets" for j
    using record_wrap_slot [OF that, of "tk_tail tr"] r' hd ok by (auto simp: tracker_at_def tracker_ok_def)
  obtain n where n: "kMaxSentPackets = Suc n" using K by (cases kMaxSentPackets) auto
  have "entries tr' = map (\<lambda>j. if j = n then s else tracker_at tr (Suc j)) [0..<Suc n]"
    using at full r'(4) n by (simp add: entries_def)
  moreover have "tl (entries tr) = map (\<lambda>j. tracker_at tr (Suc j)) [0..<n]"
    by (rule nth_equalityI) (simp_all add: entries_def nth_tl full n del: upt_Suc)
  ultimately have "entries tr' = tl (entries tr) @ [s]" by simp
  moreover have "hd (entries tr) = tk_ring tr ! tk_head tr"
    using full n hd ok by (simp add: entries_def upt_conv_Cons tracker_at_def tracker_ok_def del: upt_Suc)
  moreover have "tracker_ok tr'" using ok r' full hd by (simp add: tracker_ok_def K)
  moreover have "(tk_tail tr' + (tk_count tr' - 1)) mod kMaxSentPackets = tk_tail tr"
    using record_wrap_slot [of "kMaxSentPackets - 1" "tk_tail tr"] r'(3,4) full K ok
    by (simp add: tracker_ok_def)
  ultimately show ?thesis using full r' hd K by simp
qed

section \<open>The congestion window\<close>

definition newreno_ok :: "NewRenoCongestion \<Rightarrow> bool" where
  "newreno_ok cc \<longleftrightarrow> kMinimumWindow \<le> cwnd cc \<and> kMinimumWindow \<le> ssthresh cc"

lemma newreno_preserved:
  assumes "newreno_ok cc"
  shows "newreno_ok (on_packet_sent b cc)" "newreno_ok (on_packet_acked b t cc)" "newreno_ok (on_packet_lost b cc)"
    "newreno_ok (on_congestion_event t now cc)" "newreno_ok (on_persistent_congestion cc)" "newreno_ok (reset_in_flight cc)"
    "newreno_ok newreno_init"
  using assms
  by (simp_all add: newreno_ok_def on_packet_sent_def on_packet_acked_def on_packet_lost_def on_congestion_event_def
      on_persistent_congestion_def reset_in_flight_def sub_in_flight_def newreno_init_def kInitialWindow_def
      kMinimumWindow_def Let_def)

lemma in_flight_simps [simp]:
  "bytes_in_flight (on_packet_sent b cc) = bytes_in_flight cc + b"
  "bytes_in_flight (on_packet_acked b t cc) = bytes_in_flight cc - b"
  "bytes_in_flight (on_packet_lost b cc) = bytes_in_flight cc - b"
  "bytes_in_flight (on_congestion_event t now cc) = bytes_in_flight cc"
  by (simp_all add: on_packet_sent_def on_packet_acked_def on_packet_lost_def on_congestion_event_def sub_in_flight_def Let_def)

section \<open>Properties\<close>

text \<open>The estimator after at least one sample, with samples below \<open>2 ^ 59\<close> microseconds.\<close>

definition rtt_ok :: "RttEstimator \<Rightarrow> bool" where
  "rtt_ok e \<longleftrightarrow> 1 \<le> unat (rtt_min e) \<and> (have_sample e \<longrightarrow>
     1 \<le> unat (smoothed e) \<and> unat (smoothed e) \<le> 2 ^ 60 \<and> unat (rtt_min e) < 2 ^ 59)"

lemma adjusted_bounds:
  fixes rtt m delay :: u64
  assumes "1 \<le> unat m" "unat m \<le> unat rtt" "unat rtt < 2 ^ 59"
  defines "adj \<equiv> (if rtt \<ge> m + delay then rtt - delay else rtt)"
  shows "1 \<le> unat adj" "unat adj \<le> 2 ^ 60"
proof -
  have d: "unat delay < 2 ^ 64" using unsigned_less [of delay] by simp
  have md: "unat (m + delay) = (if unat m + unat delay < 2 ^ 64 then unat m + unat delay else unat m + unat delay - 2 ^ 64)"
    using assms d by (simp add: unat_word_ariths mod_if)
  have sub: "unat (rtt - delay) = (if unat delay \<le> unat rtt then unat rtt - unat delay else unat rtt + 2 ^ 64 - unat delay)"
    by (simp add: unat_sub_if' word_le_nat_alt)
  show "1 \<le> unat adj" "unat adj \<le> 2 ^ 60"
    using assms md sub d by (auto simp: adj_def word_le_nat_alt split: if_splits)
qed

lemma smoothed_bounds:
  fixes sm adj :: u64
  assumes "1 \<le> unat sm" "unat sm \<le> 2 ^ 60" "1 \<le> unat adj" "unat adj \<le> 2 ^ 60"
  shows "1 \<le> unat ((7 * sm + adj) div 8)" "unat ((7 * sm + adj) div 8) \<le> 2 ^ 60"
proof -
  have 7: "unat (7 * sm) = 7 * unat sm" using assms by (simp add: unat_word_ariths)
  then have "unat (7 * sm + adj) = 7 * unat sm + unat adj" using assms by (intro trans [OF unat_add_small]) simp_all
  then have "unat ((7 * sm + adj) div 8) = (7 * unat sm + unat adj) div 8" by (simp add: unat_div)
  then show "1 \<le> unat ((7 * sm + adj) div 8)" "unat ((7 * sm + adj) div 8) \<le> 2 ^ 60" using assms by simp_all
qed

text \<open>
  C39. The RTT estimate cannot be driven to zero or blown up by a peer: the acknowledgement delay
  is a 62 bit value shifted left by three, it may wrap the 64 bit sum it is compared with, and yet for
  every delay the smoothed RTT stays positive and below \<open>2 ^ 60\<close> (so the weighted sums never overflow),
  as long as the samples themselves are below \<open>2 ^ 59\<close> microseconds.
\<close>

theorem rtt_sample_robust:
  assumes "rtt_ok e" "0 < rtt" "unat rtt < 2 ^ 59"
  shows "rtt_ok (on_rtt_sample rtt delay e) \<and> have_sample (on_rtt_sample rtt delay e) \<and>
    latest (on_rtt_sample rtt delay e) = rtt"
proof -
  define m where "m = (if rtt < rtt_min e then rtt else rtt_min e)"
  define adj where "adj = (if rtt \<ge> m + delay then rtt - delay else rtt)"
  have r: "1 \<le> unat rtt" using assms(2) by (simp add: unat_gt_0 Suc_le_eq word_neq_0_conv)
  have m: "1 \<le> unat m" "unat m \<le> unat rtt" "unat m < 2 ^ 59"
    using assms r by (auto simp: m_def rtt_ok_def word_less_nat_alt)
  have adj: "1 \<le> unat adj" "unat adj \<le> 2 ^ 60"
    unfolding adj_def using adjusted_bounds [OF m(1,2) assms(3)] by blast+
  have e: "on_rtt_sample rtt delay e = (if \<not> have_sample e
      then e\<lparr>latest := rtt, rtt_min := m, smoothed := rtt, rttvar := rtt div 2, have_sample := True\<rparr>
      else e\<lparr>latest := rtt, rtt_min := m, rttvar := (3 * rttvar e + (if adj > smoothed e then adj - smoothed e else smoothed e - adj)) div 4,
             smoothed := (7 * smoothed e + adj) div 8\<rparr>)"
    by (simp add: on_rtt_sample_def Let_def m_def adj_def)
  show ?thesis
    using smoothed_bounds [of "smoothed e", OF _ _ adj] assms m r by (simp add: e rtt_ok_def)
qed

theorem rtt_sample_robust_witness:
  "rtt_ok (on_rtt_sample 1000 0xFFFFFFFFFFFFFFF8 (on_rtt_sample 500 0 rtt_init)) \<and>
   smoothed (on_rtt_sample 1000 0xFFFFFFFFFFFFFFF8 (on_rtt_sample 500 0 rtt_init)) = 563"
proof -
  have "rtt_ok rtt_init" by (simp add: rtt_ok_def rtt_init_def unsigned_minus_1_eq_mask mask_eq_exp_minus_1)
  then have "rtt_ok (on_rtt_sample 500 0 rtt_init)" using rtt_sample_robust [of rtt_init 500 0] by simp
  then have "rtt_ok (on_rtt_sample 1000 0xFFFFFFFFFFFFFFF8 (on_rtt_sample 500 0 rtt_init))"
    using rtt_sample_robust [of _ 1000 "0xFFFFFFFFFFFFFFF8"] by simp
  moreover have "smoothed (on_rtt_sample 1000 0xFFFFFFFFFFFFFFF8 (on_rtt_sample 500 0 rtt_init)) = 563"
    by code_simp
  ultimately show ?thesis by simp
qed

end
