(* ===== verification/Quic_Recovery.thy ===== *)
theory Quic_Recovery
  imports Quic_Ack Quic_Pn_Space Quic_Stream Quic_Loss
begin

text \<open>
  Loss recovery of the connection (\<^verbatim>\<open>include/boltapi/quic/connection.h\<close>): recording sent packets,
  processing ACK frames, declaring packets lost by packet and time threshold, probe timeouts,
  handshake speed-ups and the discarding of a packet number space. The state holds the members of
  \<^verbatim>\<open>QuicConnection\<close> these functions read and write. The current time, which \<^verbatim>\<open>now_us\<close> reads from the
  clock, is a parameter.
\<close>

section \<open>State\<close>

datatype TlsLevel = TlInitial | TlEarlyData | TlHandshake | TlApplication

datatype ConnState = CsNew | CsHandshaking | CsEstablished | CsClosing | CsDraining | CsClosed

fun tls_level_index :: "TlsLevel \<Rightarrow> nat" where
  "tls_level_index TlInitial = 0"
| "tls_level_index TlEarlyData = 1"
| "tls_level_index TlHandshake = 2"
| "tls_level_index TlApplication = 3"

definition kNumTlsLevels :: nat where "kNumTlsLevels = 4"

fun space_for :: "TlsLevel \<Rightarrow> PacketNumberSpace" where
  "space_for TlInitial = kInitial"
| "space_for TlHandshake = kHandshake"
| "space_for _ = kApplication"

definition kCtrlHandshakeDone :: byte where "kCtrlHandshakeDone = 1"
definition kCtrlFlow :: byte where "kCtrlFlow = 2"
definition kCtrlStreams :: byte where "kCtrlStreams = 4"
definition kMaxHandshakeSpeedups :: nat where "kMaxHandshakeSpeedups = 8"
definition max_ack_delay_us :: u64 where "max_ack_delay_us = 25000"
definition kDefaultAckDelayExponent :: nat where "kDefaultAckDelayExponent = 3"

record Recovery =
  rv_spaces :: "PacketNumberSpace \<Rightarrow> PacketNumberSpaceState"
  rv_sent :: "PacketNumberSpace \<Rightarrow> SentPacketTracker"
  rv_rtt :: RttEstimator
  rv_cc :: NewRenoCongestion
  rv_pto_backoff :: nat
  rv_rtt_sample :: u64
  rv_time_largest_acked_sent :: nat
  rv_pto_probes :: nat
  rv_streams :: "Stream list"
  rv_crypto_tx :: "nat \<Rightarrow> nat"
  rv_crypto_sent_off :: "nat \<Rightarrow> nat"
  rv_ack_pending :: "PacketNumberSpace \<Rightarrow> bool"
  rv_discarded :: "PacketNumberSpace \<Rightarrow> bool"
  rv_next_ctrl_flags :: byte
  rv_handshake_done_sent :: bool
  rv_handshake_confirmed :: bool
  rv_state :: ConnState
  rv_conn_window_dirty :: bool
  rv_stream_window_dirty :: bool
  rv_bidi_sent_limit :: nat
  rv_uni_sent_limit :: nat
  rv_speedups :: nat

section \<open>Operations\<close>

text \<open>The pool holds \<^verbatim>\<open>kMaxStreams\<close> slots; the first live slot with the id is the stream.\<close>

fun find_stream :: "u64 \<Rightarrow> Stream list \<Rightarrow> Stream option" where
  "find_stream i [] = None"
| "find_stream i (s # ss) = (if in_use s \<and> st_id s = i then Some s else find_stream i ss)"

text \<open>A call through the pointer \<^verbatim>\<open>find_stream\<close> returns; nothing happens on a null pointer.\<close>

fun on_stream :: "u64 \<Rightarrow> (Stream \<Rightarrow> Stream) \<Rightarrow> Stream list \<Rightarrow> Stream list" where
  "on_stream i f [] = []"
| "on_stream i f (s # ss) = (if in_use s \<and> st_id s = i then f s # ss else s # on_stream i f ss)"

definition mark_window_dirty :: "Stream \<Rightarrow> Stream" where
  "mark_window_dirty s = s\<lparr>window_dirty := True\<rparr>"

definition requeue_lost_control :: "byte \<Rightarrow> Recovery \<Rightarrow> Recovery" where
  "requeue_lost_control flags st =
     (let st = (if flags AND kCtrlHandshakeDone \<noteq> 0 then st\<lparr>rv_handshake_done_sent := False\<rparr> else st);
          st = (if flags AND kCtrlFlow \<noteq> 0
                then st\<lparr>rv_conn_window_dirty := True, rv_stream_window_dirty := True,
                        rv_streams := map (\<lambda>s. if in_use s then mark_window_dirty s else s) (rv_streams st)\<rparr>
                else st)
      in if flags AND kCtrlStreams \<noteq> 0 then st\<lparr>rv_bidi_sent_limit := 0, rv_uni_sent_limit := 0\<rparr> else st)"

definition requeue_range :: "FrameRange \<Rightarrow> Recovery \<Rightarrow> Recovery" where
  "requeue_range r st =
     (if fr_is_crypto r then
        (let li = unat (fr_id r)
         in if li < kNumTlsLevels \<and> fr_offset r < rv_crypto_sent_off st li
            then st\<lparr>rv_crypto_sent_off := (rv_crypto_sent_off st)(li := fr_offset r)\<rparr> else st)
      else st\<lparr>rv_streams := on_stream (fr_id r) (rewind_sent (fr_offset r) (fr_fin r)) (rv_streams st)\<rparr>)"

definition requeue_lost :: "SentPacketInfo \<Rightarrow> Recovery \<Rightarrow> Recovery" where
  "requeue_lost s st = fold requeue_range (sp_ranges s) (requeue_lost_control (sp_ctrl_flags s) st)"

definition on_packet_acked_ranges :: "SentPacketInfo \<Rightarrow> Recovery \<Rightarrow> Recovery" where
  "on_packet_acked_ranges s st =
     fold (\<lambda>r st. if fr_is_crypto r then st
            else st\<lparr>rv_streams := on_stream (fr_id r) (on_acked (fr_offset r) (fr_length r) (fr_fin r)) (rv_streams st)\<rparr>)
       (sp_ranges s) st"

text \<open>A write to entry \<open>i\<close> of a space's ring, and the two ways bytes leave flight.\<close>

definition set_entry :: "PacketNumberSpace \<Rightarrow> nat \<Rightarrow> SentPacketInfo \<Rightarrow> Recovery \<Rightarrow> Recovery" where
  "set_entry sp i s st = st\<lparr>rv_sent := (rv_sent st)(sp := tracker_set i s (rv_sent st sp))\<rparr>"

text \<open>\<^verbatim>\<open>if (s.in_flight) { s.in_flight = false; cc_.on_packet_lost(s.size); }\<close>\<close>

definition leave_flight_lost :: "PacketNumberSpace \<Rightarrow> nat \<Rightarrow> Recovery \<Rightarrow> Recovery" where
  "leave_flight_lost sp i st =
     (let s = tracker_at (rv_sent st sp) i
      in if sp_in_flight s
         then (set_entry sp i (s\<lparr>sp_in_flight := False\<rparr>) st)\<lparr>rv_cc := on_packet_lost (sp_size s) (rv_cc st)\<rparr>
         else st)"

definition leave_flight_acked :: "PacketNumberSpace \<Rightarrow> nat \<Rightarrow> Recovery \<Rightarrow> Recovery" where
  "leave_flight_acked sp i st =
     (let s = tracker_at (rv_sent st sp) i
      in if sp_in_flight s
         then (set_entry sp i (s\<lparr>sp_in_flight := False\<rparr>) st)\<lparr>rv_cc := on_packet_acked (sp_size s) (sp_time_sent s) (rv_cc st)\<rparr>
         else st)"

definition ack_step :: "PacketNumberSpace \<Rightarrow> u64 \<Rightarrow> u64 \<Rightarrow> u64 \<Rightarrow> nat \<Rightarrow> nat \<Rightarrow> Recovery \<times> bool \<Rightarrow> Recovery \<times> bool" where
  "ack_step sp lo hi largest now i = (\<lambda>(st, acked_largest).
     let s = tracker_at (rv_sent st sp) i
     in if sp_packet_number s < lo \<or> sp_packet_number s > hi then (st, acked_largest)
        else if sp_acked s \<or> sp_lost s then (st, acked_largest)
        else
          let st = set_entry sp i (s\<lparr>sp_acked := True\<rparr>) st;
              st = leave_flight_acked sp i st;
              st = on_packet_acked_ranges s st
          in if sp_packet_number s = largest then
               (let st = st\<lparr>rv_time_largest_acked_sent := sp_time_sent s\<rparr>
                in if sp_ack_eliciting s then (st\<lparr>rv_rtt_sample := of_nat now - of_nat (sp_time_sent s)\<rparr>, True)
                   else (st, acked_largest))
             else (st, acked_largest))"

definition ack_range :: "PacketNumberSpace \<Rightarrow> u64 \<Rightarrow> u64 \<Rightarrow> u64 \<Rightarrow> nat \<Rightarrow> Recovery \<times> bool \<Rightarrow> Recovery \<times> bool" where
  "ack_range sp lo hi largest now x =
     fold (ack_step sp lo hi largest now) [0..<tk_count (rv_sent (fst x) sp)] x"

definition loss_delay :: "RttEstimator \<Rightarrow> u64" where
  "loss_delay e =
     (let rtt = smoothed e;
          rtt = (if latest e > rtt then latest e else rtt);
          d = (of_nat kTimeThresholdNum * rtt) div of_nat kTimeThresholdDen
      in if d < of_nat kGranularityUs then of_nat kGranularityUs else d)"

definition loss_step ::
    "PacketNumberSpace \<Rightarrow> u64 \<Rightarrow> u64 \<Rightarrow> nat \<Rightarrow> Recovery \<times> nat option \<Rightarrow> Recovery \<times> nat option" where
  "loss_step sp largest delay i = (\<lambda>(st, earliest_lost).
     let s = tracker_at (rv_sent st sp) i
     in if sp_acked s \<or> sp_lost s \<or> \<not> sp_ack_eliciting s then (st, earliest_lost)
        else if largest \<le> sp_packet_number s then (st, earliest_lost)
        else
          let by_pkt = (largest \<ge> sp_packet_number s + kPacketThreshold);
              by_time = ((of_nat (rv_time_largest_acked_sent st) :: u64) \<ge> of_nat (sp_time_sent s) + delay)
          in if \<not> by_pkt \<and> \<not> by_time then (st, earliest_lost)
             else
               let st = set_entry sp i (s\<lparr>sp_lost := True\<rparr>) st;
                   st = leave_flight_lost sp i st;
                   st = requeue_lost s st
               in (st, case earliest_lost of
                         None \<Rightarrow> Some (sp_time_sent s)
                       | Some e \<Rightarrow> Some (if sp_time_sent s < e then sp_time_sent s else e)))"

definition detect_loss :: "TlsLevel \<Rightarrow> nat \<Rightarrow> Recovery \<Rightarrow> Recovery" where
  "detect_loss level now st =
     (let sp = space_for level; la = largest_acked (rv_spaces st sp)
      in if la < 0 then st
         else case fold (loss_step sp (word_of_int la) (loss_delay (rv_rtt st)))
                     [0..<tk_count (rv_sent st sp)] (st, None) of
                (st, None) \<Rightarrow> st
              | (st, Some e) \<Rightarrow> st\<lparr>rv_cc := on_congestion_event e now (rv_cc st)\<rparr>)"

definition process_ack :: "TlsLevel \<Rightarrow> AckFrame \<Rightarrow> nat \<Rightarrow> Recovery \<Rightarrow> Recovery" where
  "process_ack level ack now st =
     (let (st, acked_largest) =
            fold (\<lambda>(lo, hi). ack_range (space_for level) lo hi (af_largest_acked ack) now)
              (ack_intervals ack) (st, False);
          st = (if acked_largest \<and> rv_rtt_sample st > 0
                then st\<lparr>rv_rtt := on_rtt_sample (rv_rtt_sample st)
                           (push_bit kDefaultAckDelayExponent (af_ack_delay ack)) (rv_rtt st),
                        rv_rtt_sample := 0\<rparr>
                else st)
      in detect_loss level now (st\<lparr>rv_pto_backoff := 0, rv_pto_probes := 0\<rparr>))"

text \<open>
  The ACK frame handler after the type byte. The result is the number of bytes consumed, or the error
  code the connection is closed with (\<^verbatim>\<open>None\<close> for a frame that does not parse).
\<close>

datatype ack_result = AckConsumed nat | AckMalformed | AckCloses u64

definition kFrameEncodingError :: u64 where "kFrameEncodingError = 0x07"
definition kProtocolViolation :: u64 where "kProtocolViolation = 0x0a"

text \<open>
  \<^verbatim>\<open>close\<close>: the state changes unless the connection is closing already; the packet with the CONNECTION_CLOSE frame it
  emits is a send of its own.
\<close>

definition close :: "Recovery \<Rightarrow> Recovery" where
  "close st =
     (if rv_state st = CsClosing \<or> rv_state st = CsDraining \<or> rv_state st = CsClosed then st else st\<lparr>rv_state := CsClosing\<rparr>)"

definition handle_ack :: "TlsLevel \<Rightarrow> byte list \<Rightarrow> bool \<Rightarrow> nat \<Rightarrow> Recovery \<Rightarrow> ack_result \<times> Recovery" where
  "handle_ack level data ecn now st =
     (case ack_frame_parse (tl data) ecn of
        Parsed ack c \<Rightarrow>
          if af_first_ack_range ack > af_largest_acked ack then (AckCloses kFrameEncodingError, close st)
          else if af_largest_acked ack \<ge> next_pn (rv_spaces st (space_for level))
          then (AckCloses kProtocolViolation, close st)
          else (AckConsumed (1 + c),
                process_ack level ack now
                  (st\<lparr>rv_spaces := (rv_spaces st)(space_for level :=
                       on_largest_acked (af_largest_acked ack) (rv_spaces st (space_for level)))\<rparr>))
      | _ \<Rightarrow> (AckMalformed, st))"

definition declare_lost :: "PacketNumberSpace \<Rightarrow> nat \<Rightarrow> Recovery \<Rightarrow> Recovery" where
  "declare_lost sp i st =
     (let s = tracker_at (rv_sent st sp) i;
          st = requeue_lost s st;
          st = set_entry sp i (s\<lparr>sp_lost := True\<rparr>) st
      in leave_flight_lost sp i st)"

definition speedup_step :: "PacketNumberSpace \<Rightarrow> nat \<Rightarrow> Recovery \<Rightarrow> Recovery" where
  "speedup_step sp i st =
     (let s = tracker_at (rv_sent st sp) i
      in if sp_acked s \<or> sp_lost s \<or> \<not> sp_ack_eliciting s then st else declare_lost sp i st)"

definition speed_up_handshake :: "Recovery \<Rightarrow> Recovery" where
  "speed_up_handshake st =
     (if rv_handshake_confirmed st \<or> rv_state st = CsEstablished then st
      else if rv_speedups st \<ge> kMaxHandshakeSpeedups then st
      else fold (\<lambda>sp st. fold (speedup_step sp) [0..<tk_count (rv_sent st sp)] st)
             [kInitial, kHandshake] (st\<lparr>rv_speedups := rv_speedups st + 1\<rparr>))"

text \<open>The probe loop stops at the first unresolved packet.\<close>

fun pto_probe :: "PacketNumberSpace \<Rightarrow> nat list \<Rightarrow> Recovery \<Rightarrow> Recovery \<times> bool" where
  "pto_probe sp [] st = (st, False)"
| "pto_probe sp (i # is) st =
     (let s = tracker_at (rv_sent st sp) i
      in if sp_acked s \<or> sp_lost s \<or> \<not> sp_ack_eliciting s then pto_probe sp is st
         else (declare_lost sp i st, True))"

definition pto_space :: "nat \<Rightarrow> PacketNumberSpace \<Rightarrow> Recovery \<times> bool \<Rightarrow> Recovery \<times> bool" where
  "pto_space now sp = (\<lambda>(st, fired).
     case earliest_in_flight_time (rv_sent st sp) of
       None \<Rightarrow> (st, fired)
     | Some earliest \<Rightarrow>
         if (of_nat now :: u64) < of_nat earliest + pto max_ack_delay_us (rv_pto_backoff st) (rv_rtt st) then (st, fired)
         else case pto_probe sp [0..<tk_count (rv_sent st sp)] st of (st, f) \<Rightarrow> (st, fired \<or> f))"

definition maybe_pto_expire :: "nat \<Rightarrow> Recovery \<Rightarrow> Recovery" where
  "maybe_pto_expire now st =
     (let (st, fired) = fold (pto_space now) [kInitial, kHandshake, kApplication] (st, False)
      in if fired
         then st\<lparr>rv_pto_probes := (if rv_pto_probes st < 2 then rv_pto_probes st + 1 else rv_pto_probes st),
                 rv_pto_backoff := (if rv_pto_backoff st < kMaxPtoBackoffShift then rv_pto_backoff st + 1 else rv_pto_backoff st)\<rparr>
         else st)"

definition discard_step :: "PacketNumberSpace \<Rightarrow> nat \<Rightarrow> Recovery \<Rightarrow> Recovery" where
  "discard_step sp i st =
     (let st = leave_flight_lost sp i st
      in set_entry sp i ((tracker_at (rv_sent st sp) i)\<lparr>sp_acked := True\<rparr>) st)"

definition discard_space :: "PacketNumberSpace \<Rightarrow> Recovery \<Rightarrow> Recovery" where
  "discard_space sp st =
     (if rv_discarded st sp then st
      else
        let st = st\<lparr>rv_discarded := (rv_discarded st)(sp := True)\<rparr>;
            st = fold (discard_step sp) [0..<tk_count (rv_sent st sp)] st;
            li = tls_level_index (if sp = kInitial then TlInitial else TlHandshake)
        in st\<lparr>rv_ack_pending := (rv_ack_pending st)(sp := False),
              rv_crypto_sent_off := (rv_crypto_sent_off st)(li := rv_crypto_tx st li),
              rv_pto_backoff := 0\<rparr>)"

text \<open>
  The part of \<^verbatim>\<open>maybe_promote_state\<close> that runs when the state becomes established and touches recovery:
  the controller is zeroed, then the Handshake space is discarded.
\<close>

definition establish :: "Recovery \<Rightarrow> Recovery" where
  "establish st = discard_space kHandshake (st\<lparr>rv_state := CsEstablished, rv_cc := reset_in_flight (rv_cc st)\<rparr>)"

text \<open>
  What \<^verbatim>\<open>restart_handshake\<close> (a client after Version Negotiation or Retry) does to these members: the packet number
  spaces, the sent-packet rings and the CRYPTO frontiers start anew; the congestion controller is not touched. The
  new first flight it sends is a send of its own.
\<close>

definition restart_handshake :: "Recovery \<Rightarrow> Recovery" where
  "restart_handshake st =
     st\<lparr>rv_discarded := (rv_discarded st)(kInitial := False, kHandshake := False),
        rv_spaces := pn_space_manager, rv_ack_pending := (\<lambda>_. False), rv_sent := (\<lambda>_. tracker_init),
        rv_crypto_tx := (\<lambda>_. 0), rv_crypto_sent_off := (\<lambda>_. 0), rv_state := CsHandshaking\<rparr>"

definition tracker_has_room :: "PacketNumberSpace \<Rightarrow> Recovery \<Rightarrow> bool" where
  "tracker_has_room sp st =
     (let tr = rv_sent st sp
      in if tk_count tr < kMaxSentPackets then True
         else let old = tracker_at tr 0 in sp_acked old \<or> sp_lost old \<or> \<not> sp_ack_eliciting old)"

definition record_sent ::
    "PacketNumberSpace \<Rightarrow> u64 \<Rightarrow> nat \<Rightarrow> bool \<Rightarrow> FrameRange list \<Rightarrow> nat \<Rightarrow> Recovery \<Rightarrow> Recovery" where
  "record_sent sp pn wire ack_eliciting ranges now st =
     (if wire = 0 then requeue_lost (sent_packet_init\<lparr>sp_ranges := ranges\<rparr>) st
      else
        let old = tracker_at (rv_sent st sp) 0;
            st = (if tk_count (rv_sent st sp) = kMaxSentPackets \<and> \<not> sp_acked old \<and> \<not> sp_lost old \<and> sp_ack_eliciting old
                  then set_entry sp 0 (old\<lparr>sp_lost := True\<rparr>) (requeue_lost old st) else st);
            (evicted, idx, tr) = tracker_record pn now wire ack_eliciting (rv_sent st sp);
            tr = tr\<lparr>tk_ring := (tk_ring tr)[idx := (tk_ring tr ! idx)\<lparr>sp_ctrl_flags := rv_next_ctrl_flags st, sp_ranges := ranges\<rparr>]\<rparr>;
            cc = rv_cc st;
            cc = (if evicted > 0 then on_packet_lost evicted cc else cc);
            cc = (if ack_eliciting then on_packet_sent wire cc else cc)
        in st\<lparr>rv_sent := (rv_sent st)(sp := tr), rv_cc := cc\<rparr>)"

section \<open>The ledger of bytes in flight\<close>

text \<open>
  The sizes of the entries that are marked in flight, over the live entries of the three rings, and how the count of the
  congestion controller relates to them: it may include \<open>leaked\<close> bytes of packets that are in no ring any more, and
  miss up to \<open>forgotten\<close> bytes of packets that are. With both 0 the two are equal.
\<close>

definition weight :: "SentPacketInfo \<Rightarrow> nat" where
  "weight s = (if sp_in_flight s then sp_size s else 0)"

definition in_flight_bytes :: "SentPacketTracker \<Rightarrow> nat" where
  "in_flight_bytes tr = sum_list (map weight (entries tr))"

definition total_in_flight :: "Recovery \<Rightarrow> nat" where
  "total_in_flight st = in_flight_bytes (rv_sent st kInitial) + in_flight_bytes (rv_sent st kHandshake) +
     in_flight_bytes (rv_sent st kApplication)"

definition ledger :: "nat \<Rightarrow> nat \<Rightarrow> Recovery \<Rightarrow> bool" where
  "ledger leaked forgotten st \<longleftrightarrow> (\<forall>sp. tracker_ok (rv_sent st sp)) \<and> newreno_ok (rv_cc st) \<and>
     bytes_in_flight (rv_cc st) \<le> total_in_flight st + leaked \<and> total_in_flight st + leaked \<le> bytes_in_flight (rv_cc st) + forgotten"

lemma sum_list_update_weight:
  "i < length xs \<Longrightarrow> sum_list (map weight (xs[i := s])) + weight (xs ! i) = sum_list (map weight xs) + weight s"
  by (induction xs arbitrary: i) (auto split: nat.split)

lemma in_flight_set:
  assumes "tracker_ok tr" "i < tk_count tr"
  shows "in_flight_bytes (tracker_set i s tr) + weight (tracker_at tr i) = in_flight_bytes tr + weight s"
  using sum_list_update_weight [of i "entries tr" s] tracker_set_ok [OF assms, of s] assms(2)
  by (simp add: in_flight_bytes_def nth_entries)

lemma weight_le: "i < tk_count tr \<Longrightarrow> weight (tracker_at tr i) \<le> in_flight_bytes tr"
  unfolding in_flight_bytes_def by (rule member_le_sum_list) (auto simp: entries_def)

text \<open>The bookkeeping of streams, windows and CRYPTO frontiers leaves the packet rings alone.\<close>

definition same_packets :: "Recovery \<Rightarrow> Recovery \<Rightarrow> bool" where
  "same_packets a b \<longleftrightarrow> rv_sent a = rv_sent b \<and> rv_cc a = rv_cc b \<and> rv_spaces a = rv_spaces b \<and> rv_rtt a = rv_rtt b \<and>
     rv_time_largest_acked_sent a = rv_time_largest_acked_sent b \<and> rv_rtt_sample a = rv_rtt_sample b"

lemma same_packets_refl [simp]: "same_packets a a"
  by (simp add: same_packets_def)

lemma same_packets_fold:
  assumes "\<And>r st. same_packets (f r st) st"
  shows "same_packets (fold f rs st) st"
proof (induction rs arbitrary: st)
  case (Cons r rs)
  show ?case using Cons [of "f r st"] assms [of r st] by (simp add: same_packets_def)
qed simp

lemma requeue_same: "same_packets (requeue_lost s st) st"
proof -
  have "same_packets (requeue_range r st) st" for r st
    by (simp add: same_packets_def requeue_range_def Let_def)
  then have "same_packets (requeue_lost s st) (requeue_lost_control (sp_ctrl_flags s) st)"
    unfolding requeue_lost_def by (rule same_packets_fold)
  then show ?thesis by (simp add: same_packets_def requeue_lost_control_def Let_def)
qed

lemma acked_ranges_same: "same_packets (on_packet_acked_ranges s st) st"
  unfolding on_packet_acked_ranges_def by (rule same_packets_fold) (simp add: same_packets_def)

lemmas same_packets_simps [simp] =
  requeue_same [unfolded same_packets_def, THEN conjunct1]
  requeue_same [unfolded same_packets_def, THEN conjunct2, THEN conjunct1]
  requeue_same [unfolded same_packets_def, THEN conjunct2, THEN conjunct2, THEN conjunct1]
  requeue_same [unfolded same_packets_def, THEN conjunct2, THEN conjunct2, THEN conjunct2, THEN conjunct1]
  requeue_same [unfolded same_packets_def, THEN conjunct2, THEN conjunct2, THEN conjunct2, THEN conjunct2, THEN conjunct1]
  requeue_same [unfolded same_packets_def, THEN conjunct2, THEN conjunct2, THEN conjunct2, THEN conjunct2, THEN conjunct2]
  acked_ranges_same [unfolded same_packets_def, THEN conjunct1]
  acked_ranges_same [unfolded same_packets_def, THEN conjunct2, THEN conjunct1]
  acked_ranges_same [unfolded same_packets_def, THEN conjunct2, THEN conjunct2, THEN conjunct1]
  acked_ranges_same [unfolded same_packets_def, THEN conjunct2, THEN conjunct2, THEN conjunct2, THEN conjunct1]
  acked_ranges_same [unfolded same_packets_def, THEN conjunct2, THEN conjunct2, THEN conjunct2, THEN conjunct2, THEN conjunct1]
  acked_ranges_same [unfolded same_packets_def, THEN conjunct2, THEN conjunct2, THEN conjunct2, THEN conjunct2, THEN conjunct2]

text \<open>A state whose packet rings are those of another satisfies the ledger when the other does.\<close>

lemma ledger_cong: "rv_sent a = rv_sent b \<Longrightarrow> rv_cc a = rv_cc b \<Longrightarrow> ledger l m a = ledger l m b"
  by (simp add: ledger_def total_in_flight_def)

text \<open>Resolving one entry: it leaves flight and its bytes leave the controller.\<close>

definition resolved :: "PacketNumberSpace \<Rightarrow> nat \<Rightarrow> SentPacketInfo \<Rightarrow> NewRenoCongestion \<Rightarrow> Recovery \<Rightarrow> Recovery \<Rightarrow> bool" where
  "resolved sp i s cc st st' \<longleftrightarrow> rv_sent st' = (rv_sent st)(sp := tracker_set i s (rv_sent st sp)) \<and> rv_cc st' = cc"

lemma ledger_resolved:
  assumes "ledger l m st" "i < tk_count (rv_sent st sp)" "resolved sp i s cc st st'" "newreno_ok cc" "\<not> sp_in_flight s"
    and "bytes_in_flight cc = bytes_in_flight (rv_cc st) - weight (tracker_at (rv_sent st sp) i)"
  shows "ledger l m st'"
proof -
  have ok: "tracker_ok (rv_sent st q)" for q using assms(1) by (simp add: ledger_def total_in_flight_def)
  have f: "in_flight_bytes (tracker_set i s (rv_sent st sp)) + weight (tracker_at (rv_sent st sp) i) = in_flight_bytes (rv_sent st sp)"
    using in_flight_set [OF ok assms(2), of s] assms(5) by (simp add: weight_def)
  show ?thesis
    using assms(1,3,4,6) f weight_le [OF assms(2)] tracker_set_ok [OF ok assms(2), of s]
    by (cases sp) (auto simp: ledger_def total_in_flight_def resolved_def)
qed

lemma kMaxSentPackets_pos: "0 < kMaxSentPackets" "kMaxSentPackets \<noteq> 0"
  by (simp_all add: kMaxSentPackets_def)

lemma tracker_set_twice [simp]: "tracker_set i s (tracker_set i s' tr) = tracker_set i s tr"
  by (simp add: tracker_set_def)

lemma tracker_at_set [simp]:
  assumes "tracker_ok tr" "i < tk_count tr"
  shows "tracker_at (tracker_set i s tr) i = s"
  using assms by (simp add: tracker_ok_def tracker_set_def tracker_at_def kMaxSentPackets_def)

lemma no_flight_eq [simp]: "\<not> sp_in_flight s \<Longrightarrow> s\<lparr>sp_in_flight := False\<rparr> = s"
  by (cases s) simp

text \<open>
  The loops over a ring touch one entry at a time. When every step replaces its entry by a function
  of the entry and keeps an invariant, the whole loop maps that function over the live entries.
\<close>

locale entry_loop =
  fixes tr :: "'s \<Rightarrow> SentPacketTracker" and inv :: "'s \<Rightarrow> bool"
    and f :: "SentPacketInfo \<Rightarrow> SentPacketInfo" and body :: "nat \<Rightarrow> 's \<Rightarrow> 's"
  assumes step: "inv st \<Longrightarrow> i < tk_count (tr st) \<Longrightarrow>
    inv (body i st) \<and> entries (tr (body i st)) = (entries (tr st))[i := f (tracker_at (tr st) i)]"
begin

lemma prefix:
  assumes "inv st" "n \<le> tk_count (tr st)"
  shows "inv (fold body [0..<n] st) \<and>
    entries (tr (fold body [0..<n] st)) = map f (take n (entries (tr st))) @ drop n (entries (tr st))"
  using assms(2)
proof (induction n)
  case 0
  show ?case using assms(1) by simp
next
  case (Suc n)
  define m where "m = fold body [0..<n] st"
  have m: "inv m" "entries (tr m) = map f (take n (entries (tr st))) @ drop n (entries (tr st))"
    using Suc by (simp_all add: m_def)
  then have c: "tk_count (tr m) = tk_count (tr st)"
    using Suc.prems by (metis length_append length_drop length_entries length_map length_take
        add_diff_inverse_nat min.absorb2 Suc_leD not_less)
  have at: "tracker_at (tr m) n = entries (tr st) ! n"
    using m(2) Suc.prems c by (simp add: nth_append flip: nth_entries)
  have "(map f (take n (entries (tr st))) @ drop n (entries (tr st)))[n := f (entries (tr st) ! n)] =
      map f (take (Suc n) (entries (tr st))) @ drop (Suc n) (entries (tr st))"
    using Suc.prems by (simp add: list_update_append take_Suc_conv_app_nth flip: Cons_nth_drop_Suc)
  then show ?case
    using step [OF m(1), of n] Suc.prems c m(2) at by (simp flip: m_def)
qed

lemma at_prefix:
  assumes "inv st" "n < tk_count (tr st)"
  shows "tracker_at (tr (fold body [0..<n] st)) n = entries (tr st) ! n \<and> n < tk_count (tr (fold body [0..<n] st))"
proof -
  define m where "m = fold body [0..<n] st"
  have m: "entries (tr m) = map f (take n (entries (tr st))) @ drop n (entries (tr st))"
    using prefix [OF assms(1), of n] assms(2) by (simp add: m_def)
  have "length (entries (tr m)) = tk_count (tr st)" unfolding m using assms(2) by simp
  then have "tk_count (tr m) = tk_count (tr st)" by simp
  then show ?thesis using nth_entries [of n "tr m"] m assms(2) by (simp add: nth_append flip: m_def)
qed

text \<open>What a step establishes about its entry and later steps keep holds of every changed entry at the end.\<close>

lemma established:
  assumes "inv st" "n \<le> tk_count (tr st)" "j < n" "f (entries (tr st) ! j) \<noteq> entries (tr st) ! j"
    and now: "\<And>st i. inv st \<Longrightarrow> i < tk_count (tr st) \<Longrightarrow> f (tracker_at (tr st) i) \<noteq> tracker_at (tr st) i \<Longrightarrow>
      Q (tracker_at (tr st) i) (body i st)"
    and later: "\<And>st i s. Q s st \<Longrightarrow> Q s (body i st)"
  shows "Q (entries (tr st) ! j) (fold body [0..<n] st)"
  using assms(2,3)
proof (induction n)
  case (Suc n)
  define m where "m = fold body [0..<n] st"
  have m: "inv m" "tracker_at (tr m) n = entries (tr st) ! n" "n < tk_count (tr m)"
    using prefix [OF assms(1), of n] at_prefix [OF assms(1), of n] Suc.prems by (simp_all add: m_def)
  show ?case
  proof (cases "j = n")
    case True
    then show ?thesis using now [OF m(1,3)] m(2) assms(4) by (simp flip: m_def)
  next
    case False
    then show ?thesis using Suc later by simp
  qed
qed simp

lemma whole:
  assumes "inv st"
  shows "inv (fold body [0..<tk_count (tr st)] st) \<and>
    entries (tr (fold body [0..<tk_count (tr st)] st)) = map f (entries (tr st))"
  using prefix [OF assms order_refl] by simp

end

definition framed :: "nat \<Rightarrow> nat \<Rightarrow> PacketNumberSpace \<Rightarrow> Recovery \<Rightarrow> Recovery \<Rightarrow> bool" where
  "framed l m sp st0 st \<longleftrightarrow> ledger l m st \<and> rv_spaces st = rv_spaces st0 \<and> rv_rtt st = rv_rtt st0 \<and>
     (\<forall>q. q \<noteq> sp \<longrightarrow> rv_sent st q = rv_sent st0 q)"

lemma framed_refl [simp]: "framed l m sp st st = ledger l m st"
  by (simp add: framed_def)

lemma framed_resolved:
  assumes "framed l m sp st0 st" "i < tk_count (rv_sent st sp)" "resolved sp i s cc st st'" "newreno_ok cc" "\<not> sp_in_flight s"
    and "bytes_in_flight cc = bytes_in_flight (rv_cc st) - weight (tracker_at (rv_sent st sp) i)"
    and "rv_spaces st' = rv_spaces st" "rv_rtt st' = rv_rtt st"
  shows "framed l m sp st0 st' \<and> entries (rv_sent st' sp) = (entries (rv_sent st sp))[i := s]"
proof -
  have l: "ledger l m st" using assms(1) by (simp add: framed_def)
  then have "tracker_ok (rv_sent st sp)" by (simp add: ledger_def)
  then show ?thesis
    using ledger_resolved [OF l assms(2-6)] assms tracker_set_ok [of "rv_sent st sp" i s] by (simp add: framed_def resolved_def)
qed

definition acked_entry :: "u64 \<Rightarrow> u64 \<Rightarrow> SentPacketInfo \<Rightarrow> SentPacketInfo" where
  "acked_entry lo hi s = (if lo \<le> sp_packet_number s \<and> sp_packet_number s \<le> hi \<and> \<not> sp_acked s \<and> \<not> sp_lost s
     then s\<lparr>sp_acked := True, sp_in_flight := False\<rparr> else s)"

definition lost_entry :: "u64 \<Rightarrow> u64 \<Rightarrow> nat \<Rightarrow> SentPacketInfo \<Rightarrow> SentPacketInfo" where
  "lost_entry largest delay t s = (if \<not> sp_acked s \<and> \<not> sp_lost s \<and> sp_ack_eliciting s \<and> sp_packet_number s < largest \<and>
       (sp_packet_number s + kPacketThreshold \<le> largest \<or> (of_nat (sp_time_sent s) + delay :: u64) \<le> of_nat t)
     then s\<lparr>sp_lost := True, sp_in_flight := False\<rparr> else s)"

definition abandoned_entry :: "SentPacketInfo \<Rightarrow> SentPacketInfo" where
  "abandoned_entry s = (if \<not> sp_acked s \<and> \<not> sp_lost s \<and> sp_ack_eliciting s
     then s\<lparr>sp_lost := True, sp_in_flight := False\<rparr> else s)"

definition discarded_entry :: "SentPacketInfo \<Rightarrow> SentPacketInfo" where
  "discarded_entry s = s\<lparr>sp_in_flight := False, sp_acked := True\<rparr>"

lemma entry_unchanged:
  "i < tk_count tr \<Longrightarrow> (entries tr)[i := tracker_at tr i] = entries tr"
  by (simp flip: nth_entries)

lemma ack_step_resolves:
  assumes "ledger l m st" "i < tk_count (rv_sent st sp)" "acked_entry lo hi (tracker_at (rv_sent st sp) i) \<noteq> tracker_at (rv_sent st sp) i"
  shows "\<exists>cc. resolved sp i (acked_entry lo hi (tracker_at (rv_sent st sp) i)) cc st (fst (ack_step sp lo hi largest now i (st, al))) \<and>
    newreno_ok cc \<and> bytes_in_flight cc = bytes_in_flight (rv_cc st) - weight (tracker_at (rv_sent st sp) i) \<and>
    rv_spaces (fst (ack_step sp lo hi largest now i (st, al))) = rv_spaces st \<and>
    rv_rtt (fst (ack_step sp lo hi largest now i (st, al))) = rv_rtt st"
proof -
  have ok: "tracker_ok (rv_sent st sp)" "newreno_ok (rv_cc st)" using assms(1) by (simp_all add: ledger_def total_in_flight_def)
  define s where "s = tracker_at (rv_sent st sp) i"
  have c: "lo \<le> sp_packet_number s" "sp_packet_number s \<le> hi" "\<not> sp_acked s" "\<not> sp_lost s"
    using assms(3) by (auto simp: acked_entry_def s_def split: if_splits)
  show ?thesis
    using ok c c(1,2) [THEN leD] assms(2) newreno_preserved(2) [OF ok(2)]
    by (cases "sp_in_flight s"; cases "sp_packet_number s = largest")
      (simp_all add: ack_step_def resolved_def leave_flight_acked_def set_entry_def acked_entry_def Let_def weight_def
        flip: s_def)
qed

lemma ack_step_keeps:
  assumes "acked_entry lo hi (tracker_at (rv_sent st sp) i) = tracker_at (rv_sent st sp) i"
  shows "ack_step sp lo hi largest now i (st, al) = (st, al)"
proof -
  define s where "s = tracker_at (rv_sent st sp) i"
  have "s\<lparr>sp_acked := True, sp_in_flight := False\<rparr> \<noteq> s" if "\<not> sp_acked s"
    using that by (metis SentPacketInfo.ext_inject SentPacketInfo.surjective SentPacketInfo.update_convs(5,6))
  then have "sp_packet_number s < lo \<or> sp_packet_number s > hi \<or> sp_acked s \<or> sp_lost s"
    using assms by (auto simp: acked_entry_def s_def split: if_splits)
  then show ?thesis by (auto simp: ack_step_def s_def Let_def)
qed

interpretation ack_loop: entry_loop "\<lambda>x. rv_sent (fst x) sp" "\<lambda>x. framed l m sp st0 (fst x)"
  "acked_entry lo hi" "ack_step sp lo hi largest now" for l m sp st0 lo hi largest now
proof
  fix x :: "Recovery \<times> bool" and i
  obtain st al where x: "x = (st, al)" by (cases x)
  assume a: "framed l m sp st0 (fst x)" "i < tk_count (rv_sent (fst x) sp)"
  show "framed l m sp st0 (fst (ack_step sp lo hi largest now i x)) \<and>
    entries (rv_sent (fst (ack_step sp lo hi largest now i x)) sp) =
      (entries (rv_sent (fst x) sp))[i := acked_entry lo hi (tracker_at (rv_sent (fst x) sp) i)]"
  proof (cases "acked_entry lo hi (tracker_at (rv_sent st sp) i) = tracker_at (rv_sent st sp) i")
    case True
    then show ?thesis using a by (simp add: x ack_step_keeps entry_unchanged)
  next
    case False
    then have "\<not> sp_in_flight (acked_entry lo hi (tracker_at (rv_sent st sp) i))"
      by (auto simp: acked_entry_def)
    moreover have "ledger l m st" "i < tk_count (rv_sent st sp)" using a by (simp_all add: x framed_def)
    ultimately show ?thesis
      using ack_step_resolves [OF _ _ False, of l m largest now al] framed_resolved [of l m sp st0 st i] a by (simp add: x) blast
  qed
qed

lemma loss_step_resolves:
  assumes "ledger l m st" "i < tk_count (rv_sent st sp)"
    "lost_entry largest delay (rv_time_largest_acked_sent st) (tracker_at (rv_sent st sp) i) \<noteq> tracker_at (rv_sent st sp) i"
  shows "\<exists>cc. resolved sp i (lost_entry largest delay (rv_time_largest_acked_sent st) (tracker_at (rv_sent st sp) i)) cc st
      (fst (loss_step sp largest delay i (st, e))) \<and>
    newreno_ok cc \<and> bytes_in_flight cc = bytes_in_flight (rv_cc st) - weight (tracker_at (rv_sent st sp) i) \<and>
    rv_spaces (fst (loss_step sp largest delay i (st, e))) = rv_spaces st \<and>
    rv_rtt (fst (loss_step sp largest delay i (st, e))) = rv_rtt st \<and>
    rv_time_largest_acked_sent (fst (loss_step sp largest delay i (st, e))) = rv_time_largest_acked_sent st"
proof -
  have ok: "tracker_ok (rv_sent st sp)" "newreno_ok (rv_cc st)" using assms(1) by (simp_all add: ledger_def total_in_flight_def)
  define s where "s = tracker_at (rv_sent st sp) i"
  have c: "\<not> sp_acked s" "\<not> sp_lost s" "sp_ack_eliciting s" "sp_packet_number s < largest" "\<not> largest \<le> sp_packet_number s"
    "\<not> (\<not> sp_packet_number s + kPacketThreshold \<le> largest \<and>
        \<not> (of_nat (sp_time_sent s) + delay :: u64) \<le> of_nat (rv_time_largest_acked_sent st))"
    using assms(3) by (auto simp: lost_entry_def s_def not_le split: if_splits)
  show ?thesis
    using ok c assms(2) newreno_preserved(3) [OF ok(2)]
    by (cases "sp_in_flight s"; cases "sp_packet_number s + kPacketThreshold \<le> largest")
      (simp_all add: loss_step_def resolved_def leave_flight_lost_def set_entry_def lost_entry_def Let_def weight_def
        flip: s_def)
qed

lemma loss_step_keeps:
  assumes "lost_entry largest delay (rv_time_largest_acked_sent st) (tracker_at (rv_sent st sp) i) = tracker_at (rv_sent st sp) i"
  shows "loss_step sp largest delay i (st, e) = (st, e)"
proof -
  define s where "s = tracker_at (rv_sent st sp) i"
  have "s\<lparr>sp_lost := True, sp_in_flight := False\<rparr> \<noteq> s" if "\<not> sp_lost s"
    using that by (metis SentPacketInfo.ext_inject SentPacketInfo.surjective SentPacketInfo.update_convs(5,7))
  then show ?thesis
    using assms by (auto simp: lost_entry_def loss_step_def Let_def not_le split: if_splits simp flip: s_def)
qed

interpretation loss_loop: entry_loop "\<lambda>x. rv_sent (fst x) sp"
  "\<lambda>x. framed l m sp st0 (fst x) \<and> rv_time_largest_acked_sent (fst x) = t"
  "lost_entry largest delay t" "loss_step sp largest delay" for l m sp st0 t largest delay
proof
  fix x :: "Recovery \<times> nat option" and i
  obtain st e where x: "x = (st, e)" by (cases x)
  assume a: "framed l m sp st0 (fst x) \<and> rv_time_largest_acked_sent (fst x) = t" "i < tk_count (rv_sent (fst x) sp)"
  then have t: "t = rv_time_largest_acked_sent st" by (simp add: x)
  show "(framed l m sp st0 (fst (loss_step sp largest delay i x)) \<and> rv_time_largest_acked_sent (fst (loss_step sp largest delay i x)) = t) \<and>
    entries (rv_sent (fst (loss_step sp largest delay i x)) sp) =
      (entries (rv_sent (fst x) sp))[i := lost_entry largest delay t (tracker_at (rv_sent (fst x) sp) i)]"
  proof (cases "lost_entry largest delay t (tracker_at (rv_sent st sp) i) = tracker_at (rv_sent st sp) i")
    case True
    then show ?thesis using a by (simp add: x t loss_step_keeps entry_unchanged)
  next
    case False
    then have "\<not> sp_in_flight (lost_entry largest delay t (tracker_at (rv_sent st sp) i))"
      by (auto simp: lost_entry_def)
    moreover have "ledger l m st" "i < tk_count (rv_sent st sp)" using a by (simp_all add: x framed_def)
    ultimately show ?thesis
      using loss_step_resolves [OF _ _ False [unfolded t], of l m e] framed_resolved [of l m sp st0 st i] a
      by (simp add: x t) blast
  qed
qed

lemma declare_lost_resolves:
  assumes "ledger l m st" "i < tk_count (rv_sent st sp)" "\<not> sp_acked (tracker_at (rv_sent st sp) i)"
    "\<not> sp_lost (tracker_at (rv_sent st sp) i)" "sp_ack_eliciting (tracker_at (rv_sent st sp) i)"
  shows "\<exists>cc. resolved sp i (abandoned_entry (tracker_at (rv_sent st sp) i)) cc st (declare_lost sp i st) \<and>
    newreno_ok cc \<and> bytes_in_flight cc = bytes_in_flight (rv_cc st) - weight (tracker_at (rv_sent st sp) i) \<and>
    rv_spaces (declare_lost sp i st) = rv_spaces st \<and> rv_rtt (declare_lost sp i st) = rv_rtt st"
proof -
  have ok: "tracker_ok (rv_sent st sp)" "newreno_ok (rv_cc st)" using assms(1) by (simp_all add: ledger_def total_in_flight_def)
  define s where "s = tracker_at (rv_sent st sp) i"
  show ?thesis
    using ok assms(2-) newreno_preserved(3) [OF ok(2)]
    by (cases "sp_in_flight s")
      (simp_all add: declare_lost_def resolved_def leave_flight_lost_def set_entry_def abandoned_entry_def Let_def weight_def
        flip: s_def)
qed

lemma declare_lost_framed:
  assumes "framed l m sp st0 st" "i < tk_count (rv_sent st sp)" "\<not> sp_acked (tracker_at (rv_sent st sp) i)"
    "\<not> sp_lost (tracker_at (rv_sent st sp) i)" "sp_ack_eliciting (tracker_at (rv_sent st sp) i)"
  shows "framed l m sp st0 (declare_lost sp i st) \<and>
    entries (rv_sent (declare_lost sp i st) sp) = (entries (rv_sent st sp))[i := abandoned_entry (tracker_at (rv_sent st sp) i)]"
proof -
  have "ledger l m st" using assms(1) by (simp add: framed_def)
  moreover have "\<not> sp_in_flight (abandoned_entry (tracker_at (rv_sent st sp) i))"
    using assms(3-) by (simp add: abandoned_entry_def)
  ultimately show ?thesis
    using declare_lost_resolves [OF _ assms(2-)] framed_resolved [of l m sp st0 st i] assms(1,2) by blast
qed

interpretation speedup_loop: entry_loop "\<lambda>st. rv_sent st sp" "framed l m sp st0" abandoned_entry "speedup_step sp" for l m sp st0
proof
  fix st i
  assume a: "framed l m sp st0 st" "i < tk_count (rv_sent st sp)"
  define s where "s = tracker_at (rv_sent st sp) i"
  show "framed l m sp st0 (speedup_step sp i st) \<and> entries (rv_sent (speedup_step sp i st) sp) =
      (entries (rv_sent st sp))[i := abandoned_entry (tracker_at (rv_sent st sp) i)]"
  proof (cases "sp_acked s \<or> sp_lost s \<or> \<not> sp_ack_eliciting s")
    case True
    then have "abandoned_entry s = s" by (auto simp: abandoned_entry_def)
    then show ?thesis using a True entry_unchanged [OF a(2)] by (simp add: speedup_step_def flip: s_def)
  next
    case False
    then show ?thesis using declare_lost_framed [OF a] by (simp add: speedup_step_def flip: s_def)
  qed
qed

lemma discard_step_resolves:
  assumes "ledger l m st" "i < tk_count (rv_sent st sp)"
  shows "\<exists>cc. resolved sp i (discarded_entry (tracker_at (rv_sent st sp) i)) cc st (discard_step sp i st) \<and>
    newreno_ok cc \<and> bytes_in_flight cc = bytes_in_flight (rv_cc st) - weight (tracker_at (rv_sent st sp) i) \<and>
    rv_spaces (discard_step sp i st) = rv_spaces st \<and> rv_rtt (discard_step sp i st) = rv_rtt st"
proof -
  have ok: "tracker_ok (rv_sent st sp)" "newreno_ok (rv_cc st)" using assms(1) by (simp_all add: ledger_def total_in_flight_def)
  define s where "s = tracker_at (rv_sent st sp) i"
  show ?thesis
    using ok assms(2-) newreno_preserved(3) [OF ok(2)]
    by (cases "sp_in_flight s")
      (simp_all add: discard_step_def resolved_def leave_flight_lost_def set_entry_def discarded_entry_def Let_def weight_def
        flip: s_def)
qed

interpretation discard_loop: entry_loop "\<lambda>st. rv_sent st sp" "framed l m sp st0" discarded_entry "discard_step sp" for l m sp st0
proof
  fix st i
  assume a: "framed l m sp st0 st" "i < tk_count (rv_sent st sp)"
  then have "ledger l m st" by (simp add: framed_def)
  moreover have "\<not> sp_in_flight (discarded_entry (tracker_at (rv_sent st sp) i))"
    by (simp add: discarded_entry_def)
  ultimately show "framed l m sp st0 (discard_step sp i st) \<and> entries (rv_sent (discard_step sp i st) sp) =
      (entries (rv_sent st sp))[i := discarded_entry (tracker_at (rv_sent st sp) i)]"
    using discard_step_resolves [OF _ a(2)] framed_resolved [of l m sp st0 st i] a by blast
qed

section \<open>Operations keep the ledger\<close>

lemma ack_range_framed:
  assumes "framed l m sp st0 (fst x)"
  shows "framed l m sp st0 (fst (ack_range sp lo hi largest now x)) \<and>
    entries (rv_sent (fst (ack_range sp lo hi largest now x)) sp) = map (acked_entry lo hi) (entries (rv_sent (fst x) sp))"
  unfolding ack_range_def by (rule ack_loop.whole [OF assms])

lemma ack_ranges_framed:
  assumes "framed l m sp st0 (fst x)"
  shows "framed l m sp st0 (fst (fold (\<lambda>(lo, hi). ack_range sp lo hi largest now) is x)) \<and>
    entries (rv_sent (fst (fold (\<lambda>(lo, hi). ack_range sp lo hi largest now) is x)) sp) =
      map (\<lambda>s. fold (\<lambda>(lo, hi). acked_entry lo hi) is s) (entries (rv_sent (fst x) sp))"
  using assms
proof (induction "is" arbitrary: x)
  case (Cons p ps)
  obtain lo hi where p: "p = (lo, hi)" by (cases p)
  show ?case
    using Cons.IH [of "ack_range sp lo hi largest now x"] ack_range_framed [OF Cons.prems, of lo hi largest now]
    by (simp add: p comp_def)
qed simp

lemma detect_loss_framed:
  assumes "framed l m (space_for level) st0 st"
  shows "framed l m (space_for level) st0 (detect_loss level now st) \<and>
    rv_time_largest_acked_sent (detect_loss level now st) = rv_time_largest_acked_sent st \<and>
    entries (rv_sent (detect_loss level now st) (space_for level)) =
      (if largest_acked (rv_spaces st (space_for level)) < 0 then entries (rv_sent st (space_for level))
       else map (lost_entry (word_of_int (largest_acked (rv_spaces st (space_for level)))) (loss_delay (rv_rtt st))
              (rv_time_largest_acked_sent st)) (entries (rv_sent st (space_for level))))"
proof -
  define la where "la = largest_acked (rv_spaces st (space_for level))"
  define x where "x = fold (loss_step (space_for level) (word_of_int la) (loss_delay (rv_rtt st)))
    [0..<tk_count (rv_sent st (space_for level))] (st, None)"
  have x: "framed l m (space_for level) st0 (fst x)" "rv_time_largest_acked_sent (fst x) = rv_time_largest_acked_sent st"
    "entries (rv_sent (fst x) (space_for level)) =
      map (lost_entry (word_of_int la) (loss_delay (rv_rtt st)) (rv_time_largest_acked_sent st)) (entries (rv_sent st (space_for level)))"
    using loss_loop.whole [of l m "space_for level" st0 "(st, None)" "rv_time_largest_acked_sent st" "word_of_int la" "loss_delay (rv_rtt st)"] assms
    by (simp_all add: x_def)
  have e: "detect_loss level now st = (if la < 0 then st else case x of (st, None) \<Rightarrow> st
      | (st, Some e) \<Rightarrow> st\<lparr>rv_cc := on_congestion_event e now (rv_cc st)\<rparr>)"
    by (simp add: detect_loss_def Let_def la_def x_def)
  have cc: "framed l m (space_for level) st0 (st\<lparr>rv_cc := on_congestion_event e now (rv_cc st)\<rparr>)"
    if "framed l m (space_for level) st0 st" for st e
    using that newreno_preserved(4) by (simp add: framed_def ledger_def total_in_flight_def)
  show ?thesis
    unfolding la_def [symmetric] e using x assms cc by (cases x; cases "snd x"; cases "la < 0") simp_all
qed

lemma framed_ledger: "framed l m sp st0 st \<Longrightarrow> ledger l m st"
  by (simp add: framed_def)

text \<open>What one ACK frame does to the ring of its space: the acknowledgement, then the loss test.\<close>

definition ack_outcome :: "AckFrame \<Rightarrow> int \<Rightarrow> u64 \<Rightarrow> nat \<Rightarrow> SentPacketInfo \<Rightarrow> SentPacketInfo" where
  "ack_outcome ack la delay t s =
     (let s = fold (\<lambda>(lo, hi). acked_entry lo hi) (ack_intervals ack) s
      in if la < 0 then s else lost_entry (word_of_int la) delay t s)"

lemma process_ack_framed:
  assumes "ledger l m st"
  shows "ledger l m (process_ack level ack now st) \<and> rv_spaces (process_ack level ack now st) = rv_spaces st \<and>
    (\<forall>q. q \<noteq> space_for level \<longrightarrow> rv_sent (process_ack level ack now st) q = rv_sent st q) \<and>
    entries (rv_sent (process_ack level ack now st) (space_for level)) =
      map (ack_outcome ack (largest_acked (rv_spaces st (space_for level))) (loss_delay (rv_rtt (process_ack level ack now st)))
          (rv_time_largest_acked_sent (process_ack level ack now st))) (entries (rv_sent st (space_for level)))"
proof -
  define sp where "sp = space_for level"
  define x where "x = fold (\<lambda>(lo, hi). ack_range sp lo hi (af_largest_acked ack) now) (ack_intervals ack) (st, False)"
  have x: "framed l m sp st (fst x)" "entries (rv_sent (fst x) sp) =
      map (\<lambda>s. fold (\<lambda>(lo, hi). acked_entry lo hi) (ack_intervals ack) s) (entries (rv_sent st sp))"
    using ack_ranges_framed [of l m sp st "(st, False)"] assms by (simp_all add: x_def)
  define b where "b = (if snd x \<and> rv_rtt_sample (fst x) > 0
                then (fst x)\<lparr>rv_rtt := on_rtt_sample (rv_rtt_sample (fst x))
                           (push_bit kDefaultAckDelayExponent (af_ack_delay ack)) (rv_rtt (fst x)),
                        rv_rtt_sample := 0\<rparr>
                else fst x)\<lparr>rv_pto_backoff := 0, rv_pto_probes := 0\<rparr>"
  have b: "rv_sent b = rv_sent (fst x)" "rv_cc b = rv_cc (fst x)" "rv_spaces b = rv_spaces st"
    using x(1) by (simp_all add: b_def framed_def)
  have p: "process_ack level ack now st = detect_loss level now b"
    by (simp add: process_ack_def b_def x_def sp_def split_beta Let_def)
  have "ledger l m b" using x(1) b ledger_cong [of b "fst x"] by (simp add: framed_def)
  then have d: "framed l m sp b (detect_loss level now b) \<and>
      rv_time_largest_acked_sent (detect_loss level now b) = rv_time_largest_acked_sent b \<and> entries (rv_sent (detect_loss level now b) sp) =
      (if largest_acked (rv_spaces b sp) < 0 then entries (rv_sent b sp)
       else map (lost_entry (word_of_int (largest_acked (rv_spaces b sp))) (loss_delay (rv_rtt b))
              (rv_time_largest_acked_sent b)) (entries (rv_sent b sp)))"
    using detect_loss_framed [of l m level b b now] by (simp add: sp_def)
  have f: "ledger l m (detect_loss level now b)" "rv_spaces (detect_loss level now b) = rv_spaces st"
    "rv_rtt (detect_loss level now b) = rv_rtt b"
    "rv_time_largest_acked_sent (detect_loss level now b) = rv_time_largest_acked_sent b"
    "\<forall>q. q \<noteq> sp \<longrightarrow> rv_sent (detect_loss level now b) q = rv_sent st q"
    using d x(1) b by (simp_all add: framed_def)
  have "entries (rv_sent (detect_loss level now b) sp) =
      map (ack_outcome ack (largest_acked (rv_spaces st sp)) (loss_delay (rv_rtt b)) (rv_time_largest_acked_sent b)) (entries (rv_sent st sp))"
    using d by (simp add: x(2) b ack_outcome_def Let_def comp_def)
  then show ?thesis unfolding p sp_def [symmetric] using f by auto
qed

lemma handle_ack_ledger: "ledger l m st \<Longrightarrow> ledger l m (snd (handle_ack level data ecn now st))"
proof -
  assume l: "ledger l m st"
  then have "ledger l m (st\<lparr>rv_spaces := sp\<rparr>)" for sp by (simp add: ledger_def total_in_flight_def)
  then have "ledger l m (process_ack level ack now (st\<lparr>rv_spaces := sp\<rparr>))" for sp ack
    using process_ack_framed [of l m "st\<lparr>rv_spaces := sp\<rparr>" level ack now] by blast
  moreover have "ledger l m (close st)" using l by (simp add: close_def ledger_def total_in_flight_def)
  ultimately show ?thesis using l by (simp add: handle_ack_def split: parsed.split)
qed

lemma speed_up_ledger:
  assumes "ledger l m st" shows "ledger l m (speed_up_handshake st)"
proof -
  have s: "ledger l m (fold (speedup_step sp) [0..<tk_count (rv_sent st sp)] st)" if "ledger l m st" for sp st
    using speedup_loop.whole [of l m sp st st] that framed_ledger by auto
  have "ledger l m (fold (\<lambda>sp st. fold (speedup_step sp) [0..<tk_count (rv_sent st sp)] st) sps st)" if "ledger l m st" for sps st
    using that by (induction sps arbitrary: st) (simp_all add: s)
  moreover have "ledger l m (st\<lparr>rv_speedups := rv_speedups st + 1\<rparr>)" using assms by (simp add: ledger_def total_in_flight_def)
  ultimately show ?thesis unfolding speed_up_handshake_def using assms by presburger
qed

lemma pto_probe_ledger:
  assumes "ledger l m st" "\<forall>i \<in> set is. i < tk_count (rv_sent st sp)"
  shows "ledger l m (fst (pto_probe sp is st))"
  using assms
proof (induction sp "is" st rule: pto_probe.induct)
  case (2 sp i "is" st)
  then show ?case using declare_lost_framed [of l m sp st st i] by (auto simp: Let_def dest: framed_ledger)
qed simp

lemma pto_ledger:
  assumes "ledger l m st" shows "ledger l m (maybe_pto_expire now st)"
proof -
  have s: "ledger l m (fst (pto_space now sp x))" if "ledger l m (fst x)" for sp x
    using that pto_probe_ledger [of l m "fst x" "[0..<tk_count (rv_sent (fst x) sp)]" sp]
    by (cases x) (auto simp: pto_space_def split: option.split prod.split)
  define x where "x = fold (pto_space now) [kInitial, kHandshake, kApplication] (st, False)"
  have "ledger l m (fst x)" using s assms by (simp add: x_def)
  then have "ledger l m (if snd x then (fst x)\<lparr>rv_pto_probes := a, rv_pto_backoff := c\<rparr> else fst x)" for a c
    by (simp add: ledger_def total_in_flight_def)
  then show ?thesis unfolding maybe_pto_expire_def x_def [symmetric] by (simp add: split_beta Let_def)
qed

lemma discard_ledger:
  assumes "ledger l m st" shows "ledger l m (discard_space sp st)"
proof -
  define st1 where "st1 = st\<lparr>rv_discarded := (rv_discarded st)(sp := True)\<rparr>"
  have "ledger l m st1" using assms by (simp add: ledger_def total_in_flight_def st1_def)
  then have "ledger l m (fold (discard_step sp) [0..<tk_count (rv_sent st1 sp)] st1)"
    using discard_loop.whole [of l m sp st1 st1] framed_ledger by auto
  then show ?thesis using assms unfolding discard_space_def st1_def [symmetric] by (simp add: ledger_def total_in_flight_def Let_def)
qed

lemma same_weight_ledger:
  assumes "ledger l m st" "i < tk_count (rv_sent st sp)" "weight s = weight (tracker_at (rv_sent st sp) i)"
  shows "ledger l m (set_entry sp i s st)"
proof -
  have ok: "tracker_ok (rv_sent st sp)" using assms(1) by (simp add: ledger_def total_in_flight_def)
  show ?thesis
    using assms(1) in_flight_set [OF ok assms(2), of s] tracker_set_ok [OF ok assms(2), of s] assms(3)
    by (cases sp) (auto simp: ledger_def total_in_flight_def set_entry_def)
qed

lemma record_flight:
  fixes fl rs
  assumes ok: "tracker_ok tr" and r: "tracker_record pn now sz ae tr = (evicted, idx, tr')"
  defines "tr2 \<equiv> tr'\<lparr>tk_ring := (tk_ring tr')[idx := (tk_ring tr' ! idx)\<lparr>sp_ctrl_flags := fl, sp_ranges := rs\<rparr>]\<rparr>"
  shows "tracker_ok tr2 \<and> evicted \<le> in_flight_bytes tr \<and>
    in_flight_bytes tr2 = in_flight_bytes tr - evicted + (if ae then sz else 0)"
proof -
  note R = tracker_record_ok [OF ok r]
  have c: "tracker_ok tr'" "tk_count tr' - 1 < tk_count tr'" using R by auto
  have idx: "idx = (tk_tail tr' + (tk_count tr' - 1)) mod kMaxSentPackets" using R by blast
  have t2: "tr2 = tracker_set (tk_count tr' - 1) ((tracker_at tr' (tk_count tr' - 1))\<lparr>sp_ctrl_flags := fl, sp_ranges := rs\<rparr>) tr'"
    by (simp add: tr2_def tracker_set_def tracker_at_def idx)
  have "in_flight_bytes tr2 = in_flight_bytes tr'"
    using in_flight_set [OF c, of "(tracker_at tr' (tk_count tr' - 1))\<lparr>sp_ctrl_flags := fl, sp_ranges := rs\<rparr>"]
    by (simp add: t2 weight_def split: if_splits)
  moreover have "evicted \<le> in_flight_bytes tr \<and> in_flight_bytes tr' = in_flight_bytes tr - evicted + (if ae then sz else 0)"
  proof (cases "tk_count tr = kMaxSentPackets")
    case True
    then have "entries tr \<noteq> []" using ok by (metis length_entries list.size(3) kMaxSentPackets_def zero_neq_numeral)
    then obtain e es where e: "entries tr = e # es" by (cases "entries tr") auto
    have "evicted = weight e" using R True by (simp add: e weight_def)
    moreover have "entries tr' = es @ [sent_packet_init\<lparr>sp_packet_number := pn, sp_time_sent := now, sp_size := sz,
                sp_ack_eliciting := ae, sp_in_flight := ae\<rparr>]" using R True by (simp add: e)
    ultimately show ?thesis by (simp add: in_flight_bytes_def e) (simp add: weight_def)
  next
    case False
    then have "evicted = 0" "entries tr' = entries tr @ [sent_packet_init\<lparr>sp_packet_number := pn, sp_time_sent := now, sp_size := sz,
                sp_ack_eliciting := ae, sp_in_flight := ae\<rparr>]" using R by simp_all
    then show ?thesis by (simp add: in_flight_bytes_def) (simp add: weight_def)
  qed
  ultimately show ?thesis using tracker_set_ok [OF c] t2 by simp
qed

lemma record_sent_ledger:
  assumes l: "ledger l m st" shows "ledger l m (record_sent sp pn wire ae ranges now st)"
proof (cases "wire = 0")
  case True
  then show ?thesis using l by (simp add: record_sent_def ledger_def total_in_flight_def)
next
  case False
  define old where "old = tracker_at (rv_sent st sp) 0"
  define st1 where "st1 = (if tk_count (rv_sent st sp) = kMaxSentPackets \<and> \<not> sp_acked old \<and> \<not> sp_lost old \<and> sp_ack_eliciting old
                  then set_entry sp 0 (old\<lparr>sp_lost := True\<rparr>) (requeue_lost old st) else st)"
  have "ledger l m (requeue_lost old st)" using l by (simp add: ledger_def total_in_flight_def)
  then have l1: "ledger l m st1"
    using l same_weight_ledger [of l m "requeue_lost old st" 0 sp "old\<lparr>sp_lost := True\<rparr>"]
    by (simp add: st1_def weight_def kMaxSentPackets_def flip: old_def)
  obtain ev idx tr' where r: "tracker_record pn now wire ae (rv_sent st1 sp) = (ev, idx, tr')"
    by (metis prod_cases3)
  define tr2 where "tr2 = tr'\<lparr>tk_ring := (tk_ring tr')[idx := (tk_ring tr' ! idx)\<lparr>sp_ctrl_flags := rv_next_ctrl_flags st1, sp_ranges := ranges\<rparr>]\<rparr>"
  have f: "tracker_ok tr2" "ev \<le> in_flight_bytes (rv_sent st1 sp)"
    "in_flight_bytes tr2 = in_flight_bytes (rv_sent st1 sp) - ev + (if ae then wire else 0)"
    using record_flight [OF _ r, where fl = "rv_next_ctrl_flags st1" and rs = ranges] l1 by (simp_all add: tr2_def ledger_def total_in_flight_def)
  have e: "record_sent sp pn wire ae ranges now st =
    st1\<lparr>rv_sent := (rv_sent st1)(sp := tr2), rv_cc := (if ae then on_packet_sent wire (if ev > 0 then on_packet_lost ev (rv_cc st1) else rv_cc st1)
       else if ev > 0 then on_packet_lost ev (rv_cc st1) else rv_cc st1)\<rparr>"
    unfolding record_sent_def old_def [symmetric] Let_def st1_def [symmetric] r tr2_def using False by simp
  show ?thesis unfolding e using l1 f newreno_preserved
    by (cases sp; cases ae; cases "ev > 0") (auto simp: ledger_def total_in_flight_def)
qed

section \<open>Lost data goes back to the send frontier\<close>

text \<open>
  A range is due for transmission again when the frontier of its stream or CRYPTO level is not past its
  start; bytes the peer has acknowledged in the meantime (below the ring's base) need not go again.
\<close>

definition requeued :: "Recovery \<Rightarrow> FrameRange \<Rightarrow> bool" where
  "requeued st r \<longleftrightarrow>
     (if fr_is_crypto r then unat (fr_id r) < kNumTlsLevels \<longrightarrow> rv_crypto_sent_off st (unat (fr_id r)) \<le> fr_offset r
      else case find_stream (fr_id r) (rv_streams st) of
             None \<Rightarrow> True
           | Some s \<Rightarrow> send_sent s \<le> max (fr_offset r) (send_base s))"

lemma requeued_iff:
  "requeued st r \<longleftrightarrow>
     (if fr_is_crypto r then unat (fr_id r) < kNumTlsLevels \<longrightarrow> rv_crypto_sent_off st (unat (fr_id r)) \<le> fr_offset r
      else \<forall>s. find_stream (fr_id r) (rv_streams st) = Some s \<longrightarrow> send_sent s \<le> max (fr_offset r) (send_base s))"
  by (simp add: requeued_def split: option.split)

lemma find_on_stream:
  assumes "\<And>s. in_use (f s) = in_use s" "\<And>s. st_id (f s) = st_id s"
  shows "find_stream j (on_stream i f ss) = (if i = j then map_option f (find_stream j ss) else find_stream j ss)"
  using assms by (induction ss) auto

lemma find_map_stream:
  assumes "\<And>s. in_use (f s) = in_use s" "\<And>s. st_id (f s) = st_id s"
  shows "find_stream j (map f ss) = map_option f (find_stream j ss)"
  using assms by (induction ss) auto

lemma rewind_sent_keeps [simp]:
  "in_use (rewind_sent off fin s) = in_use s" "st_id (rewind_sent off fin s) = st_id s"
  "send_base (rewind_sent off fin s) = send_base s"
  by (simp_all add: rewind_sent_def Let_def)

lemma rewind_sent_frontier:
  "send_sent (rewind_sent off fin s) \<le> send_sent s" "send_sent (rewind_sent off fin s) \<le> max off (send_base s)"
  by (auto simp: rewind_sent_def Let_def)

lemma requeue_range_self: "requeued (requeue_range r st) r"
  using rewind_sent_frontier(2)
  by (auto simp: requeued_def requeue_range_def Let_def find_on_stream split: option.split)

lemma requeue_range_keeps:
  assumes "requeued st q"
  shows "requeued (requeue_range r st) q"
proof (cases "fr_is_crypto r \<or> fr_is_crypto q")
  case True
  then show ?thesis using assms by (auto simp: requeued_def requeue_range_def Let_def)
next
  case False
  show ?thesis
  proof (cases "find_stream (fr_id q) (rv_streams st)")
    case (Some s)
    then show ?thesis
      using False assms order_trans [OF rewind_sent_frontier(1) [of "fr_offset r" "fr_fin r" s]]
      by (simp add: requeued_def requeue_range_def find_on_stream)
  qed (use False in \<open>simp add: requeued_def requeue_range_def find_on_stream\<close>)
qed

lemma requeue_control_keeps: "requeued st q \<Longrightarrow> requeued (requeue_lost_control fl st) q"
  by (auto simp: requeued_def requeue_lost_control_def Let_def find_map_stream mark_window_dirty_def split: option.splits)

lemma requeue_lost_keeps: "requeued st q \<Longrightarrow> requeued (requeue_lost s st) q"
  unfolding requeue_lost_def
  by (rule fold_invariant [where Q = "\<lambda>_. True"]) (simp_all add: requeue_range_keeps requeue_control_keeps)

lemma requeue_lost_self:
  assumes "r \<in> set (sp_ranges s)"
  shows "requeued (requeue_lost s st) r"
proof -
  have keep: "requeued st r \<Longrightarrow> requeued (fold requeue_range rs st) r" for rs st
    by (induction rs arbitrary: st) (simp_all add: requeue_range_keeps)
  obtain a b where "sp_ranges s = a @ r # b" using split_list [OF assms] by blast
  then show ?thesis by (simp add: requeue_lost_def keep requeue_range_self)
qed

text \<open>Ring and congestion updates do not move any frontier.\<close>

lemma requeued_cong:
  "rv_streams a = rv_streams b \<Longrightarrow> rv_crypto_sent_off a = rv_crypto_sent_off b \<Longrightarrow> requeued a r = requeued b r"
  by (simp add: requeued_def)

lemma requeued_frame [simp]:
  "requeued (set_entry sp i s st) r = requeued st r" "requeued (leave_flight_lost sp i st) r = requeued st r"
  by (rule requeued_cong; simp add: set_entry_def leave_flight_lost_def Let_def)+

lemma declare_lost_requeues:
  "r \<in> set (sp_ranges (tracker_at (rv_sent st sp) i)) \<Longrightarrow> requeued (declare_lost sp i st) r"
  "requeued st q \<Longrightarrow> requeued (declare_lost sp i st) q"
  by (simp_all add: declare_lost_def Let_def requeue_lost_self requeue_lost_keeps)

lemma loss_step_requeues:
  assumes "lost_entry largest delay (rv_time_largest_acked_sent st) (tracker_at (rv_sent st sp) i) \<noteq> tracker_at (rv_sent st sp) i"
    and "r \<in> set (sp_ranges (tracker_at (rv_sent st sp) i))"
  shows "requeued (fst (loss_step sp largest delay i (st, e))) r"
  using assms
  by (auto simp: lost_entry_def loss_step_def Let_def requeue_lost_self not_le split: if_splits)

lemma loss_step_keeps_requeued: "requeued (fst x) r \<Longrightarrow> requeued (fst (loss_step sp largest delay i x)) r"
  by (cases x) (simp add: loss_step_def Let_def requeue_lost_keeps)

lemma detect_loss_requeues:
  assumes "ledger l m st" "j < tk_count (rv_sent st (space_for level))"
    and "\<not> sp_lost (entries (rv_sent st (space_for level)) ! j)"
    and "sp_lost (entries (rv_sent (detect_loss level now st) (space_for level)) ! j)"
    and "r \<in> set (sp_ranges (entries (rv_sent st (space_for level)) ! j))"
  shows "requeued (detect_loss level now st) r"
proof -
  define la where "la = largest_acked (rv_spaces st (space_for level))"
  define delay where "delay = loss_delay (rv_rtt st)"
  define t where "t = rv_time_largest_acked_sent st"
  define x where "x = fold (loss_step (space_for level) (word_of_int la) delay)
    [0..<tk_count (rv_sent st (space_for level))] (st, None)"
  have neg: "\<not> la < 0" and ne: "lost_entry (word_of_int la) delay t (entries (rv_sent st (space_for level)) ! j) \<noteq> entries (rv_sent st (space_for level)) ! j"
    using detect_loss_framed [of l m level st st now] assms by (auto simp: la_def delay_def t_def split: if_splits)
  define Q where "Q = (\<lambda>(s :: SentPacketInfo) (x :: Recovery \<times> nat option). \<forall>r \<in> set (sp_ranges s). requeued (fst x) r)"
  have "Q (entries (rv_sent (fst (st, None :: nat option)) (space_for level)) ! j) x"
    unfolding x_def
  proof (rule loss_loop.established [of l m "space_for level" st "(st, None)" t _ _ "word_of_int la" delay Q])
    show "framed l m (space_for level) st (fst (st, None)) \<and> rv_time_largest_acked_sent (fst (st, None)) = t"
      using assms(1) by (simp add: t_def)
    fix y i s
    show "framed l m (space_for level) st (fst y) \<and> rv_time_largest_acked_sent (fst y) = t \<Longrightarrow>
      lost_entry (word_of_int la) delay t (tracker_at (rv_sent (fst y) (space_for level)) i) \<noteq> tracker_at (rv_sent (fst y) (space_for level)) i \<Longrightarrow>
      Q (tracker_at (rv_sent (fst y) (space_for level)) i) (loss_step (space_for level) (word_of_int la) delay i y)"
      using loss_step_requeues [of _ _ "fst y" _ _ _ "snd y"] by (auto simp: Q_def)
    show "Q s y \<Longrightarrow> Q s (loss_step (space_for level) (word_of_int la) delay i y)"
      by (simp add: Q_def loss_step_keeps_requeued)
  qed (use assms(2) ne in simp_all)
  then have "requeued (fst x) r" using assms(5) by (simp add: Q_def)

  moreover have "detect_loss level now st = (case x of (st, None) \<Rightarrow> st
      | (st, Some e) \<Rightarrow> st\<lparr>rv_cc := on_congestion_event e now (rv_cc st)\<rparr>)"
    using neg by (simp add: detect_loss_def Let_def la_def x_def delay_def)
  ultimately show ?thesis
    using requeued_cong [of "(fst x)\<lparr>rv_cc := c\<rparr>" "fst x" for c] by (cases x; cases "snd x") auto
qed

section \<open>Runs\<close>

text \<open>The discard loop on a zeroed controller: it stays at zero.\<close>

definition zeroed :: "PacketNumberSpace \<Rightarrow> Recovery \<Rightarrow> Recovery \<Rightarrow> bool" where
  "zeroed sp st0 st \<longleftrightarrow> (\<forall>q. tracker_ok (rv_sent st q)) \<and> newreno_ok (rv_cc st) \<and> bytes_in_flight (rv_cc st) = 0 \<and>
     (\<forall>q. q \<noteq> sp \<longrightarrow> rv_sent st q = rv_sent st0 q)"

interpretation zero_loop: entry_loop "\<lambda>st. rv_sent st sp" "zeroed sp st0" discarded_entry "discard_step sp" for sp st0
proof
  fix st i
  assume a: "zeroed sp st0 st" "i < tk_count (rv_sent st sp)"
  then have ok: "tracker_ok (rv_sent st sp)" "newreno_ok (rv_cc st)" by (simp_all add: zeroed_def)
  have o: "tracker_ok (rv_sent st0 q)" if "q \<noteq> sp" for q
  proof -
    have "tracker_ok (rv_sent st q)" "rv_sent st q = rv_sent st0 q" using a(1) that unfolding zeroed_def by blast+
    then show ?thesis by simp
  qed
  define s where "s = tracker_at (rv_sent st sp) i"
  show "zeroed sp st0 (discard_step sp i st) \<and> entries (rv_sent (discard_step sp i st) sp) =
      (entries (rv_sent st sp))[i := discarded_entry (tracker_at (rv_sent st sp) i)]"
    using a o ok tracker_set_ok [OF ok(1) a(2)] newreno_preserved(3) [OF ok(2)]
    by (cases "sp_in_flight s")
      (simp_all add: zeroed_def discard_step_def leave_flight_lost_def set_entry_def discarded_entry_def Let_def flip: s_def)
qed

text \<open>The rings and the controller are well formed, whatever the controller counts.\<close>

definition recovery_ok :: "Recovery \<Rightarrow> bool" where
  "recovery_ok st \<longleftrightarrow> (\<forall>sp. tracker_ok (rv_sent st sp)) \<and> newreno_ok (rv_cc st)"

lemma recovery_ok_ledger: "recovery_ok st \<longleftrightarrow> (\<exists>l m. ledger l m st)"
proof
  assume "recovery_ok st"
  then have "ledger (bytes_in_flight (rv_cc st)) (total_in_flight st) st" by (simp add: recovery_ok_def ledger_def)
  then show "\<exists>l m. ledger l m st" by blast
qed (auto simp: recovery_ok_def ledger_def)

text \<open>
  What is in flight when the connection becomes established and stays in the rings: everything but the Handshake
  packets, and those too if the space was discarded before.
\<close>

definition left_behind :: "Recovery \<Rightarrow> nat" where
  "left_behind st = in_flight_bytes (rv_sent st kInitial) + in_flight_bytes (rv_sent st kApplication) +
     (if rv_discarded st kHandshake then in_flight_bytes (rv_sent st kHandshake) else 0)"

lemma establish_zeroes:
  assumes "recovery_ok st"
  shows "recovery_ok (establish st) \<and> bytes_in_flight (rv_cc (establish st)) = 0 \<and> total_in_flight (establish st) = left_behind st \<and>
    (\<not> rv_discarded st kHandshake \<longrightarrow> in_flight_bytes (rv_sent (establish st) kHandshake) = 0)"
proof (cases "rv_discarded st kHandshake")
  case True
  then have e: "establish st = st\<lparr>rv_state := CsEstablished, rv_cc := reset_in_flight (rv_cc st)\<rparr>"
    by (simp add: establish_def discard_space_def)
  show ?thesis using assms newreno_preserved(6) [of "rv_cc st"] True unfolding e
    by (simp add: recovery_ok_def total_in_flight_def left_behind_def reset_in_flight_def)
next
  case False
  define st1 where "st1 = (st\<lparr>rv_state := CsEstablished, rv_cc := reset_in_flight (rv_cc st)\<rparr>)
    \<lparr>rv_discarded := (rv_discarded st)(kHandshake := True)\<rparr>"
  define st2 where "st2 = fold (discard_step kHandshake) [0..<tk_count (rv_sent st1 kHandshake)] st1"
  have "zeroed kHandshake st1 st1"
    using assms newreno_preserved(6) [of "rv_cc st"] by (simp add: zeroed_def st1_def recovery_ok_def reset_in_flight_def)
  then have z: "zeroed kHandshake st1 st2" "entries (rv_sent st2 kHandshake) = map discarded_entry (entries (rv_sent st1 kHandshake))"
    using zero_loop.whole by (simp_all add: st2_def)
  have e: "rv_sent (establish st) = rv_sent st2" "rv_cc (establish st) = rv_cc st2"
    using False by (simp_all add: establish_def discard_space_def Let_def st2_def st1_def)
  have "in_flight_bytes (rv_sent st2 kHandshake) = 0"
    by (simp add: in_flight_bytes_def z(2) comp_def weight_def discarded_entry_def)
  moreover have "rv_sent st2 kInitial = rv_sent st kInitial" "rv_sent st2 kApplication = rv_sent st kApplication"
    using z(1) by (simp_all add: zeroed_def st1_def)
  ultimately show ?thesis using z(1) False by (simp add: e recovery_ok_def total_in_flight_def left_behind_def zeroed_def)
qed

text \<open>
  Everything that can happen to the recovery state from the creation of a connection on: packets are sent, ACK frames
  arrive, timers expire, the handshake is sped up, a space is discarded, a client restarts its handshake, the connection
  becomes established, and the rest of the connection works on streams and other members without touching the rings and
  the congestion controller. The two numbers are the history the properties speak of: the bytes that were in flight when
  a handshake was restarted, and the bytes that establishment left behind in the rings.
\<close>

inductive recovery_run :: "Recovery \<Rightarrow> nat \<Rightarrow> nat \<Rightarrow> Recovery \<Rightarrow> bool" for st0 where
  start: "recovery_run st0 0 0 st0"
| sends: "recovery_run st0 l m st \<Longrightarrow> recovery_run st0 l m (record_sent sp pn wire ae ranges now st)"
| acks: "recovery_run st0 l m st \<Longrightarrow> recovery_run st0 l m (snd (handle_ack level data ecn now st))"
| timer: "recovery_run st0 l m st \<Longrightarrow> recovery_run st0 l m (maybe_pto_expire now st)"
| speedup: "recovery_run st0 l m st \<Longrightarrow> recovery_run st0 l m (speed_up_handshake st)"
| discards: "recovery_run st0 l m st \<Longrightarrow> recovery_run st0 l m (discard_space sp st)"
| restarts: "recovery_run st0 l m st \<Longrightarrow> recovery_run st0 (l + total_in_flight st) m (restart_handshake st)"
| establishes: "recovery_run st0 l m st \<Longrightarrow> recovery_run st0 0 (left_behind st) (establish st)"
| other: "recovery_run st0 l m st \<Longrightarrow> rv_sent st' = rv_sent st \<Longrightarrow> rv_cc st' = rv_cc st \<Longrightarrow> recovery_run st0 l m st'"

lemma restart_ledger:
  assumes "ledger l m st"
  shows "ledger (l + total_in_flight st) m (restart_handshake st)"
proof -
  have "total_in_flight (restart_handshake st) = 0" by (simp add: total_in_flight_def restart_handshake_def in_flight_bytes_def tracker_init_ok)
  then show ?thesis using assms by (simp add: ledger_def restart_handshake_def tracker_init_ok)
qed

lemma establish_ledger: "ledger l m st \<Longrightarrow> ledger 0 (left_behind st) (establish st)"
  using establish_zeroes [of st] recovery_ok_ledger by (auto simp: ledger_def recovery_ok_def)

lemmas ledger_operations = record_sent_ledger handle_ack_ledger pto_ledger speed_up_ledger discard_ledger restart_ledger establish_ledger

definition recovery_fresh :: "Recovery \<Rightarrow> bool" where
  "recovery_fresh st \<longleftrightarrow> (\<forall>sp. rv_sent st sp = tracker_init) \<and> rv_cc st = newreno_init"

lemma fresh_ledger: "recovery_fresh st \<Longrightarrow> ledger 0 0 st"
  by (simp add: recovery_fresh_def ledger_def total_in_flight_def tracker_init_ok in_flight_bytes_def newreno_preserved(7) [of newreno_init])
    (simp add: newreno_init_def newreno_ok_def kInitialWindow_def kMinimumWindow_def)

lemma recovery_run_ledger: "recovery_run st0 l m st \<Longrightarrow> ledger 0 0 st0 \<Longrightarrow> ledger l m st"
  by (induction rule: recovery_run.induct) (simp_all add: ledger_operations, use ledger_cong in blast)

lemma recovery_run_ok: "recovery_run st0 l m st \<Longrightarrow> recovery_fresh st0 \<Longrightarrow> recovery_ok st"
  using recovery_run_ledger fresh_ledger recovery_ok_ledger by blast

section \<open>Properties\<close>

text \<open>
  C7. Bytes in flight are accounted for. In every run from a fresh connection, across ring eviction, duplicate and
  overlapping ACK ranges, spurious timeouts and the discarding of a space, the congestion controller's count and the
  sizes of the packets marked in flight in the three sent-packet rings differ by exactly what two operations cause: a
  client's restart of the handshake (Retry, Version Negotiation) empties the rings and leaves the count, so the
  \<open>leaked\<close> bytes that were in flight then stay counted until the connection is established; establishment zeroes the
  count, and the \<open>forgotten\<close> bytes of Initial and 1-RTT packets that were in flight then are not counted while
  they stay in the rings. Without the second the count is exactly the sizes plus \<open>leaked\<close>; without either it is
  exactly the sizes; and establishment with nothing else in flight makes it exact again. The congestion window
  never falls below its minimum and no ring overflows.
\<close>

theorem bytes_in_flight_conserved:
  assumes "recovery_fresh st0" "recovery_run st0 leaked forgotten st"
  defines "flying \<equiv> \<Sum>sp \<leftarrow> [kInitial, kHandshake, kApplication]. \<Sum>s \<leftarrow> entries (rv_sent st sp). if sp_in_flight s then sp_size s else 0"
  shows "bytes_in_flight (rv_cc st) \<le> flying + leaked \<and> flying + leaked \<le> bytes_in_flight (rv_cc st) + forgotten \<and>
    (forgotten = 0 \<longrightarrow> bytes_in_flight (rv_cc st) = flying + leaked) \<and>
    kMinimumWindow \<le> cwnd (rv_cc st) \<and> (\<forall>sp. tk_count (rv_sent st sp) \<le> kMaxSentPackets)"
proof -
  have "flying = total_in_flight st" by (simp add: flying_def total_in_flight_def in_flight_bytes_def weight_def [abs_def])
  then show ?thesis
    using recovery_run_ledger [OF assms(2) fresh_ledger [OF assms(1)]] by (simp add: ledger_def newreno_ok_def tracker_ok_def)
qed

definition recovery_init :: Recovery where
  "recovery_init = \<lparr>rv_spaces = pn_space_manager, rv_sent = (\<lambda>_. tracker_init), rv_rtt = rtt_init, rv_cc = newreno_init,
     rv_pto_backoff = 0, rv_rtt_sample = 0, rv_time_largest_acked_sent = 0, rv_pto_probes = 0, rv_streams = [],
     rv_crypto_tx = (\<lambda>_. 0), rv_crypto_sent_off = (\<lambda>_. 0), rv_ack_pending = (\<lambda>_. False), rv_discarded = (\<lambda>_. False),
     rv_next_ctrl_flags = 0, rv_handshake_done_sent = False, rv_handshake_confirmed = False, rv_state = CsNew,
     rv_conn_window_dirty = False, rv_stream_window_dirty = False, rv_bidi_sent_limit = 100, rv_uni_sent_limit = 3,
     rv_speedups = 0\<rparr>"

theorem bytes_in_flight_conserved_witness:
  "recovery_run recovery_init 1200 0 (restart_handshake (record_sent kInitial 0 1200 True [] 5 recovery_init)) \<and>
   1200 \<le> bytes_in_flight (rv_cc (restart_handshake (record_sent kInitial 0 1200 True [] 5 recovery_init))) \<and>
   kMinimumWindow \<le> cwnd (rv_cc (restart_handshake (record_sent kInitial 0 1200 True [] 5 recovery_init)))"
proof -
  let ?s = "record_sent kInitial 0 1200 True [] 5 recovery_init"
  have f: "recovery_fresh recovery_init" by (simp add: recovery_fresh_def recovery_init_def)
  have r: "recovery_run recovery_init 0 0 ?s" by (intro recovery_run.intros)
  have "bytes_in_flight (rv_cc ?s) = 1200"
    by (simp add: record_sent_def recovery_init_def tracker_record_def tracker_init_def newreno_init_def Let_def
        on_packet_sent_def kMaxSentPackets_pos)
  then have "total_in_flight ?s = 1200" using recovery_run_ledger [OF r fresh_ledger [OF f]] by (simp add: ledger_def)
  then have r2: "recovery_run recovery_init 1200 0 (restart_handshake ?s)" using recovery_run.restarts [OF r] by simp
  show ?thesis using bytes_in_flight_conserved [OF f r2] r2 by simp
qed

lemma acked_entries_fold:
  "fold (\<lambda>(lo, hi). acked_entry lo hi) is s =
     (if \<not> sp_acked s \<and> \<not> sp_lost s \<and> (\<exists>(lo, hi) \<in> set is. lo \<le> sp_packet_number s \<and> sp_packet_number s \<le> hi)
      then s\<lparr>sp_acked := True, sp_in_flight := False\<rparr> else s)"
proof (induction "is" arbitrary: s)
  case (Cons p ps)
  obtain lo hi where p: "p = (lo, hi)" by (cases p)
  have s: "acked_entry lo hi s = (if \<not> sp_acked s \<and> \<not> sp_lost s \<and> lo \<le> sp_packet_number s \<and> sp_packet_number s \<le> hi
      then s\<lparr>sp_acked := True, sp_in_flight := False\<rparr> else s)" by (simp add: acked_entry_def)
  show ?case unfolding p by (simp add: Cons s) blast
qed simp

lemma ack_outcome_flags:
  "sp_acked (ack_outcome ack la delay t s) \<longleftrightarrow> sp_acked s \<or> \<not> sp_lost s \<and>
     (\<exists>(lo, hi) \<in> set (ack_intervals ack). lo \<le> sp_packet_number s \<and> sp_packet_number s \<le> hi)"
  "sp_lost (ack_outcome ack la delay t s) \<longleftrightarrow> sp_lost s \<or> \<not> sp_acked (ack_outcome ack la delay t s) \<and> 0 \<le> la \<and>
     sp_ack_eliciting s \<and> sp_packet_number s < word_of_int la \<and>
     (sp_packet_number s + kPacketThreshold \<le> word_of_int la \<or> (of_nat (sp_time_sent s) + delay :: u64) \<le> of_nat t)"
  "sp_packet_number (ack_outcome ack la delay t s) = sp_packet_number s"
  "sp_ranges (ack_outcome ack la delay t s) = sp_ranges s"
  by (auto simp: ack_outcome_def acked_entries_fold lost_entry_def Let_def)

text \<open>
  A state with two 1-RTT packets outstanding, numbers 0 and 3; the first carried ten bytes of 1-RTT CRYPTO data.
\<close>

definition two_packets :: Recovery where
  "two_packets = record_sent kApplication 3 1200 True [] 6
     (record_sent kApplication 0 1000 True [\<lparr>fr_is_crypto = True, fr_fin = False, fr_id = 3, fr_offset = 0, fr_length = 10\<rparr>] 5
        (recovery_init\<lparr>rv_spaces := (\<lambda>_. pn_space_init\<lparr>next_pn := 4\<rparr>), rv_crypto_sent_off := (\<lambda>_. 10)\<rparr>))"

definition packet0 :: SentPacketInfo where
  "packet0 = \<lparr>sp_packet_number = 0, sp_time_sent = 5, sp_size = 1000, sp_ack_eliciting = True, sp_in_flight = True,
     sp_acked = False, sp_lost = False, sp_ctrl_flags = 0,
     sp_ranges = [\<lparr>fr_is_crypto = True, fr_fin = False, fr_id = 3, fr_offset = 0, fr_length = 10\<rparr>]\<rparr>"

definition packet3 :: SentPacketInfo where
  "packet3 = \<lparr>sp_packet_number = 3, sp_time_sent = 6, sp_size = 1200, sp_ack_eliciting = True, sp_in_flight = True,
     sp_acked = False, sp_lost = False, sp_ctrl_flags = 0, sp_ranges = []\<rparr>"

lemma two_packets_ledger: "ledger 0 0 two_packets"
proof -
  have "ledger 0 0 (recovery_init\<lparr>rv_spaces := (\<lambda>_. pn_space_init\<lparr>next_pn := 4\<rparr>), rv_crypto_sent_off := (\<lambda>_. 10)\<rparr>)"
    by (rule fresh_ledger) (simp add: recovery_fresh_def recovery_init_def)
  then show ?thesis unfolding two_packets_def by (intro record_sent_ledger)
qed

lemma two_packets_ok: "recovery_ok two_packets"
  using two_packets_ledger recovery_ok_ledger by blast

lemma two_packets_rings:
  "tk_count (rv_sent two_packets kApplication) = 2" "entries (rv_sent two_packets kApplication) = [packet0, packet3]"
  "rv_sent two_packets kInitial = tracker_init" "rv_sent two_packets kHandshake = tracker_init"
proof -
  show c: "tk_count (rv_sent two_packets kApplication) = 2"
    "rv_sent two_packets kInitial = tracker_init" "rv_sent two_packets kHandshake = tracker_init"
    by (simp_all add: two_packets_def record_sent_def recovery_init_def tracker_record_def tracker_init_def Let_def kMaxSentPackets_def)
  have "tracker_at (rv_sent two_packets kApplication) 0 = packet0" "tracker_at (rv_sent two_packets kApplication) 1 = packet3"
    by (simp_all add: two_packets_def record_sent_def recovery_init_def tracker_record_def tracker_init_def Let_def
        tracker_at_def kMaxSentPackets_def sent_packet_init_def packet0_def packet3_def)
  then show "entries (rv_sent two_packets kApplication) = [packet0, packet3]"
    by (simp add: entries_def c numeral_2_eq_2)
qed

lemma two_packets_other:
  "rv_discarded two_packets sp = False" "rv_rtt two_packets = rtt_init" "rv_pto_backoff two_packets = 0"
  "rv_spaces two_packets sp = pn_space_init\<lparr>next_pn := 4\<rparr>"
  by (simp_all add: two_packets_def record_sent_def recovery_init_def tracker_record_def tracker_init_def Let_def kMaxSentPackets_def)

text \<open>An ACK frame for packet 3 alone.\<close>

definition ack3 :: AckFrame where
  "ack3 = \<lparr>af_largest_acked = 3, af_ack_delay = 0, af_first_ack_range = 0, af_ranges = [], af_has_ecn = False,
     af_ect0 = 0, af_ect1 = 0, af_ecn_ce = 0\<rparr>"

definition after_ack3 :: Recovery where
  "after_ack3 = snd (handle_ack TlApplication [2, 3, 0, 0, 0] False 9 two_packets)"

lemma handle_ack3: "handle_ack TlApplication [2, 3, 0, 0, 0] False 9 two_packets = (AckConsumed 5, after_ack3)"
  "after_ack3 = process_ack TlApplication ack3 9
     (two_packets\<lparr>rv_spaces := (rv_spaces two_packets)(kApplication := on_largest_acked 3 (rv_spaces two_packets kApplication))\<rparr>)"
proof -
  have "ack_frame_parse [3, 0, 0, 0] False = Parsed ack3 4" by code_simp
  then show "handle_ack TlApplication [2, 3, 0, 0, 0] False 9 two_packets = (AckConsumed 5, after_ack3)"
    "after_ack3 = process_ack TlApplication ack3 9
     (two_packets\<lparr>rv_spaces := (rv_spaces two_packets)(kApplication := on_largest_acked 3 (rv_spaces two_packets kApplication))\<rparr>)"
    by (simp_all add: after_ack3_def handle_ack_def two_packets_other ack3_def)
qed

lemma after_ack3_flags:
  "sp_acked (entries (rv_sent after_ack3 kApplication) ! 1)" "sp_lost (entries (rv_sent after_ack3 kApplication) ! 0)"
proof -
  define st1 where "st1 = two_packets\<lparr>rv_spaces := (rv_spaces two_packets)(kApplication := on_largest_acked 3 (rv_spaces two_packets kApplication))\<rparr>"
  have l: "ledger 0 0 st1" and s: "rv_sent st1 = rv_sent two_packets" using two_packets_ledger by (simp_all add: st1_def ledger_def total_in_flight_def)
  have la: "largest_acked (rv_spaces st1 kApplication) = 3"
    by (simp add: st1_def on_largest_acked_def two_packets_other pn_space_init_def)
  have i: "ack_intervals ack3 = [(3, 3)]" by code_simp
  have "entries (rv_sent after_ack3 kApplication) = map (ack_outcome ack3 3 (loss_delay (rv_rtt after_ack3)) (rv_time_largest_acked_sent after_ack3))
      [packet0, packet3]"
    using process_ack_framed [OF l, of TlApplication ack3 9] by (simp add: handle_ack3(2) s two_packets_rings la flip: st1_def)
  then show "sp_acked (entries (rv_sent after_ack3 kApplication) ! 1)" "sp_lost (entries (rv_sent after_ack3 kApplication) ! 0)"
    by (simp_all add: ack_outcome_flags i packet0_def packet3_def kPacketThreshold_def)
qed

text \<open>
  C9. What an accepted ACK frame does to every tracked packet of its space: a packet becomes
  acknowledged exactly when it was unresolved and its number lies in one of the frame's ranges; it becomes
  lost exactly when it is still unacknowledged, ack-eliciting, below the largest acknowledged number and
  either three numbers behind it or sent the loss delay before it. An accepted frame never acknowledges a
  packet number that was not issued. The rings and the controller are assumed well formed, as they are in every
  state of a run; whether the count of bytes in flight is exact does not matter.
\<close>

theorem ack_frame_outcome:
  assumes "recovery_ok st" "handle_ack level data ecn now st = (AckConsumed n, st')" "i < tk_count (rv_sent st (space_for level))"
  defines "e \<equiv> entries (rv_sent st (space_for level)) ! i" and "e' \<equiv> entries (rv_sent st' (space_for level)) ! i"
    and "la \<equiv> largest_acked (rv_spaces st' (space_for level))"
  shows "\<exists>ack. ack_frame_parse (tl data) ecn = Parsed ack (n - 1) \<and>
    af_largest_acked ack < next_pn (rv_spaces st (space_for level)) \<and>
    (sp_acked e' \<longleftrightarrow> sp_acked e \<or> \<not> sp_lost e \<and>
       (\<exists>(lo, hi) \<in> set (ack_intervals ack). lo \<le> sp_packet_number e \<and> sp_packet_number e \<le> hi)) \<and>
    (sp_lost e' \<longleftrightarrow> sp_lost e \<or> \<not> sp_acked e' \<and> 0 \<le> la \<and> sp_ack_eliciting e \<and> sp_packet_number e < word_of_int la \<and>
       (sp_packet_number e + kPacketThreshold \<le> word_of_int la \<or>
        (of_nat (sp_time_sent e) + loss_delay (rv_rtt st') :: u64) \<le> of_nat (rv_time_largest_acked_sent st'))) \<and>
    sp_packet_number e' = sp_packet_number e \<and> sp_ranges e' = sp_ranges e"
proof -
  obtain ack where ack: "ack_frame_parse (tl data) ecn = Parsed ack (n - 1)"
    "af_largest_acked ack < next_pn (rv_spaces st (space_for level))"
    "st' = process_ack level ack now (st\<lparr>rv_spaces := (rv_spaces st)(space_for level :=
       on_largest_acked (af_largest_acked ack) (rv_spaces st (space_for level)))\<rparr>)"
    using assms(2) by (auto simp: handle_ack_def not_le split: parsed.splits if_splits)
  define st1 where "st1 = st\<lparr>rv_spaces := (rv_spaces st)(space_for level :=
       on_largest_acked (af_largest_acked ack) (rv_spaces st (space_for level)))\<rparr>"
  obtain l m where "ledger l m st" using assms(1) by (auto simp: recovery_ok_ledger)
  then have l1: "ledger l m st1" and s1: "rv_sent st1 = rv_sent st" by (simp_all add: st1_def ledger_def total_in_flight_def)
  have p: "rv_spaces st' = rv_spaces st1" "entries (rv_sent st' (space_for level)) =
      map (ack_outcome ack (largest_acked (rv_spaces st1 (space_for level))) (loss_delay (rv_rtt st')) (rv_time_largest_acked_sent st'))
        (entries (rv_sent st (space_for level)))"
    using process_ack_framed [OF l1, of level ack now] by (simp_all add: ack(3) s1 flip: st1_def)
  have "e' = ack_outcome ack la (loss_delay (rv_rtt st')) (rv_time_largest_acked_sent st') e"
    using assms(3) by (simp add: e'_def e_def p la_def)
  then show ?thesis using ack(1,2) ack_outcome_flags [of ack la "loss_delay (rv_rtt st')" "rv_time_largest_acked_sent st'" e] by blast
qed

theorem ack_frame_outcome_witness:
  "recovery_ok two_packets \<and> handle_ack TlApplication [2, 3, 0, 0, 0] False 9 two_packets = (AckConsumed 5, after_ack3) \<and>
   sp_packet_number (entries (rv_sent after_ack3 kApplication) ! 1) = 3"
  using ack_frame_outcome [OF two_packets_ok handle_ack3(1), of 1]
  by (auto simp: two_packets_rings two_packets_ok handle_ack3(1) packet3_def)

lemma process_ack_requeues:
  assumes l: "ledger l m st" and j: "j < tk_count (rv_sent st (space_for level))"
    and "\<not> sp_lost (entries (rv_sent st (space_for level)) ! j)"
    and "sp_lost (entries (rv_sent (process_ack level ack now st) (space_for level)) ! j)"
    and "r \<in> set (sp_ranges (entries (rv_sent st (space_for level)) ! j))"
  shows "requeued (process_ack level ack now st) r"
proof -
  define sp where "sp = space_for level"
  define x where "x = fold (\<lambda>(lo, hi). ack_range sp lo hi (af_largest_acked ack) now) (ack_intervals ack) (st, False)"
  have x: "ledger l m (fst x)" "entries (rv_sent (fst x) sp) =
      map (\<lambda>s. fold (\<lambda>(lo, hi). acked_entry lo hi) (ack_intervals ack) s) (entries (rv_sent st sp))"
    using ack_ranges_framed [of l m sp st "(st, False)"] l by (auto simp: x_def dest: framed_ledger)
  obtain b where b: "process_ack level ack now st = detect_loss level now b" "rv_sent b = rv_sent (fst x)" "rv_cc b = rv_cc (fst x)"
    by (auto simp: process_ack_def x_def sp_def split_beta Let_def)
  have "ledger l m b" using x(1) b ledger_cong [of b "fst x"] by simp
  moreover have c: "j < tk_count (rv_sent b sp)"
    using j arg_cong [OF x(2), of length] by (simp add: b(2) sp_def)
  moreover have "\<not> sp_lost (entries (rv_sent b sp) ! j)" "r \<in> set (sp_ranges (entries (rv_sent b sp) ! j))"
    using assms(3,5) j by (simp_all add: b(2) x(2) acked_entries_fold flip: sp_def)
  ultimately show ?thesis
    using detect_loss_requeues [of l m b j level now r] assms(4) by (simp add: b(1) sp_def)
qed

text \<open>
  C19. Data of a packet declared lost goes out again: after an ACK frame is processed, every STREAM and
  CRYPTO range carried by a packet that this frame made lost is at or above the send frontier of its
  stream or level, unless the peer acknowledged its start in the meantime. The rings and the controller are
  assumed well formed, as they are in every state of a run.
\<close>

theorem lost_data_requeued:
  assumes "recovery_ok st" "handle_ack level data ecn now st = (AckConsumed n, st')" "j < tk_count (rv_sent st (space_for level))"
    and "\<not> sp_lost (entries (rv_sent st (space_for level)) ! j)" "sp_lost (entries (rv_sent st' (space_for level)) ! j)"
  shows "\<forall>r \<in> set (sp_ranges (entries (rv_sent st (space_for level)) ! j)).
    if fr_is_crypto r then unat (fr_id r) < kNumTlsLevels \<longrightarrow> rv_crypto_sent_off st' (unat (fr_id r)) \<le> fr_offset r
    else \<forall>s. find_stream (fr_id r) (rv_streams st') = Some s \<longrightarrow> send_sent s \<le> max (fr_offset r) (send_base s)"
proof -
  obtain ack where st': "st' = process_ack level ack now (st\<lparr>rv_spaces := (rv_spaces st)(space_for level :=
       on_largest_acked (af_largest_acked ack) (rv_spaces st (space_for level)))\<rparr>)"
    using assms(2) by (auto simp: handle_ack_def split: parsed.splits if_splits)
  define st1 where "st1 = st\<lparr>rv_spaces := (rv_spaces st)(space_for level :=
       on_largest_acked (af_largest_acked ack) (rv_spaces st (space_for level)))\<rparr>"
  obtain l m where "ledger l m st" using assms(1) by (auto simp: recovery_ok_ledger)
  then have "ledger l m st1" "rv_sent st1 = rv_sent st" by (simp_all add: st1_def ledger_def total_in_flight_def)
  then have "requeued st' r" if "r \<in> set (sp_ranges (entries (rv_sent st (space_for level)) ! j))" for r
    using process_ack_requeues [of l m st1 j level ack now r] assms(3-) that by (simp add: st' flip: st1_def)
  then show ?thesis unfolding requeued_iff by blast
qed

theorem lost_data_requeued_witness:
  "rv_crypto_sent_off two_packets 3 = 10 \<and> rv_crypto_sent_off after_ack3 3 = 0"
proof -
  have "rv_crypto_sent_off two_packets 3 = 10"
    by (simp add: two_packets_def record_sent_def recovery_init_def tracker_record_def tracker_init_def Let_def kMaxSentPackets_def)
  then show ?thesis
    using lost_data_requeued [OF two_packets_ok handle_ack3(1), of 0] after_ack3_flags
    by (simp add: two_packets_rings packet0_def kNumTlsLevels_def)
qed

section \<open>Probe timeouts\<close>

definition unresolved :: "SentPacketInfo \<Rightarrow> bool" where
  "unresolved s \<longleftrightarrow> \<not> sp_acked s \<and> \<not> sp_lost s \<and> sp_ack_eliciting s"

lemma pto_probe_result:
  "pto_probe sp is st = (st, False) \<and> (\<forall>i \<in> set is. \<not> unresolved (tracker_at (rv_sent st sp) i)) \<or>
   (\<exists>i \<in> set is. unresolved (tracker_at (rv_sent st sp) i) \<and> pto_probe sp is st = (declare_lost sp i st, True))"
  by (induction sp "is" st rule: pto_probe.induct) (auto simp: unresolved_def Let_def)

lemma pto_backoff_kept [simp]: "rv_pto_backoff (declare_lost sp i st) = rv_pto_backoff st"
proof -
  have "rv_pto_backoff (fold requeue_range rs st) = rv_pto_backoff st" for rs st
    by (induction rs arbitrary: st) (simp_all add: requeue_range_def Let_def)
  then have "rv_pto_backoff (requeue_lost s st) = rv_pto_backoff st" for s
    by (simp add: requeue_lost_def requeue_lost_control_def Let_def)
  then show ?thesis by (simp add: declare_lost_def leave_flight_lost_def set_entry_def Let_def)
qed

lemma pto_space_result:
  "fst (pto_space now q (st, f)) = st \<and> (snd (pto_space now q (st, f)) \<longleftrightarrow> f) \<or>
   (\<exists>i < tk_count (rv_sent st q). unresolved (tracker_at (rv_sent st q) i) \<and> pto_space now q (st, f) = (declare_lost q i st, True))"
  using pto_probe_result [of q "[0..<tk_count (rv_sent st q)]" st]
  by (auto simp: pto_space_def split: option.split)

text \<open>What one space's check leaves alone, and that it keeps what is due for transmission.\<close>

lemma pto_space_keeps:
  fixes now q
  assumes "ledger l m (fst x)"
  defines "y \<equiv> pto_space now q x"
  shows "ledger l m (fst y)" "sp \<noteq> q \<Longrightarrow> rv_sent (fst y) sp = rv_sent (fst x) sp" "rv_rtt (fst y) = rv_rtt (fst x)"
    "rv_pto_backoff (fst y) = rv_pto_backoff (fst x)" "snd x \<Longrightarrow> snd y" "requeued (fst x) r \<Longrightarrow> requeued (fst y) r"
proof -
  obtain st f where x: "x = (st, f)" by (cases x)
  have "fst y = st \<and> (snd y \<longleftrightarrow> f) \<or> (\<exists>i. framed l m q st (declare_lost q i st) \<and> y = (declare_lost q i st, True))"
    using pto_space_result [of now q st f] declare_lost_framed [of l m q st st] assms(1)
    by (auto simp: y_def x unresolved_def)
  then show "ledger l m (fst y)" "sp \<noteq> q \<Longrightarrow> rv_sent (fst y) sp = rv_sent (fst x) sp" "rv_rtt (fst y) = rv_rtt (fst x)"
    "rv_pto_backoff (fst y) = rv_pto_backoff (fst x)" "snd x \<Longrightarrow> snd y" "requeued (fst x) r \<Longrightarrow> requeued (fst y) r"
    using assms(1) declare_lost_requeues(2) by (auto simp: x framed_def)
qed

lemma earliest_loop_some: "out \<noteq> None \<or> (\<exists>s \<in> set ss. sp_in_flight s \<and> sp_ack_eliciting s) \<Longrightarrow> earliest_loop ss out \<noteq> None"
  by (induction ss out rule: earliest_loop.induct) (auto split: option.splits, blast+)

definition pto_expired :: "nat \<Rightarrow> PacketNumberSpace \<Rightarrow> Recovery \<Rightarrow> bool" where
  "pto_expired now sp st \<longleftrightarrow> (\<exists>t. earliest_in_flight_time (rv_sent st sp) = Some t \<and>
     (of_nat t + pto max_ack_delay_us (rv_pto_backoff st) (rv_rtt st) :: u64) \<le> of_nat now)"

text \<open>A packet of the space was declared lost and everything it carried is due again.\<close>

definition pto_fired :: "PacketNumberSpace \<Rightarrow> Recovery \<Rightarrow> Recovery \<Rightarrow> bool" where
  "pto_fired sp st st' \<longleftrightarrow> (\<exists>i < tk_count (rv_sent st sp). unresolved (entries (rv_sent st sp) ! i) \<and>
     sp_lost (entries (rv_sent st' sp) ! i) \<and> (\<forall>r \<in> set (sp_ranges (entries (rv_sent st sp) ! i)). requeued st' r))"

lemma pto_space_fires:
  assumes "ledger l m st" "pto_expired now sp st" "i < tk_count (rv_sent st sp)" "unresolved (tracker_at (rv_sent st sp) i)"
  shows "snd (pto_space now sp (st, f)) \<and> pto_fired sp st (fst (pto_space now sp (st, f)))"
proof -
  obtain k where k: "k < tk_count (rv_sent st sp)" "unresolved (tracker_at (rv_sent st sp) k)"
    "pto_probe sp [0..<tk_count (rv_sent st sp)] st = (declare_lost sp k st, True)"
    using pto_probe_result [of sp "[0..<tk_count (rv_sent st sp)]" st] assms(3,4) by auto
  then have e: "pto_space now sp (st, f) = (declare_lost sp k st, True)"
    using assms(2) by (auto simp: pto_expired_def pto_space_def not_less)
  have "sp_lost (entries (rv_sent (declare_lost sp k st) sp) ! k)"
    using declare_lost_framed [of l m sp st st k] k assms(1) by (simp add: unresolved_def abandoned_entry_def)
  then show ?thesis using k declare_lost_requeues(1) [of _ st sp k] by (auto simp: e pto_fired_def nth_entries)
qed

lemma pto_fired_later:
  assumes "pto_fired sp st (fst x)" "ledger l m (fst x)" "sp \<noteq> q"
  shows "pto_fired sp st (fst (pto_space now q x))"
  using assms(1) pto_space_keeps(2) [OF assms(2,3)] pto_space_keeps(6) [OF assms(2)] by (fastforce simp: pto_fired_def)

lemma pto_spaces_fire:
  assumes "ledger l m (fst x)" "distinct qs" "sp \<in> set qs" "pto_expired now sp (fst x)"
    "i < tk_count (rv_sent (fst x) sp)" "unresolved (tracker_at (rv_sent (fst x) sp) i)"
  shows "snd (fold (pto_space now) qs x) \<and> pto_fired sp (fst x) (fst (fold (pto_space now) qs x))"
  using assms
proof (induction qs arbitrary: x)
  case (Cons q qs)
  obtain st f where x: "x = (st, f)" by (cases x)
  define y where "y = pto_space now q x"
  have y: "ledger l m (fst y)" using pto_space_keeps(1) [OF Cons.prems(1)] by (simp add: y_def)
  show ?case
  proof (cases "q = sp")
    case True
    have "snd y \<and> pto_fired sp st (fst y)"
      using pto_space_fires [of l m st now sp i f] Cons.prems by (simp add: y_def x True)
    moreover have "snd z \<Longrightarrow> pto_fired sp st (fst z) \<Longrightarrow> ledger l m (fst z) \<Longrightarrow>
        snd (fold (pto_space now) ps z) \<and> pto_fired sp st (fst (fold (pto_space now) ps z))" if "sp \<notin> set ps" for ps z
      using that
    proof (induction ps arbitrary: z)
      case (Cons p ps)
      show ?case
        using Cons.IH [of "pto_space now p z"] pto_fired_later [OF Cons.prems(2,3)] pto_space_keeps(1,5) [OF Cons.prems(3)]
          Cons.prems by simp
    qed simp
    ultimately show ?thesis using Cons.prems(2) y True by (simp add: x flip: y_def) (simp add: y_def x)
  next
    case False
    then have s: "rv_sent (fst y) sp = rv_sent (fst x) sp" using pto_space_keeps(2) [OF Cons.prems(1)] by (simp add: y_def)
    have e: "pto_expired now sp (fst y)"
      using Cons.prems(4) s pto_space_keeps(3,4) [OF Cons.prems(1), of now q] by (simp add: pto_expired_def y_def)
    then show ?thesis
      using Cons.IH [OF y] Cons.prems False s by (auto simp: pto_fired_def simp flip: y_def)
  qed
qed simp

text \<open>
  C20. A connection never waits forever on a silent peer: when a space has an unresolved ack-eliciting
  packet in flight and the probe timeout of its oldest such packet has passed, the timer declares a packet
  of that space lost, makes everything it carried due for transmission again, and grants a probe that
  may ignore the congestion window. The rings and the controller are assumed well formed, as they are in every
  state of a run.
\<close>

theorem pto_makes_progress:
  assumes "recovery_ok st" "j < tk_count (rv_sent st sp)"
    and "sp_in_flight (entries (rv_sent st sp) ! j)" "unresolved (entries (rv_sent st sp) ! j)"
    and "\<And>t. earliest_in_flight_time (rv_sent st sp) = Some t \<Longrightarrow>
      (of_nat t + pto max_ack_delay_us (rv_pto_backoff st) (rv_rtt st) :: u64) \<le> of_nat now"
  shows "0 < rv_pto_probes (maybe_pto_expire now st) \<and>
    (\<exists>i < tk_count (rv_sent st sp). unresolved (entries (rv_sent st sp) ! i) \<and>
      sp_lost (entries (rv_sent (maybe_pto_expire now st) sp) ! i) \<and>
      (\<forall>r \<in> set (sp_ranges (entries (rv_sent st sp) ! i)). requeued (maybe_pto_expire now st) r))"
proof -
  have "earliest_in_flight_time (rv_sent st sp) \<noteq> None"
    unfolding earliest_in_flight_time_def
    by (rule earliest_loop_some)
      (use assms(2,3,4) in \<open>force simp: unresolved_def nth_entries\<close>)
  then have "pto_expired now sp st" using assms(5) by (auto simp: pto_expired_def)
  moreover have "unresolved (tracker_at (rv_sent st sp) j)" using assms(2,4) by (simp add: nth_entries)
  moreover obtain l m where "ledger l m st" using assms(1) by (auto simp: recovery_ok_ledger)
  ultimately have f: "snd (fold (pto_space now) [kInitial, kHandshake, kApplication] (st, False)) \<and>
      pto_fired sp st (fst (fold (pto_space now) [kInitial, kHandshake, kApplication] (st, False)))"
    using pto_spaces_fire [of l m "(st, False)" "[kInitial, kHandshake, kApplication]" sp now j] assms(2)
    by (cases sp) simp_all
  obtain st2 where x: "fold (pto_space now) [kInitial, kHandshake, kApplication] (st, False) = (st2, True)"
    using f by (metis (full_types) prod.collapse)
  define st' where "st' = maybe_pto_expire now st"
  have st': "rv_sent st' = rv_sent st2" "rv_streams st' = rv_streams st2" "rv_crypto_sent_off st' = rv_crypto_sent_off st2"
    "0 < rv_pto_probes st'"
    unfolding st'_def maybe_pto_expire_def x by (simp_all add: Let_def)
  have "requeued st' r = requeued st2 r" for r by (rule requeued_cong) (simp_all add: st')
  then show ?thesis using f st' unfolding x st'_def [symmetric] pto_fired_def by auto
qed

theorem pto_makes_progress_witness: "0 < rv_pto_probes (maybe_pto_expire 2000000 two_packets)"
proof -
  have e: "earliest_in_flight_time (rv_sent two_packets kApplication) = Some 5"
    using two_packets_rings(2) unfolding earliest_in_flight_time_def entries_def [symmetric]
    by (simp add: packet0_def packet3_def)
  have "pto max_ack_delay_us 0 rtt_init = 1024000" by code_simp
  then have "(of_nat 5 + pto max_ack_delay_us 0 rtt_init :: u64) \<le> of_nat 2000000" by simp
  then show ?thesis
    using pto_makes_progress [OF two_packets_ok, of 0 kApplication 2000000]
    by (simp add: e two_packets_rings two_packets_other unresolved_def packet0_def)
qed

text \<open>
  C32. When the connection becomes established the controller is zeroed and the Handshake space is
  discarded; this keeps the count of bytes in flight equal to the sizes of the packets in flight exactly when
  nothing of the Initial and 1-RTT spaces is in flight at that moment.
\<close>

theorem establish_accounting:
  assumes "ledger 0 0 st" "\<not> rv_discarded st kHandshake"
  shows "bytes_in_flight (rv_cc (establish st)) = 0 \<and> in_flight_bytes (rv_sent (establish st) kHandshake) = 0 \<and>
    (ledger 0 0 (establish st) \<longleftrightarrow>
      in_flight_bytes (rv_sent st kInitial) = 0 \<and> in_flight_bytes (rv_sent st kApplication) = 0)"
proof -
  have "recovery_ok st" using assms(1) recovery_ok_ledger by blast
  from establish_zeroes [OF this] assms(2) show ?thesis by (auto simp: ledger_def recovery_ok_def left_behind_def)
qed

theorem establish_accounting_witness:
  "ledger 0 0 two_packets \<and> bytes_in_flight (rv_cc (establish two_packets)) = 0 \<and>
   in_flight_bytes (rv_sent two_packets kApplication) = 2200 \<and> \<not> ledger 0 0 (establish two_packets)"
proof -
  have "in_flight_bytes (rv_sent two_packets kApplication) = 2200"
    by (simp add: in_flight_bytes_def two_packets_rings weight_def packet0_def packet3_def)
  then show ?thesis
    using establish_accounting [OF two_packets_ledger] by (simp add: two_packets_ledger two_packets_other)
qed

end
