(* ===== verification/Bolt_Bytes.thy ===== *)
theory Bolt_Bytes
  imports Bolt_Prelude
begin

text \<open>
  Byte buffers of the wire codecs: big-endian words of any width as the disjunction of their shifted
  bytes, the digits the writers store, string literals, stores into a caller's buffer, and the seven-bit groups of
  prefix integers.
\<close>

section \<open>Big-endian words\<close>

fun be_word :: "byte list \<Rightarrow> 'a::len word" where
  "be_word [] = 0"
| "be_word (b # bs) = push_bit (8 * length bs) (ucast b) OR be_word bs"

lemma unat_be_word:
  assumes "8 * length bs \<le> LENGTH('a::len)"
  shows "unat (be_word bs :: 'a word) = be_nat bs"
  using assms
proof (induction bs)
  case (Cons b bs)
  have s: "unat (push_bit (8 * length bs) (ucast b :: 'a word)) = unat b * 2 ^ (8 * length bs)"
    by (rule unat_byte_shift) (use Cons.prems in simp)
  have "be_nat bs < 2 ^ (8 * length bs)" using be_nat_less [of bs] by (simp add: power_mult)
  then have "unat (push_bit (8 * length bs) (ucast b :: 'a word) OR be_word bs) = unat b * 2 ^ (8 * length bs) + be_nat bs"
    using Cons s by (subst unat_or_disjoint [of "8 * length bs"]) simp_all
  then show ?case by (simp add: power_mult)
qed simp

text \<open>Reading back the big-endian digits of a word that is wide enough.\<close>

lemma be_word_be_bytes:
  fixes v :: "'a::len word"
  assumes "8 * n \<le> LENGTH('a)" "unat v < 256 ^ n"
  shows "be_word (be_bytes n (unat v)) = v"
  by (rule word_eq_of_unat) (simp add: unat_be_word assms be_nat_be_bytes)

text \<open>The digits the writers store are the big-endian bytes of the value.\<close>

lemma be_digits16: "[ucast (drop_bit 8 v AND 0xFF), ucast (v AND 0xFF)] = be_bytes 2 (unat (v::u16))"
  by (simp add: word_unat_eq_iff word_nat)

lemma be_digits24:
  "[ucast (drop_bit 16 v AND 0xFF), ucast (drop_bit 8 v AND 0xFF), ucast (v AND 0xFF)] = be_bytes 3 (unat (v::u32))"
  by (simp add: word_unat_eq_iff word_nat)

lemma be_digits32:
  "[ucast (drop_bit 24 v AND 0xFF), ucast (drop_bit 16 v AND 0xFF), ucast (drop_bit 8 v AND 0xFF), ucast (v AND 0xFF)] =
     be_bytes 4 (unat (v::u32))"
  by (simp add: word_unat_eq_iff word_nat)

lemma be_digits64:
  "[ucast (drop_bit 56 v AND 0xFF), ucast (drop_bit 48 v AND 0xFF), ucast (drop_bit 40 v AND 0xFF), ucast (drop_bit 32 v AND 0xFF),
    ucast (drop_bit 24 v AND 0xFF), ucast (drop_bit 16 v AND 0xFF), ucast (drop_bit 8 v AND 0xFF), ucast (v AND 0xFF)] =
     be_bytes 8 (unat (v::u64))"
  by (simp add: word_unat_eq_iff word_nat)

section \<open>String literals\<close>

definition bytes_of :: "string \<Rightarrow> byte list" where
  "bytes_of s = map (\<lambda>c. of_nat (of_char c)) s"

section \<open>Stores into a buffer\<close>

text \<open>\<^verbatim>\<open>memcpy(buf + off, src, n)\<close> on a buffer given as the list of its bytes.\<close>

definition put :: "nat \<Rightarrow> byte list \<Rightarrow> byte list \<Rightarrow> byte list" where
  "put off src buf = take off buf @ src @ drop (off + length src) buf"

lemma put_append: "length a = off \<Longrightarrow> put off src (a @ rest) = a @ src @ drop (length src) rest"
  by (simp add: put_def)

lemma length_put: "off + length src \<le> length buf \<Longrightarrow> length (put off src buf) = length buf"
  by (simp add: put_def)

lemma put_0: "put 0 src buf = src @ drop (length src) buf"
  by (simp add: put_def)

lemma put_two: "k + length a + length b \<le> length d \<Longrightarrow> put (k + length a) b (put k a d) = put k (a @ b) d"
  by (simp add: put_def ac_simps)

lemma put_before: "i + n \<le> k \<Longrightarrow> k \<le> length d \<Longrightarrow> take n (drop i (put k s d)) = take n (drop i d)"
proof -
  assume "i + n \<le> k" "k \<le> length d"
  then have "take n (drop i (take k d)) = take n (drop i d)" "i \<le> length (take k d)" "n \<le> length (drop i (take k d))"
    by (auto simp: drop_take)
  then show ?thesis by (simp add: put_def)
qed

text \<open>The low 31 bits of a stream identifier.\<close>

lemma and_31_mask: "(v :: u32) AND 0x7FFFFFFF = v \<longleftrightarrow> unat v < 2 ^ 31"
proof -
  have "unat (v AND 0x7FFFFFFF) = unat v mod 2 ^ 31" by (rule unat_and_low) simp
  then show ?thesis by (metis mod_eq_self_iff_div_eq_0 div_eq_0_iff word_eq_of_unat zero_neq_numeral power_eq_0_iff mod_less)
qed

section \<open>Seven-bit groups and flag bits\<close>

lemma unat_byte_7F: "unat ((b :: byte) AND 0x7F) = unat b mod 128"
  using unat_and_low [of "0x7F :: byte" 7 b] by simp

lemma byte_bit7: "(b :: byte) AND 0x80 = 0 \<longleftrightarrow> unat b < 128"
proof -
  have "b AND 0x80 = 0 \<longleftrightarrow> \<not> bit b 7" using and_exp_eq_0_iff_not_bit [of b 7] by simp
  also have "bit b 7 \<longleftrightarrow> bit (unat b) 7" by (simp add: bit_unsigned_iff)
  also have "bit (unat b) 7 \<longleftrightarrow> odd (unat b div 128)" by (simp add: bit_iff_odd)
  also have "odd (unat b div 128) \<longleftrightarrow> \<not> unat b < 128"
  proof (cases "unat b < 128")
    case False
    then have "unat b div 128 = 1" using byte_less_256 [of b] by (intro div_nat_eqI) simp_all
    then show ?thesis using False by simp
  qed simp
  finally show ?thesis by simp
qed

lemma continuation_byte:
  fixes v :: u64
  defines "b \<equiv> (ucast ((v AND 0x7F) OR 0x80) :: byte)"
  shows "unat (b AND 0x7F) = unat v mod 128" "b AND 0x80 \<noteq> 0"
proof -
  have m: "unat (v AND 0x7F) = unat v mod 128" using unat_and_low [of "0x7F :: u64" 7 v] by simp
  have "(v AND 0x7F) OR 0x80 = 0x80 OR (v AND 0x7F)" by (rule or.commute)
  then have "unat ((v AND 0x7F) OR 0x80) = 128 + unat v mod 128"
    using unat_or_disjoint [of 7 "0x80 :: u64" "v AND 0x7F"] m by simp
  then have u: "unat b = 128 + unat v mod 128" by (simp add: b_def unat_ucast_mod)
  then show "unat (b AND 0x7F) = unat v mod 128" by (simp add: unat_byte_7F)
  show "b AND 0x80 \<noteq> 0" using u by (simp add: byte_bit7)
qed

lemma unat_shifted:
  fixes b :: byte
  assumes "unat x + unat b * 128 ^ k < 2 ^ 64"
  shows "unat ((x :: u64) + push_bit (7 * k) (ucast b)) = unat x + unat b * 128 ^ k"
proof -
  have p: "(2 :: nat) ^ (7 * k) = 128 ^ k" by (simp add: power_mult)
  have "unat (push_bit (7 * k) (ucast b :: u64)) = unat b * 128 ^ k"
    using assms by (simp add: unat_push_bit_mod p)
  then show ?thesis using assms unat_add_small [of x "push_bit (7 * k) (ucast b :: u64)"] by simp
qed

lemma first_byte:
  fixes b0 m x :: byte
  assumes "x AND m = x"
  shows "((b0 AND NOT m) OR x) AND m = x" "((b0 AND NOT m) OR x) AND NOT m = b0 AND NOT m"
proof -
  have x: "bit x n \<Longrightarrow> bit m n" for n using arg_cong [OF assms, of "\<lambda>w. bit w n"] by (auto simp: bit_and_iff)
  show "((b0 AND NOT m) OR x) AND m = x" "((b0 AND NOT m) OR x) AND NOT m = b0 AND NOT m"
    by (auto intro!: bit_word_eqI simp: bit_simps dest: x)
qed

end
