(* ===== verification/Http2_Frame.thy ===== *)
theory Http2_Frame
  imports Bolt_Bytes
begin

text \<open>
  The HTTP/2 frame codec (\<^verbatim>\<open>include/boltapi/http/http2_frame.h\<close>, \<^verbatim>\<open>src/http/http2_frame.cpp\<close>): the
  header, the payload parsers, the writers that allocate a vector and the writers into a caller's buffer.
  A pointer with a length is the list of bytes it addresses (never null), a caller's buffer is the list
  of its \<^verbatim>\<open>capacity\<close> bytes, and a store through a pointer is \<open>put\<close>. Every parse error is
  \<^verbatim>\<open>internal_error\<close>, so results are options. Enumerations with a fixed underlying type can hold
  values without a name; \<^verbatim>\<open>ErrorCode\<close> and \<^verbatim>\<open>SettingsId\<close> are therefore words with named constants.
\<close>

section \<open>Types\<close>

datatype FrameType = DATA | HEADERS | PRIORITY | RST_STREAM | SETTINGS | PUSH_PROMISE | PING | GOAWAY
  | WINDOW_UPDATE | CONTINUATION | UnnamedFrame byte

fun frame_type_byte :: "FrameType \<Rightarrow> byte" where
  "frame_type_byte DATA = 0x0"
| "frame_type_byte HEADERS = 0x1"
| "frame_type_byte PRIORITY = 0x2"
| "frame_type_byte RST_STREAM = 0x3"
| "frame_type_byte SETTINGS = 0x4"
| "frame_type_byte PUSH_PROMISE = 0x5"
| "frame_type_byte PING = 0x6"
| "frame_type_byte GOAWAY = 0x7"
| "frame_type_byte WINDOW_UPDATE = 0x8"
| "frame_type_byte CONTINUATION = 0x9"
| "frame_type_byte (UnnamedFrame b) = b"

definition frame_type_of :: "byte \<Rightarrow> FrameType" where
  "frame_type_of b =
     (if b = 0 then DATA else if b = 1 then HEADERS else if b = 2 then PRIORITY else if b = 3 then RST_STREAM
      else if b = 4 then SETTINGS else if b = 5 then PUSH_PROMISE else if b = 6 then PING else if b = 7 then GOAWAY
      else if b = 8 then WINDOW_UPDATE else if b = 9 then CONTINUATION else UnnamedFrame b)"

definition DATA_END_STREAM :: byte where "DATA_END_STREAM = 0x1"
definition DATA_PADDED :: byte where "DATA_PADDED = 0x8"
definition HEADERS_END_STREAM :: byte where "HEADERS_END_STREAM = 0x1"
definition HEADERS_END_HEADERS :: byte where "HEADERS_END_HEADERS = 0x4"
definition HEADERS_PADDED :: byte where "HEADERS_PADDED = 0x8"
definition HEADERS_PRIORITY :: byte where "HEADERS_PRIORITY = 0x20"
definition SETTINGS_ACK :: byte where "SETTINGS_ACK = 0x1"
definition PING_ACK :: byte where "PING_ACK = 0x1"
definition PUSH_PROMISE_END_HEADERS :: byte where "PUSH_PROMISE_END_HEADERS = 0x4"
definition PUSH_PROMISE_PADDED :: byte where "PUSH_PROMISE_PADDED = 0x8"
definition CONTINUATION_END_HEADERS :: byte where "CONTINUATION_END_HEADERS = 0x4"

lemmas frame_flags = DATA_END_STREAM_def DATA_PADDED_def HEADERS_END_STREAM_def HEADERS_END_HEADERS_def
  HEADERS_PADDED_def HEADERS_PRIORITY_def SETTINGS_ACK_def PING_ACK_def PUSH_PROMISE_END_HEADERS_def
  PUSH_PROMISE_PADDED_def CONTINUATION_END_HEADERS_def

type_synonym ErrorCode = u32
type_synonym SettingsId = u16

record FrameHeader =
  fh_length :: u32
  fh_type :: FrameType
  fh_flags :: byte
  fh_stream_id :: u32

record PrioritySpec =
  exclusive :: bool
  stream_dependency :: u32
  ps_weight :: byte

record SettingsParameter =
  sp_id :: SettingsId
  sp_value :: u32

section \<open>Byte order\<close>

definition read_uint16 :: "byte list \<Rightarrow> u16" where
  "read_uint16 data = push_bit 8 (ucast (data ! 0)) OR ucast (data ! 1)"

definition read_uint24 :: "byte list \<Rightarrow> u32" where
  "read_uint24 data = push_bit 16 (ucast (data ! 0)) OR push_bit 8 (ucast (data ! 1)) OR ucast (data ! 2)"

definition read_uint32 :: "byte list \<Rightarrow> u32" where
  "read_uint32 data = push_bit 24 (ucast (data ! 0)) OR push_bit 16 (ucast (data ! 1)) OR
     push_bit 8 (ucast (data ! 2)) OR ucast (data ! 3)"

definition read_uint64 :: "byte list \<Rightarrow> u64" where
  "read_uint64 data = push_bit 56 (ucast (data ! 0)) OR push_bit 48 (ucast (data ! 1)) OR
     push_bit 40 (ucast (data ! 2)) OR push_bit 32 (ucast (data ! 3)) OR push_bit 24 (ucast (data ! 4)) OR
     push_bit 16 (ucast (data ! 5)) OR push_bit 8 (ucast (data ! 6)) OR ucast (data ! 7)"

definition write_uint16 :: "u16 \<Rightarrow> byte list" where
  "write_uint16 value = [ucast (drop_bit 8 value AND 0xff), ucast (value AND 0xff)]"

definition write_uint24 :: "u32 \<Rightarrow> byte list" where
  "write_uint24 value = [ucast (drop_bit 16 value AND 0xff), ucast (drop_bit 8 value AND 0xff), ucast (value AND 0xff)]"

definition write_uint32 :: "u32 \<Rightarrow> byte list" where
  "write_uint32 value = [ucast (drop_bit 24 value AND 0xff), ucast (drop_bit 16 value AND 0xff),
     ucast (drop_bit 8 value AND 0xff), ucast (value AND 0xff)]"

definition write_uint64 :: "u64 \<Rightarrow> byte list" where
  "write_uint64 value = [ucast (drop_bit 56 value AND 0xff), ucast (drop_bit 48 value AND 0xff),
     ucast (drop_bit 40 value AND 0xff), ucast (drop_bit 32 value AND 0xff), ucast (drop_bit 24 value AND 0xff),
     ucast (drop_bit 16 value AND 0xff), ucast (drop_bit 8 value AND 0xff), ucast (value AND 0xff)]"

section \<open>Parsing\<close>

definition parse_frame_header :: "byte list \<Rightarrow> FrameHeader option" where
  "parse_frame_header data = Some
     \<lparr>fh_length = read_uint24 data, fh_type = frame_type_of (data ! 3), fh_flags = data ! 4,
      fh_stream_id = read_uint32 (drop 5 data) AND 0x7FFFFFFF\<rparr>"

definition parse_data_frame :: "FrameHeader \<Rightarrow> byte list \<Rightarrow> byte list option" where
  "parse_data_frame header payload =
     (let payload_len = length payload
      in if unat (fh_length header) \<noteq> payload_len then None
         else if fh_flags header AND DATA_PADDED \<noteq> 0 then
           (if payload_len < 1 then None
            else
              let pad_length = unat (payload ! 0)
              in if pad_length \<ge> payload_len then None
                 else Some (take (payload_len - 1 - pad_length) (drop 1 payload)))
         else Some (take (payload_len - 0 - 0) (drop 0 payload)))"

definition parse_headers_frame :: "FrameHeader \<Rightarrow> byte list \<Rightarrow> (PrioritySpec option \<times> byte list) option" where
  "parse_headers_frame header payload =
     (let payload_len = length payload;
          padded = (fh_flags header AND HEADERS_PADDED \<noteq> 0);
          prio = (fh_flags header AND HEADERS_PRIORITY \<noteq> 0)
      in if unat (fh_length header) \<noteq> payload_len then None
         else if padded \<and> payload_len < 1 then None
         else
           let pad_length = (if padded then unat (payload ! 0) else 0);
               offset = (if padded then 1 else 0)
           in if prio \<and> payload_len < offset + 5 then None
              else
                let stream_dep = read_uint32 (drop offset payload);
                    spec = (if prio then Some \<lparr>exclusive = (drop_bit 31 stream_dep AND 0x1 \<noteq> 0),
                              stream_dependency = stream_dep AND 0x7FFFFFFF, ps_weight = payload ! (offset + 4)\<rparr>
                            else None);
                    offset = (if prio then offset + 5 else offset)
                in if offset + pad_length > payload_len then None
                   else Some (spec, take (payload_len - offset - pad_length) (drop offset payload)))"

definition parse_priority_frame :: "byte list \<Rightarrow> PrioritySpec option" where
  "parse_priority_frame payload =
     (if length payload \<noteq> 5 then None
      else
        let stream_dep = read_uint32 payload
        in Some \<lparr>exclusive = (drop_bit 31 stream_dep AND 0x1 \<noteq> 0),
             stream_dependency = stream_dep AND 0x7FFFFFFF, ps_weight = payload ! 4\<rparr>)"

definition parse_rst_stream_frame :: "byte list \<Rightarrow> ErrorCode option" where
  "parse_rst_stream_frame payload = (if length payload \<noteq> 4 then None else Some (read_uint32 payload))"

definition parse_settings_frame :: "FrameHeader \<Rightarrow> byte list \<Rightarrow> SettingsParameter list option" where
  "parse_settings_frame header payload =
     (if fh_flags header AND SETTINGS_ACK \<noteq> 0 then (if length payload \<noteq> 0 then None else Some [])
      else if length payload mod 6 \<noteq> 0 then None
      else Some (map (\<lambda>i. let param_data = drop (i * 6) payload
                          in \<lparr>sp_id = read_uint16 param_data, sp_value = read_uint32 (drop 2 param_data)\<rparr>)
                   [0..<length payload div 6]))"

definition parse_ping_frame :: "byte list \<Rightarrow> u64 option" where
  "parse_ping_frame payload = (if length payload \<noteq> 8 then None else Some (read_uint64 payload))"

text \<open>The debug string is assigned only when there are bytes for it; otherwise the caller's value stays.\<close>

definition parse_goaway_frame :: "byte list \<Rightarrow> byte list \<Rightarrow> (u32 \<times> ErrorCode \<times> byte list) option" where
  "parse_goaway_frame payload debug_data =
     (if length payload < 8 then None
      else Some (read_uint32 payload AND 0x7FFFFFFF, read_uint32 (drop 4 payload),
                 if length payload > 8 then drop 8 payload else debug_data))"

definition parse_window_update_frame :: "byte list \<Rightarrow> u32 option" where
  "parse_window_update_frame payload =
     (if length payload \<noteq> 4 then None
      else
        let increment = read_uint32 payload AND 0x7FFFFFFF
        in if increment = 0 then None else Some increment)"

definition parse_push_promise_frame :: "FrameHeader \<Rightarrow> byte list \<Rightarrow> (u32 \<times> byte list) option" where
  "parse_push_promise_frame header payload =
     (let payload_len = length payload;
          padded = (fh_flags header AND PUSH_PROMISE_PADDED \<noteq> 0)
      in if unat (fh_length header) \<noteq> payload_len then None
         else if padded \<and> payload_len < 1 then None
         else
           let pad_length = (if padded then unat (payload ! 0) else 0);
               offset = (if padded then 1 else 0)
           in if payload_len < offset + 4 then None
              else
                let promised = read_uint32 (drop offset payload) AND 0x7FFFFFFF;
                    offset = offset + 4
                in if offset + pad_length > payload_len then None
                   else Some (promised, take (payload_len - offset - pad_length) (drop offset payload)))"

section \<open>Writing\<close>

definition write_frame_header :: "FrameHeader \<Rightarrow> byte list \<Rightarrow> byte list" where
  "write_frame_header header out =
     (let out = put 0 (write_uint24 (fh_length header)) out;
          out = put 3 [frame_type_byte (fh_type header)] out;
          out = put 4 [fh_flags header] out
      in put 5 (write_uint32 (fh_stream_id header AND 0x7FFFFFFF)) out)"

definition frame_header :: "u32 \<Rightarrow> FrameType \<Rightarrow> byte \<Rightarrow> u32 \<Rightarrow> FrameHeader" where
  "frame_header len t f sid = \<lparr>fh_length = len, fh_type = t, fh_flags = f, fh_stream_id = sid\<rparr>"

definition write_data_frame :: "u32 \<Rightarrow> byte list \<Rightarrow> bool \<Rightarrow> byte list" where
  "write_data_frame stream_id data end_stream =
     (let len = of_nat (length data) :: u32;
          flags = (if end_stream then DATA_END_STREAM else 0);
          frame = replicate (unat (9 + len)) 0;
          frame = write_frame_header (frame_header len DATA flags stream_id) frame
      in put 9 data frame)"

definition headers_flags :: "bool \<Rightarrow> bool \<Rightarrow> bool \<Rightarrow> byte" where
  "headers_flags end_stream end_headers has_priority =
     (let flags = 0;
          flags = (if end_stream then flags OR HEADERS_END_STREAM else flags);
          flags = (if end_headers then flags OR HEADERS_END_HEADERS else flags)
      in if has_priority then flags OR HEADERS_PRIORITY else flags)"

definition write_priority :: "PrioritySpec \<Rightarrow> nat \<Rightarrow> byte list \<Rightarrow> byte list" where
  "write_priority priority offset frame =
     (let stream_dep = stream_dependency priority;
          stream_dep = (if exclusive priority then stream_dep OR 0x80000000 else stream_dep);
          frame = put offset (write_uint32 stream_dep) frame
      in put (offset + 4) [ps_weight priority] frame)"

definition write_headers_frame :: "u32 \<Rightarrow> byte list \<Rightarrow> bool \<Rightarrow> bool \<Rightarrow> PrioritySpec option \<Rightarrow> byte list" where
  "write_headers_frame stream_id header_block end_stream end_headers priority =
     (let priority_size = (if priority \<noteq> None then 5 else 0);
          len = of_nat (priority_size + length header_block) :: u32;
          flags = headers_flags end_stream end_headers (priority \<noteq> None);
          frame = replicate (unat (9 + len)) 0;
          frame = write_frame_header (frame_header len HEADERS flags stream_id) frame;
          (offset, frame) = (case priority of None \<Rightarrow> (9, frame) | Some p \<Rightarrow> (14, write_priority p 9 frame))
      in put offset header_block frame)"

definition write_params :: "SettingsParameter list \<Rightarrow> byte list \<Rightarrow> byte list" where
  "write_params params frame =
     fold (\<lambda>i frame. let frame = put (9 + i * 6) (write_uint16 (sp_id (params ! i))) frame
                     in put (9 + i * 6 + 2) (write_uint32 (sp_value (params ! i))) frame)
       [0..<length params] frame"

definition write_settings_frame :: "SettingsParameter list \<Rightarrow> bool \<Rightarrow> byte list" where
  "write_settings_frame params ack =
     (if ack then write_frame_header (frame_header 0 SETTINGS SETTINGS_ACK 0) (replicate 9 0)
      else
        let len = of_nat (length params * 6) :: u32;
            frame = replicate (unat (9 + len)) 0;
            frame = write_frame_header (frame_header len SETTINGS 0 0) frame
        in write_params params frame)"

definition write_settings_ack :: "byte list" where
  "write_settings_ack = write_settings_frame [] True"

definition write_window_update_frame :: "u32 \<Rightarrow> u32 \<Rightarrow> byte list" where
  "write_window_update_frame stream_id increment =
     (let frame = replicate (9 + 4) 0;
          frame = write_frame_header (frame_header 4 WINDOW_UPDATE 0 stream_id) frame
      in put 9 (write_uint32 (increment AND 0x7FFFFFFF)) frame)"

definition write_ping_frame :: "u64 \<Rightarrow> bool \<Rightarrow> byte list" where
  "write_ping_frame opaque_data ack =
     (let frame = replicate (9 + 8) 0;
          flags = (if ack then PING_ACK else 0);
          frame = write_frame_header (frame_header 8 PING flags 0) frame
      in put 9 (write_uint64 opaque_data) frame)"

definition write_goaway_frame :: "u32 \<Rightarrow> ErrorCode \<Rightarrow> byte list \<Rightarrow> byte list" where
  "write_goaway_frame last_stream_id error_code debug_data =
     (let len = 8 + of_nat (length debug_data) :: u32;
          frame = replicate (unat (9 + len)) 0;
          frame = write_frame_header (frame_header len GOAWAY 0 0) frame;
          frame = put 9 (write_uint32 (last_stream_id AND 0x7FFFFFFF)) frame;
          frame = put 13 (write_uint32 error_code) frame
      in if debug_data \<noteq> [] then put 17 debug_data frame else frame)"

definition write_rst_stream_frame :: "u32 \<Rightarrow> ErrorCode \<Rightarrow> byte list" where
  "write_rst_stream_frame stream_id error_code =
     (let frame = replicate (9 + 4) 0;
          frame = write_frame_header (frame_header 4 RST_STREAM 0 stream_id) frame
      in put 9 (write_uint32 error_code) frame)"

section \<open>Writing into a caller's buffer\<close>

text \<open>The number of bytes written (0 when the capacity is too small) and the buffer after the call.\<close>

definition write_data_frame_to :: "byte list \<Rightarrow> u32 \<Rightarrow> byte list \<Rightarrow> bool \<Rightarrow> nat \<times> byte list" where
  "write_data_frame_to buf stream_id data end_stream =
     (let frame_size = 9 + length data
      in if length buf < frame_size then (0, buf)
         else
           let flags = (if end_stream then DATA_END_STREAM else 0);
               buf = write_frame_header (frame_header (of_nat (length data)) DATA flags stream_id) buf;
               buf = (if length data > 0 then put 9 data buf else buf)
           in (frame_size, buf))"

definition write_headers_frame_to ::
    "byte list \<Rightarrow> u32 \<Rightarrow> byte list \<Rightarrow> bool \<Rightarrow> bool \<Rightarrow> PrioritySpec option \<Rightarrow> nat \<times> byte list" where
  "write_headers_frame_to buf stream_id header_block end_stream end_headers priority =
     (let priority_size = (if priority \<noteq> None then 5 else 0);
          payload_len = priority_size + length header_block;
          frame_size = 9 + payload_len
      in if length buf < frame_size then (0, buf)
         else
           let flags = headers_flags end_stream end_headers (priority \<noteq> None);
               buf = write_frame_header (frame_header (of_nat payload_len) HEADERS flags stream_id) buf;
               (offset, buf) = (case priority of None \<Rightarrow> (9, buf) | Some p \<Rightarrow> (14, write_priority p 9 buf));
               buf = (if length header_block > 0 then put offset header_block buf else buf)
           in (frame_size, buf))"

definition write_settings_frame_to :: "byte list \<Rightarrow> SettingsParameter list \<Rightarrow> bool \<Rightarrow> nat \<times> byte list" where
  "write_settings_frame_to buf params ack =
     (if ack then
        (if length buf < 9 then (0, buf)
         else (9, write_frame_header (frame_header 0 SETTINGS SETTINGS_ACK 0) buf))
      else
        let payload_len = length params * 6; frame_size = 9 + payload_len
        in if length buf < frame_size then (0, buf)
           else (frame_size, write_params params
                  (write_frame_header (frame_header (of_nat payload_len) SETTINGS 0 0) buf)))"

definition write_settings_ack_to :: "byte list \<Rightarrow> nat \<times> byte list" where
  "write_settings_ack_to buf = write_settings_frame_to buf [] True"

definition write_window_update_frame_to :: "byte list \<Rightarrow> u32 \<Rightarrow> u32 \<Rightarrow> nat \<times> byte list" where
  "write_window_update_frame_to buf stream_id increment =
     (if length buf < 9 + 4 then (0, buf)
      else (9 + 4, put 9 (write_uint32 (increment AND 0x7FFFFFFF))
             (write_frame_header (frame_header 4 WINDOW_UPDATE 0 stream_id) buf)))"

definition write_ping_frame_to :: "byte list \<Rightarrow> u64 \<Rightarrow> bool \<Rightarrow> nat \<times> byte list" where
  "write_ping_frame_to buf opaque_data ack =
     (if length buf < 9 + 8 then (0, buf)
      else
        let flags = (if ack then PING_ACK else 0)
        in (9 + 8, put 9 (write_uint64 opaque_data) (write_frame_header (frame_header 8 PING flags 0) buf)))"

definition write_goaway_frame_to :: "byte list \<Rightarrow> u32 \<Rightarrow> ErrorCode \<Rightarrow> byte list \<Rightarrow> nat \<times> byte list" where
  "write_goaway_frame_to buf last_stream_id error_code debug_data =
     (let payload_len = 8 + length debug_data; frame_size = 9 + payload_len
      in if length buf < frame_size then (0, buf)
         else
           let buf = write_frame_header (frame_header (of_nat payload_len) GOAWAY 0 0) buf;
               buf = put 9 (write_uint32 (last_stream_id AND 0x7FFFFFFF)) buf;
               buf = put 13 (write_uint32 error_code) buf;
               buf = (if length debug_data > 0 then put 17 debug_data buf else buf)
           in (frame_size, buf))"

definition write_rst_stream_frame_to :: "byte list \<Rightarrow> u32 \<Rightarrow> ErrorCode \<Rightarrow> nat \<times> byte list" where
  "write_rst_stream_frame_to buf stream_id error_code =
     (if length buf < 9 + 4 then (0, buf)
      else (9 + 4, put 9 (write_uint32 error_code) (write_frame_header (frame_header 4 RST_STREAM 0 stream_id) buf)))"

definition write_push_promise_frame_to :: "byte list \<Rightarrow> u32 \<Rightarrow> u32 \<Rightarrow> byte list \<Rightarrow> bool \<Rightarrow> nat \<times> byte list" where
  "write_push_promise_frame_to buf stream_id promised_stream_id header_block end_headers =
     (let payload_len = 4 + length header_block; frame_size = 9 + payload_len
      in if length buf < frame_size then (0, buf)
         else
           let flags = (if end_headers then PUSH_PROMISE_END_HEADERS else 0);
               buf = write_frame_header (frame_header (of_nat payload_len) PUSH_PROMISE flags stream_id) buf;
               buf = put 9 (write_uint32 (promised_stream_id AND 0x7FFFFFFF)) buf;
               buf = (if length header_block > 0 then put 13 header_block buf else buf)
           in (frame_size, buf))"

definition write_continuation_frame_to :: "byte list \<Rightarrow> u32 \<Rightarrow> byte list \<Rightarrow> bool \<Rightarrow> nat \<times> byte list" where
  "write_continuation_frame_to buf stream_id header_block end_headers =
     (let frame_size = 9 + length header_block
      in if length buf < frame_size then (0, buf)
         else
           let flags = (if end_headers then CONTINUATION_END_HEADERS else 0);
               buf = write_frame_header (frame_header (of_nat (length header_block)) CONTINUATION flags stream_id) buf;
               buf = (if length header_block > 0 then put 9 header_block buf else buf)
           in (frame_size, buf))"

section \<open>Byte order round trips\<close>

lemma length_write_uint [simp]:
  "length (write_uint16 a) = 2" "length (write_uint24 b) = 3" "length (write_uint32 b) = 4" "length (write_uint64 c) = 8"
  by (simp_all add: write_uint16_def write_uint24_def write_uint32_def write_uint64_def)

lemma read_uint_be_word:
  "read_uint16 data = be_word [data ! 0, data ! 1]"
  "read_uint24 data = be_word [data ! 0, data ! 1, data ! 2]"
  "read_uint32 data = be_word [data ! 0, data ! 1, data ! 2, data ! 3]"
  "read_uint64 data = be_word [data ! 0, data ! 1, data ! 2, data ! 3, data ! 4, data ! 5, data ! 6, data ! 7]"
  by (simp_all add: read_uint16_def read_uint24_def read_uint32_def read_uint64_def or.assoc)

lemma firsts:
  "length bs = 2 \<Longrightarrow> [(bs @ r) ! 0, (bs @ r) ! 1] = bs"
  "length bs = 3 \<Longrightarrow> [(bs @ r) ! 0, (bs @ r) ! 1, (bs @ r) ! 2] = bs"
  "length bs = 4 \<Longrightarrow> [(bs @ r) ! 0, (bs @ r) ! 1, (bs @ r) ! 2, (bs @ r) ! 3] = bs"
  "length bs = 8 \<Longrightarrow> [(bs @ r) ! 0, (bs @ r) ! 1, (bs @ r) ! 2, (bs @ r) ! 3, (bs @ r) ! 4, (bs @ r) ! 5, (bs @ r) ! 6, (bs @ r) ! 7] = bs"
  by (auto simp: numeral_eq_Suc length_Suc_conv)

lemma write_uint_be_bytes:
  "write_uint16 a = be_bytes 2 (unat a)" "write_uint24 b = be_bytes 3 (unat b)"
  "write_uint32 b = be_bytes 4 (unat b)" "write_uint64 c = be_bytes 8 (unat c)"
  by (simp_all only: write_uint16_def be_digits16, simp_all only: write_uint24_def be_digits24,
      simp_all only: write_uint32_def be_digits32, simp only: write_uint64_def be_digits64)

lemma read_write_uint [codec_simps]:
  "read_uint16 (write_uint16 a @ r) = a"
  "unat b < 2 ^ 24 \<Longrightarrow> read_uint24 (write_uint24 b @ r) = b"
  "read_uint32 (write_uint32 c @ r) = c"
  "read_uint64 (write_uint64 d @ r) = d"
  using u16_less [of a] u32_less [of c] u64_less [of d]
  by (simp_all only: read_uint_be_word firsts length_write_uint)
    (simp_all add: write_uint_be_bytes be_word_be_bytes del: be_bytes_numeral)

lemma read_write_uint_Nil [codec_simps]:
  "read_uint32 (write_uint32 c) = c" "read_uint64 (write_uint64 d) = d"
  using read_write_uint(3) [of c "[]"] read_write_uint(4) [of d "[]"] by simp_all

lemma frame_type_roundtrip: "frame_type_byte (frame_type_of b) = b"
  by (simp add: frame_type_of_def)

text \<open>The nine header bytes, and the frame as the writers leave it.\<close>

definition header_bytes :: "FrameHeader \<Rightarrow> byte list" where
  "header_bytes h = write_uint24 (fh_length h) @ [frame_type_byte (fh_type h), fh_flags h] @
     write_uint32 (fh_stream_id h AND 0x7FFFFFFF)"

lemma length_header_bytes [simp]: "length (header_bytes h) = 9"
  by (simp add: header_bytes_def)

lemma write_frame_header_bytes: "9 \<le> length buf \<Longrightarrow> write_frame_header h buf = header_bytes h @ drop 9 buf"
  by (simp add: write_frame_header_def header_bytes_def put_0 put_def)

lemma put_after_header: "put 9 src (header_bytes h @ rest) = header_bytes h @ src @ drop (length src) rest"
  by (rule put_append) simp

lemma parse_header_bytes:
  assumes "unat (fh_length h) < 2 ^ 24" "unat (fh_stream_id h) < 2 ^ 31" "frame_type_of (frame_type_byte (fh_type h)) = fh_type h"
  shows "parse_frame_header (header_bytes h @ rest) = Some h"
proof -
  have "fh_stream_id h AND 0x7FFFFFFF = fh_stream_id h" using assms(2) by (simp only: and_31_mask)
  moreover have "drop 5 (header_bytes h @ rest) = write_uint32 (fh_stream_id h AND 0x7FFFFFFF) @ rest"
    by (simp add: header_bytes_def)
  ultimately show ?thesis
    using assms by (cases h) (simp add: parse_frame_header_def header_bytes_def nth_append codec_simps)
qed

section \<open>Frames as header and payload\<close>

text \<open>
  What a writer leaves in a buffer that has room: the frame, then the rest of the buffer untouched;
  without room it reports 0 and touches nothing.
\<close>

definition stores :: "byte list \<Rightarrow> byte list \<Rightarrow> nat \<times> byte list" where
  "stores buf frame = (if length buf < length frame then (0, buf) else (length frame, frame @ drop (length frame) buf))"

definition priority_bytes :: "PrioritySpec \<Rightarrow> byte list" where
  "priority_bytes p = write_uint32 (if exclusive p then stream_dependency p OR 0x80000000 else stream_dependency p) @ [ps_weight p]"

definition param_bytes :: "SettingsParameter \<Rightarrow> byte list" where
  "param_bytes p = write_uint16 (sp_id p) @ write_uint32 (sp_value p)"

lemma length_param_bytes [simp]: "length (param_bytes p) = 6" "length (priority_bytes q) = 5"
  by (simp_all add: param_bytes_def priority_bytes_def)

lemma length_params: "length (concat (map param_bytes ps)) = 6 * length ps"
  by (induction ps) simp_all

lemma write_priority_bytes:
  "5 \<le> length rest \<Longrightarrow> write_priority p 9 (header_bytes h @ rest) = header_bytes h @ priority_bytes p @ drop 5 rest"
  by (simp add: write_priority_def priority_bytes_def put_after_header put_def Let_def numeral_eq_Suc)

lemma write_params_prefix:
  assumes "length h = 9" "n \<le> length ps" "6 * length ps \<le> length rest"
  shows "fold (\<lambda>i frame. put (9 + i * 6 + 2) (write_uint32 (sp_value (ps ! i))) (put (9 + i * 6) (write_uint16 (sp_id (ps ! i))) frame))
      [0..<n] (h @ rest) = h @ concat (map param_bytes (take n ps)) @ drop (6 * n) rest"
  using assms(2)
proof (induction n)
  case (Suc n)
  define a where "a = h @ concat (map param_bytes (take n ps))"
  have a: "length a = 9 + n * 6" using assms Suc.prems by (simp add: a_def length_params)
  have "put (9 + n * 6 + 2) (write_uint32 v) (put (9 + n * 6) (write_uint16 i) (a @ drop (6 * n) rest)) =
      a @ write_uint16 i @ write_uint32 v @ drop (6 * Suc n) rest" for i v
    using put_append [OF a, of "write_uint16 i"] put_append [of "a @ write_uint16 i" "9 + n * 6 + 2" "write_uint32 v"] a
    by (simp add: algebra_simps)
  then show ?case
    using Suc by (simp add: take_Suc_conv_app_nth param_bytes_def [of "ps ! n"] a_def)
qed simp

lemma write_params_bytes:
  assumes "6 * length ps \<le> length rest"
  shows "write_params ps (header_bytes h @ rest) = header_bytes h @ concat (map param_bytes ps) @ drop (6 * length ps) rest"
  using write_params_prefix [of "header_bytes h" "length ps" ps rest] assms by (simp add: write_params_def)

lemma frame_size: "n < 2 ^ 24 \<Longrightarrow> unat (9 + of_nat n :: u32) = 9 + n"
  by (simp add: unat_word_ariths unat_of_nat)

lemma vector_frames:
  "length data < 2 ^ 24 \<Longrightarrow> write_data_frame sid data es =
     header_bytes (frame_header (of_nat (length data)) DATA (if es then DATA_END_STREAM else 0) sid) @ data"
  "length block + 5 < 2 ^ 24 \<Longrightarrow> write_headers_frame sid block es eh None =
     header_bytes (frame_header (of_nat (length block)) HEADERS (headers_flags es eh False) sid) @ block"
  "length block + 5 < 2 ^ 24 \<Longrightarrow> write_headers_frame sid block es eh (Some p) =
     header_bytes (frame_header (of_nat (5 + length block)) HEADERS (headers_flags es eh True) sid) @ priority_bytes p @ block"
  "write_settings_frame ps True = header_bytes (frame_header 0 SETTINGS SETTINGS_ACK 0)"
  "6 * length ps < 2 ^ 24 \<Longrightarrow> write_settings_frame ps False =
     header_bytes (frame_header (of_nat (length ps * 6)) SETTINGS 0 0) @ concat (map param_bytes ps)"
  "write_window_update_frame sid inc = header_bytes (frame_header 4 WINDOW_UPDATE 0 sid) @ write_uint32 (inc AND 0x7FFFFFFF)"
  "write_ping_frame v ack = header_bytes (frame_header 8 PING (if ack then PING_ACK else 0) 0) @ write_uint64 v"
  "length dbg + 8 < 2 ^ 24 \<Longrightarrow> write_goaway_frame lsid e dbg =
     header_bytes (frame_header (of_nat (8 + length dbg)) GOAWAY 0 0) @ write_uint32 (lsid AND 0x7FFFFFFF) @ write_uint32 e @ dbg"
  "write_rst_stream_frame sid e = header_bytes (frame_header 4 RST_STREAM 0 sid) @ write_uint32 e"
proof -
  show "length data < 2 ^ 24 \<Longrightarrow> write_data_frame sid data es =
     header_bytes (frame_header (of_nat (length data)) DATA (if es then DATA_END_STREAM else 0) sid) @ data"
    by (simp add: write_data_frame_def Let_def frame_size write_frame_header_bytes put_after_header)
  show "length block + 5 < 2 ^ 24 \<Longrightarrow> write_headers_frame sid block es eh None =
     header_bytes (frame_header (of_nat (length block)) HEADERS (headers_flags es eh False) sid) @ block"
    by (simp add: write_headers_frame_def Let_def frame_size write_frame_header_bytes put_after_header)
  show "length block + 5 < 2 ^ 24 \<Longrightarrow> write_headers_frame sid block es eh (Some p) =
     header_bytes (frame_header (of_nat (5 + length block)) HEADERS (headers_flags es eh True) sid) @ priority_bytes p @ block"
    using frame_size [of "5 + length block"] put_append [of "header_bytes h @ priority_bytes p" 14 block for h]
    by (simp add: write_headers_frame_def Let_def write_frame_header_bytes write_priority_bytes)
  show "write_settings_frame ps True = header_bytes (frame_header 0 SETTINGS SETTINGS_ACK 0)"
    by (simp add: write_settings_frame_def write_frame_header_bytes)
  show "6 * length ps < 2 ^ 24 \<Longrightarrow> write_settings_frame ps False =
     header_bytes (frame_header (of_nat (length ps * 6)) SETTINGS 0 0) @ concat (map param_bytes ps)"
    using frame_size [of "length ps * 6"]
    by (simp add: write_settings_frame_def Let_def write_frame_header_bytes write_params_bytes)
  show "write_window_update_frame sid inc = header_bytes (frame_header 4 WINDOW_UPDATE 0 sid) @ write_uint32 (inc AND 0x7FFFFFFF)"
    by (simp add: write_window_update_frame_def Let_def write_frame_header_bytes put_after_header)
  show "write_ping_frame v ack = header_bytes (frame_header 8 PING (if ack then PING_ACK else 0) 0) @ write_uint64 v"
    by (simp add: write_ping_frame_def Let_def write_frame_header_bytes put_after_header)
  show "length dbg + 8 < 2 ^ 24 \<Longrightarrow> write_goaway_frame lsid e dbg =
     header_bytes (frame_header (of_nat (8 + length dbg)) GOAWAY 0 0) @ write_uint32 (lsid AND 0x7FFFFFFF) @ write_uint32 e @ dbg"
    using frame_size [of "8 + length dbg"] put_append [of "header_bytes h @ write_uint32 a" 13 for h a]
      put_append [of "header_bytes h @ write_uint32 a @ write_uint32 b" 17 dbg for h a b]
    by (simp add: write_goaway_frame_def Let_def write_frame_header_bytes put_after_header)
  show "write_rst_stream_frame sid e = header_bytes (frame_header 4 RST_STREAM 0 sid) @ write_uint32 e"
    by (simp add: write_rst_stream_frame_def Let_def write_frame_header_bytes put_after_header)
qed

section \<open>Properties\<close>

text \<open>
  C36. The zero-allocation writers are equivalent to the allocating ones: given room they store exactly
  the vector the allocating writer returns, leave the rest of the buffer as it was and report its length;
  without room they report 0 and store nothing.
\<close>

theorem h2_buffer_writers_equivalent:
  assumes "length data < 2 ^ 24" "length block + 5 < 2 ^ 24" "6 * length ps < 2 ^ 24" "length dbg + 8 < 2 ^ 24"
  shows "write_data_frame_to buf sid data es = stores buf (write_data_frame sid data es) \<and>
    write_headers_frame_to buf sid block es eh prio = stores buf (write_headers_frame sid block es eh prio) \<and>
    write_settings_frame_to buf ps ack = stores buf (write_settings_frame ps ack) \<and>
    write_settings_ack_to buf = stores buf write_settings_ack \<and>
    write_window_update_frame_to buf sid inc = stores buf (write_window_update_frame sid inc) \<and>
    write_ping_frame_to buf v ack = stores buf (write_ping_frame v ack) \<and>
    write_goaway_frame_to buf sid e dbg = stores buf (write_goaway_frame sid e dbg) \<and>
    write_rst_stream_frame_to buf sid e = stores buf (write_rst_stream_frame sid e)"
proof (intro conjI)
  show "write_data_frame_to buf sid data es = stores buf (write_data_frame sid data es)"
    using assms by (simp add: vector_frames stores_def write_data_frame_to_def Let_def write_frame_header_bytes put_after_header add.commute)
  show "write_headers_frame_to buf sid block es eh prio = stores buf (write_headers_frame sid block es eh prio)"
  proof (cases prio)
    case None
    then show ?thesis
      using assms by (simp add: vector_frames stores_def write_headers_frame_to_def Let_def write_frame_header_bytes put_after_header add.commute)
  next
    case (Some p)
    have "put 14 block (header_bytes h @ priority_bytes p @ r) = header_bytes h @ priority_bytes p @ block @ drop (length block) r" for h r
      using put_append [of "header_bytes h @ priority_bytes p" 14 block r] by simp
    then show ?thesis
      using assms by (simp add: Some vector_frames stores_def write_headers_frame_to_def Let_def write_frame_header_bytes
          write_priority_bytes algebra_simps)
  qed
  show "write_settings_frame_to buf ps ack = stores buf (write_settings_frame ps ack)"
    using assms by (cases ack) (simp_all add: vector_frames stores_def write_settings_frame_to_def Let_def write_frame_header_bytes
        write_params_bytes length_params add.commute mult.commute)
  show "write_settings_ack_to buf = stores buf write_settings_ack"
    by (simp add: write_settings_ack_to_def write_settings_ack_def vector_frames stores_def write_settings_frame_to_def write_frame_header_bytes)
  show "write_window_update_frame_to buf sid inc = stores buf (write_window_update_frame sid inc)"
    by (simp add: vector_frames stores_def write_window_update_frame_to_def write_frame_header_bytes put_after_header add.commute)
  show "write_ping_frame_to buf v ack = stores buf (write_ping_frame v ack)"
    by (simp add: vector_frames stores_def write_ping_frame_to_def write_frame_header_bytes put_after_header add.commute)
  have "put 13 (write_uint32 b) (header_bytes h @ write_uint32 a @ r) = header_bytes h @ write_uint32 a @ write_uint32 b @ drop 4 r"
    "put 17 dbg (header_bytes h @ write_uint32 a @ write_uint32 b @ r) = header_bytes h @ write_uint32 a @ write_uint32 b @ dbg @ drop (length dbg) r"
    for h a b r
    using put_append [of "header_bytes h @ write_uint32 a" 13 "write_uint32 b" r]
      put_append [of "header_bytes h @ write_uint32 a @ write_uint32 b" 17 dbg r] by simp_all
  then show "write_goaway_frame_to buf sid e dbg = stores buf (write_goaway_frame sid e dbg)"
    using assms by (simp add: vector_frames stores_def write_goaway_frame_to_def Let_def write_frame_header_bytes put_after_header algebra_simps)
  show "write_rst_stream_frame_to buf sid e = stores buf (write_rst_stream_frame sid e)"
    by (simp add: vector_frames stores_def write_rst_stream_frame_to_def write_frame_header_bytes put_after_header add.commute)
qed

theorem h2_buffer_writers_equivalent_witness:
  "write_goaway_frame_to (replicate 20 1) 5 2 [7] = stores (replicate 20 1) (write_goaway_frame 5 2 [7]) \<and>
   write_goaway_frame_to (replicate 20 1) 5 2 [7] =
     (18, [0, 0, 9, 7, 0, 0, 0, 0, 0, 0, 0, 0, 5, 0, 0, 0, 2, 7, 1, 1])"
  using h2_buffer_writers_equivalent [of "[]" "[]" "[]" "[7]" "replicate 20 1" 5 False False None False 1 0 2]
  by (auto simp del: replicate.simps) code_simp

lemma stream_dep_roundtrip:
  assumes "unat d < 2 ^ 31"
  shows "(if e then d OR 0x80000000 else d) AND 0x7FFFFFFF = d"
    "drop_bit 31 (if e then d OR 0x80000000 else d :: u32) AND 1 \<noteq> 0 \<longleftrightarrow> e"
proof -
  have m: "d AND 0x7FFFFFFF = d" using assms by (simp only: and_31_mask)
  have z: "drop_bit 31 d = 0" using assms by (intro word_eq_of_unat) (simp add: word_nat)
  show "(if e then d OR 0x80000000 else d) AND 0x7FFFFFFF = d"
    using m by (simp add: bit.conj_disj_distrib2)
  show "drop_bit 31 (if e then d OR 0x80000000 else d :: u32) AND 1 \<noteq> 0 \<longleftrightarrow> e"
    using z by (simp add: drop_bit_or)
qed

lemma headers_flags_bits:
  "headers_flags es eh p AND HEADERS_PADDED = 0" "headers_flags es eh p AND HEADERS_PRIORITY \<noteq> 0 \<longleftrightarrow> p"
  by (cases es; cases eh; cases p; simp add: headers_flags_def frame_flags)+

lemma nth_payload: "(write_uint32 d @ w # rest) ! 4 = w"
  by (simp add: nth_append)

lemma parse_headers_written:
  assumes "length block + 5 < 2 ^ 24" "\<And>p. prio = Some p \<Longrightarrow> unat (stream_dependency p) < 2 ^ 31"
  shows "parse_headers_frame (frame_header (of_nat ((if prio = None then 0 else 5) + length block)) HEADERS (headers_flags es eh (prio \<noteq> None)) sid)
      ((case prio of None \<Rightarrow> [] | Some p \<Rightarrow> priority_bytes p) @ block) = Some (prio, block)"
proof (cases prio)
  case None
  then show ?thesis using assms(1) headers_flags_bits [of es eh False]
    by (simp add: parse_headers_frame_def frame_header_def Let_def unat_of_nat)
next
  case (Some p)
  define d where "d = (if exclusive p then stream_dependency p OR 0x80000000 else stream_dependency p)"
  have d: "d AND 0x7FFFFFFF = stream_dependency p" "drop_bit 31 d AND 1 \<noteq> 0 \<longleftrightarrow> exclusive p"
    using stream_dep_roundtrip [of "stream_dependency p" "exclusive p"] assms(2) [OF Some] by (simp_all add: d_def)
  have p: "\<lparr>exclusive = drop_bit 31 d AND 1 \<noteq> 0, stream_dependency = d AND 0x7FFFFFFF, ps_weight = ps_weight p\<rparr> = p"
    by (simp only: d) simp
  have b: "priority_bytes p @ block = write_uint32 d @ ps_weight p # block" by (simp add: priority_bytes_def d_def)
  show ?thesis
    using assms(1) headers_flags_bits [of es eh True] p
    by (simp add: parse_headers_frame_def frame_header_def Let_def unat_of_nat unat_word_ariths Some b nth_payload codec_simps)
qed

lemma parse_settings_written:
  assumes "6 * length ps < 2 ^ 24"
  shows "parse_settings_frame (frame_header n SETTINGS 0 0) (concat (map param_bytes ps)) = Some ps"
proof -
  have "drop (i * 6) (concat (map param_bytes ps)) = param_bytes (ps ! i) @ concat (map param_bytes (drop (Suc i) ps))"
    if "i < length ps" for i
  proof -
    have "concat (map param_bytes ps) = concat (map param_bytes (take i ps)) @ param_bytes (ps ! i) @ concat (map param_bytes (drop (Suc i) ps))"
      using id_take_nth_drop [OF that] by (metis concat.simps(2) concat_append list.simps(9) map_append)
    moreover have "length (concat (map param_bytes (take i ps))) = i * 6" using that by (simp add: length_params)
    ultimately show ?thesis by simp
  qed
  then have "map (\<lambda>i. let param_data = drop (i * 6) (concat (map param_bytes ps))
                in \<lparr>sp_id = read_uint16 param_data, sp_value = read_uint32 (drop 2 param_data)\<rparr>) [0..<length ps] =
      map (\<lambda>i. ps ! i) [0..<length ps]"
    by (intro map_cong refl) (simp add: param_bytes_def codec_simps Let_def)
  also have "\<dots> = ps" by (rule map_nth)
  finally show ?thesis
    by (simp add: parse_settings_frame_def frame_header_def length_params)
qed

lemma parse_frame_header_written:
  "n < 2 ^ 24 \<Longrightarrow> unat sid < 2 ^ 31 \<Longrightarrow> frame_type_of (frame_type_byte t) = t \<Longrightarrow>
   parse_frame_header (header_bytes (frame_header (of_nat n) t f sid) @ rest) = Some (frame_header (of_nat n) t f sid)"
  by (rule parse_header_bytes) (simp_all add: frame_header_def unat_of_nat)

lemma parse_push_promise_written:
  assumes "length block + 4 < 2 ^ 24" "unat pid < 2 ^ 31"
  shows "parse_push_promise_frame (frame_header (of_nat (4 + length block)) PUSH_PROMISE (if eh then PUSH_PROMISE_END_HEADERS else 0) sid)
    (write_uint32 (pid AND 0x7FFFFFFF) @ block) = Some (pid, block)"
proof -
  have "pid AND 0x7FFFFFFF = pid" using assms(2) by (simp only: and_31_mask)
  then show ?thesis
    using assms(1) by (simp add: parse_push_promise_frame_def frame_header_def Let_def unat_of_nat unat_word_ariths codec_simps frame_flags)
qed

text \<open>
  A frame reads back when its header names the length of the payload, the type, the flags and the stream, and
  its payload parses to the value.
\<close>

definition reads_back ::
    "byte list \<Rightarrow> FrameType \<Rightarrow> byte \<Rightarrow> u32 \<Rightarrow> (FrameHeader \<Rightarrow> byte list \<Rightarrow> 'a option) \<Rightarrow> 'a \<Rightarrow> bool" where
  "reads_back frame t f sid parse v \<longleftrightarrow> (\<exists>h. parse_frame_header frame = Some h \<and>
     unat (fh_length h) = length (drop 9 frame) \<and>
     fh_type h = t \<and> fh_flags h = f \<and> fh_stream_id h = sid \<and> parse h (drop 9 frame) = Some v)"

lemma reads_backI:
  assumes "frame = header_bytes (frame_header (of_nat n) t f sid) @ payload" "n < 2 ^ 24" "unat sid < 2 ^ 31"
    "frame_type_of (frame_type_byte t) = t" "parse (frame_header (of_nat n) t f sid) payload = Some v" "length payload = n"
  shows "reads_back frame t f sid parse v"
  using parse_frame_header_written [OF assms(2-4), of f payload] assms(1,2,5,6)
  by (auto simp: reads_back_def frame_header_def unat_of_nat)

lemma small_frames:
  assumes "unat sid < 2 ^ 31" "0 < inc" "unat inc < 2 ^ 31"
  shows "reads_back (write_window_update_frame sid inc) WINDOW_UPDATE 0 sid (\<lambda>_. parse_window_update_frame) inc"
    "reads_back (write_ping_frame v ack) PING (if ack then PING_ACK else 0) 0 (\<lambda>_. parse_ping_frame) v"
    "reads_back (write_rst_stream_frame sid e) RST_STREAM 0 sid (\<lambda>_. parse_rst_stream_frame) e"
    "reads_back (write_settings_frame ps True) SETTINGS SETTINGS_ACK 0 parse_settings_frame []"
proof -
  have i: "inc AND 0x7FFFFFFF = inc" using assms(3) by (simp only: and_31_mask)
  show "reads_back (write_window_update_frame sid inc) WINDOW_UPDATE 0 sid (\<lambda>_. parse_window_update_frame) inc"
    by (rule reads_backI [of _ 4, simplified of_nat_numeral, OF vector_frames(6)])
      (use assms i in \<open>simp_all add: frame_type_of_def parse_window_update_frame_def codec_simps word_neq_0_conv\<close>)
  show "reads_back (write_ping_frame v ack) PING (if ack then PING_ACK else 0) 0 (\<lambda>_. parse_ping_frame) v"
    by (rule reads_backI [of _ 8, simplified of_nat_numeral, OF vector_frames(7)])
      (simp_all add: frame_type_of_def parse_ping_frame_def codec_simps)
  show "reads_back (write_rst_stream_frame sid e) RST_STREAM 0 sid (\<lambda>_. parse_rst_stream_frame) e"
    by (rule reads_backI [of _ 4, simplified of_nat_numeral, OF vector_frames(9)])
      (use assms in \<open>simp_all add: frame_type_of_def parse_rst_stream_frame_def codec_simps\<close>)
  show "reads_back (write_settings_frame ps True) SETTINGS SETTINGS_ACK 0 parse_settings_frame []"
    by (rule reads_backI [of _ 0, where payload = "[]"])
      (simp_all add: vector_frames frame_type_of_def parse_settings_frame_def frame_header_def)
qed

lemma goaway_frame:
  assumes "length dbg + 8 < 2 ^ 24" "unat sid < 2 ^ 31"
  shows "reads_back (write_goaway_frame sid e dbg) GOAWAY 0 0 (\<lambda>_ p. parse_goaway_frame p old) (sid, e, if dbg = [] then old else dbg)"
proof -
  have i: "sid AND 0x7FFFFFFF = sid" using assms(2) by (simp only: and_31_mask)
  show ?thesis
    by (rule reads_backI [OF vector_frames(8)])
      (use assms i in \<open>simp_all add: frame_type_of_def parse_goaway_frame_def codec_simps\<close>)
qed

lemma push_promise_frame:
  assumes "length block + 8 < 2 ^ 24" "unat sid < 2 ^ 31" "unat pid < 2 ^ 31" "13 + length block \<le> length buf"
  shows "reads_back (take (13 + length block) (snd (write_push_promise_frame_to buf sid pid block eh)))
    PUSH_PROMISE (if eh then PUSH_PROMISE_END_HEADERS else 0) sid parse_push_promise_frame (pid, block)"
proof (rule reads_backI)
  have "put 13 block (header_bytes h @ write_uint32 a @ r) = header_bytes h @ write_uint32 a @ block @ drop (length block) r" for h a r
    using put_append [of "header_bytes h @ write_uint32 a" 13 block r] by simp
  then show "take (13 + length block) (snd (write_push_promise_frame_to buf sid pid block eh)) =
    header_bytes (frame_header (of_nat (4 + length block)) PUSH_PROMISE (if eh then PUSH_PROMISE_END_HEADERS else 0) sid) @
      write_uint32 (pid AND 0x7FFFFFFF) @ block"
    using assms(4) by (simp add: write_push_promise_frame_to_def Let_def write_frame_header_bytes put_after_header)
qed (use assms parse_push_promise_written [of block pid] in \<open>simp_all add: frame_type_of_def\<close>)

lemma continuation_frame:
  assumes "length block + 8 < 2 ^ 24" "unat sid < 2 ^ 31" "13 + length block \<le> length buf"
  shows "reads_back (take (9 + length block) (snd (write_continuation_frame_to buf sid block eh)))
    CONTINUATION (if eh then CONTINUATION_END_HEADERS else 0) sid (\<lambda>_ p. Some p) block"
proof (rule reads_backI)
  show "take (9 + length block) (snd (write_continuation_frame_to buf sid block eh)) =
    header_bytes (frame_header (of_nat (length block)) CONTINUATION (if eh then CONTINUATION_END_HEADERS else 0) sid) @ block"
    using assms(3) by (simp add: write_continuation_frame_to_def Let_def write_frame_header_bytes put_after_header)
qed (use assms in \<open>simp_all add: frame_type_of_def\<close>)

lemma zero_increment: "parse_window_update_frame (drop 9 (write_window_update_frame sid 0)) = None"
  by (simp add: vector_frames parse_window_update_frame_def codec_simps)

text \<open>
  C28. A frame of each of the nine kinds the serialisers write (there is none for PRIORITY) is read back: the
  header parser returns the length of the payload, the type, the flags and the stream, and the payload parser
  of the type the contents; a CONTINUATION has no payload parser, its payload is the header block itself.
  The conditions are those of the wire format: payloads within the 24 bit length, stream identifiers,
  dependencies and window increments within 31 bits (the writers do not check them), a positive increment
  (the writer accepts 0 and the parser refuses it), and for PUSH_PROMISE and CONTINUATION a buffer that holds
  the frame, of which the writer returns the length. GOAWAY's debug data is read back unless it is empty, when
  the caller's string \<open>old\<close> is left as it was.
\<close>

theorem h2_frames_roundtrip:
  assumes "length data < 2 ^ 24" "length block + 8 < 2 ^ 24" "6 * length ps < 2 ^ 24" "unat sid < 2 ^ 31" "unat pid < 2 ^ 31"
    and "0 < inc" "unat inc < 2 ^ 31" "\<And>p. prio = Some p \<Longrightarrow> unat (stream_dependency p) < 2 ^ 31" "13 + length block \<le> length buf"
  shows "reads_back (write_data_frame sid data es) DATA (if es then DATA_END_STREAM else 0) sid parse_data_frame data \<and>
    reads_back (write_headers_frame sid block es eh prio) HEADERS (headers_flags es eh (prio \<noteq> None)) sid parse_headers_frame (prio, block) \<and>
    reads_back (write_settings_frame ps False) SETTINGS 0 0 parse_settings_frame ps \<and>
    reads_back (write_settings_frame ps True) SETTINGS SETTINGS_ACK 0 parse_settings_frame [] \<and>
    reads_back (write_window_update_frame sid inc) WINDOW_UPDATE 0 sid (\<lambda>_. parse_window_update_frame) inc \<and>
    reads_back (write_ping_frame v ack) PING (if ack then PING_ACK else 0) 0 (\<lambda>_. parse_ping_frame) v \<and>
    reads_back (write_rst_stream_frame sid e) RST_STREAM 0 sid (\<lambda>_. parse_rst_stream_frame) e \<and>
    parse_window_update_frame (drop 9 (write_window_update_frame sid 0)) = None \<and>
    reads_back (write_goaway_frame sid e block) GOAWAY 0 0 (\<lambda>_ p. parse_goaway_frame p old) (sid, e, if block = [] then old else block) \<and>
    fst (write_push_promise_frame_to buf sid pid block eh) = 13 + length block \<and>
    reads_back (take (13 + length block) (snd (write_push_promise_frame_to buf sid pid block eh)))
      PUSH_PROMISE (if eh then PUSH_PROMISE_END_HEADERS else 0) sid parse_push_promise_frame (pid, block) \<and>
    fst (write_continuation_frame_to buf sid block eh) = 9 + length block \<and>
    reads_back (take (9 + length block) (snd (write_continuation_frame_to buf sid block eh)))
      CONTINUATION (if eh then CONTINUATION_END_HEADERS else 0) sid (\<lambda>_ p. Some p) block"
proof (intro conjI)
  show "reads_back (write_data_frame sid data es) DATA (if es then DATA_END_STREAM else 0) sid parse_data_frame data"
    by (rule reads_backI [OF vector_frames(1)])
      (use assms(1,4) in \<open>simp_all add: frame_type_of_def parse_data_frame_def frame_header_def unat_of_nat frame_flags\<close>)
  show "reads_back (write_headers_frame sid block es eh prio) HEADERS (headers_flags es eh (prio \<noteq> None)) sid parse_headers_frame (prio, block)"
    by (rule reads_backI [where n = "(if prio = None then 0 else 5) + length block" and
          payload = "(case prio of None \<Rightarrow> [] | Some p \<Rightarrow> priority_bytes p) @ block"])
      (use assms(2,4,8) parse_headers_written [of block prio es eh sid] in
        \<open>simp_all add: frame_type_of_def vector_frames split: option.split\<close>)
  show "reads_back (write_settings_frame ps False) SETTINGS 0 0 parse_settings_frame ps"
    by (rule reads_backI [OF vector_frames(5)])
      (use assms(3) parse_settings_written [OF assms(3)] in \<open>simp_all add: frame_type_of_def mult.commute length_params\<close>)
  show "fst (write_push_promise_frame_to buf sid pid block eh) = 13 + length block"
    "fst (write_continuation_frame_to buf sid block eh) = 9 + length block"
    using assms(9) by (simp_all add: write_push_promise_frame_to_def write_continuation_frame_to_def Let_def)
qed (use small_frames [OF assms(4,6,7)] goaway_frame [OF assms(2,4)] push_promise_frame [OF assms(2,4,5,9)]
    continuation_frame [OF assms(2,4,9)] zero_increment in blast)+

theorem h2_frames_roundtrip_witness:
  "reads_back (write_headers_frame 3 [0x82] True True (Some \<lparr>exclusive = True, stream_dependency = 1, ps_weight = 200\<rparr>))
     HEADERS 0x25 3 parse_headers_frame (Some \<lparr>exclusive = True, stream_dependency = 1, ps_weight = 200\<rparr>, [0x82])"
  using h2_frames_roundtrip [where data = "[]" and block = "[0x82]" and ps = "[]" and sid = 3 and pid = 4 and inc = 1 and
      prio = "Some \<lparr>exclusive = True, stream_dependency = 1, ps_weight = 200\<rparr>" and buf = "replicate 14 0" and es = True and eh = True]
  by (simp add: headers_flags_def frame_flags del: replicate.simps)

text \<open>A payload split into an optional pad length byte, a prefix, the content and the padding.\<close>

definition framed_payload :: "bool \<Rightarrow> byte list \<Rightarrow> byte list \<Rightarrow> byte list \<Rightarrow> bool" where
  "framed_payload padded payload prefix content \<longleftrightarrow>
     (if padded then \<exists>padding. payload = of_nat (length padding) # prefix @ content @ padding \<and> length padding < 256
      else payload = prefix @ content)"

lemma framed_payload_iff:
  "framed_payload padded p prefix content \<longleftrightarrow>
     (let o1 = (if padded then 1 else 0); pad = (if padded then unat (p ! 0) else 0); k = length prefix
      in (padded \<longrightarrow> p \<noteq> []) \<and> o1 + k + pad \<le> length p \<and> prefix = take k (drop o1 p) \<and>
         content = take (length p - (o1 + k) - pad) (drop (o1 + k) p))"
proof (cases padded)
  case True
  show ?thesis
  proof (cases p)
    case (Cons b bs)
    have "(\<exists>padding. b # bs = of_nat (length padding) # prefix @ content @ padding \<and> length padding < 256) \<longleftrightarrow>
        length prefix + unat b \<le> length bs \<and> prefix = take (length prefix) bs \<and>
        content = take (length bs - length prefix - unat b) (drop (length prefix) bs)" (is "?l \<longleftrightarrow> ?r")
    proof
      assume ?r
      define m where "m = length bs - length prefix - unat b"
      define padding where "padding = drop m (drop (length prefix) bs)"
      have "length padding = unat b" using \<open>?r\<close> by (simp add: padding_def m_def)
      moreover have "bs = prefix @ content @ padding"
        using \<open>?r\<close> append_take_drop_id [of "length prefix" bs] append_take_drop_id [of m "drop (length prefix) bs"]
        unfolding padding_def m_def by metis
      ultimately show ?l by (intro exI [of _ padding]) simp
    next
      assume ?l
      then show ?r by (auto simp: unat_of_nat)
    qed
    then show ?thesis using True Cons by (simp add: framed_payload_def Let_def)
  qed (simp add: framed_payload_def True)
next
  case False
  have "p = prefix @ content \<longleftrightarrow> length prefix \<le> length p \<and> prefix = take (length prefix) p \<and> content = drop (length prefix) p"
    by (metis append_eq_conv_conj append_take_drop_id length_append le_add1)
  then show ?thesis using False by (simp add: framed_payload_def Let_def)
qed

lemma framed_prefix_iff:
  "(\<exists>prefix. framed_payload padded p prefix content \<and> length prefix = k \<and> Q prefix) \<longleftrightarrow>
     (let o1 = (if padded then 1 else 0); pad = (if padded then unat (p ! 0) else 0)
      in (padded \<longrightarrow> p \<noteq> []) \<and> o1 + k + pad \<le> length p \<and> Q (take k (drop o1 p)) \<and>
         content = take (length p - (o1 + k) - pad) (drop (o1 + k) p))" (is "?l \<longleftrightarrow> ?r")
proof
  assume ?l
  then show ?r by (auto simp: framed_payload_iff Let_def)
next
  assume ?r
  then show ?l
    by (intro exI [of _ "take k (drop (if padded then 1 else 0) p)"]) (auto simp: framed_payload_iff Let_def min_def)
qed

lemma read_uint32_take: "4 \<le> n \<Longrightarrow> read_uint32 (take n xs) = read_uint32 xs"
  by (simp add: read_uint32_def)

lemma framed_optional_iff:
  "(\<exists>prefix. framed_payload padded p prefix content \<and> (if b then length prefix = k \<and> Q prefix else prefix = [] \<and> R)) \<longleftrightarrow>
     (let o1 = (if padded then 1 else 0); pad = (if padded then unat (p ! 0) else 0); j = (if b then k else 0)
      in (padded \<longrightarrow> p \<noteq> []) \<and> o1 + j + pad \<le> length p \<and> (if b then Q (take k (drop o1 p)) else R) \<and>
         content = take (length p - (o1 + j) - pad) (drop (o1 + j) p))"
proof (cases b)
  case True
  then show ?thesis using framed_prefix_iff [of padded p content k Q] by simp
next
  case False
  then show ?thesis using framed_payload_iff [of padded p "[]" content] by (simp add: Let_def) blast
qed

text \<open>
  C29. Padding is validated: the DATA, HEADERS and PUSH_PROMISE parsers accept a payload exactly when the
  announced length matches and the payload is an optional pad length byte, the fixed prefix of the frame
  type, the content returned and as many bytes of padding as announced.
\<close>

theorem h2_padding_validated:
  "(parse_data_frame h p = Some d \<longleftrightarrow>
      unat (fh_length h) = length p \<and> framed_payload (fh_flags h AND DATA_PADDED \<noteq> 0) p [] d) \<and>
   (parse_headers_frame h p = Some (spec, d) \<longleftrightarrow>
      unat (fh_length h) = length p \<and> (\<exists>prefix. framed_payload (fh_flags h AND HEADERS_PADDED \<noteq> 0) p prefix d \<and>
        (if fh_flags h AND HEADERS_PRIORITY \<noteq> 0 then length prefix = 5 \<and> spec = parse_priority_frame prefix
         else prefix = [] \<and> spec = None))) \<and>
   (parse_push_promise_frame h p = Some (pid, d) \<longleftrightarrow>
      unat (fh_length h) = length p \<and> (\<exists>prefix. framed_payload (fh_flags h AND PUSH_PROMISE_PADDED \<noteq> 0) p prefix d \<and>
        length prefix = 4 \<and> pid = read_uint32 prefix AND 0x7FFFFFFF))"
proof (intro conjI)
  show "parse_data_frame h p = Some d \<longleftrightarrow>
      unat (fh_length h) = length p \<and> framed_payload (fh_flags h AND DATA_PADDED \<noteq> 0) p [] d"
    by (cases p) (auto simp: parse_data_frame_def framed_payload_iff Let_def not_le)
next
  show "parse_headers_frame h p = Some (spec, d) \<longleftrightarrow>
      unat (fh_length h) = length p \<and> (\<exists>prefix. framed_payload (fh_flags h AND HEADERS_PADDED \<noteq> 0) p prefix d \<and>
        (if fh_flags h AND HEADERS_PRIORITY \<noteq> 0 then length prefix = 5 \<and> spec = parse_priority_frame prefix
         else prefix = [] \<and> spec = None))"
    unfolding framed_optional_iff
    by (cases "fh_flags h AND HEADERS_PADDED \<noteq> 0"; cases "fh_flags h AND HEADERS_PRIORITY \<noteq> 0")
      (auto simp: parse_headers_frame_def parse_priority_frame_def Let_def read_uint32_take not_less not_le)
next
  show "parse_push_promise_frame h p = Some (pid, d) \<longleftrightarrow>
      unat (fh_length h) = length p \<and> (\<exists>prefix. framed_payload (fh_flags h AND PUSH_PROMISE_PADDED \<noteq> 0) p prefix d \<and>
        length prefix = 4 \<and> pid = read_uint32 prefix AND 0x7FFFFFFF)"
    unfolding framed_prefix_iff
    by (cases "fh_flags h AND PUSH_PROMISE_PADDED \<noteq> 0")
      (auto simp: parse_push_promise_frame_def Let_def read_uint32_take not_less not_le)
qed

end
