(* ===== verification/Ws_Parser.thy ===== *)
theory Ws_Parser
  imports Bolt_Bytes
begin

text \<open>
  The WebSocket frame parser and handshake helpers (\<^verbatim>\<open>include/boltapi/http/websocket_parser.h\<close>,
  \<^verbatim>\<open>src/http/websocket_parser.cpp\<close>). Input is the list of received bytes. SHA-1 and the base64 encoder,
  which come from OpenSSL, are parameters of \<open>compute_accept_key\<close>.
\<close>

section \<open>Types\<close>

datatype OpCode = CONTINUATION | TEXT | BINARY | CLOSE | PING | PONG | UnnamedOp byte

fun opcode_byte :: "OpCode \<Rightarrow> byte" where
  "opcode_byte CONTINUATION = 0x0"
| "opcode_byte TEXT = 0x1"
| "opcode_byte BINARY = 0x2"
| "opcode_byte CLOSE = 0x8"
| "opcode_byte PING = 0x9"
| "opcode_byte PONG = 0xA"
| "opcode_byte (UnnamedOp b) = b"

definition opcode_of :: "byte \<Rightarrow> OpCode" where
  "opcode_of b =
     (if b = 0x0 then CONTINUATION else if b = 0x1 then TEXT else if b = 0x2 then BINARY
      else if b = 0x8 then CLOSE else if b = 0x9 then PING else if b = 0xA then PONG else UnnamedOp b)"

type_synonym CloseCode = u16

definition NO_STATUS :: CloseCode where "NO_STATUS = 1005"
definition PROTOCOL_ERROR :: CloseCode where "PROTOCOL_ERROR = 1002"
definition INVALID_PAYLOAD :: CloseCode where "INVALID_PAYLOAD = 1007"
definition GOING_AWAY :: CloseCode where "GOING_AWAY = 1001"

record FrameHeader =
  fin :: bool
  rsv1 :: bool
  rsv2 :: bool
  rsv3 :: bool
  opcode :: OpCode
  has_mask :: bool
  payload_length :: u64
  masking_key :: "byte list"

definition kMaxHeaderLength :: nat where "kMaxHeaderLength = 14"

section \<open>Headers and frames\<close>

text \<open>The return codes of \<^verbatim>\<open>parse_header\<close>: 0 with the header and its length, -1, and \<^verbatim>\<open>kErrorLength\<close>.\<close>

datatype 'a ws_parse = WsOk 'a | WsNeedMore | WsErrorLength

definition parse_mask :: "byte list \<Rightarrow> FrameHeader \<Rightarrow> nat \<Rightarrow> (FrameHeader \<times> nat) ws_parse" where
  "parse_mask data header pos =
     (if has_mask header then
        (if length data < pos + 4 then WsNeedMore
         else WsOk (header\<lparr>masking_key := take 4 (drop pos data)\<rparr>, pos + 4))
      else WsOk (header\<lparr>masking_key := [0, 0, 0, 0]\<rparr>, pos))"

definition parse_header :: "byte list \<Rightarrow> (FrameHeader \<times> nat) ws_parse" where
  "parse_header data =
     (if length data < 2 then WsNeedMore
      else
        let b0 = data ! 0; b1 = data ! 1;
            header = \<lparr>fin = (b0 AND 0x80 \<noteq> 0), rsv1 = (b0 AND 0x40 \<noteq> 0), rsv2 = (b0 AND 0x20 \<noteq> 0),
                      rsv3 = (b0 AND 0x10 \<noteq> 0), opcode = opcode_of (b0 AND 0x0F), has_mask = (b1 AND 0x80 \<noteq> 0),
                      payload_length = 0, masking_key = [0, 0, 0, 0]\<rparr>;
            len7 = b1 AND 0x7F; pos = 2
        in if len7 < 126 then parse_mask data (header\<lparr>payload_length := ucast len7\<rparr>) pos
           else if len7 = 126 then
             (if length data < pos + 2 then WsNeedMore
              else parse_mask data
                     (header\<lparr>payload_length := push_bit 8 (ucast (data ! 2)) OR ucast (data ! 3)\<rparr>) (pos + 2))
           else
             (if length data < pos + 8 then WsNeedMore
              else
                let v = shift_in_bytes 0 (take 8 (drop pos data))
                in if drop_bit 63 v \<noteq> 0 then WsErrorLength
                   else parse_mask data (header\<lparr>payload_length := v\<rparr>) (pos + 8)))"

text \<open>Header, payload (still masked) and bytes consumed.\<close>

definition parse_frame :: "byte list \<Rightarrow> (FrameHeader \<times> byte list \<times> nat) ws_parse" where
  "parse_frame data =
     (case parse_header data of
        WsOk (header, hlen) \<Rightarrow>
          if unat (payload_length header) > length data - hlen then WsNeedMore
          else
            let n = unat (payload_length header)
            in WsOk (header, take n (drop hlen data), hlen + n)
      | WsNeedMore \<Rightarrow> WsNeedMore
      | WsErrorLength \<Rightarrow> WsErrorLength)"

section \<open>Masking\<close>

text \<open>A 64 bit word copied from and to memory (little-endian host).\<close>

definition load64 :: "byte list \<Rightarrow> u64" where
  "load64 bs = be_word (rev bs)"

definition store64 :: "u64 \<Rightarrow> byte list" where
  "store64 w = rev (be_bytes 8 (unat w))"

fun unmask_tail :: "byte list \<Rightarrow> nat \<Rightarrow> nat \<Rightarrow> byte list \<Rightarrow> byte list" where
  "unmask_tail key offset i [] = []"
| "unmask_tail key offset i (b # bs) = (b XOR key ! ((offset + i) mod 4)) # unmask_tail key offset (i + 1) bs"

function unmask_words :: "u64 \<Rightarrow> byte list \<Rightarrow> nat \<Rightarrow> nat \<Rightarrow> byte list \<Rightarrow> byte list" where
  "unmask_words mask64 key offset i data =
     (if 8 \<le> length data
      then store64 (load64 (take 8 data) XOR mask64) @ unmask_words mask64 key offset (i + 8) (drop 8 data)
      else unmask_tail key offset i data)"
  by auto
termination by (relation "measure (\<lambda>(_, _, _, _, data). length data)") auto

declare unmask_words.simps [simp del]

definition unmask :: "byte list \<Rightarrow> byte list \<Rightarrow> nat \<Rightarrow> byte list" where
  "unmask data key offset =
     (let rot = map (\<lambda>j. key ! ((offset + j) mod 4)) [0..<8]; mask64 = load64 rot
      in unmask_words mask64 key offset 0 data)"

section \<open>Building\<close>

definition build_frame :: "OpCode \<Rightarrow> byte list \<Rightarrow> bool \<Rightarrow> bool \<Rightarrow> byte list \<Rightarrow> byte list" where
  "build_frame op payload is_fin rsv output =
     (let byte0 = opcode_byte op;
          byte0 = (if is_fin then byte0 OR 0x80 else byte0);
          byte0 = (if rsv then byte0 OR 0x40 else byte0);
          output = output @ [byte0];
          len = length payload;
          output = (if len < 126 then output @ [of_nat len]
                    else if len \<le> 0xFFFF then output @ [126] @ be_bytes 2 len
                    else output @ [127] @ be_bytes 8 len)
      in if len > 0 then output @ payload else output)"

text \<open>The reason is the C string, without its terminator; an empty or null reason adds nothing.\<close>

definition build_close_frame :: "CloseCode \<Rightarrow> byte list \<Rightarrow> byte list \<Rightarrow> byte list" where
  "build_close_frame code reason output =
     (let payload = be_bytes 2 (unat code);
          payload = (if reason \<noteq> [] then payload @ reason else payload)
      in build_frame CLOSE payload True False output)"

section \<open>Close payloads and text\<close>

definition is_valid_close_code :: "u16 \<Rightarrow> bool" where
  "is_valid_close_code code =
     (if code \<ge> 3000 \<and> code \<le> 4999 then True
      else (code \<ge> 1000 \<and> code \<le> 1003) \<or> (code \<ge> 1007 \<and> code \<le> 1011))"

text \<open>The length of the sequence a lead byte starts and the range of its second byte.\<close>

definition utf8_lead :: "byte \<Rightarrow> (nat \<times> byte \<times> byte) option" where
  "utf8_lead c =
     (if c \<ge> 0xC2 \<and> c \<le> 0xDF then Some (2, 0x80, 0xBF)
      else if c = 0xE0 then Some (3, 0xA0, 0xBF)
      else if c \<ge> 0xE1 \<and> c \<le> 0xEC then Some (3, 0x80, 0xBF)
      else if c = 0xED then Some (3, 0x80, 0x9F)
      else if c \<ge> 0xEE \<and> c \<le> 0xEF then Some (3, 0x80, 0xBF)
      else if c = 0xF0 then Some (4, 0x90, 0xBF)
      else if c \<ge> 0xF1 \<and> c \<le> 0xF3 then Some (4, 0x80, 0xBF)
      else if c = 0xF4 then Some (4, 0x80, 0x8F)
      else None)"

function validate_utf8 :: "byte list \<Rightarrow> bool" where
  "validate_utf8 data =
     (case data of [] \<Rightarrow> True
      | c # rest \<Rightarrow>
          if c < 0x80 then validate_utf8 rest
          else case utf8_lead c of None \<Rightarrow> False
             | Some (n, lo, hi) \<Rightarrow>
                 if length data < n then False
                 else if data ! 1 < lo \<or> data ! 1 > hi then False
                 else if \<not> list_all (\<lambda>k. data ! k AND 0xC0 = 0x80) [2..<n] then False
                 else validate_utf8 (drop n data))"
  by auto
termination
  by (relation "measure length") (auto simp: utf8_lead_def split: if_splits)

declare validate_utf8.simps [simp del]

text \<open>The return value (0 or -1), the close code and the reason.\<close>

definition parse_close_payload :: "byte list \<Rightarrow> bool \<times> CloseCode \<times> byte list" where
  "parse_close_payload payload =
     (if length payload = 0 then (True, NO_STATUS, [])
      else if length payload < 2 then (False, PROTOCOL_ERROR, [])
      else
        let raw = push_bit 8 (ucast (payload ! 0)) OR ucast (payload ! 1)
        in if \<not> is_valid_close_code raw then (False, PROTOCOL_ERROR, [])
           else if \<not> validate_utf8 (drop 2 payload) then (False, INVALID_PAYLOAD, [])
           else (True, raw, drop 2 payload))"

section \<open>Handshake\<close>

definition WS_GUID :: string where
  "WS_GUID = ''258EAFA5-E914-47DA-95CA-C5AB0DC85B11''"

definition compute_accept_key :: "(string \<Rightarrow> byte list) \<Rightarrow> (byte list \<Rightarrow> string) \<Rightarrow> string \<Rightarrow> string" where
  "compute_accept_key sha1 base64 key = base64 (sha1 (key @ WS_GUID))"

text \<open>\<^verbatim>\<open>s.find(t) != npos\<close>\<close>

fun contains :: "string \<Rightarrow> string \<Rightarrow> bool" where
  "contains t [] = (t = [])"
| "contains t (c # s) = (take (length t) (c # s) = t \<or> contains t s)"

definition validate_upgrade_request :: "string \<Rightarrow> string \<Rightarrow> string \<Rightarrow> string \<Rightarrow> string \<Rightarrow> bool" where
  "validate_upgrade_request method upgrade connection ws_version ws_key =
     (if method \<noteq> ''GET'' then False
      else if \<not> contains ''websocket'' upgrade \<and> \<not> contains ''WebSocket'' upgrade then False
      else if \<not> contains ''Upgrade'' connection \<and> \<not> contains ''upgrade'' connection then False
      else if ws_version \<noteq> ''13'' then False
      else if ws_key = [] \<or> length ws_key \<noteq> 24 then False
      else True)"

definition is_blank :: "char \<Rightarrow> bool" where
  "is_blank c = (c = CHR '' '' \<or> c = CHR 0x09)"

lemma after_token_shrinks:
  "length a \<le> length rest \<Longrightarrow> rest \<noteq> [] \<Longrightarrow> length (if a \<noteq> [] then tl a else a) < length rest"
  by (cases a) auto

text \<open>The token loop: what is left of the header value, and the first token seen so far.\<close>

function subprotocol_loop :: "string \<Rightarrow> string \<Rightarrow> string" where
  "subprotocol_loop rest first =
     (if rest = [] then first
      else
        let s = dropWhile is_blank rest;
            raw = takeWhile (\<lambda>c. c \<noteq> CHR '','') s;
            after = dropWhile (\<lambda>c. c \<noteq> CHR '','') s;
            tok = rev (dropWhile is_blank (rev raw));
            after = (if after \<noteq> [] then tl after else after)
        in if tok = ''mqtt'' then ''mqtt''
           else subprotocol_loop after (if tok \<noteq> [] \<and> first = [] then tok else first))"
  by auto
termination
proof (relation "measure (\<lambda>(rest, _). length rest)", goal_cases)
  case (2 rest first s raw after tok after')
  have "length after \<le> length rest" unfolding 2(2,4) by (meson length_dropWhile_le order_trans)
  then show ?case using after_token_shrinks [OF _ 2(1)] unfolding 2(6) in_measure split_conv by blast
qed simp

declare subprotocol_loop.simps [simp del]

definition select_subprotocol :: "string \<Rightarrow> string" where
  "select_subprotocol client_offered =
     (if client_offered = [] then [] else subprotocol_loop client_offered [])"

section \<open>Masking word by word is masking byte by byte\<close>

lemma bit_be_word:
  assumes "8 * length bs \<le> LENGTH('a::len)"
  shows "bit (be_word bs :: 'a word) n \<longleftrightarrow> n < 8 * length bs \<and> bit (rev bs ! (n div 8)) (n mod 8)"
  using assms
proof (induction bs)
  case (Cons b bs)
  have r: "rev (b # bs) ! (n div 8) = (if n < 8 * length bs then rev bs ! (n div 8) else b)" if "n < 8 * length (b # bs)"
    using that by (auto simp: nth_append less_mult_imp_div_less)
  show ?case
  proof (cases "n < 8 * length bs")
    case True
    then show ?thesis using Cons r by (simp add: bit_simps)
  next
    case False
    have "bit b (n - 8 * length bs) \<longleftrightarrow> n < 8 + 8 * length bs \<and> bit b (n mod 8)"
    proof (cases "n < 8 + 8 * length bs")
      case True
      then have "n - 8 * length bs = n mod 8" using False by (metis add_diff_cancel_left' less_diff_conv2 mod_less mod_mult_self2 not_less add.commute le_add_diff_inverse)
      then show ?thesis using True by simp
    next
      case False
      then have "8 \<le> n - 8 * length bs" by simp
      then show ?thesis using False by (simp add: bit_word.rep_eq) 
    qed
    then show ?thesis using False Cons r by (auto simp: bit_simps)
  qed
qed simp

lemma load64_xor:
  assumes "length xs = 8" "length ys = 8"
  shows "load64 xs XOR load64 ys = load64 (map2 (XOR) xs ys)"
proof (rule bit_word_eqI)
  fix n assume "n < LENGTH(64)"
  then have n: "n div 8 < 8" "n < 64" by simp_all
  show "bit (load64 xs XOR load64 ys) n \<longleftrightarrow> bit (load64 (map2 (XOR) xs ys)) n"
    using assms n by (simp add: load64_def bit_xor_iff bit_be_word)
qed

lemma store64_load64: "length xs = 8 \<Longrightarrow> store64 (load64 xs) = xs"
  using be_bytes_be_nat [of "rev xs"] by (simp add: store64_def load64_def unat_be_word)

lemma unmask_tail_nth:
  "unmask_tail key offset i bs = map (\<lambda>j. bs ! j XOR key ! ((offset + (i + j)) mod 4)) [0..<length bs]"
proof (induction key offset i bs rule: unmask_tail.induct)
  case (2 key offset i b bs)
  have "[0..<length (b # bs)] = 0 # map Suc [0..<length bs]" by (simp add: upt_conv_Cons map_Suc_upt del: upt_Suc)
  then show ?case using 2 by (simp add: comp_def del: upt_Suc)
qed simp

text \<open>The byte-wise definition of masking in RFC 6455.\<close>

definition unmask_bytes :: "byte list \<Rightarrow> byte list \<Rightarrow> nat \<Rightarrow> byte list" where
  "unmask_bytes data key offset = map (\<lambda>j. data ! j XOR key ! ((offset + j) mod 4)) [0..<length data]"

lemma unmask_words_bytes:
  assumes "i mod 4 = 0" "mask64 = load64 (map (\<lambda>j. key ! ((offset + j) mod 4)) [0..<8])"
  shows "unmask_words mask64 key offset i data = map (\<lambda>j. data ! j XOR key ! ((offset + (i + j)) mod 4)) [0..<length data]"
  using assms
proof (induction mask64 key offset i data rule: unmask_words.induct)
  case (1 mask64 key offset i data)
  show ?case
  proof (cases "8 \<le> length data")
    case False
    then show ?thesis by (simp add: unmask_words.simps [of mask64] unmask_tail_nth)
  next
    case True
    define k where "k j = key ! ((offset + (i + j)) mod 4)" for j
    have im: "(offset + (i + j)) mod 4 = (offset + j) mod 4" for j
      using 1(2) by (metis add.left_commute add_0 mod_add_left_eq)
    have m: "mask64 = load64 (map k [0..<8])" using 1(3) by (simp add: k_def [abs_def] im)
    have "load64 (take 8 data) XOR mask64 = load64 (map2 (XOR) (take 8 data) (map k [0..<8]))"
      unfolding m by (rule load64_xor) (use True in simp_all)
    then have f: "store64 (load64 (take 8 data) XOR mask64) = map2 (XOR) (take 8 data) (map k [0..<8])"
      using True by (simp add: store64_load64)
    have f': "map2 (XOR) (take 8 data) (map k [0..<8]) = map (\<lambda>j. data ! j XOR k j) [0..<8]"
      by (rule nth_equalityI) (use True in simp_all)
    have im8: "(offset + (i + 8 + j)) mod 4 = (offset + (i + (8 + j))) mod 4" for j by (simp add: add.assoc)
    have i8: "(i + 8) mod 4 = 0" using 1(2) by presburger
    have "unmask_words mask64 key offset (i + 8) (drop 8 data) =
        map (\<lambda>j. drop 8 data ! j XOR key ! ((offset + (i + 8 + j)) mod 4)) [0..<length data - 8]"
      using 1(1) [OF True _ 1(3)] i8 by simp
    also have "\<dots> = map (\<lambda>j. data ! j XOR k j) [8..<length data]"
      by (rule nth_equalityI) (use True in \<open>simp_all add: k_def im8\<close>)
    finally have r: "unmask_words mask64 key offset (i + 8) (drop 8 data) = map (\<lambda>j. data ! j XOR k j) [8..<length data]" .
    have s: "[0..<length data] = [0..<8] @ [8..<length data]" using upt_add_eq_append [of 0 8 "length data - 8"] True by simp
    have "unmask_words mask64 key offset i data = map (\<lambda>j. data ! j XOR k j) [0..<8] @ map (\<lambda>j. data ! j XOR k j) [8..<length data]"
      unfolding unmask_words.simps [of mask64 key offset i data] by (simp only: True if_True f f' r)
    also have "\<dots> = map (\<lambda>j. data ! j XOR k j) [0..<length data]" by (simp only: s map_append)
    finally show ?thesis by (simp only: k_def)
  qed
qed

lemma unmask_is_bytes: "unmask data key offset = unmask_bytes data key offset"
  using unmask_words_bytes [of 0 "load64 (map (\<lambda>j. key ! ((offset + j) mod 4)) [0..<8])" key offset data]
  by (simp add: unmask_def unmask_bytes_def Let_def del: upt_rec_numeral)

lemma unmask_append: "unmask (a @ b) key offset = unmask a key offset @ unmask b key (offset + length a)"
  unfolding unmask_is_bytes
  by (rule nth_equalityI) (auto simp: unmask_bytes_def nth_append add.assoc)

lemma length_unmask [simp]: "length (unmask data key offset) = length data"
  by (simp add: unmask_is_bytes unmask_bytes_def)

lemma unmask_involution: "unmask (unmask data key offset) key offset = data"
  unfolding unmask_is_bytes by (rule nth_equalityI) (simp_all add: unmask_bytes_def xor.assoc)

text \<open>
  C38. The optimised unmasking, eight bytes at a time through 64 bit words, is equal to masking byte by
  byte with the rotating key, for every length, key and starting offset; masking twice gives the data
  back, and a payload can be unmasked in pieces, each at its offset.
\<close>

theorem unmask_equivalent:
  "unmask data key offset = map (\<lambda>j. data ! j XOR key ! ((offset + j) mod 4)) [0..<length data] \<and>
   unmask (unmask data key offset) key offset = data \<and>
   unmask (a @ b) key offset = unmask a key offset @ unmask b key (offset + length a)"
  by (simp add: unmask_involution unmask_append) (simp add: unmask_is_bytes unmask_bytes_def)

section \<open>UTF-8\<close>

text \<open>
  The reference: Unicode scalar values and their encoding (RFC 3629), as arithmetic on code points.
\<close>

definition scalar_value :: "nat \<Rightarrow> bool" where
  "scalar_value c \<longleftrightarrow> c < 0x110000 \<and> \<not> (0xD800 \<le> c \<and> c \<le> 0xDFFF)"

definition utf8_encode :: "nat \<Rightarrow> byte list" where
  "utf8_encode c =
     (if c < 0x80 then [of_nat c]
      else if c < 0x800 then [of_nat (0xC0 + c div 64), of_nat (0x80 + c mod 64)]
      else if c < 0x10000 then [of_nat (0xE0 + c div 4096), of_nat (0x80 + c div 64 mod 64), of_nat (0x80 + c mod 64)]
      else [of_nat (0xF0 + c div 262144), of_nat (0x80 + c div 4096 mod 64), of_nat (0x80 + c div 64 mod 64),
            of_nat (0x80 + c mod 64)])"

lemma continuation_iff: "(b :: byte) AND 0xC0 = 0x80 \<longleftrightarrow> 0x80 \<le> unat b \<and> unat b < 0xC0"
proof -
  have "(0xC0 :: byte) = NOT (mask 6)" by code_simp
  then have "b AND 0xC0 = b AND NOT (mask 6)" by (rule arg_cong)
  also have "\<dots> = push_bit 6 (drop_bit 6 b)" by (rule bit_word_eqI) (auto simp: bit_simps)
  finally have "unat (b AND 0xC0) = (unat b div 64 * 64) mod 256" by (simp add: word_nat)
  also have "\<dots> = unat b div 64 * 64" by (intro mod_less le_less_trans [OF div_times_less_eq_dividend]) simp
  finally have "b AND 0xC0 = 0x80 \<longleftrightarrow> unat b div 64 * 64 = 0x80" by (simp add: word_unat_eq_iff)
  then show ?thesis using byte_less_256 [of b] by auto
qed

lemma continuation_unat: "unat ((b :: byte) AND 0xC0) = 0x80 \<longleftrightarrow> 0x80 \<le> unat b \<and> unat b < 0xC0"
  using continuation_iff [of b] by (simp add: word_unat_eq_iff)

lemma unat_small_byte [simp]: "x < 256 \<Longrightarrow> unat (of_nat x :: byte) = x"
  by (simp add: unat_of_nat)

lemma unat_numeral_plus [simp]: "numeral k + x < 256 \<Longrightarrow> unat (numeral k + of_nat x :: byte) = numeral k + x"
  using unat_small_byte [of "numeral k + x"] by (simp only: of_nat_add of_nat_numeral)

lemma byte_of_unat: "unat (b :: byte) = x \<Longrightarrow> of_nat x = b"
  by auto

lemmas byte_order = word_le_nat_alt word_less_nat_alt word_unat_eq_iff

text \<open>One step of the validator, on the numeric values of the bytes.\<close>

definition utf8_step :: "byte list \<Rightarrow> nat option" where
  "utf8_step data = (case data of [] \<Rightarrow> None
     | c # rest \<Rightarrow> if c < 0x80 then Some 1
         else case utf8_lead c of None \<Rightarrow> None
            | Some (n, lo, hi) \<Rightarrow>
                if length data < n \<or> data ! 1 < lo \<or> data ! 1 > hi \<or> \<not> list_all (\<lambda>k. data ! k AND 0xC0 = 0x80) [2..<n]
                then None else Some n)"

lemma validate_utf8_step:
  "validate_utf8 data \<longleftrightarrow> data = [] \<or> (\<exists>n. utf8_step data = Some n \<and> validate_utf8 (drop n data))"
  by (subst validate_utf8.simps) (auto simp: utf8_step_def split: list.split option.split if_splits)

lemma upt_small: "[2..<2] = []" "[2..<3] = [2]" "[2..<4] = [2, 3::nat]"
  by (simp_all add: upt_rec)

text \<open>The validator's table, on the numeric values of the bytes.\<close>

lemma utf8_step_1: "utf8_step (a # rest) = Some 1" if "unat a < 0x80" for a :: byte
  using that by (simp add: utf8_step_def byte_order)

lemma utf8_step_2: "utf8_step (a # b # rest) = Some 2"
  if "0xC2 \<le> unat a" "unat a \<le> 0xDF" "0x80 \<le> unat b" "unat b \<le> 0xBF" for a b :: byte
  using that by (simp add: utf8_step_def utf8_lead_def byte_order upt_small)

lemma utf8_step_3: "utf8_step (a # b # c # rest) = Some 3"
  if "0xE0 \<le> unat a" "unat a \<le> 0xEF" "0x80 \<le> unat b" "unat b \<le> 0xBF" "0x80 \<le> unat c" "unat c \<le> 0xBF"
    "unat a = 0xE0 \<longrightarrow> 0xA0 \<le> unat b" "unat a = 0xED \<longrightarrow> unat b \<le> 0x9F" for a b c :: byte
  using that
  by (cases "unat a = 0xE0"; cases "unat a = 0xED")
    (auto simp: utf8_step_def utf8_lead_def byte_order upt_small continuation_unat)

lemma utf8_step_4: "utf8_step (a # b # c # d # rest) = Some 4"
  if "0xF0 \<le> unat a" "unat a \<le> 0xF4" "0x80 \<le> unat b" "unat b \<le> 0xBF" "0x80 \<le> unat c" "unat c \<le> 0xBF"
    "0x80 \<le> unat d" "unat d \<le> 0xBF"
    "unat a = 0xF0 \<longrightarrow> 0x90 \<le> unat b" "unat a = 0xF4 \<longrightarrow> unat b \<le> 0x8F" for a b c d :: byte
  using that
  by (cases "unat a = 0xF0"; cases "unat a = 0xF4")
    (auto simp: utf8_step_def utf8_lead_def byte_order upt_small continuation_unat)

lemma utf8_step_encode:
  assumes "scalar_value c"
  shows "utf8_step (utf8_encode c @ rest) = Some (length (utf8_encode c))"
proof -
  have r: "c < 0x110000" "c < 0xD800 \<or> 0xE000 \<le> c" using assms by (auto simp: scalar_value_def)
  consider "c < 0x80" | "0x80 \<le> c" "c < 0x800" | "0x800 \<le> c" "c < 0x10000" | "0x10000 \<le> c" by linarith
  then show ?thesis
  proof cases
    case 1
    then show ?thesis by (simp add: utf8_encode_def utf8_step_1)
  next
    case 2
    then have "2 \<le> c div 64" "c div 64 < 32" by auto
    moreover have "c mod 64 < 64" by simp
    ultimately have "utf8_step (of_nat (0xC0 + c div 64) # of_nat (0x80 + c mod 64) # rest) = Some 2"
      by (intro utf8_step_2) auto
    then show ?thesis using 2 by (simp add: utf8_encode_def)
  next
    case 3
    then have a: "c div 4096 < 16" by auto
    have b: "c div 4096 = 0 \<longrightarrow> 32 \<le> c div 64 mod 64" using 3 by auto
    have "c div 4096 = c div 64 div 64" by (simp add: div_mult2_eq [symmetric])
    moreover have "c div 64 = 64 * (c div 64 div 64) + c div 64 mod 64" by simp
    moreover have "c < 0xD800 \<longrightarrow> c div 64 < 864" "c div 4096 = 13 \<longrightarrow> c < 0xE000" by auto
    ultimately have d: "c div 4096 = 13 \<longrightarrow> c div 64 mod 64 < 32" using r(2) by linarith
    have m: "c div 64 mod 64 < 64" "c mod 64 < 64" by simp_all
    have "utf8_step (of_nat (0xE0 + c div 4096) # of_nat (0x80 + c div 64 mod 64) # of_nat (0x80 + c mod 64) # rest) = Some 3"
      by (rule utf8_step_3) (use a b d m in auto)
    then show ?thesis using 3 by (simp add: utf8_encode_def)
  next
    case 4
    then have a: "c div 262144 < 5" using r by auto
    have b: "c div 262144 = 0 \<longrightarrow> 16 \<le> c div 4096 mod 64" using 4 by auto
    have "c div 262144 = c div 4096 div 64" by (simp add: div_mult2_eq [symmetric])
    moreover have "c div 4096 = 64 * (c div 4096 div 64) + c div 4096 mod 64" by simp
    moreover have "c div 4096 < 272" using r(1) by auto
    ultimately have d: "c div 262144 = 4 \<longrightarrow> c div 4096 mod 64 < 16" by linarith
    have m: "c div 4096 mod 64 < 64" "c div 64 mod 64 < 64" "c mod 64 < 64" by simp_all
    have "utf8_step (of_nat (0xF0 + c div 262144) # of_nat (0x80 + c div 4096 mod 64) # of_nat (0x80 + c div 64 mod 64) #
        of_nat (0x80 + c mod 64) # rest) = Some 4"
      by (rule utf8_step_4) (use a b d m in auto)
    then show ?thesis using 4 by (simp add: utf8_encode_def)
  qed
qed

lemma utf8_lead_cases:
  assumes "utf8_lead a = Some (n, lo, hi)"
  obtains "n = 2" "0xC2 \<le> unat a" "unat a \<le> 0xDF" "lo = 0x80" "hi = 0xBF"
  | "n = 3" "0xE0 \<le> unat a" "unat a \<le> 0xEF" "lo = (if unat a = 0xE0 then 0xA0 else 0x80)" "hi = (if unat a = 0xED then 0x9F else 0xBF)"
  | "n = 4" "0xF0 \<le> unat a" "unat a \<le> 0xF4" "lo = (if unat a = 0xF0 then 0x90 else 0x80)" "hi = (if unat a = 0xF4 then 0x8F else 0xBF)"
  using assms by (auto simp: utf8_lead_def byte_order split: if_splits)

lemma byte_above:
  assumes "k \<le> unat (b :: byte)"
  obtains x where "b = of_nat (k + x)" "unat b = k + x"
proof
  show "b = of_nat (k + (unat b - k))" "unat b = k + (unat b - k)" using assms by simp_all
qed

lemma digits64:
  assumes "z < (64::nat)"
  shows "(q * 64 + z) div 64 = q" "(q * 64 + z) mod 64 = z" "(q * 64 + z) div 4096 = q div 64" "(q * 64 + z) div 262144 = q div 4096"
proof -
  show d: "(q * 64 + z) div 64 = q" "(q * 64 + z) mod 64 = z" using assms by simp_all
  show "(q * 64 + z) div 4096 = q div 64" using div_mult2_eq [of "q * 64 + z" 64 64] d by simp
  show "(q * 64 + z) div 262144 = q div 4096" using div_mult2_eq [of "q * 64 + z" 64 4096] d by simp
qed

lemma utf8_step_decode:
  assumes "utf8_step data = Some n"
  shows "\<exists>c. scalar_value c \<and> take n data = utf8_encode c"
proof -
  obtain a rest where data: "data = a # rest" using assms by (auto simp: utf8_step_def split: list.splits)
  show ?thesis
  proof (cases "a < 0x80")
    case True
    then have "n = 1" "unat a < 0x80" using assms by (simp_all add: utf8_step_def data byte_order)
    then show ?thesis by (intro exI [of _ "unat a"]) (simp add: data scalar_value_def utf8_encode_def)
  next
    case False
    then obtain lo hi where l: "utf8_lead a = Some (n, lo, hi)" "n \<le> length data" "lo \<le> data ! 1" "data ! 1 \<le> hi"
      "list_all (\<lambda>k. data ! k AND 0xC0 = 0x80) [2..<n]"
      using assms by (auto simp: utf8_step_def data not_less split: option.splits if_splits)
    from l(1) show ?thesis
    proof (cases rule: utf8_lead_cases)
      case 1
      then obtain b r where r: "rest = b # r" using l(2) by (cases rest) (auto simp: data)
      have "0x80 \<le> unat b" "unat b \<le> 0xBF" using l(3,4) 1 by (simp_all add: data r byte_order)
      moreover obtain x where x: "a = of_nat (0xC0 + x)" "unat a = 0xC0 + x" using byte_above [of "0xC0" a] 1 by auto
      moreover obtain y where y: "b = of_nat (0x80 + y)" "unat b = 0x80 + y" using byte_above [of "0x80" b] calculation(1) by auto
      ultimately have "y < 64" "2 \<le> x" "x < 32" using 1 by simp_all
      then show ?thesis
        using 1 x(1) y(1) by (intro exI [of _ "x * 64 + y"]) (simp add: data r scalar_value_def utf8_encode_def digits64)
    next
      case 2
      then obtain b c r where r: "rest = b # c # r" using l(2) by (cases rest; cases "tl rest") (auto simp: data)
      have b: "(if unat a = 0xE0 then 0xA0 else 0x80) \<le> unat b" "unat b \<le> (if unat a = 0xED then 0x9F else 0xBF)"
        using l(3,4) 2 by (simp_all add: data r byte_order split: if_splits)
      have c: "0x80 \<le> unat c" "unat c < 0xC0" using l(5) 2 by (simp_all add: data r upt_small continuation_iff)
      obtain x where x: "a = of_nat (0xE0 + x)" "unat a = 0xE0 + x" using byte_above [of "0xE0" a] 2 by auto
      obtain y where y: "b = of_nat (0x80 + y)" "unat b = 0x80 + y" using byte_above [of "0x80" b] b(1) by (auto split: if_splits)
      obtain z where z: "c = of_nat (0x80 + z)" "unat c = 0x80 + z" using byte_above [of "0x80" c] c(1) by auto
      have r1: "x < 16" "y < 64" "z < 64" "x = 0 \<longrightarrow> 32 \<le> y" "x = 13 \<longrightarrow> y < 32"
        using 2 b c by (auto simp: x(2) y(2) z(2) split: if_splits)
      define v where "v = (x * 64 + y) * 64 + z"
      have v: "v div 4096 = x" "v div 64 mod 64 = y" "v mod 64 = z" unfolding v_def using r1(2,3) by (simp_all only: digits64)
      have "0x800 \<le> v" "v < 0x10000" "\<not> (0xD800 \<le> v \<and> v \<le> 0xDFFF)"
        using r1 by (cases "x = 0"; cases "x = 13"; cases "x < 13"; simp add: v_def)+
      then show ?thesis
        using 2 x(1) y(1) z(1) v by (intro exI [of _ v]) (simp add: data r scalar_value_def utf8_encode_def)
    next
      case 3
      then obtain b c d r where r: "rest = b # c # d # r" using l(2) by (cases rest; cases "tl rest"; cases "tl (tl rest)") (auto simp: data)
      have b: "(if unat a = 0xF0 then 0x90 else 0x80) \<le> unat b" "unat b \<le> (if unat a = 0xF4 then 0x8F else 0xBF)"
        using l(3,4) 3 by (simp_all add: data r byte_order split: if_splits)
      have c: "0x80 \<le> unat c" "unat c < 0xC0" "0x80 \<le> unat d" "unat d < 0xC0"
        using l(5) 3 by (simp_all add: data r upt_small continuation_iff)
      obtain x where x: "a = of_nat (0xF0 + x)" "unat a = 0xF0 + x" using byte_above [of "0xF0" a] 3 by auto
      obtain y where y: "b = of_nat (0x80 + y)" "unat b = 0x80 + y" using byte_above [of "0x80" b] b(1) by (auto split: if_splits)
      obtain z where z: "c = of_nat (0x80 + z)" "unat c = 0x80 + z" using byte_above [of "0x80" c] c(1) by auto
      obtain w where w: "d = of_nat (0x80 + w)" "unat d = 0x80 + w" using byte_above [of "0x80" d] c(3) by auto
      have r1: "x < 5" "y < 64" "z < 64" "w < 64" "x = 0 \<longrightarrow> 16 \<le> y" "x = 4 \<longrightarrow> y < 16"
        using 3 b c by (auto simp: x(2) y(2) z(2) w(2) split: if_splits)
      define v where "v = ((x * 64 + y) * 64 + z) * 64 + w"
      have v: "v div 262144 = x" "v div 4096 mod 64 = y" "v div 64 mod 64 = z" "v mod 64 = w" unfolding v_def using r1(2,3,4) by (simp_all only: digits64)
      have "0x10000 \<le> v" "v < 0x110000"
        using r1 by (cases "x = 0"; cases "x = 4"; simp add: v_def)+
      then show ?thesis
        using 3 x(1) y(1) z(1) w(1) v by (intro exI [of _ v]) (simp add: data r scalar_value_def utf8_encode_def)
    qed
  qed
qed

lemma utf8_encode_nonempty [simp]: "utf8_encode c \<noteq> []" "0 < length (utf8_encode c)"
  by (auto simp: utf8_encode_def)

text \<open>
  C24. The UTF-8 validator accepts exactly the encodings of sequences of Unicode scalar values: nothing
  overlong, no surrogates, nothing above U+10FFFF and no truncated sequence passes, and nothing well
  formed is refused.
\<close>

theorem validate_utf8_exact:
  "validate_utf8 data \<longleftrightarrow> (\<exists>cs. list_all scalar_value cs \<and> data = concat (map utf8_encode cs))"
proof
  show "\<exists>cs. list_all scalar_value cs \<and> data = concat (map utf8_encode cs)" if "validate_utf8 data"
    using that
  proof (induction "length data" arbitrary: data rule: less_induct)
    case less
    show ?case
    proof (cases "data = []")
      case False
      then obtain n where n: "utf8_step data = Some n" "validate_utf8 (drop n data)"
        using less.prems validate_utf8_step [of data] by blast
      obtain c where c: "scalar_value c" "take n data = utf8_encode c" using utf8_step_decode [OF n(1)] by blast
      then have "0 < n" using utf8_encode_nonempty [of c] by (cases n) auto
      then have "length (drop n data) < length data" using False by (cases data) auto
      then obtain cs where cs: "list_all scalar_value cs" "drop n data = concat (map utf8_encode cs)" using less.hyps n(2) by blast
      have "data = concat (map utf8_encode (c # cs))" using c(2) cs(2) append_take_drop_id [of n data] by simp
      then show ?thesis using c(1) cs(1) by (intro exI [of _ "c # cs"]) simp
    qed (rule exI [of _ "[]"], simp)
  qed
  show "validate_utf8 data" if ex: "\<exists>cs. list_all scalar_value cs \<and> data = concat (map utf8_encode cs)"
  proof -
    obtain cs where "list_all scalar_value cs" "data = concat (map utf8_encode cs)" using ex by blast
    then show ?thesis
    proof (induction cs arbitrary: data)
      case (Cons c cs)
      then show ?case using utf8_step_encode [of c] validate_utf8_step [of data] by simp
    qed (simp add: validate_utf8.simps)
  qed
qed

section \<open>Frames read back\<close>

definition wire_opcode :: "OpCode \<Rightarrow> bool" where
  "wire_opcode op \<longleftrightarrow> op \<in> {CONTINUATION, TEXT, BINARY, CLOSE, PING, PONG}"

lemma frame_byte0:
  fixes f r
  assumes "wire_opcode op"
  defines "b \<equiv> (if r then (if f then opcode_byte op OR 0x80 else opcode_byte op) OR 0x40
      else if f then opcode_byte op OR 0x80 else opcode_byte op)"
  shows "(b AND 0x80 \<noteq> 0) = f" "(b AND 0x40 \<noteq> 0) = r" "b AND 0x20 = 0" "b AND 0x10 = 0" "opcode_of (b AND 0x0F) = op"
  using assms(1) by (cases f; cases r; auto simp: b_def wire_opcode_def opcode_of_def)+

text \<open>The length field of a frame without a mask.\<close>

definition length_field :: "nat \<Rightarrow> byte list" where
  "length_field n = (if n < 126 then [of_nat n] else if n \<le> 0xFFFF then 126 # be_bytes 2 n else 127 # be_bytes 8 n)"

definition server_header :: "OpCode \<Rightarrow> bool \<Rightarrow> bool \<Rightarrow> nat \<Rightarrow> FrameHeader" where
  "server_header op f r n = \<lparr>fin = f, rsv1 = r, rsv2 = False, rsv3 = False, opcode = op, has_mask = False,
     payload_length = of_nat n, masking_key = [0, 0, 0, 0]\<rparr>"

lemma build_frame_shape:
  "build_frame op payload f r out = out @
     (if r then (if f then opcode_byte op OR 0x80 else opcode_byte op) OR 0x40
      else if f then opcode_byte op OR 0x80 else opcode_byte op) # length_field (length payload) @ payload"
  by (simp add: build_frame_def length_field_def Let_def)

lemma len7_small:
  assumes "n < 128"
  shows "(of_nat n :: byte) AND 0x80 = 0" "(of_nat n :: byte) AND 0x7F = of_nat n"
proof -
  have m: "unat ((of_nat n :: byte) AND 0x7F) = unat (of_nat n :: byte) mod 2 ^ 7" by (rule unat_and_low) simp
  then show e: "(of_nat n :: byte) AND 0x7F = of_nat n" using assms by (intro word_eq_of_unat) simp
  have "(of_nat n :: byte) AND 0x80 = (of_nat n AND 0x7F) AND 0x80" by (simp only: e)
  also have "\<dots> = of_nat n AND (0x7F AND 0x80)" by (rule and.assoc)
  finally show "(of_nat n :: byte) AND 0x80 = 0" by simp
qed

lemma parse_header_built:
  assumes "wire_opcode op" "n < 2 ^ 63"
  shows "parse_header ((if r then (if f then opcode_byte op OR 0x80 else opcode_byte op) OR 0x40
      else if f then opcode_byte op OR 0x80 else opcode_byte op) # length_field n @ rest) =
    WsOk (server_header op f r n, 1 + length (length_field n))"
proof -
  define b where "b = (if r then (if f then opcode_byte op OR 0x80 else opcode_byte op) OR 0x40
      else if f then opcode_byte op OR 0x80 else opcode_byte op)"
  note b = frame_byte0 [OF assms(1), of r f, folded b_def]
  consider "n < 126" | "126 \<le> n" "n \<le> 0xFFFF" | "0xFFFF < n" by linarith
  then show ?thesis unfolding b_def [symmetric]
  proof cases
    case 1
    have "(of_nat n :: byte) < 126" using 1 by (simp add: word_less_nat_alt)
    moreover have "(ucast (of_nat n :: byte) :: u64) = of_nat n" using 1 by (intro word_eq_of_unat) (simp add: unat_of_nat)
    ultimately show "parse_header (b # length_field n @ rest) = WsOk (server_header op f r n, 1 + length (length_field n))"
      using 1 b len7_small [of n] by (simp add: parse_header_def length_field_def parse_mask_def server_header_def Let_def)
  next
    case 2
    have "push_bit 8 (ucast (of_nat (n div 256) :: byte)) OR ucast (of_nat n :: byte) = (of_nat n :: u64)"
      using 2 unat_be_word [of "[of_nat (n div 256), of_nat n]", where 'a = 64]
      by (intro word_eq_of_unat) (simp add: unat_of_nat)
    then show "parse_header (b # length_field n @ rest) = WsOk (server_header op f r n, 1 + length (length_field n))"
      using 2 b by (simp add: parse_header_def length_field_def parse_mask_def server_header_def Let_def)
  next
    case 3
    have u: "unat (shift_in_bytes 0 (be_bytes 8 n)) = n"
      using assms(2) by (simp add: unat_shift_in_bytes_0 be_nat_be_bytes del: be_bytes_numeral)
    then have v: "shift_in_bytes 0 (be_bytes 8 n) = of_nat n" using assms(2) by (intro word_eq_of_unat) (simp add: unat_of_nat)
    have "drop_bit 63 (of_nat n :: u64) = 0" using assms(2) u v by (intro word_eq_of_unat) (simp add: word_nat)
    then show "parse_header (b # length_field n @ rest) = WsOk (server_header op f r n, 1 + length (length_field n))"
      using 3 b v by (simp add: parse_header_def length_field_def parse_mask_def server_header_def Let_def del: be_bytes_numeral)
  qed
qed

text \<open>
  C37. Every frame the server builds is parsed back: opcode, FIN and RSV1 bits, length in all three
  encodings and the payload, whatever follows it in the buffer; a close frame with a valid code and a
  UTF-8 reason gives back the code and the reason.
\<close>

theorem ws_frame_roundtrip:
  assumes "wire_opcode op" "length payload < 2 ^ 63" "is_valid_close_code code" "validate_utf8 reason"
  shows "parse_frame (build_frame op payload f r [] @ rest) =
      WsOk (server_header op f r (length payload), payload, length (build_frame op payload f r [])) \<and>
    (\<exists>body. build_close_frame code reason [] = build_frame CLOSE body True False [] \<and>
      parse_close_payload body = (True, code, reason))"
proof
  have u: "unat (of_nat (length payload) :: u64) = length payload" using assms(2) by (simp add: unat_of_nat)
  show "parse_frame (build_frame op payload f r [] @ rest) =
      WsOk (server_header op f r (length payload), payload, length (build_frame op payload f r []))"
    using parse_header_built [OF assms(1,2), of r f "payload @ rest"] u
    by (simp add: parse_frame_def build_frame_shape server_header_def Let_def)
  have c: "push_bit 8 (ucast (of_nat (unat code div 256) :: byte)) OR ucast (of_nat (unat code) :: byte) = code"
    using unat_be_word [of "[of_nat (unat code div 256), of_nat (unat code)]", where 'a = 16] u16_less [of code]
    by (intro word_eq_of_unat) (simp add: unat_ucast_mod)
  have "parse_close_payload (be_bytes 2 (unat code) @ reason) = (True, code, reason)"
    using assms(3,4) c by (simp add: parse_close_payload_def)
  moreover have "build_close_frame code reason [] = build_frame CLOSE (be_bytes 2 (unat code) @ reason) True False []"
    by (simp add: build_close_frame_def Let_def del: be_bytes_numeral)
  ultimately show "\<exists>body. build_close_frame code reason [] = build_frame CLOSE body True False [] \<and>
      parse_close_payload body = (True, code, reason)" by blast
qed

theorem ws_frame_roundtrip_witness:
  "parse_frame (build_frame TEXT [0x68, 0x69] True False [] @ [0xFF]) = WsOk (server_header TEXT True False 2, [0x68, 0x69], 4)"
proof -
  have two: "server_header TEXT True False (Suc (Suc 0)) = server_header TEXT True False 2" by (simp add: numeral_2_eq_2)
  have "validate_utf8 [0x68]" "is_valid_close_code 1000" by code_simp+
  then show ?thesis
    using ws_frame_roundtrip [of TEXT "[0x68, 0x69]" 1000 "[0x68]" True False "[0xFF]"]
    by (simp add: wire_opcode_def build_frame_shape length_field_def two)
qed

section \<open>Subprotocol selection\<close>

text \<open>The reference: split the header value at commas, trim the pieces, drop the empty ones.\<close>

function segments :: "string \<Rightarrow> string list" where
  "segments s = takeWhile (\<lambda>c. c \<noteq> CHR '','') s #
     (case dropWhile (\<lambda>c. c \<noteq> CHR '','') s of [] \<Rightarrow> [] | _ # r \<Rightarrow> segments r)"
  by auto
termination
proof (relation "measure length")
  fix s r :: string and c assume "dropWhile (\<lambda>c. c \<noteq> CHR '','') s = c # r"
  then show "(r, s) \<in> measure length" using length_dropWhile_le [of "\<lambda>c. c \<noteq> CHR '',''" s] by simp
qed simp

declare segments.simps [simp del]

definition trim :: "string \<Rightarrow> string" where
  "trim s = rev (dropWhile is_blank (rev (dropWhile is_blank s)))"

definition offered_tokens :: "string \<Rightarrow> string list" where
  "offered_tokens s = filter (\<lambda>t. t \<noteq> []) (map trim (segments s))"

lemma blank_no_comma: "is_blank c \<Longrightarrow> c \<noteq> CHR '',''" "\<not> is_blank CHR '',''"
  by (auto simp: is_blank_def)

lemma skip_blanks_segment:
  "takeWhile (\<lambda>c. c \<noteq> CHR '','') (dropWhile is_blank s) = dropWhile is_blank (takeWhile (\<lambda>c. c \<noteq> CHR '','') s)"
  "dropWhile (\<lambda>c. c \<noteq> CHR '','') (dropWhile is_blank s) = dropWhile (\<lambda>c. c \<noteq> CHR '','') s"
  by (induction s) (simp_all add: blank_no_comma)

lemma offered_tokens_step:
  "offered_tokens s =
     (let tok = trim (takeWhile (\<lambda>c. c \<noteq> CHR '','') s); after = dropWhile (\<lambda>c. c \<noteq> CHR '','') s;
          more = (if after = [] then [] else offered_tokens (tl after))
      in if tok \<noteq> [] then tok # more else more)"
  unfolding offered_tokens_def segments.simps [of s]
  by (cases "dropWhile (\<lambda>c. c \<noteq> CHR '','') s") (simp_all only: Let_def list.case list.map filter.simps list.sel if_True if_False simp_thms list.distinct)

lemma offered_tokens_Nil [simp]: "offered_tokens [] = []"
  by (subst offered_tokens_step) (simp add: trim_def)

lemma subprotocol_loop_tokens:
  "subprotocol_loop rest first =
     (if ''mqtt'' \<in> set (offered_tokens rest) then ''mqtt''
      else if first \<noteq> [] then first else case offered_tokens rest of [] \<Rightarrow> [] | t # _ \<Rightarrow> t)"
proof (induction rest first rule: subprotocol_loop.induct)
  case (1 rest first)
  show ?case
  proof (cases "rest = []")
    case True
    then show ?thesis by (simp add: subprotocol_loop.simps [of "[]"])
  next
    case False
    define tok where "tok = trim (takeWhile (\<lambda>c. c \<noteq> CHR '','') rest)"
    define after where "after = dropWhile (\<lambda>c. c \<noteq> CHR '','') rest"
    define more where "more = (if after = [] then [] else offered_tokens (tl after))"
    have t: "rev (dropWhile is_blank (rev (takeWhile (\<lambda>c. c \<noteq> CHR '','') (dropWhile is_blank rest)))) = tok"
      by (simp only: skip_blanks_segment tok_def trim_def)
    have a: "dropWhile (\<lambda>c. c \<noteq> CHR '','') (dropWhile is_blank rest) = after" by (simp only: skip_blanks_segment after_def)
    have o: "offered_tokens rest = (if tok \<noteq> [] then tok # more else more)"
      by (subst offered_tokens_step) (simp only: Let_def tok_def after_def more_def)
    have m: "offered_tokens (if after \<noteq> [] then tl after else after) = more" by (simp add: more_def)
    have l: "subprotocol_loop rest first = (if tok = ''mqtt'' then ''mqtt''
        else subprotocol_loop (if after \<noteq> [] then tl after else after) (if tok \<noteq> [] \<and> first = [] then tok else first))"
      using False by (subst subprotocol_loop.simps) (simp only: Let_def t a if_False)
    show ?thesis
    proof (cases "tok = ''mqtt''")
      case True
      then show ?thesis by (simp add: l o)
    next
      case n: False
      have "subprotocol_loop (if after \<noteq> [] then tl after else after) (if tok \<noteq> [] \<and> first = [] then tok else first) =
         (if ''mqtt'' \<in> set more then ''mqtt''
          else if (if tok \<noteq> [] \<and> first = [] then tok else first) \<noteq> [] then (if tok \<noteq> [] \<and> first = [] then tok else first)
          else case more of [] \<Rightarrow> [] | t # _ \<Rightarrow> t)"
        using 1 [OF False refl refl refl refl refl] n by (simp only: t a m not_False_eq_True)
      then show ?thesis using n by (simp add: l o)
    qed
  qed
qed

text \<open>
  Subprotocol selection: the scan over the header value always ends and returns \<open>mqtt\<close> when it is among
  the comma separated, trimmed, non-empty tokens the client offered, otherwise the first of them, and
  the empty string when there is none.
\<close>

lemma select_subprotocol_spec:
  "select_subprotocol offered =
     (if ''mqtt'' \<in> set (offered_tokens offered) then ''mqtt''
      else case offered_tokens offered of [] \<Rightarrow> [] | t # _ \<Rightarrow> t)"
  by (simp add: select_subprotocol_def subprotocol_loop_tokens)

end
