(* ===== verification/Ws_Conn.thy ===== *)
theory Ws_Conn
  imports Ws_Parser "HOL-Library.Monad_Syntax"
begin

text \<open>
  The WebSocket connection (\<^verbatim>\<open>include/boltapi/http/websocket.h\<close>, \<^verbatim>\<open>src/http/websocket.cpp\<close>): sending with
  fragmentation, the incremental receive path and the close handshake. The callbacks are recorded as
  events in the order they are invoked; the frames queued for the socket are the send queue. A function
  that can loop forever (fragmentation with a fragment size of 0) returns an option, \<open>None\<close> meaning that
  it does not return. The ping and pong time stamps, which nothing reads, are left out.
\<close>

section \<open>State\<close>

record WsConfig =
  enable_compression :: bool
  max_message_size :: nat
  ping_interval_ms :: nat
  pong_timeout_ms :: nat
  auto_fragment :: bool
  fragment_size :: nat

definition default_config :: WsConfig where
  "default_config = \<lparr>enable_compression = True, max_message_size = 16 * 1024 * 1024, ping_interval_ms = 30000,
     pong_timeout_ms = 5000, auto_fragment = True, fragment_size = 65536\<rparr>"

datatype ws_event = OnText "byte list" | OnBinary "byte list" | OnClose u16 "byte list" | OnError string | OnPing | OnPong

record WsConn =
  config :: WsConfig
  is_open :: bool
  closing :: bool
  messages_sent :: nat
  messages_received :: nat
  bytes_sent :: nat
  bytes_received :: nat
  frame :: FrameHeader
  in_frame :: bool
  frame_remaining :: nat
  frame_offset :: nat
  ctrl_buf :: "byte list"
  ctrl_len :: nat
  fragment_buffer :: "byte list"
  fragment_opcode :: OpCode
  in_fragment :: bool
  send_queue :: "byte list list"
  events :: "ws_event list"

definition kMaxControlPayload :: nat where "kMaxControlPayload = 125"

definition frame_header_init :: FrameHeader where
  "frame_header_init = \<lparr>fin = False, rsv1 = False, rsv2 = False, rsv3 = False, opcode = CONTINUATION, has_mask = False,
     payload_length = 0, masking_key = [0, 0, 0, 0]\<rparr>"

text \<open>A new connection; the control buffer has no defined contents.\<close>

definition ws_new :: "WsConfig \<Rightarrow> byte list \<Rightarrow> WsConn" where
  "ws_new cfg buf = \<lparr>config = cfg, is_open = True, closing = False, messages_sent = 0, messages_received = 0, bytes_sent = 0,
     bytes_received = 0, frame = frame_header_init, in_frame = False, frame_remaining = 0, frame_offset = 0, ctrl_buf = buf, ctrl_len = 0,
     fragment_buffer = [], fragment_opcode = CONTINUATION, in_fragment = False, send_queue = [], events = []\<rparr>"

definition emit :: "ws_event \<Rightarrow> WsConn \<Rightarrow> WsConn" where
  "emit e st = st\<lparr>events := events st @ [e]\<rparr>"

section \<open>Sending\<close>

partial_function (option) fragment_loop ::
    "nat \<Rightarrow> OpCode \<Rightarrow> byte list \<Rightarrow> nat \<Rightarrow> bool \<Rightarrow> byte list \<Rightarrow> byte list option" where
  "fragment_loop fsize op data offset is_first out =
     (if offset < length data then
        (let chunk_size = min fsize (length data - offset);
             is_last = (offset + chunk_size = length data);
             frame_opcode = (if is_first then op else CONTINUATION);
             chunk_frame = build_frame frame_opcode (take chunk_size (drop offset data)) is_last False []
         in fragment_loop fsize op data (offset + chunk_size) False (out @ chunk_frame))
      else Some out)"

definition send_frame :: "OpCode \<Rightarrow> byte list \<Rightarrow> bool \<Rightarrow> WsConn \<Rightarrow> WsConn option" where
  "send_frame op data is_fin st = do {
     out \<leftarrow> (if auto_fragment (config st) \<and> length data > fragment_size (config st)
           then fragment_loop (fragment_size (config st)) op data 0 True []
           else Some (build_frame op data is_fin False []));
     Some (st\<lparr>send_queue := send_queue st @ [out], bytes_sent := bytes_sent st + length out,
              messages_sent := (if is_fin then messages_sent st + 1 else messages_sent st)\<rparr>)
   }"

text \<open>The public senders: the return code and the connection.\<close>

definition send_text :: "byte list \<Rightarrow> WsConn \<Rightarrow> (int \<times> WsConn) option" where
  "send_text message st =
     (if \<not> is_open st \<or> closing st then Some (-1, st)
      else if \<not> validate_utf8 message then Some (-2, st)
      else do { st \<leftarrow> send_frame TEXT message True st; Some (0, st) })"

definition send_binary :: "byte list \<Rightarrow> WsConn \<Rightarrow> (int \<times> WsConn) option" where
  "send_binary data st =
     (if \<not> is_open st \<or> closing st then Some (-1, st) else do { st \<leftarrow> send_frame BINARY data True st; Some (0, st) })"

definition send_ping :: "byte list \<Rightarrow> WsConn \<Rightarrow> (int \<times> WsConn) option" where
  "send_ping data st =
     (if \<not> is_open st \<or> closing st then Some (-1, st) else do { st \<leftarrow> send_frame PING data True st; Some (0, st) })"

definition send_pong :: "byte list \<Rightarrow> WsConn \<Rightarrow> (int \<times> WsConn) option" where
  "send_pong data st =
     (if \<not> is_open st \<or> closing st then Some (-1, st) else do { st \<leftarrow> send_frame PONG data True st; Some (0, st) })"

definition ws_close :: "u16 \<Rightarrow> byte list \<Rightarrow> WsConn \<Rightarrow> WsConn" where
  "ws_close code reason st =
     (if \<not> is_open st \<or> closing st then st
      else
        let st = st\<lparr>closing := True\<rparr>;
            out = (if code = NO_STATUS then build_frame CLOSE [] True False [] else build_close_frame code reason []);
            st = st\<lparr>send_queue := send_queue st @ [out]\<rparr>;
            st = st\<lparr>is_open := False\<rparr>
        in emit (OnClose code reason) st)"

definition fail :: "u16 \<Rightarrow> string \<Rightarrow> WsConn \<Rightarrow> WsConn" where
  "fail code reason st =
     (let st = emit (OnError reason) st;
          st = ws_close code (map (\<lambda>c. of_nat (of_char c)) reason) st
      in st\<lparr>is_open := False, in_frame := False\<rparr>)"

definition has_pending_output :: "WsConn \<Rightarrow> bool" where
  "has_pending_output st = (send_queue st \<noteq> [])"

definition get_pending_output :: "WsConn \<Rightarrow> byte list option" where
  "get_pending_output st = (if send_queue st = [] then None else Some (hd (send_queue st)))"

definition pop_pending_output :: "WsConn \<Rightarrow> WsConn" where
  "pop_pending_output st = (if send_queue st \<noteq> [] then st\<lparr>send_queue := tl (send_queue st)\<rparr> else st)"

section \<open>Receiving\<close>

definition is_control :: "OpCode \<Rightarrow> bool" where
  "is_control op = (opcode_byte op AND 0x08 \<noteq> 0)"

definition check_header :: "FrameHeader \<Rightarrow> WsConn \<Rightarrow> u16" where
  "check_header h st =
     (let op = opcode_byte (opcode h)
      in if rsv1 h \<or> rsv2 h \<or> rsv3 h then 1002
         else if op > 0x2 \<and> (op < 0x8 \<or> op > 0xA) then 1002
         else if \<not> has_mask h then 1002
         else if is_control (opcode h) then
           (if \<not> fin h \<or> unat (payload_length h) > kMaxControlPayload then 1002 else 0)
         else if opcode h = CONTINUATION \<and> \<not> in_fragment st then 1002
         else if opcode h \<noteq> CONTINUATION \<and> in_fragment st then 1002
         else if unat (payload_length h) > max_message_size (config st) \<or>
                 length (fragment_buffer st) + unat (payload_length h) > max_message_size (config st) then 1009
         else 0)"

definition handle_message :: "OpCode \<Rightarrow> byte list \<Rightarrow> WsConn \<Rightarrow> WsConn" where
  "handle_message op data st =
     (let st = st\<lparr>messages_received := messages_received st + 1\<rparr>
      in if op = TEXT then
           (if \<not> validate_utf8 data
            then ws_close INVALID_PAYLOAD (map (\<lambda>c. of_nat (of_char c)) ''Invalid UTF-8'')
                   (emit (OnError ''Invalid UTF-8 in text message'') st)
            else emit (OnText data) st)
         else if op = BINARY then emit (OnBinary data) st
         else st)"

text \<open>\<^verbatim>\<open>reason.c_str()\<close> ends at the first zero byte.\<close>

definition c_str :: "byte list \<Rightarrow> byte list" where
  "c_str s = takeWhile (\<lambda>b. b \<noteq> 0) s"

definition handle_control_frame :: "OpCode \<Rightarrow> byte list \<Rightarrow> WsConn \<Rightarrow> WsConn option" where
  "handle_control_frame op data st =
     (if op = PING then do { (_, st) \<leftarrow> send_pong data st; Some (emit OnPing st) }
      else if op = PONG then Some (emit OnPong st)
      else if op = CLOSE then
        (case parse_close_payload data of (ok, code, reason) \<Rightarrow>
           if \<not> ok then Some (fail code ''Invalid close frame'' st)
           else
             let st = (if \<not> closing st then ws_close code (c_str reason) st else st)
             in Some (st\<lparr>is_open := False\<rparr>))
      else Some st)"

definition finish_frame :: "WsConn \<Rightarrow> WsConn option" where
  "finish_frame st =
     (let st = st\<lparr>in_frame := False\<rparr>
      in if is_control (opcode (frame st)) then handle_control_frame (opcode (frame st)) (take (ctrl_len st) (ctrl_buf st)) st
         else if \<not> fin (frame st) then Some st
         else
           let st = st\<lparr>in_fragment := False\<rparr>;
               st = handle_message (fragment_opcode st) (fragment_buffer st) st
           in Some (st\<lparr>fragment_buffer := []\<rparr>))"

text \<open>Both receive steps return the code (0 or -1), the bytes consumed and the connection.\<close>

definition begin_frame :: "byte list \<Rightarrow> WsConn \<Rightarrow> (int \<times> nat \<times> WsConn) option" where
  "begin_frame data st =
     (let r = parse_header data
      in if r = WsNeedMore then Some (-1, 0, st)
         else
           let err = (case r of WsOk (h, _) \<Rightarrow> check_header h st | _ \<Rightarrow> 1002)
           in if err \<noteq> 0
              then Some (0, length data, fail err (if err = 1009 then ''Message too big'' else ''Protocol error'') st)
              else case r of
                WsOk (h, hlen) \<Rightarrow>
                  let st = st\<lparr>frame := h, in_frame := True, frame_offset := 0, frame_remaining := unat (payload_length h)\<rparr>;
                      st = (if is_control (opcode h) then st\<lparr>ctrl_len := 0\<rparr>
                            else if opcode h \<noteq> CONTINUATION
                            then st\<lparr>in_fragment := True, fragment_opcode := opcode h, fragment_buffer := []\<rparr>
                            else st);
                      st = st\<lparr>bytes_received := bytes_received st + hlen\<rparr>
                  in do { st \<leftarrow> (if frame_remaining st = 0 then finish_frame st else Some st); Some (0, hlen, st) }
              | _ \<Rightarrow> Some (-1, 0, st))"

definition handle_frame :: "byte list \<Rightarrow> WsConn \<Rightarrow> (int \<times> nat \<times> WsConn) option" where
  "handle_frame data st =
     (if length data = 0 then Some (-1, 0, st)
      else if \<not> is_open st then Some (0, length data, st)
      else if \<not> in_frame st then begin_frame data st
      else
        let n = min (frame_remaining st) (length data);
            piece = (if has_mask (frame st) then unmask (take n data) (masking_key (frame st)) (frame_offset st) else take n data);
            st = (if is_control (opcode (frame st))
                  then st\<lparr>ctrl_buf := put (ctrl_len st) piece (ctrl_buf st), ctrl_len := ctrl_len st + n\<rparr>
                  else st\<lparr>fragment_buffer := fragment_buffer st @ piece\<rparr>);
            st = st\<lparr>frame_offset := frame_offset st + n, frame_remaining := frame_remaining st - n,
                    bytes_received := bytes_received st + n\<rparr>
        in do { st \<leftarrow> (if frame_remaining st = 0 then finish_frame st else Some st); Some (0, n, st) })"

text \<open>The loop of \<^verbatim>\<open>feed\<close> runs at most \<open>length + 1\<close> steps.\<close>

fun feed_loop :: "nat \<Rightarrow> byte list \<Rightarrow> nat \<Rightarrow> WsConn \<Rightarrow> (nat \<times> WsConn) option" where
  "feed_loop 0 data pos st = Some (pos, st)"
| "feed_loop (Suc steps) data pos st =
     (if pos < length data then do {
        (r, used, st) \<leftarrow> handle_frame (drop pos data) st;
        if r < 0 then Some (pos, st) else feed_loop steps data (pos + used) st
      } else Some (pos, st))"

definition feed :: "byte list \<Rightarrow> WsConn \<Rightarrow> (nat \<times> WsConn) option" where
  "feed data st = feed_loop (length data + 1) data 0 st"

definition handle_frame_all :: "byte list \<Rightarrow> WsConn \<Rightarrow> (int \<times> WsConn) option" where
  "handle_frame_all data st = do { (n, st) \<leftarrow> feed data st; Some (if n = length data then 0 else -1, st) }"

section \<open>Invariant\<close>

text \<open>
  While a frame is being received some payload is outstanding, and what is outstanding fits: a control
  payload in the 125 byte buffer, a message in the configured maximum.
\<close>

definition ws_ok :: "WsConn \<Rightarrow> bool" where
  "ws_ok st \<longleftrightarrow> length (ctrl_buf st) = kMaxControlPayload \<and> length (fragment_buffer st) \<le> max_message_size (config st) \<and>
     (is_open st \<and> in_frame st \<longrightarrow> 0 < frame_remaining st \<and>
        (if is_control (opcode (frame st)) then ctrl_len st + frame_remaining st \<le> kMaxControlPayload
         else length (fragment_buffer st) + frame_remaining st \<le> max_message_size (config st)))"

text \<open>What sending, closing and delivering leave alone.\<close>

definition same_receiver :: "WsConn \<Rightarrow> WsConn \<Rightarrow> bool" where
  "same_receiver a b \<longleftrightarrow> config a = config b \<and> ctrl_buf a = ctrl_buf b \<and> ctrl_len a = ctrl_len b \<and>
     fragment_buffer a = fragment_buffer b \<and> frame_remaining a = frame_remaining b \<and> frame a = frame b \<and> in_frame a = in_frame b"

lemma send_frame_same: "send_frame op data f st = Some st' \<Longrightarrow> same_receiver st' st \<and> is_open st' = is_open st"
  by (auto simp: send_frame_def same_receiver_def bind_eq_Some_conv)

lemma ws_close_same: "same_receiver (ws_close code reason st) st"
  by (simp add: ws_close_def same_receiver_def emit_def Let_def)

lemma handle_message_same: "same_receiver (handle_message op data st) st"
  using ws_close_same [of INVALID_PAYLOAD "map (\<lambda>c. of_nat (of_char c)) ''Invalid UTF-8''"
      "emit (OnError ''Invalid UTF-8 in text message'') (st\<lparr>messages_received := messages_received st + 1\<rparr>)"]
  by (simp add: handle_message_def same_receiver_def emit_def Let_def)

lemma fail_same:
  "config (fail code reason st) = config st" "ctrl_buf (fail code reason st) = ctrl_buf st"
  "fragment_buffer (fail code reason st) = fragment_buffer st" "is_open (fail code reason st) = False"
  "in_frame (fail code reason st) = False"
  using ws_close_same [of code "map (\<lambda>c. of_nat (of_char c)) reason" "emit (OnError reason) st"]
  by (simp_all add: fail_def Let_def same_receiver_def emit_def)

lemma send_pong_same: "send_pong data st = Some (r, st1) \<Longrightarrow> same_receiver st1 st"
  using send_frame_same [of PONG data True st]
  by (auto simp: send_pong_def bind_eq_Some_conv same_receiver_def split: if_splits)

lemma handle_control_same:
  assumes "handle_control_frame op data st = Some st'"
  shows "config st' = config st \<and> ctrl_buf st' = ctrl_buf st \<and> fragment_buffer st' = fragment_buffer st \<and>
    (in_frame st' \<longrightarrow> in_frame st)"
proof -
  consider "op = PING" | "op = PONG" | "op = CLOSE" | "op \<noteq> PING" "op \<noteq> PONG" "op \<noteq> CLOSE" by blast
  then show ?thesis
  proof cases
    case 1
    then obtain r st1 where "send_pong data st = Some (r, st1)" "st' = emit OnPing st1"
      using assms by (auto simp: handle_control_frame_def bind_eq_Some_conv)
    then show ?thesis using send_pong_same [of data st r st1] by (simp add: same_receiver_def emit_def)
  next
    case 3
    obtain ok code reason where p: "parse_close_payload data = (ok, code, reason)" by (cases "parse_close_payload data")
    have "st' = fail code ''Invalid close frame'' st \<or> st' = (ws_close code (c_str reason) st)\<lparr>is_open := False\<rparr> \<or> st' = st\<lparr>is_open := False\<rparr>"
      using assms 3 by (simp add: handle_control_frame_def p Let_def split: if_splits)
    then show ?thesis
      using ws_close_same [of code "c_str reason" st] fail_same [of code "''Invalid close frame''" st]
      by (elim disjE) (simp_all add: same_receiver_def)
  qed (use assms in \<open>auto simp: handle_control_frame_def emit_def\<close>)
qed

lemma finish_frame_ok:
  assumes "ws_ok (st\<lparr>in_frame := False\<rparr>)" "finish_frame st = Some st'"
  shows "ws_ok st' \<and> \<not> in_frame st' \<and> config st' = config st"
proof (cases "is_control (opcode (frame st))")
  case True
  then have "handle_control_frame (opcode (frame st)) (take (ctrl_len st) (ctrl_buf st)) (st\<lparr>in_frame := False\<rparr>) = Some st'"
    using assms(2) by (simp add: finish_frame_def)
  then show ?thesis using handle_control_same [of _ _ "st\<lparr>in_frame := False\<rparr>" st'] assms(1) by (simp add: ws_ok_def)
next
  case False
  define st1 where "st1 = st\<lparr>in_frame := False, in_fragment := False\<rparr>"
  have "same_receiver (handle_message (fragment_opcode st1) (fragment_buffer st1) st1) st1" by (rule handle_message_same)
  then show ?thesis
    using assms False by (auto simp: finish_frame_def Let_def ws_ok_def same_receiver_def st1_def split: if_splits)
qed

section \<open>One step\<close>

text \<open>Parsing a header does not look past it.\<close>

lemma parse_mask_prefix: "parse_mask a h pos \<noteq> WsNeedMore \<Longrightarrow> parse_mask (a @ b) h pos = parse_mask a h pos"
  by (auto simp: parse_mask_def split: if_splits)

lemma parse_header_prefix:
  assumes "parse_header a \<noteq> WsNeedMore"
  shows "parse_header (a @ b) = parse_header a"
proof -
  have l: "2 \<le> length a" using assms by (auto simp: parse_header_def split: if_splits)
  then have n: "(a @ b) ! 0 = a ! 0" "(a @ b) ! 1 = a ! 1" by (auto simp: nth_append)
  define h where "h = \<lparr>fin = (a ! 0 AND 0x80 \<noteq> 0), rsv1 = (a ! 0 AND 0x40 \<noteq> 0), rsv2 = (a ! 0 AND 0x20 \<noteq> 0),
      rsv3 = (a ! 0 AND 0x10 \<noteq> 0), opcode = opcode_of (a ! 0 AND 0x0F), has_mask = (a ! 1 AND 0x80 \<noteq> 0),
      payload_length = 0, masking_key = [0, 0, 0, 0 :: byte]\<rparr>"
  have e: "parse_header x = (if a ! 1 AND 0x7F < 126 then parse_mask x (h\<lparr>payload_length := ucast (a ! 1 AND 0x7F)\<rparr>) 2
      else if a ! 1 AND 0x7F = 126 then
        (if length x < 4 then WsNeedMore else parse_mask x (h\<lparr>payload_length := push_bit 8 (ucast (x ! 2)) OR ucast (x ! 3)\<rparr>) 4)
      else if length x < 10 then WsNeedMore
      else if drop_bit 63 (shift_in_bytes 0 (take 8 (drop 2 x))) \<noteq> 0 then WsErrorLength
      else parse_mask x (h\<lparr>payload_length := shift_in_bytes 0 (take 8 (drop 2 x))\<rparr>) 10)"
    if "2 \<le> length x" "x ! 0 = a ! 0" "x ! 1 = a ! 1" for x
    using that by (simp add: parse_header_def h_def Let_def)
  have l2: "2 \<le> length (a @ b)" using l by simp
  note ea = e [OF l refl refl] and eab = e [OF l2 n]
  show ?thesis
  proof (cases "a ! 1 AND 0x7F < 126")
    case True
    then show ?thesis using assms parse_mask_prefix [of a] by (simp add: ea eab)
  next
    case False
    then show ?thesis
      using assms parse_mask_prefix [of a] unfolding ea eab
      by (cases "a ! 1 AND 0x7F = 126") (simp_all add: nth_append split: if_splits)
  qed
qed

lemma parse_mask_length: "parse_mask a h pos = WsOk (h', hlen) \<Longrightarrow> pos \<le> length a \<Longrightarrow> pos \<le> hlen \<and> hlen \<le> length a"
  by (auto simp: parse_mask_def split: if_splits)

lemma parse_header_length:
  assumes "parse_header a = WsOk (h, hlen)"
  shows "2 \<le> hlen \<and> hlen \<le> length a"
  using assms by (auto simp: parse_header_def Let_def split: if_splits dest!: parse_mask_length)

text \<open>The state after an accepted header, before an empty payload is finished.\<close>

definition begun :: "FrameHeader \<Rightarrow> nat \<Rightarrow> WsConn \<Rightarrow> WsConn" where
  "begun h hlen st =
     (let st = st\<lparr>frame := h, in_frame := True, frame_offset := 0, frame_remaining := unat (payload_length h)\<rparr>;
          st = (if is_control (opcode h) then st\<lparr>ctrl_len := 0\<rparr>
                else if opcode h \<noteq> CONTINUATION
                then st\<lparr>in_fragment := True, fragment_opcode := opcode h, fragment_buffer := []\<rparr>
                else st)
      in st\<lparr>bytes_received := bytes_received st + hlen\<rparr>)"

definition settle :: "WsConn \<Rightarrow> WsConn option" where
  "settle st = (if frame_remaining st = 0 then finish_frame st else Some st)"

definition header_error :: "(FrameHeader \<times> nat) ws_parse \<Rightarrow> WsConn \<Rightarrow> u16" where
  "header_error r st = (case r of WsOk (h, _) \<Rightarrow> check_header h st | _ \<Rightarrow> 1002)"

lemma begin_frame_cases:
  "begin_frame data st =
     (if parse_header data = WsNeedMore then Some (-1, 0, st)
      else if header_error (parse_header data) st \<noteq> 0
      then Some (0, length data, fail (header_error (parse_header data) st)
             (if header_error (parse_header data) st = 1009 then ''Message too big'' else ''Protocol error'') st)
      else case parse_header data of WsOk (h, hlen) \<Rightarrow> do { st \<leftarrow> settle (begun h hlen st); Some (0, hlen, st) } | _ \<Rightarrow> Some (-1, 0, st))"
  by (simp add: begin_frame_def header_error_def begun_def settle_def Let_def split: ws_parse.split prod.split)

text \<open>The state after a run of payload bytes, before a complete frame is finished.\<close>

definition absorbed :: "byte list \<Rightarrow> WsConn \<Rightarrow> WsConn" where
  "absorbed d st =
     (let piece = (if has_mask (frame st) then unmask d (masking_key (frame st)) (frame_offset st) else d);
          st = (if is_control (opcode (frame st))
                then st\<lparr>ctrl_buf := put (ctrl_len st) piece (ctrl_buf st), ctrl_len := ctrl_len st + length d\<rparr>
                else st\<lparr>fragment_buffer := fragment_buffer st @ piece\<rparr>)
      in st\<lparr>frame_offset := frame_offset st + length d, frame_remaining := frame_remaining st - length d,
            bytes_received := bytes_received st + length d\<rparr>)"

lemma handle_frame_cases:
  "handle_frame data st =
     (if data = [] then Some (-1, 0, st)
      else if \<not> is_open st then Some (0, length data, st)
      else if \<not> in_frame st then begin_frame data st
      else do { st' \<leftarrow> settle (absorbed (take (frame_remaining st) data) st); Some (0, min (frame_remaining st) (length data), st') })"
proof -
  have "take (min (frame_remaining st) (length data)) data = take (frame_remaining st) data" by (simp add: min_def)
  moreover have "length (take (frame_remaining st) data) = min (frame_remaining st) (length data)" by (simp add: min.commute)
  ultimately show ?thesis
    by (simp add: handle_frame_def absorbed_def settle_def Let_def del: length_take)
qed

lemma absorbed_fields [simp]:
  "is_open (absorbed d st) = is_open st" "in_frame (absorbed d st) = in_frame st" "frame (absorbed d st) = frame st"
  "frame_remaining (absorbed d st) = frame_remaining st - length d" "config (absorbed d st) = config st"
  by (simp_all add: absorbed_def Let_def)

lemma put_put: "off + length x \<le> length buf \<Longrightarrow> put (off + length x) y (put off x buf) = put off (x @ y) buf"
  by (simp add: put_def ac_simps)

text \<open>A run of payload may arrive in two pieces.\<close>

lemma absorbed_append:
  assumes "ws_ok st" "is_open st" "in_frame st" "length d + length e \<le> frame_remaining st"
  shows "absorbed e (absorbed d st) = absorbed (d @ e) st"
proof (cases "is_control (opcode (frame st))")
  case True
  then have "ctrl_len st + length d \<le> length (ctrl_buf st)" using assms by (simp add: ws_ok_def)
  then have p: "length x = length d \<Longrightarrow> put (ctrl_len st + length d) y (put (ctrl_len st) x (ctrl_buf st)) = put (ctrl_len st) (x @ y) (ctrl_buf st)" for x y
    using put_put [of "ctrl_len st" x "ctrl_buf st" y] by simp
  show ?thesis using True p
    by (cases "has_mask (frame st)") (simp_all add: absorbed_def Let_def unmask_append add.assoc diff_diff_left)
next
  case False
  then show ?thesis
    by (cases "has_mask (frame st)") (simp_all add: absorbed_def Let_def unmask_append add.assoc diff_diff_left)
qed

lemma ws_ok_absorbed:
  assumes "ws_ok st" "is_open st" "in_frame st" "length d \<le> frame_remaining st"
  shows "ws_ok (if frame_remaining st = length d then (absorbed d st)\<lparr>in_frame := False\<rparr> else absorbed d st)"
proof -
  have p: "length piece = length d \<Longrightarrow> ctrl_len st + length d \<le> kMaxControlPayload \<Longrightarrow>
      length (put (ctrl_len st) piece (ctrl_buf st)) = kMaxControlPayload" for piece
    using assms(1) length_put [of "ctrl_len st" piece "ctrl_buf st"] by (simp add: ws_ok_def)
  show ?thesis
    using assms p by (cases "is_control (opcode (frame st))") (auto simp: absorbed_def ws_ok_def Let_def)
qed

lemma settle_ok:
  assumes "ws_ok (if frame_remaining st = 0 then st\<lparr>in_frame := False\<rparr> else st)" "settle st = Some st'"
  shows "ws_ok st' \<and> config st' = config st"
  using assms finish_frame_ok [of st st'] by (auto simp: settle_def split: if_splits)

lemma check_header_bounds:
  assumes "check_header h st = 0"
  shows "if is_control (opcode h) then unat (payload_length h) \<le> kMaxControlPayload
    else unat (payload_length h) \<le> max_message_size (config st) \<and>
      length (fragment_buffer st) + unat (payload_length h) \<le> max_message_size (config st)"
  using assms by (auto simp: check_header_def Let_def not_less split: if_splits)

lemma ws_ok_begun:
  assumes "ws_ok st" "check_header h st = 0"
  shows "ws_ok (if frame_remaining (begun h hlen st) = 0 then (begun h hlen st)\<lparr>in_frame := False\<rparr> else begun h hlen st)"
  using assms(1) check_header_bounds [OF assms(2)]
  by (cases "is_control (opcode h)"; cases "opcode h = CONTINUATION") (auto simp: begun_def ws_ok_def Let_def)

text \<open>Every step keeps the invariant, makes progress or asks for the rest of a header, and never overruns.\<close>

lemma handle_frame_step:
  assumes "ws_ok st" "handle_frame data st = Some (r, used, st')"
  shows "ws_ok st' \<and> config st' = config st \<and> used \<le> length data \<and>
    (if r < 0 then used = 0 \<and> st' = st \<and> (data = [] \<or> is_open st \<and> \<not> in_frame st \<and> parse_header data = WsNeedMore)
     else r = 0 \<and> 0 < used)"
proof (cases "data = [] \<or> \<not> is_open st")
  case True
  then show ?thesis using assms by (auto simp: handle_frame_cases split: if_splits)
next
  case op: False
  show ?thesis
  proof (cases "in_frame st")
    case True
    have "ws_ok (if frame_remaining (absorbed (take (frame_remaining st) data) st) = 0
        then (absorbed (take (frame_remaining st) data) st)\<lparr>in_frame := False\<rparr> else absorbed (take (frame_remaining st) data) st)"
      using ws_ok_absorbed [of st "take (frame_remaining st) data"] assms(1) op True by (auto simp: min_def split: if_splits)
    then show ?thesis
      using assms op True settle_ok [of "absorbed (take (frame_remaining st) data) st"]
      by (auto simp: handle_frame_cases bind_eq_Some_conv ws_ok_def [of st])
  next
    case False
    then have b: "begin_frame data st = Some (r, used, st')" using assms(2) op by (simp add: handle_frame_cases)
    have f: "ws_ok (fail c m st)" for c m using assms(1) fail_same by (simp add: ws_ok_def)
    show ?thesis
    proof (cases "parse_header data")
      case (WsOk p)
      obtain h hlen where p: "p = (h, hlen)" by (cases p)
      show ?thesis
      proof (cases "check_header h st = 0")
        case True
        then obtain "r = 0" "used = hlen" "settle (begun h hlen st) = Some st'"
          using b by (auto simp: begin_frame_cases WsOk p header_error_def bind_eq_Some_conv)
        then show ?thesis
          using settle_ok [OF ws_ok_begun [OF assms(1) True]] parse_header_length [of data h hlen] WsOk p
          by (simp add: begun_def Let_def)
      next
        case c: False
        then show ?thesis using b f op by (auto simp: begin_frame_cases WsOk p header_error_def fail_same)
      qed
    next
      case WsNeedMore
      then show ?thesis using b assms(1) op False by (auto simp: begin_frame_cases)
    next
      case WsErrorLength
      then show ?thesis using b f op by (auto simp: begin_frame_cases header_error_def fail_same)
    qed
  qed
qed

section \<open>Feeding\<close>

text \<open>The step bound of \<^verbatim>\<open>feed\<close> is never what stops it: the loop unfolds as if it had none.\<close>

lemma feed_Nil [simp]: "feed [] st = Some (0, st)"
  by (simp add: feed_def)

lemma feed_loop_shift:
  assumes "ws_ok st" "pos \<le> length data" "length data - pos < k"
  shows "feed_loop k data pos st = do { (n, st') \<leftarrow> feed (drop pos data) st; Some (pos + n, st') }"
  using assms
proof (induction "length data - pos" arbitrary: k pos st data rule: less_induct)
  case less
  obtain k' where k: "k = Suc k'" using less.prems by (cases k) auto
  have f: "feed (drop pos data) st = feed_loop (Suc (length data - pos)) (drop pos data) 0 st" by (simp add: feed_def)
  show ?case
  proof (cases "pos < length data")
    case True
    have d: "0 < length (drop pos data)" using True by simp
    show ?thesis
    proof (cases "handle_frame (drop pos data) st")
      case None
      then show ?thesis using True by (simp add: k f)
    next
      case (Some x)
      obtain r u s where x: "x = (r, u, s)" by (cases x)
      note st = handle_frame_step [OF less.prems(1) Some [unfolded x]]
      show ?thesis
      proof (cases "r < 0")
        case True
        then show ?thesis using Some x \<open>pos < length data\<close> by (simp add: k f)
      next
        case False
        then have u: "0 < u" "u \<le> length data - pos" "ws_ok s" using st by auto
        have a: "feed_loop k' data (pos + u) s = do { (n, st') \<leftarrow> feed (drop (pos + u) data) s; Some (pos + u + n, st') }"
          by (rule less.hyps) (use u less.prems k True in auto)
        have b: "feed_loop (length data - pos) (drop pos data) u s = do { (n, st') \<leftarrow> feed (drop u (drop pos data)) s; Some (u + n, st') }"
          by (rule less.hyps) (use u True in auto)
        show ?thesis
          using False Some x \<open>pos < length data\<close> a b
          by (simp add: k f add.commute [of u] add.assoc) (auto split: Option.bind_splits simp: add.assoc)
      qed
    qed
  qed (simp add: k f)
qed

lemma feed_unfold:
  assumes "ws_ok st"
  shows "feed data st =
    (if data = [] then Some (0, st)
     else do { (r, u, s) \<leftarrow> handle_frame data st;
               if r < 0 then Some (0, s) else do { (m, s') \<leftarrow> feed (drop u data) s; Some (u + m, s') } })"
proof (cases "data = []")
  case False
  show ?thesis
  proof (cases "handle_frame data st")
    case (Some x)
    obtain r u s where x: "x = (r, u, s)" by (cases x)
    note st = handle_frame_step [OF assms Some [unfolded x]]
    then have "\<not> r < 0 \<Longrightarrow> feed_loop (length data) data u s = do { (n, st') \<leftarrow> feed (drop u data) s; Some (u + n, st') }"
      using feed_loop_shift [of s u data "length data"] False by (auto simp: Suc_le_eq)
    then show ?thesis using False Some x by (simp add: feed_def)
  qed (use False in \<open>simp add: feed_def\<close>)
qed (simp add: feed_def)

lemma feed_closed: "ws_ok st \<Longrightarrow> \<not> is_open st \<Longrightarrow> feed data st = Some (length data, st)"
  by (subst feed_unfold) (simp_all add: handle_frame_cases)

text \<open>A run of payload that does not fit the first piece continues in the second.\<close>

lemma handle_frame_continues:
  assumes "ws_ok st" "is_open st" "in_frame st" "length a < frame_remaining st" "a \<noteq> []" "b \<noteq> []"
  shows "handle_frame a st = Some (0, length a, absorbed a st) \<and> ws_ok (absorbed a st) \<and>
    handle_frame (a @ b) st = do { (r, u, s) \<leftarrow> handle_frame b (absorbed a st); Some (r, length a + u, s) }"
proof (intro conjI)
  show "handle_frame a st = Some (0, length a, absorbed a st)"
    using assms by (simp add: handle_frame_cases settle_def min_def)
  show "ws_ok (absorbed a st)" using ws_ok_absorbed [of st a] assms by simp
  have "absorbed (take (frame_remaining st - length a) b) (absorbed a st) = absorbed (a @ take (frame_remaining st - length a) b) st"
    by (rule absorbed_append) (use assms in auto)
  moreover have "take (frame_remaining st) (a @ b) = a @ take (frame_remaining st - length a) b" using assms by simp
  moreover have "min (frame_remaining st) (length a + length b) = length a + min (frame_remaining st - length a) (length b)"
    using assms by linarith
  ultimately show "handle_frame (a @ b) st = do { (r, u, s) \<leftarrow> handle_frame b (absorbed a st); Some (r, length a + u, s) }"
    using assms by (simp add: handle_frame_cases)
qed

lemma feed_append:
  assumes "ws_ok st"
  shows "feed (a @ b) st = do { (n, s1) \<leftarrow> feed a st; (m, s2) \<leftarrow> feed (drop n a @ b) s1; Some (n + m, s2) }"
  using assms
proof (induction "length a" arbitrary: a st rule: less_induct)
  case less
  have step: "feed (a @ b) st = do { (n, s1) \<leftarrow> feed a st; (m, s2) \<leftarrow> feed (drop n a @ b) s1; Some (n + m, s2) }"
    if h: "handle_frame a st = handle_frame (a @ b) st" and ne: "a \<noteq> []" and g: "\<forall>r u s. handle_frame a st = Some (r, u, s) \<longrightarrow> \<not> r < 0"
  proof (cases "handle_frame a st")
    case None
    then show ?thesis using ne h by (simp add: feed_unfold [OF less.prems])
  next
    case (Some x)
    obtain r u s where x: "x = (r, u, s)" by (cases x)
    note st = handle_frame_step [OF less.prems Some [unfolded x]]
    have r: "\<not> r < 0" using g Some x by auto
    then have "feed (drop u a @ b) s = do { (n, s1) \<leftarrow> feed (drop u a) s; (m, s2) \<leftarrow> feed (drop n (drop u a) @ b) s1; Some (n + m, s2) }"
      by (intro less.hyps) (use st ne in \<open>auto simp: length_greater_0_conv\<close>)
    then show ?thesis
      using ne h [symmetric] Some x r st by (simp add: feed_unfold [OF less.prems]) (auto split: Option.bind_splits simp: add.commute add.assoc add.left_commute)
  qed
  consider "a = []" | "a \<noteq> []" "\<not> is_open st" | "a \<noteq> []" "is_open st" "in_frame st" | "a \<noteq> []" "is_open st" "\<not> in_frame st" by blast
  then show ?case
  proof cases
    case 1
    then show ?thesis by (auto split: Option.bind_splits)
  next
    case 2
    then show ?thesis using less.prems by (simp add: feed_closed)
  next
    case 3
    show ?thesis
    proof (cases "frame_remaining st \<le> length a")
      case True
      then show ?thesis
        using 3 by (intro step) (auto simp: handle_frame_cases min_def bind_eq_Some_conv)
    next
      case rem: False
      have fa: "feed a st = Some (length a, absorbed a st)" "ws_ok (absorbed a st)"
        using ws_ok_absorbed [of st a] 3 rem less.prems
        by (simp_all add: feed_unfold [OF less.prems] handle_frame_cases settle_def min_def)
      show ?thesis
      proof (cases "b = []")
        case False
        note c = handle_frame_continues [OF less.prems 3(2,3) _ 3(1) False]
        have "feed (a @ b) st = do { (m, s2) \<leftarrow> feed b (absorbed a st); Some (length a + m, s2) }"
        proof (cases "handle_frame b (absorbed a st)")
          case None
          then show ?thesis using c rem 3(1) False by (simp add: feed_unfold [OF less.prems] feed_unfold [OF fa(2)])
        next
          case (Some x)
          obtain r u s where x: "x = (r, u, s)" by (cases x)
          have r: "\<not> r < 0" using handle_frame_step [OF fa(2) Some [unfolded x]] 3 False by auto
          have h: "handle_frame (a @ b) st = Some (r, length a + u, s)" using c Some x rem by simp
          show ?thesis
            using r Some x 3(1) False
            by (simp add: feed_unfold [OF less.prems] feed_unfold [OF fa(2)] h) (auto split: Option.bind_splits)
        qed
        then show ?thesis using fa by simp
      qed (simp add: fa)
    qed
  next
    case 4
    show ?thesis
    proof (cases "parse_header a = WsNeedMore")
      case True
      then have "feed a st = Some (0, st)" using 4 by (simp add: feed_unfold [OF less.prems] handle_frame_cases begin_frame_cases)
      then show ?thesis by (auto split: Option.bind_splits)
    next
      case False
      note p = parse_header_prefix [OF False, of b]
      show ?thesis
      proof (cases "header_error (parse_header a) st = 0")
        case True
        then obtain h hlen where "parse_header a = WsOk (h, hlen)" by (auto simp: header_error_def split: ws_parse.splits)
        then show ?thesis using 4 True by (intro step) (auto simp: handle_frame_cases begin_frame_cases p bind_eq_Some_conv)
      next
        case err: False
        define s where "s = fail (header_error (parse_header a) st)
          (if header_error (parse_header a) st = 1009 then ''Message too big'' else ''Protocol error'') st"
        have h: "handle_frame (a @ c) st = Some (0, length a + length c, s)" for c
          using 4 err False parse_header_prefix [OF False, of c] by (simp add: handle_frame_cases begin_frame_cases s_def)
        have s: "ws_ok s" "\<not> is_open s" using less.prems fail_same by (simp_all add: ws_ok_def s_def)
        have "feed (a @ c) st = Some (length a + length c, s)" for c
          using 4(1) h [of c] by (simp add: feed_unfold [OF less.prems])
        from this [of b] this [of "[]"] show ?thesis using s by (simp add: feed_closed)
      qed
    qed
  qed
qed

lemma need_more_short: "parse_header data = WsNeedMore \<Longrightarrow> length data < kMaxHeaderLength"
  by (auto simp: parse_header_def parse_mask_def kMaxHeaderLength_def Let_def split: if_splits)

lemma feed_result:
  assumes "ws_ok st" "feed data st = Some (n, st')"
  shows "ws_ok st' \<and> config st' = config st \<and> n \<le> length data \<and>
    (n < length data \<longrightarrow> is_open st' \<and> \<not> in_frame st' \<and> parse_header (drop n data) = WsNeedMore)"
  using assms
proof (induction "length data" arbitrary: data st n rule: less_induct)
  case less
  show ?case
  proof (cases "data = []")
    case True
    then show ?thesis using less.prems by simp
  next
    case False
    then obtain r u s where h: "handle_frame data st = Some (r, u, s)"
      using less.prems by (auto simp: feed_unfold [OF less.prems(1)] bind_eq_Some_conv)
    note st = handle_frame_step [OF less.prems(1) h]
    show ?thesis
    proof (cases "r < 0")
      case True
      then show ?thesis using less.prems h st False by (simp add: feed_unfold [OF less.prems(1)])
    next
      case r: False
      obtain m where m: "feed (drop u data) s = Some (m, st')" "n = u + m"
        using less.prems(2) h r False by (auto simp: feed_unfold [OF less.prems(1)] bind_eq_Some_conv)
      have "length (drop u data) < length data" using st r False by (simp add: length_greater_0_conv)
      then show ?thesis
        using less.hyps [of "drop u data" s m] m st r by (auto simp: add.commute)
    qed
  qed
qed

section \<open>Properties\<close>

text \<open>
  C10. TCP segmentation does not matter: feeding two pieces of input one after the other, keeping the
  unconsumed bytes of the first in front of the second as the server does, leaves the connection in the
  same state, with the same messages delivered and the same replies queued, as feeding them at once.
\<close>

theorem feed_segmentation:
  assumes "ws_ok st"
  shows "feed (a @ b) st = do { (n, st1) \<leftarrow> feed a st; (m, st2) \<leftarrow> feed (drop n a @ b) st1; Some (n + m, st2) }"
  using assms by (rule feed_append)

lemma ws_new_ok: "length buf = kMaxControlPayload \<Longrightarrow> ws_ok (ws_new cfg buf)"
  by (simp add: ws_ok_def ws_new_def)

theorem feed_segmentation_witness:
  "feed ([0x82, 0x81, 1, 2] @ [3, 4, 9]) (ws_new default_config (replicate kMaxControlPayload 0)) =
     do { (n, st1) \<leftarrow> feed [0x82, 0x81, 1, 2] (ws_new default_config (replicate kMaxControlPayload 0));
          (m, st2) \<leftarrow> feed (drop n [0x82, 0x81, 1, 2] @ [3, 4, 9]) st1; Some (n + m, st2) }"
  by (rule feed_segmentation) (simp add: ws_new_ok)

section \<open>Fragmentation\<close>

function chunks :: "nat \<Rightarrow> byte list \<Rightarrow> byte list list" where
  "chunks k data = (if k = 0 \<or> data = [] then [] else take k data # chunks k (drop k data))"
  by auto
termination by (relation "measure (\<lambda>(_, data). length data)") auto

declare chunks.simps [simp del]

fun fragment_frames :: "OpCode \<Rightarrow> byte list list \<Rightarrow> byte list" where
  "fragment_frames op [] = []"
| "fragment_frames op [c] = build_frame op c True False []"
| "fragment_frames op (c # cs) = build_frame op c False False [] @ fragment_frames CONTINUATION cs"

lemma concat_chunks: "0 < k \<Longrightarrow> concat (chunks k data) = data"
proof (induction k data rule: chunks.induct)
  case (1 k data)
  then show ?case by (cases "data = []") (simp_all add: chunks.simps [of k])
qed

lemma chunks_bounded: "c \<in> set (chunks k data) \<Longrightarrow> length c \<le> k"
proof (induction k data rule: chunks.induct)
  case (1 k data)
  then show ?case by (cases "k = 0 \<or> data = []") (auto simp: chunks.simps [of k data])
qed

lemma chunks_Nil_iff: "0 < k \<Longrightarrow> chunks k data = [] \<longleftrightarrow> data = []"
  by (subst chunks.simps) simp

lemma fragment_frames_step:
  assumes "0 < k" "data \<noteq> []"
  shows "fragment_frames op (chunks k data) =
    build_frame op (take k data) (length data \<le> k) False [] @ fragment_frames CONTINUATION (chunks k (drop k data))"
proof -
  have c: "chunks k data = take k data # chunks k (drop k data)" using assms by (subst chunks.simps) simp
  show ?thesis
    using chunks_Nil_iff [OF assms(1), of "drop k data"] by (cases "chunks k (drop k data)") (simp_all add: c)
qed

lemma fragment_loop_returns:
  assumes "0 < k" "offset \<le> length data"
  shows "fragment_loop k op data offset is_first out =
    Some (out @ fragment_frames (if is_first then op else CONTINUATION) (chunks k (drop offset data)))"
  using assms(2)
proof (induction "length data - offset" arbitrary: offset is_first out rule: less_induct)
  case less
  show ?case
  proof (cases "offset < length data")
    case False
    then show ?thesis using less.prems by (subst fragment_loop.simps) (simp add: chunks.simps [of k "[]"])
  next
    case True
    define n where "n = min k (length data - offset)"
    have n: "0 < n" "offset + n \<le> length data" using True assms(1) by (auto simp: n_def)
    have t: "take n (drop offset data) = take k (drop offset data)" "drop (offset + n) data = drop k (drop offset data)"
      "(offset + n = length data) = (length data - offset \<le> k)"
      using True by (auto simp: n_def min_def add.commute)
    have "fragment_loop k op data (offset + n) False
        (out @ build_frame (if is_first then op else CONTINUATION) (take n (drop offset data)) (offset + n = length data) False []) =
      Some ((out @ build_frame (if is_first then op else CONTINUATION) (take n (drop offset data)) (offset + n = length data) False []) @
        fragment_frames CONTINUATION (chunks k (drop (offset + n) data)))"
      using less.hyps [of "offset + n" False] n True by simp
    then show ?thesis
      using True assms(1) fragment_frames_step [of k "drop offset data"] t
      by (subst fragment_loop.simps) (simp add: n_def [symmetric] Let_def)
  qed
qed

lemma fragment_loop_diverges:
  assumes "offset < length data"
  shows "fragment_loop 0 op data offset is_first out = None"
proof (rule ccontr)
  assume "fragment_loop 0 op data offset is_first out \<noteq> None"
  then obtain r where "fragment_loop 0 op data offset is_first out = Some r" by blast
  then have "\<not> (0 = (0::nat) \<and> offset < length data)"
  proof (rule fragment_loop.raw_induct [where P = "\<lambda>k op data offset is_first out r. \<not> (k = 0 \<and> offset < length data)", rotated])
  qed (fastforce simp: Let_def split: if_splits)
  then show False using assms by simp
qed

text \<open>Receiving sends pongs and closes; it returns when sending does.\<close>

definition sends_end :: "WsConn \<Rightarrow> bool" where
  "sends_end st \<longleftrightarrow> (auto_fragment (config st) \<longrightarrow> 0 < fragment_size (config st))"

lemma send_frame_returns: "sends_end st \<Longrightarrow> \<exists>st'. send_frame op data f st = Some st'"
  using fragment_loop_returns [of "fragment_size (config st)" 0 data op True "[]"]
  by (cases "auto_fragment (config st) \<and> fragment_size (config st) < length data") (auto simp: send_frame_def sends_end_def)

lemma finish_frame_returns: "sends_end st \<Longrightarrow> \<exists>st'. finish_frame st = Some st'"
proof -
  assume e: "sends_end st"
  have c: "\<exists>st'. handle_control_frame op data s = Some st'" if "sends_end s" for op data s
  proof -
    have "\<exists>s'. send_frame PONG data True s = Some s'" using that by (rule send_frame_returns)
    then show ?thesis by (auto simp: handle_control_frame_def send_pong_def Let_def split: prod.split)
  qed
  have "sends_end (st\<lparr>in_frame := False\<rparr>)" using e by (simp add: sends_end_def)
  then show ?thesis using c by (auto simp: finish_frame_def Let_def)
qed

lemma handle_frame_returns:
  assumes "sends_end st"
  shows "\<exists>r used st'. handle_frame data st = Some (r, used, st')"
proof -
  have s: "\<exists>st'. settle s = Some st'" if "sends_end s" for s using finish_frame_returns [OF that] by (simp add: settle_def)
  have "sends_end (begun h hlen st)" for h hlen using assms by (simp add: sends_end_def begun_def Let_def)
  then have "\<exists>st'. settle (begun h hlen st) = Some st'" for h hlen using s by blast
  then have "\<exists>r used st'. begin_frame data st = Some (r, used, st')"
    by (simp add: begin_frame_cases split: ws_parse.split prod.split) (metis bind.bind_lunit)
  moreover have "sends_end (absorbed (take (frame_remaining st) data) st)" using assms by (simp add: sends_end_def absorbed_def Let_def)
  then obtain st' where "settle (absorbed (take (frame_remaining st) data) st) = Some st'" using s by blast
  ultimately show ?thesis by (simp add: handle_frame_cases)
qed

lemma feed_loop_returns:
  "ws_ok st \<Longrightarrow> sends_end st \<Longrightarrow> feed_loop k data pos st \<noteq> None"
proof (induction k arbitrary: pos st)
  case (Suc k)
  obtain r used st' where h: "handle_frame (drop pos data) st = Some (r, used, st')" using handle_frame_returns [OF Suc.prems(2)] by blast
  have "ws_ok st'" "sends_end st'" using handle_frame_step [OF Suc.prems(1) h] Suc.prems(2) by (simp_all add: sends_end_def)
  then show ?case using Suc.IH [of st' "pos + used"] h by simp
qed simp

text \<open>
  C30. Whatever bytes arrive, \<open>feed\<close> returns, unless automatic fragmentation is configured with a fragment size of 0,
  and has then used up all of them except at most an incomplete frame header of fewer than 14 bytes (its
  step bound never cuts it short); the control buffer is never overrun and the message buffer never exceeds
  the configured maximum.
\<close>

theorem feed_consumes_all_but_header:
  assumes "ws_ok st"
  shows "((auto_fragment (config st) \<longrightarrow> 0 < fragment_size (config st)) \<longrightarrow> feed data st \<noteq> None) \<and>
    (\<forall>n st'. feed data st = Some (n, st') \<longrightarrow>
      n \<le> length data \<and> (n < length data \<longrightarrow> is_open st' \<and> \<not> in_frame st' \<and> parse_header (drop n data) = WsNeedMore \<and>
        length data - n < kMaxHeaderLength) \<and>
      ws_ok st' \<and> length (ctrl_buf st') = 125 \<and> length (fragment_buffer st') \<le> max_message_size (config st))"
proof (intro conjI impI allI)
  show "feed data st \<noteq> None" if "auto_fragment (config st) \<longrightarrow> 0 < fragment_size (config st)"
    using feed_loop_returns [OF assms, of "length data + 1" data 0] that by (simp add: sends_end_def feed_def)
  fix n st'
  assume f: "feed data st = Some (n, st')"
  note r = feed_result [OF assms f]
  show "is_open st'" "\<not> in_frame st'" "parse_header (drop n data) = WsNeedMore" "length data - n < kMaxHeaderLength"
    if "n < length data" using r that need_more_short [of "drop n data"] by auto
  show "n \<le> length data" "ws_ok st'" "length (ctrl_buf st') = 125" "length (fragment_buffer st') \<le> max_message_size (config st)"
    using r by (auto simp: ws_ok_def kMaxControlPayload_def)
qed

theorem feed_consumes_all_but_header_witness:
  "feed [0x82, 0xFE, 0] (ws_new default_config (replicate kMaxControlPayload 0)) =
     Some (0, ws_new default_config (replicate kMaxControlPayload 0)) \<and>
   length (fragment_buffer (ws_new default_config (replicate kMaxControlPayload 0))) \<le> max_message_size default_config"
proof -
  have ok: "ws_ok (ws_new default_config (replicate kMaxControlPayload 0))" by (simp add: ws_new_ok)
  have "parse_header [0x82, 0xFE, 0] = WsNeedMore" by code_simp
  then have f: "feed [0x82, 0xFE, 0] (ws_new default_config (replicate kMaxControlPayload 0)) =
      Some (0, ws_new default_config (replicate kMaxControlPayload 0))"
    by (simp add: feed_unfold [OF ok] handle_frame_cases begin_frame_cases) (simp add: ws_new_def)
  then show ?thesis using feed_consumes_all_but_header [OF ok, of "[0x82, 0xFE, 0]"] f by (simp add: ws_new_def)
qed

text \<open>
  C31. Sending a message returns unless automatic fragmentation is on with a fragment size of 0 and the
  message is not empty, in which case the loop never ends. When it returns, one buffer is queued: either one
  frame with the whole message, or the frames of consecutive pieces of at most the fragment size, whose
  concatenation is the message, the first with the opcode, the others continuations, only the last with
  FIN set.
\<close>

theorem send_frame_terminates:
  "(send_frame op data is_fin st = None \<longleftrightarrow> auto_fragment (config st) \<and> fragment_size (config st) = 0 \<and> data \<noteq> []) \<and>
   (\<forall>st'. send_frame op data is_fin st = Some st' \<longrightarrow>
      (\<exists>out. send_queue st' = send_queue st @ [out] \<and> bytes_sent st' = bytes_sent st + length out \<and>
        (if auto_fragment (config st) \<and> length data > fragment_size (config st)
         then \<exists>cs. concat cs = data \<and> (\<forall>c\<in>set cs. length c \<le> fragment_size (config st)) \<and> out = fragment_frames op cs
         else out = build_frame op data is_fin False [])))"
proof -
  let ?k = "fragment_size (config st)"
  consider "\<not> (auto_fragment (config st) \<and> length data > ?k)"
    | "auto_fragment (config st)" "length data > ?k" "?k = 0" | "auto_fragment (config st)" "length data > ?k" "0 < ?k"
    by blast
  then show ?thesis
  proof cases
    case 3
    then have "send_frame op data is_fin st = Some (st\<lparr>send_queue := send_queue st @ [fragment_frames op (chunks ?k data)],
        bytes_sent := bytes_sent st + length (fragment_frames op (chunks ?k data)),
        messages_sent := (if is_fin then messages_sent st + 1 else messages_sent st)\<rparr>)"
      using fragment_loop_returns [of ?k 0 data op True "[]"] by (simp add: send_frame_def)
    then show ?thesis
      using 3 concat_chunks [of ?k data] chunks_bounded [of _ ?k data] by (auto intro!: exI [of _ "chunks ?k data"])
  next
    case 2
    then have "send_frame op data is_fin st = None"
      using fragment_loop_diverges [of 0 data op True "[]"] by (simp add: send_frame_def)
    then show ?thesis using 2 by auto
  qed (auto simp: send_frame_def not_less intro: gr0I)
qed

theorem send_frame_terminates_witness:
  "send_frame TEXT [0x68, 0x69, 0x21] True (ws_new (default_config\<lparr>fragment_size := 2\<rparr>) []) \<noteq> None \<and>
   send_frame TEXT [0x68] True (ws_new (default_config\<lparr>fragment_size := 0\<rparr>) []) = None"
  using send_frame_terminates [of TEXT "[0x68, 0x69, 0x21]" True "ws_new (default_config\<lparr>fragment_size := 2\<rparr>) []"]
    send_frame_terminates [of TEXT "[0x68]" True "ws_new (default_config\<lparr>fragment_size := 0\<rparr>) []"]
  by (simp add: ws_new_def default_config_def)

end
