(* ===== verification/Ws_Delivery.thy ===== *)
theory Ws_Delivery
  imports Ws_Conn
begin

text \<open>
  What a conforming client sends is what the application gets: a reference encoder for the client side of
  the WebSocket protocol (masked frames, fragmented messages, pings in between), and the proof that the
  receive path delivers the message once, complete and in order, and answers every ping.
\<close>

section \<open>The client side\<close>

definition client_head :: "OpCode \<Rightarrow> bool \<Rightarrow> byte list \<Rightarrow> nat \<Rightarrow> byte list" where
  "client_head op f key n =
     (if f then opcode_byte op OR 0x80 else opcode_byte op) # (hd (length_field n) OR 0x80) # tl (length_field n) @ key"

definition client_frame :: "OpCode \<Rightarrow> bool \<Rightarrow> byte list \<Rightarrow> byte list \<Rightarrow> byte list" where
  "client_frame op f key payload = client_head op f key (length payload) @ unmask payload key 0"

definition client_header :: "OpCode \<Rightarrow> bool \<Rightarrow> byte list \<Rightarrow> nat \<Rightarrow> FrameHeader" where
  "client_header op f key n = \<lparr>fin = f, rsv1 = False, rsv2 = False, rsv3 = False, opcode = op, has_mask = True,
     payload_length = of_nat n, masking_key = key\<rparr>"

lemma length_field_mask:
  "hd (length_field n) AND 0x80 = 0" "length_field n \<noteq> []"
  using len7_small(1) [of n] by (simp_all add: length_field_def)

lemma parse_header_set_mask:
  assumes "parse_header (b # l # t) = WsOk (h, hlen)" "l AND 0x80 = 0" "hlen + 4 \<le> length t + 2"
  shows "parse_header (b # (l OR 0x80) # t) = WsOk (h\<lparr>has_mask := True, masking_key := take 4 (drop hlen (b # l # t))\<rparr>, hlen + 4)"
proof -
  have "(l OR 0x80) AND 0x7F = (l AND 0x7F) OR (0x80 AND 0x7F)" "(l OR 0x80) AND 0x80 = (l AND 0x80) OR (0x80 AND 0x80)"
    by (rule bit.conj_disj_distrib2)+
  then have m: "(l OR 0x80) AND 0x7F = l AND 0x7F" "(l OR 0x80) AND 0x80 \<noteq> 0" using assms(2) by simp_all
  have d: "take 4 (drop k (b # (l OR 0x80) # t)) = take 4 (drop k (b # l # t))" if "2 \<le> k" for k
    using that by (simp add: drop_Cons split: nat.split)
  show ?thesis
    using assms m d [of 2] d [of 4] d [of 10]
    by (auto simp: parse_header_def parse_mask_def Let_def split: if_splits)
qed

lemma parse_header_client:
  assumes "wire_opcode op" "n < 2 ^ 63" "length key = 4"
  shows "parse_header (client_head op f key n @ rest) = WsOk (client_header op f key n, length (client_head op f key n))"
proof -
  define b where "b = (if f then opcode_byte op OR 0x80 else opcode_byte op)"

  have "parse_header (b # length_field n @ key @ rest) = WsOk (server_header op f False n, 1 + length (length_field n))"
    using parse_header_built [OF assms(1,2), of False f "key @ rest"] by (simp add: b_def)
  moreover have "length_field n @ key @ rest = hd (length_field n) # (tl (length_field n) @ key @ rest)"
    by (cases "length_field n") (simp_all add: length_field_mask(2))
  ultimately have p: "parse_header (b # hd (length_field n) # (tl (length_field n) @ key @ rest)) =
      WsOk (server_header op f False n, 1 + length (length_field n))"
    by simp
  have k: "take 4 (drop (1 + length (length_field n)) (b # hd (length_field n) # (tl (length_field n) @ key @ rest))) = key"
    using assms(3) by (cases "length_field n") (simp_all add: length_field_mask(2))
  have "parse_header (b # (hd (length_field n) OR 0x80) # (tl (length_field n) @ key @ rest)) =
      WsOk ((server_header op f False n)\<lparr>has_mask := True, masking_key := key\<rparr>, 1 + length (length_field n) + 4)"
    using parse_header_set_mask [OF p length_field_mask(1)] k assms(3) by (simp add: length_field_def)
  moreover have "length (client_head op f key n) = 1 + length (length_field n) + 4"
    using assms(3) by (cases "length_field n") (simp_all add: length_field_mask(2) client_head_def)
  ultimately show ?thesis
    using assms(3) by (simp only: append_assoc append_Cons) (simp add: client_head_def b_def server_header_def client_header_def)
qed

section \<open>Receiving one client frame\<close>

text \<open>The connection between two frames, inside a message (\<open>b\<close>) of which \<open>fb\<close> has arrived, or outside one.\<close>

definition awaiting :: "bool \<Rightarrow> OpCode \<Rightarrow> byte list \<Rightarrow> WsConn \<Rightarrow> bool" where
  "awaiting b op fb st \<longleftrightarrow> ws_ok st \<and> is_open st \<and> \<not> closing st \<and> \<not> in_frame st \<and> in_fragment st = b \<and>
     fragment_buffer st = fb \<and> (b \<longrightarrow> fragment_opcode st = op)"

text \<open>A complete frame with header \<open>h\<close> and payload \<open>c\<close> has arrived and is about to be finished.\<close>

definition arrived :: "FrameHeader \<Rightarrow> byte list \<Rightarrow> WsConn \<Rightarrow> WsConn \<Rightarrow> bool" where
  "arrived h c st s \<longleftrightarrow> ws_ok (s\<lparr>in_frame := False\<rparr>) \<and> frame s = h \<and> is_open s \<and> closing s = closing st \<and> config s = config st \<and>
     events s = events st \<and> send_queue s = send_queue st \<and>
     (if is_control (opcode h)
      then take (ctrl_len s) (ctrl_buf s) = c \<and> in_fragment s = in_fragment st \<and> fragment_buffer s = fragment_buffer st \<and>
        fragment_opcode s = fragment_opcode st
      else in_fragment s = (in_fragment st \<or> opcode h \<noteq> CONTINUATION) \<and>
        fragment_buffer s = (if opcode h = CONTINUATION then fragment_buffer st else []) @ c \<and>
        fragment_opcode s = (if opcode h = CONTINUATION then fragment_opcode st else opcode h))"

lemma take_put: "off + length x \<le> length buf \<Longrightarrow> take (off + length x) (put off x buf) = take off buf @ x"
  by (simp add: put_def)

lemma begun_fields:
  "frame_remaining (begun h n st) = unat (payload_length h)" "frame (begun h n st) = h" "frame_offset (begun h n st) = 0"
  "is_open (begun h n st) = is_open st" "in_frame (begun h n st)" "closing (begun h n st) = closing st"
  "config (begun h n st) = config st" "events (begun h n st) = events st" "send_queue (begun h n st) = send_queue st"
  "ctrl_len (begun h n st) = (if is_control (opcode h) then 0 else ctrl_len st)" "ctrl_buf (begun h n st) = ctrl_buf st"
  "in_fragment (begun h n st) = (if is_control (opcode h) then in_fragment st else in_fragment st \<or> opcode h \<noteq> CONTINUATION)"
  "fragment_buffer (begun h n st) = (if is_control (opcode h) \<or> opcode h = CONTINUATION then fragment_buffer st else [])"
  "fragment_opcode (begun h n st) = (if is_control (opcode h) \<or> opcode h = CONTINUATION then fragment_opcode st else opcode h)"
  by (simp_all add: begun_def Let_def)

lemma begun_arrived:
  assumes "ws_ok st" "is_open st" "check_header h st = 0" "payload_length h = 0"
  shows "arrived h [] st (begun h hlen st)"
  using assms(2,4) ws_ok_begun [OF assms(1,3), of hlen] by (simp add: arrived_def begun_fields)

lemma absorbed_arrived:
  assumes "ws_ok st" "is_open st" "check_header h st = 0" "has_mask h" "unat (payload_length h) = length c" "c \<noteq> []"
  shows "arrived h c st (absorbed (unmask c (masking_key h) 0) (begun h hlen st))"
proof -
  let ?b = "begun h hlen st" and ?d = "unmask c (masking_key h) 0"
  have ok: "ws_ok ?b" using ws_ok_begun [OF assms(1,3), of hlen] assms(5,6) by (simp add: begun_fields)
  have "is_control (opcode h) \<Longrightarrow> length c \<le> length (ctrl_buf st)"
    using check_header_bounds [OF assms(3)] assms(1,5) by (simp add: ws_ok_def)
  then have t: "is_control (opcode h) \<Longrightarrow> take (length c) (put 0 c (ctrl_buf st)) = c"
    using take_put [of 0 c "ctrl_buf st"] by simp
  have "ws_ok ((absorbed ?d ?b)\<lparr>in_frame := False\<rparr>)"
    using ws_ok_absorbed [OF ok, of ?d] assms(2,5) by (simp add: begun_fields)
  then show ?thesis
    using assms(2,4) t begun_fields [of h hlen st]
    by (cases "is_control (opcode h)") (simp_all add: arrived_def absorbed_def Let_def unmask_involution)
qed

lemma feed_client_frame:
  assumes "ws_ok st" "is_open st" "\<not> in_frame st" "wire_opcode op" "length c < 2 ^ 63" "length key = 4"
    "check_header (client_header op f key (length c)) st = 0"
  shows "\<exists>s. arrived (client_header op f key (length c)) c st s \<and>
    feed (client_frame op f key c @ rest) st =
      do { s' \<leftarrow> finish_frame s; (m, st') \<leftarrow> feed rest s'; Some (length (client_frame op f key c) + m, st') }"
proof -
  define h where "h = client_header op f key (length c)"
  define hd where "hd = client_head op f key (length c)"
  have h: "payload_length h = of_nat (length c)" "has_mask h" "masking_key h = key" "unat (payload_length h) = length c"
    using assms(5) by (simp_all add: h_def client_header_def unat_of_nat)
  have hd: "hd \<noteq> []" by (simp add: hd_def client_head_def)
  have p: "parse_header (hd @ r) = WsOk (h, length hd)" for r
    unfolding hd_def h_def by (rule parse_header_client [OF assms(4-6)])
  have s1: "handle_frame (hd @ r) st = do { s' \<leftarrow> settle (begun h (length hd) st); Some (0, length hd, s') }" for r
    using assms hd by (simp add: handle_frame_cases begin_frame_cases p header_error_def h_def [symmetric])
  have fr: "frame_remaining (begun h (length hd) st) = length c" using h by (simp add: begun_fields)
  have e: "client_frame op f key c = hd @ unmask c key 0" by (simp add: client_frame_def hd_def)
  show ?thesis
  proof (cases "c = []")
    case True
    have "feed (hd @ rest) st = do { s' \<leftarrow> finish_frame (begun h (length hd) st); (m, st') \<leftarrow> feed rest s'; Some (length hd + m, st') }"
      using True hd fr by (subst feed_unfold [OF assms(1)]) (simp add: s1 settle_def)
    moreover have "unmask c key 0 = []" using True length_unmask [of c key 0] by (metis length_0_conv)
    moreover have "arrived h c st (begun h (length hd) st)"
      using begun_arrived [OF assms(1,2) assms(7) [folded h_def], of "length hd"] h(1) True by simp
    ultimately show ?thesis unfolding h_def [symmetric] e by auto
  next
    case False
    let ?b = "begun h (length hd) st" and ?d = "unmask c key 0"
    have ok: "ws_ok ?b" using ws_ok_begun [OF assms(1), of h "length hd"] assms(7) fr False by (simp add: h_def [symmetric])
    have d: "?d \<noteq> []" using False length_unmask [of c key 0] by fastforce
    have o: "is_open ?b" "in_frame ?b" using assms by (simp_all add: begun_fields)
    have s2: "handle_frame (?d @ rest) ?b = do { s' \<leftarrow> finish_frame (absorbed ?d ?b); Some (0, length c, s') }"
      using d o fr by (simp add: handle_frame_cases settle_def)
    have "feed (hd @ ?d @ rest) st = do { (m, st') \<leftarrow> feed (?d @ rest) ?b; Some (length hd + m, st') }"
      using False hd fr by (subst feed_unfold [OF assms(1)]) (simp add: s1 settle_def)
    moreover have "feed (?d @ rest) ?b = do { s' \<leftarrow> finish_frame (absorbed ?d ?b); (m, st') \<leftarrow> feed rest s'; Some (length c + m, st') }"
      using d by (subst feed_unfold [OF ok]) (simp add: s2)
    ultimately have "feed (client_frame op f key c @ rest) st =
        do { s' \<leftarrow> finish_frame (absorbed ?d ?b); (m, st') \<leftarrow> feed rest s'; Some (length hd + (length c + m), st') }"
      by (simp add: e) (auto split: Option.bind_splits)
    moreover have "arrived h c st (absorbed ?d ?b)"
      using absorbed_arrived [of st h c "length hd"] assms h False by (simp add: h_def [symmetric])
    ultimately show ?thesis by (auto simp: h_def [symmetric] e add.assoc)
  qed
qed

section \<open>Finishing a frame\<close>

lemma is_control_simps [simp]:
  "is_control PING" "\<not> is_control TEXT" "\<not> is_control BINARY" "\<not> is_control CONTINUATION"
  by (simp_all add: is_control_def)

text \<open>Control frames are not fragmented when a fragment holds at least a full control payload.\<close>

definition whole_control :: "WsConfig \<Rightarrow> bool" where
  "whole_control cfg \<longleftrightarrow> (auto_fragment cfg \<longrightarrow> kMaxControlPayload \<le> fragment_size cfg)"

lemma finish_ping:
  assumes "awaiting b op fb st" "arrived (client_header PING True key n) c st s" "length c \<le> kMaxControlPayload" "whole_control (config st)"
  shows "\<exists>s'. finish_frame s = Some s' \<and> awaiting b op fb s' \<and> config s' = config st \<and> events s' = events st @ [OnPing] \<and>
    send_queue s' = send_queue st @ [build_frame PONG c True False []]"
proof -
  have a: "frame s = client_header PING True key n" "take (ctrl_len s) (ctrl_buf s) = c" "closing s = False" "is_open s"
    "config s = config st" "events s = events st" "send_queue s = send_queue st" "in_fragment s = b" "fragment_buffer s = fb"
    "b \<longrightarrow> fragment_opcode s = op" "ws_ok (s\<lparr>in_frame := False\<rparr>)"
    using assms(1,2) by (simp_all add: arrived_def awaiting_def client_header_def)
  have "\<not> (auto_fragment (config s) \<and> length c > fragment_size (config s))"
    using assms(3,4) a(5) by (auto simp: whole_control_def)
  then have "finish_frame s = Some (emit OnPing (s\<lparr>in_frame := False, send_queue := send_queue s @ [build_frame PONG c True False []],
      bytes_sent := bytes_sent s + length (build_frame PONG c True False []), messages_sent := messages_sent s + 1\<rparr>))"
    using a by (auto simp: finish_frame_def client_header_def handle_control_frame_def send_pong_def send_frame_def Let_def)
  then show ?thesis using a by (simp add: awaiting_def emit_def ws_ok_def)
qed

lemma finish_part:
  assumes "awaiting b op fb st" "arrived (client_header (if b then CONTINUATION else op) False key n) c st s" "op \<in> {TEXT, BINARY}" "b \<or> fb = []"
  shows "\<exists>s'. finish_frame s = Some s' \<and> awaiting True op (fb @ c) s' \<and> config s' = config st \<and> events s' = events st \<and>
    send_queue s' = send_queue st"
proof -
  have "finish_frame s = Some (s\<lparr>in_frame := False\<rparr>)" "in_fragment s" "fragment_buffer s = fb @ c" "fragment_opcode s = op"
    "closing s = False" "is_open s" "config s = config st" "events s = events st" "send_queue s = send_queue st" "ws_ok (s\<lparr>in_frame := False\<rparr>)"
    using assms by (cases b; auto simp: arrived_def awaiting_def client_header_def finish_frame_def)+
  then show ?thesis by (simp add: awaiting_def)
qed

definition message_event :: "OpCode \<Rightarrow> byte list \<Rightarrow> ws_event" where
  "message_event op d = (if op = TEXT then OnText d else OnBinary d)"

lemma finish_message:
  assumes "awaiting b op fb st" "arrived (client_header (if b then CONTINUATION else op) True key n) c st s" "op \<in> {TEXT, BINARY}" "b \<or> fb = []"
    "op = TEXT \<longrightarrow> validate_utf8 (fb @ c)"
  shows "\<exists>s'. finish_frame s = Some s' \<and> awaiting False op [] s' \<and> config s' = config st \<and>
    events s' = events st @ [message_event op (fb @ c)] \<and> send_queue s' = send_queue st"
proof -
  have f: "opcode (frame s) = (if b then CONTINUATION else op)" "fin (frame s)" "fragment_buffer s = fb @ c" "fragment_opcode s = op"
    "closing s = False" "is_open s" "config s = config st" "events s = events st" "send_queue s = send_queue st" "ws_ok (s\<lparr>in_frame := False\<rparr>)"
    using assms by (cases b; auto simp: arrived_def awaiting_def client_header_def)+
  then have "\<not> is_control (opcode (frame s))" using assms(3) by (cases b) auto
  then have "finish_frame s = Some ((emit (message_event op (fb @ c))
      (s\<lparr>in_frame := False, in_fragment := False, messages_received := messages_received s + 1\<rparr>))\<lparr>fragment_buffer := []\<rparr>)"
    using f assms(3,5) by (auto simp: finish_frame_def handle_message_def message_event_def emit_def Let_def)
  then show ?thesis using f by (simp add: awaiting_def emit_def ws_ok_def)
qed

lemma check_client_header:
  assumes "awaiting b op fb st" "n < 2 ^ 63"
  shows "n \<le> kMaxControlPayload \<Longrightarrow> check_header (client_header PING True key n) st = 0"
    "op \<in> {TEXT, BINARY} \<Longrightarrow> length fb + n \<le> max_message_size (config st) \<Longrightarrow>
      check_header (client_header (if b then CONTINUATION else op) f key n) st = 0"
  using assms by (auto simp: check_header_def client_header_def awaiting_def unat_of_nat Let_def)

section \<open>One frame after the other\<close>

lemma step_ping:
  assumes "awaiting b op fb st" "whole_control (config st)" "length key = 4" "length c \<le> 125"
  shows "\<exists>s. awaiting b op fb s \<and> config s = config st \<and> events s = events st @ [OnPing] \<and>
    send_queue s = send_queue st @ [build_frame PONG c True False []] \<and>
    feed (client_frame PING True key c @ rest) st =
      do { (m, st') \<leftarrow> feed rest s; Some (length (client_frame PING True key c) + m, st') }"
proof -
  have st: "ws_ok st" "is_open st" "\<not> in_frame st" using assms(1) by (simp_all add: awaiting_def)
  have c: "length c \<le> kMaxControlPayload" "length c < 2 ^ 63"
    using assms(4) order.strict_trans1 [of "length c" 125 "2 ^ 63"] by (simp_all add: kMaxControlPayload_def)
  obtain s where s: "arrived (client_header PING True key (length c)) c st s"
    "feed (client_frame PING True key c @ rest) st =
      do { s' \<leftarrow> finish_frame s; (m, st') \<leftarrow> feed rest s'; Some (length (client_frame PING True key c) + m, st') }"
    using feed_client_frame [OF st _ c(2) assms(3) check_client_header(1) [OF assms(1) c(2) c(1)]] by (auto simp: wire_opcode_def)
  then show ?thesis using finish_ping [OF assms(1) s(1) c(1) assms(2)] by auto
qed

lemma step_fragment:
  assumes "awaiting b op fb st" "op \<in> {TEXT, BINARY}" "b \<or> fb = []" "length key = 4" "length c < 2 ^ 63"
    "length fb + length c \<le> max_message_size (config st)" "f \<longrightarrow> op = TEXT \<longrightarrow> validate_utf8 (fb @ c)"
  shows "\<exists>s. (if f then awaiting False op [] s else awaiting True op (fb @ c) s) \<and> config s = config st \<and>
    events s = events st @ (if f then [message_event op (fb @ c)] else []) \<and> send_queue s = send_queue st \<and>
    feed (client_frame (if b then CONTINUATION else op) f key c @ rest) st =
      do { (m, st') \<leftarrow> feed rest s; Some (length (client_frame (if b then CONTINUATION else op) f key c) + m, st') }"
proof -
  let ?w = "if b then CONTINUATION else op"
  have st: "ws_ok st" "is_open st" "\<not> in_frame st" using assms(1) by (simp_all add: awaiting_def)
  have w: "wire_opcode ?w" using assms(2) by (auto simp: wire_opcode_def)
  obtain s where s: "arrived (client_header ?w f key (length c)) c st s"
    "feed (client_frame ?w f key c @ rest) st =
      do { s' \<leftarrow> finish_frame s; (m, st') \<leftarrow> feed rest s'; Some (length (client_frame ?w f key c) + m, st') }"
    using feed_client_frame [OF st w assms(5,4) check_client_header(2) [OF assms(1,5,2,6)]] by blast
  show ?thesis
  proof (cases f)
    case True
    then show ?thesis using finish_message [OF assms(1) _ assms(2,3), of key "length c" c s] s assms(7) by auto
  next
    case False
    then show ?thesis using finish_part [OF assms(1) _ assms(2,3), of key "length c" c s] s by auto
  qed
qed

section \<open>Whole messages\<close>

text \<open>One message as a client sends it: fragments, each with its masking key, and pings anywhere in between.\<close>

datatype client_item = Fragment "byte list" "byte list" | Ping "byte list" "byte list"

fun is_ping :: "client_item \<Rightarrow> bool" where
  "is_ping (Ping _ _) = True"
| "is_ping (Fragment _ _) = False"

fun client_stream :: "OpCode \<Rightarrow> client_item list \<Rightarrow> byte list" where
  "client_stream op [] = []"
| "client_stream op (Ping key c # r) = client_frame PING True key c @ client_stream op r"
| "client_stream op (Fragment key c # r) = client_frame op (list_all is_ping r) key c @ client_stream CONTINUATION r"

fun message_of :: "client_item list \<Rightarrow> byte list" where
  "message_of [] = []"
| "message_of (Ping _ _ # r) = message_of r"
| "message_of (Fragment _ c # r) = c @ message_of r"

fun pongs_of :: "client_item list \<Rightarrow> byte list list" where
  "pongs_of [] = []"
| "pongs_of (Ping _ c # r) = build_frame PONG c True False [] # pongs_of r"
| "pongs_of (Fragment _ _ # r) = pongs_of r"

fun events_of :: "ws_event \<Rightarrow> client_item list \<Rightarrow> ws_event list" where
  "events_of e [] = []"
| "events_of e (Ping _ _ # r) = OnPing # events_of e r"
| "events_of e (Fragment _ _ # r) = (if list_all is_ping r then [e] else []) @ events_of e r"

fun item_ok :: "client_item \<Rightarrow> bool" where
  "item_ok (Ping key c) = (length key = 4 \<and> length c \<le> 125)"
| "item_ok (Fragment key c) = (length key = 4 \<and> length c < 2 ^ 63)"

lemma pings_only: "list_all is_ping r \<Longrightarrow> message_of r = [] \<and> events_of e r = events_of e' r"
  by (induction r rule: message_of.induct) auto

lemma deliver_items:
  assumes "list_all item_ok items" "awaiting b op fb st" "op \<in> {TEXT, BINARY}" "b \<or> fb = []" "whole_control (config st)"
    "length (fb @ message_of items) \<le> max_message_size (config st)" "op = TEXT \<longrightarrow> validate_utf8 (fb @ message_of items)"
    "\<not> list_all is_ping items \<or> \<not> b"
  shows "\<exists>st'. feed (client_stream (if b then CONTINUATION else op) items) st = Some (length (client_stream (if b then CONTINUATION else op) items), st') \<and>
    awaiting False op [] st' \<and> events st' = events st @ events_of (message_event op (fb @ message_of items)) items \<and>
    send_queue st' = send_queue st @ pongs_of items"
  using assms
proof (induction items arbitrary: b fb st)
  case Nil
  then show ?case by (auto simp: awaiting_def)
next
  case (Cons x r)
  have wf: "list_all item_ok r" using Cons.prems(1) by simp
  show ?case
  proof (cases x)
    case (Ping key c)
    then obtain s where s: "awaiting b op fb s" "config s = config st" "events s = events st @ [OnPing]"
      "send_queue s = send_queue st @ [build_frame PONG c True False []]"
      "feed (client_frame PING True key c @ client_stream (if b then CONTINUATION else op) r) st =
        do { (m, st') \<leftarrow> feed (client_stream (if b then CONTINUATION else op) r) s; Some (length (client_frame PING True key c) + m, st') }"
      using step_ping [OF Cons.prems(2,5), of key c] Cons.prems(1) by auto
    show ?thesis
      using Cons.IH [OF wf s(1) Cons.prems(3,4)] Cons.prems(5-8) s Ping by auto
  next
    case (Fragment key c)
    note frag = step_fragment [OF Cons.prems(2-4), of key c "list_all is_ping r" "client_stream CONTINUATION r"]
    show ?thesis
    proof (cases "list_all is_ping r")
      case True
      then have m: "message_of r = []" "\<And>e e'. events_of e r = events_of e' r" using pings_only by blast+
      obtain s where s: "awaiting False op [] s" "config s = config st" "events s = events st @ [message_event op (fb @ c)]"
        "send_queue s = send_queue st"
        "feed (client_frame (if b then CONTINUATION else op) True key c @ client_stream CONTINUATION r) st =
          do { (m, st') \<leftarrow> feed (client_stream CONTINUATION r) s; Some (length (client_frame (if b then CONTINUATION else op) True key c) + m, st') }"
        using frag Cons.prems(1,6,7) Fragment True m by auto
      have "client_stream CONTINUATION r = client_stream op r" using True by (induction r rule: message_of.induct) auto
      then show ?thesis
        using Cons.IH [OF wf s(1) Cons.prems(3)] Cons.prems(5) s Fragment True m
          m(2) [of "message_event op []" "message_event op (fb @ c)"] validate_utf8.simps [of "[]"] by auto
    next
      case False
      then obtain s where s: "awaiting True op (fb @ c) s" "config s = config st" "events s = events st"
        "send_queue s = send_queue st"
        "feed (client_frame (if b then CONTINUATION else op) False key c @ client_stream CONTINUATION r) st =
          do { (m, st') \<leftarrow> feed (client_stream CONTINUATION r) s; Some (length (client_frame (if b then CONTINUATION else op) False key c) + m, st') }"
        using frag Cons.prems(1,6) Fragment by auto
      then show ?thesis
        using Cons.IH [OF wf s(1) Cons.prems(3)] Cons.prems(5-7) s Fragment False by auto
    qed
  qed
qed

section \<open>Property\<close>

text \<open>
  C13. A client message is delivered exactly once, whole and in order, however it is cut into masked
  fragments and whatever pings come between them: the receive path consumes every byte, the application sees
  one text or binary message with the concatenated payloads at the place of the last fragment, every ping is
  answered by a pong with the same payload, and the connection is ready for the next message.
\<close>

theorem client_message_delivered:
  assumes "list_all item_ok items" "\<not> list_all is_ping items" "op \<in> {TEXT, BINARY}" "awaiting False op [] st"
    "whole_control (config st)" "length (message_of items) \<le> max_message_size (config st)"
    "op = TEXT \<longrightarrow> validate_utf8 (message_of items)"
  shows "\<exists>st'. feed (client_stream op items) st = Some (length (client_stream op items), st') \<and> awaiting False op [] st' \<and>
    events st' = events st @ events_of (message_event op (message_of items)) items \<and>
    send_queue st' = send_queue st @ pongs_of items"
  using deliver_items [OF assms(1,4,3) _ assms(5)] assms(6,7) by simp

theorem client_message_delivered_witness:
  "\<exists>st'. feed (client_stream TEXT [Fragment [1, 2, 3, 4] [0x68], Ping [5, 6, 7, 8] [9], Fragment [0, 0, 0, 1] [0x69]])
      (ws_new default_config (replicate kMaxControlPayload 0)) = Some (21, st') \<and>
    events st' = [OnPing, OnText [0x68, 0x69]] \<and> send_queue st' = [build_frame PONG [9] True False []]"
proof -
  let ?items = "[Fragment [1, 2, 3, 4] [0x68], Ping [5, 6, 7, 8] [9], Fragment [0, 0, 0, 1] [0x69 :: byte]]"
  let ?st = "ws_new default_config (replicate kMaxControlPayload 0)"
  have a: "awaiting False TEXT [] ?st" using ws_new_ok [of "replicate kMaxControlPayload 0" default_config] by (simp add: awaiting_def ws_new_def)
  have m: "message_of ?items = [0x68, 0x69]" "validate_utf8 [0x68, 0x69]" by code_simp+
  have l: "length (client_stream TEXT ?items) = 21"
    by (simp add: client_frame_def client_head_def length_field_def)
  show ?thesis
    using client_message_delivered [of ?items TEXT ?st] a m l
    by (simp add: whole_control_def ws_new_def default_config_def kMaxControlPayload_def message_event_def) blast
qed

end
