(* ===== verification/Hpack_Table.thy ===== *)
theory Hpack_Table
  imports Bolt_Bytes
begin

text \<open>
  The two tables of HPACK (\<^verbatim>\<open>include/boltapi/http/hpack.h\<close>, \<^verbatim>\<open>src/http/hpack.cpp\<close>). Header strings are byte
  lists. The dynamic table is a ring of entry descriptors over one byte region; it refines the table of
  RFC 7541: a list of headers, newest first, cut to the longest prefix that fits the size limit. The
  descriptor fields are 16 and 32 bit wide in the code; the invariant keeps them below 4096.
\<close>

type_synonym header_field = "byte list \<times> byte list"

section \<open>Static table\<close>

definition STATIC_TABLE :: "(string \<times> string) list" where
  "STATIC_TABLE = [
     ('':authority'', ''''), ('':method'', ''GET''), ('':method'', ''POST''), ('':path'', ''/''), ('':path'', ''/index.html''),
     ('':scheme'', ''http''), ('':scheme'', ''https''), ('':status'', ''200''), ('':status'', ''204''), ('':status'', ''206''),
     ('':status'', ''304''), ('':status'', ''400''), ('':status'', ''404''), ('':status'', ''500''), (''accept-charset'', ''''),
     (''accept-encoding'', ''gzip, deflate''), (''accept-language'', ''''), (''accept-ranges'', ''''), (''accept'', ''''),
     (''access-control-allow-origin'', ''''), (''age'', ''''), (''allow'', ''''), (''authorization'', ''''), (''cache-control'', ''''),
     (''content-disposition'', ''''), (''content-encoding'', ''''), (''content-language'', ''''), (''content-length'', ''''),
     (''content-location'', ''''), (''content-range'', ''''), (''content-type'', ''''), (''cookie'', ''''), (''date'', ''''),
     (''etag'', ''''), (''expect'', ''''), (''expires'', ''''), (''from'', ''''), (''host'', ''''), (''if-match'', ''''),
     (''if-modified-since'', ''''), (''if-none-match'', ''''), (''if-range'', ''''), (''if-unmodified-since'', ''''),
     (''last-modified'', ''''), (''link'', ''''), (''location'', ''''), (''max-forwards'', ''''), (''proxy-authenticate'', ''''),
     (''proxy-authorization'', ''''), (''range'', ''''), (''referer'', ''''), (''refresh'', ''''), (''retry-after'', ''''),
     (''server'', ''''), (''set-cookie'', ''''), (''strict-transport-security'', ''''), (''transfer-encoding'', ''''),
     (''user-agent'', ''''), (''vary'', ''''), (''via'', ''''), (''www-authenticate'', '''')]"

definition STATIC_TABLE_SIZE :: nat where
  "STATIC_TABLE_SIZE = length STATIC_TABLE"

definition static_get :: "nat \<Rightarrow> header_field option" where
  "static_get index =
     (if index = 0 \<or> index > STATIC_TABLE_SIZE then None
      else let entry = STATIC_TABLE ! (index - 1) in Some (bytes_of (fst entry), bytes_of (snd entry)))"

fun find_loop :: "(string \<times> string \<Rightarrow> bool) \<Rightarrow> (string \<times> string) list \<Rightarrow> nat \<Rightarrow> nat" where
  "find_loop matches [] i = 0"
| "find_loop matches (entry # rest) i = (if matches entry then i + 1 else find_loop matches rest (i + 1))"

definition static_find :: "byte list \<Rightarrow> byte list \<Rightarrow> nat" where
  "static_find name val = find_loop (\<lambda>e. name = bytes_of (fst e) \<and> val = bytes_of (snd e)) STATIC_TABLE 0"

definition static_find_name :: "byte list \<Rightarrow> nat" where
  "static_find_name name = find_loop (\<lambda>e. name = bytes_of (fst e)) STATIC_TABLE 0"

section \<open>Dynamic table\<close>

definition kStorageBytes :: nat where "kStorageBytes = 4096"
definition MAX_ENTRIES :: nat where "MAX_ENTRIES = 128"

record Entry =
  off :: nat
  name_len :: nat
  value_len :: nat

definition entry_size :: "Entry \<Rightarrow> nat" where
  "entry_size e = name_len e + value_len e + 32"

record HPACKDynamicTable =
  entries :: "Entry list"
  data :: "byte list"
  first :: nat
  count :: nat
  current_size :: nat
  max_size :: nat
  data_begin :: nat
  data_end :: nat

definition table_new :: "nat \<Rightarrow> HPACKDynamicTable" where
  "table_new max_sz = \<lparr>entries = replicate MAX_ENTRIES \<lparr>off = 0, name_len = 0, value_len = 0\<rparr>, data = replicate kStorageBytes 0,
     first = 0, count = 0, current_size = 0, max_size = min max_sz kStorageBytes, data_begin = 0, data_end = 0\<rparr>"

definition clear :: "HPACKDynamicTable \<Rightarrow> HPACKDynamicTable" where
  "clear t = t\<lparr>first := 0, count := 0, current_size := 0, data_begin := 0, data_end := 0\<rparr>"

definition evict_oldest :: "HPACKDynamicTable \<Rightarrow> HPACKDynamicTable" where
  "evict_oldest t =
     (let e = entries t ! first t;
          t = t\<lparr>current_size := current_size t - entry_size e, first := (first t + 1) mod MAX_ENTRIES, count := count t - 1\<rparr>
      in if count t = 0 then t\<lparr>data_begin := 0, data_end := 0, first := 0\<rparr>
         else t\<lparr>data_begin := off (entries t ! first t)\<rparr>)"

fun compact_loop :: "nat \<Rightarrow> nat \<Rightarrow> HPACKDynamicTable \<Rightarrow> Entry list \<Rightarrow> Entry list" where
  "compact_loop 0 i t es = es"
| "compact_loop (Suc n) i t es =
     (let j = (first t + i) mod MAX_ENTRIES
      in compact_loop n (i + 1) t (es[j := (es ! j)\<lparr>off := off (es ! j) - data_begin t\<rparr>]))"

definition compact :: "HPACKDynamicTable \<Rightarrow> HPACKDynamicTable" where
  "compact t =
     (let live = data_end t - data_begin t
      in if data_begin t = 0 then t
         else t\<lparr>data := put 0 (take live (drop (data_begin t) (data t))) (data t),
                entries := compact_loop (count t) 0 t (entries t), data_begin := 0, data_end := live\<rparr>)"

lemma evict_oldest_count: "0 < count t \<Longrightarrow> count (evict_oldest t) = count t - 1"
  by (simp add: evict_oldest_def Let_def)

function evict_for :: "nat \<Rightarrow> HPACKDynamicTable \<Rightarrow> HPACKDynamicTable" where
  "evict_for sz t =
     (if count t > 0 \<and> (current_size t + sz > max_size t \<or> count t = MAX_ENTRIES) then evict_for sz (evict_oldest t) else t)"
  by auto
termination by (relation "measure (\<lambda>(_, t). count t)") (auto simp: evict_oldest_count)

function evict_to_max :: "HPACKDynamicTable \<Rightarrow> HPACKDynamicTable" where
  "evict_to_max t = (if count t > 0 \<and> current_size t > max_size t then evict_to_max (evict_oldest t) else t)"
  by auto
termination by (relation "measure count") (auto simp: evict_oldest_count)

declare evict_for.simps [simp del] evict_to_max.simps [simp del]

definition table_add :: "byte list \<Rightarrow> byte list \<Rightarrow> HPACKDynamicTable \<Rightarrow> HPACKDynamicTable" where
  "table_add name val t =
     (let sz = length name + length val + 32
      in if sz > max_size t then clear t
         else
           let t = evict_for sz t;
               bytes = length name + length val;
               t = (if data_end t + bytes > kStorageBytes then compact t else t);
               t = t\<lparr>data := put (data_end t + length name) val (put (data_end t) name (data t))\<rparr>;
               t = t\<lparr>entries := (entries t)[(first t + count t) mod MAX_ENTRIES :=
                       \<lparr>off = data_end t, name_len = length name, value_len = length val\<rparr>]\<rparr>;
               t = (if count t = 0 then t\<lparr>data_begin := data_end t\<rparr> else t)
           in t\<lparr>data_end := data_end t + bytes, count := count t + 1, current_size := current_size t + sz\<rparr>)"

definition entry_strings :: "byte list \<Rightarrow> Entry \<Rightarrow> header_field" where
  "entry_strings d e = (take (name_len e) (drop (off e) d), take (value_len e) (drop (off e + name_len e) d))"

definition table_get :: "nat \<Rightarrow> HPACKDynamicTable \<Rightarrow> header_field option" where
  "table_get index t =
     (if index \<ge> count t then None
      else Some (entry_strings (data t) (entries t ! ((first t + count t - 1 - index) mod MAX_ENTRIES))))"

definition set_max_size :: "nat \<Rightarrow> HPACKDynamicTable \<Rightarrow> HPACKDynamicTable" where
  "set_max_size new_max t = evict_to_max (t\<lparr>max_size := min new_max kStorageBytes\<rparr>)"

section \<open>What the dynamic table is\<close>

text \<open>The table of RFC 7541, newest entry first.\<close>

definition field_size :: "header_field \<Rightarrow> nat" where
  "field_size h = length (fst h) + length (snd h) + 32"

fun keep :: "nat \<Rightarrow> header_field list \<Rightarrow> header_field list" where
  "keep limit [] = []"
| "keep limit (h # hs) = (if field_size h \<le> limit then h # keep (limit - field_size h) hs else [])"

definition spec_insert :: "nat \<Rightarrow> header_field \<Rightarrow> header_field list \<Rightarrow> header_field list" where
  "spec_insert limit h hs = keep limit (h # hs)"

text \<open>The live descriptors, oldest first, and the headers they stand for.\<close>

definition live :: "HPACKDynamicTable \<Rightarrow> Entry list" where
  "live t = map (\<lambda>i. entries t ! ((first t + i) mod MAX_ENTRIES)) [0..<count t]"

definition headers :: "HPACKDynamicTable \<Rightarrow> header_field list" where
  "headers t = rev (map (entry_strings (data t)) (live t))"

fun chain :: "nat \<Rightarrow> Entry list \<Rightarrow> nat \<Rightarrow> bool" where
  "chain b [] e = (b = e)"
| "chain b (x # xs) e = (off x = b \<and> chain (b + name_len x + value_len x) xs e)"

definition table_ok :: "HPACKDynamicTable \<Rightarrow> bool" where
  "table_ok t \<longleftrightarrow> length (entries t) = MAX_ENTRIES \<and> length (data t) = kStorageBytes \<and> first t < MAX_ENTRIES \<and> count t \<le> MAX_ENTRIES \<and>
     max_size t \<le> kStorageBytes \<and> data_end t \<le> kStorageBytes \<and> chain (data_begin t) (live t) (data_end t) \<and>
     current_size t = sum_list (map entry_size (live t)) \<and> current_size t \<le> max_size t"

text \<open>\<open>table_fits\<close>: as \<open>table_ok\<close>, but a lowered limit may not be enforced yet.\<close>

definition table_fits :: "HPACKDynamicTable \<Rightarrow> bool" where
  "table_fits t \<longleftrightarrow> length (entries t) = MAX_ENTRIES \<and> length (data t) = kStorageBytes \<and> first t < MAX_ENTRIES \<and> count t \<le> MAX_ENTRIES \<and>
     max_size t \<le> kStorageBytes \<and> data_end t \<le> kStorageBytes \<and> chain (data_begin t) (live t) (data_end t) \<and>
     current_size t = sum_list (map entry_size (live t)) \<and> current_size t \<le> kStorageBytes"

lemma table_ok_fits: "table_ok t \<longleftrightarrow> table_fits t \<and> current_size t \<le> max_size t"
  by (auto simp: table_ok_def table_fits_def)

lemma length_live [simp]: "length (live t) = count t"
  by (simp add: live_def)

lemma length_headers [simp]: "length (headers t) = count t"
  by (simp add: headers_def)

lemma chain_append: "chain b (xs @ ys) e \<longleftrightarrow> (\<exists>m. chain b xs m \<and> chain m ys e)"
  by (induction b xs e arbitrary: ys rule: chain.induct) auto

lemma chain_end: "chain b xs e \<longleftrightarrow> e = b + sum_list (map (\<lambda>x. name_len x + value_len x) xs) \<and> chain b xs (b + sum_list (map (\<lambda>x. name_len x + value_len x) xs))"
  by (induction b xs e rule: chain.induct) (auto simp: add.assoc)

lemma chain_bounds: "chain b xs e \<Longrightarrow> x \<in> set xs \<Longrightarrow> b \<le> off x \<and> off x + name_len x + value_len x \<le> e"
proof (induction b xs e rule: chain.induct)
  case (2 b y xs e)
  then show ?case using chain_end [of "b + name_len y + value_len y" xs e] by auto
qed simp

section \<open>Sizes\<close>

lemma field_size_entry:
  assumes "table_fits t" "e \<in> set (live t)"
  shows "field_size (entry_strings (data t) e) = entry_size e"
  using assms chain_bounds [of "data_begin t" "live t" "data_end t" e]
  by (auto simp: table_fits_def field_size_def entry_strings_def entry_size_def)

abbreviation total :: "header_field list \<Rightarrow> nat" where
  "total hs \<equiv> sum_list (map field_size hs)"

lemma total_headers: "table_fits t \<Longrightarrow> total (headers t) = current_size t"
proof -
  assume t: "table_fits t"
  have "map field_size (map (entry_strings (data t)) (live t)) = map entry_size (live t)"
    using field_size_entry [OF t] by simp
  then show ?thesis using t by (simp add: headers_def rev_map [symmetric] table_fits_def del: map_map)
qed

lemma keep_all: "total hs \<le> m \<Longrightarrow> keep m hs = hs"
  by (induction m hs rule: keep.induct) auto

lemma keep_total: "total (keep m hs) \<le> m"
  by (induction m hs rule: keep.induct) auto

lemma keep_butlast: "m < total hs \<Longrightarrow> keep m (butlast hs) = keep m hs"
proof (induction m hs rule: keep.induct)
  case (2 m h hs)
  then show ?case by (cases "hs = []") (auto simp: not_le)
qed simp

lemma total_count: "32 * length hs \<le> total hs"
  by (induction hs) (auto simp: field_size_def)

section \<open>Eviction\<close>

lemma live_evict:
  assumes "table_fits t" "0 < count t"
  shows "live (evict_oldest t) = tl (live t)"
proof -
  have "[0..<count t] = 0 # map Suc [0..<count t - 1]" using assms(2) by (simp add: map_Suc_upt upt_conv_Cons)
  then have "tl (live t) = map (\<lambda>i. entries t ! ((first t + Suc i) mod MAX_ENTRIES)) [0..<count t - 1]"
    by (simp add: live_def comp_def)
  moreover have "((first t + 1) mod MAX_ENTRIES + i) mod MAX_ENTRIES = (first t + Suc i) mod MAX_ENTRIES" for i
    by (simp add: mod_add_left_eq)
  ultimately show ?thesis using assms(2) by (cases "count t = 1") (simp_all add: evict_oldest_def live_def Let_def)
qed

lemma evict_fields:
  assumes "table_fits t" "0 < count t"
  shows "data (evict_oldest t) = data t" "entries (evict_oldest t) = entries t" "max_size (evict_oldest t) = max_size t"
    "current_size (evict_oldest t) = current_size t - entry_size (hd (live t))" "first (evict_oldest t) < MAX_ENTRIES"
proof -
  show "data (evict_oldest t) = data t" "entries (evict_oldest t) = entries t" "max_size (evict_oldest t) = max_size t"
    "first (evict_oldest t) < MAX_ENTRIES"
    by (simp_all add: evict_oldest_def Let_def MAX_ENTRIES_def)
  have "hd (live t) = entries t ! first t" using assms by (simp add: live_def upt_conv_Cons table_fits_def)
  then show "current_size (evict_oldest t) = current_size t - entry_size (hd (live t))"
    by (simp add: evict_oldest_def Let_def)
qed

lemma evict_chain:
  assumes "table_fits t" "0 < count t"
  shows "chain (data_begin (evict_oldest t)) (tl (live t)) (data_end (evict_oldest t)) \<and> data_end (evict_oldest t) \<le> kStorageBytes"
proof -
  obtain x xs where l: "live t = x # xs" using assms(2) by (cases "live t") (auto simp flip: length_0_conv)
  have c: "chain (off x + name_len x + value_len x) xs (data_end t)" "data_end t \<le> kStorageBytes" using assms(1) l by (auto simp: table_fits_def)
  show ?thesis
  proof (cases "count t = 1")
    case True
    then have "xs = []" using l length_live [of t] by simp
    then show ?thesis using True l by (simp add: evict_oldest_def Let_def)
  next
    case False
    then obtain y ys where xs: "xs = y # ys" using l length_live [of t] assms(2) by (cases xs) auto
    have "live t ! 1 = entries t ! ((first t + 1) mod MAX_ENTRIES)" using False assms(2) by (simp add: live_def)
    then have "y = entries t ! ((first t + 1) mod MAX_ENTRIES)" using l xs by simp
    then show ?thesis using False assms(2) c l xs by (simp add: evict_oldest_def Let_def)
  qed
qed

lemma evict_oldest_fits:
  assumes "table_fits t" "0 < count t"
  shows "table_fits (evict_oldest t) \<and> headers (evict_oldest t) = butlast (headers t) \<and> max_size (evict_oldest t) = max_size t"
proof -
  obtain x xs where l: "live t = x # xs" using assms(2) by (cases "live t") (auto simp flip: length_0_conv)
  have "butlast (headers t) = rev (map (entry_strings (data t)) (tl (live t)))" by (simp add: headers_def l)
  then show ?thesis
    using assms live_evict [OF assms] evict_fields [OF assms] evict_chain [OF assms] evict_oldest_count [OF assms(2)] l
    by (auto simp: table_fits_def headers_def)
qed

lemma total_full: "table_fits t \<Longrightarrow> count t = MAX_ENTRIES \<Longrightarrow> kStorageBytes \<le> current_size t"
  using total_count [of "headers t"] total_headers [of t] by (simp add: MAX_ENTRIES_def kStorageBytes_def)

lemma evict_for_fits:
  assumes "table_fits t" "sz \<le> max_size t" "0 < sz"
  shows "table_fits (evict_for sz t) \<and> headers (evict_for sz t) = keep (max_size t - sz) (headers t) \<and>
    max_size (evict_for sz t) = max_size t \<and> current_size (evict_for sz t) + sz \<le> max_size t \<and> count (evict_for sz t) < MAX_ENTRIES"
  using assms
proof (induction sz t rule: evict_for.induct)
  case (1 sz t)
  have full: "current_size t + sz > max_size t" if "count t = MAX_ENTRIES"
    using total_full [OF 1(2) that] 1(2,4) by (simp add: table_fits_def)
  note tot = total_headers [OF 1(2)]
  show ?case
  proof (cases "count t > 0 \<and> current_size t + sz > max_size t")
    case True
    note ev = evict_oldest_fits [OF 1(2)]
    have "keep (max_size t - sz) (butlast (headers t)) = keep (max_size t - sz) (headers t)"
      by (rule keep_butlast) (use True tot 1(3) in linarith)
    then show ?thesis using 1 True ev by (simp add: evict_for.simps [of sz t])
  next
    case False
    have c: "current_size t + sz \<le> max_size t"
    proof (cases "count t = 0")
      case True
      then have "current_size t = 0" using 1(2) by (simp add: table_fits_def live_def)
      then show ?thesis using 1(3) by simp
    qed (use False in simp)
    then have "count t < MAX_ENTRIES" using full 1(2) by (auto simp: table_fits_def le_less)
    moreover have "keep (max_size t - sz) (headers t) = headers t" by (rule keep_all) (use c tot in linarith)
    ultimately show ?thesis using 1(2) c by (simp add: evict_for.simps [of sz t])
  qed
qed

lemma evict_to_max_ok:
  assumes "table_fits t"
  shows "table_ok (evict_to_max t) \<and> headers (evict_to_max t) = keep (max_size t) (headers t) \<and> max_size (evict_to_max t) = max_size t"
  using assms
proof (induction t rule: evict_to_max.induct)
  case (1 t)
  note tot = total_headers [OF 1(2)]
  show ?case
  proof (cases "count t > 0 \<and> current_size t > max_size t")
    case True
    have "keep (max_size t) (butlast (headers t)) = keep (max_size t) (headers t)"
      by (rule keep_butlast) (use True tot in linarith)
    then show ?thesis using 1 True evict_oldest_fits [OF 1(2)] by (simp add: evict_to_max.simps [of t])
  next
    case False
    have "current_size t \<le> max_size t" using False 1(2) by (cases "count t = 0") (auto simp: table_fits_def live_def)
    then show ?thesis using False 1(2) tot keep_all [of "headers t"] by (simp add: evict_to_max.simps [of t] table_ok_fits)
  qed
qed

section \<open>Compaction\<close>

lemma length_compact_loop [simp]: "length (compact_loop n i t es) = length es"
  by (induction n i t es rule: compact_loop.induct) (auto simp: Let_def)

lemma compact_loop_nth:
  assumes "length es = MAX_ENTRIES" "i + n \<le> MAX_ENTRIES" "k < MAX_ENTRIES"
  shows "compact_loop n i t es ! ((first t + k) mod MAX_ENTRIES) =
    (if i \<le> k \<and> k < i + n
     then (es ! ((first t + k) mod MAX_ENTRIES))\<lparr>off := off (es ! ((first t + k) mod MAX_ENTRIES)) - data_begin t\<rparr>
     else es ! ((first t + k) mod MAX_ENTRIES))"
  using assms
proof (induction n i t es rule: compact_loop.induct)
  case (2 n i t es)
  have "(first t + k) mod MAX_ENTRIES = (first t + i) mod MAX_ENTRIES \<longleftrightarrow> k = i"
    by (rule mod_add_inj) (use 2 in auto)
  moreover have "(first t + i) mod MAX_ENTRIES < MAX_ENTRIES" by (simp add: MAX_ENTRIES_def)
  ultimately show ?case using 2 by (auto simp: Let_def)
qed simp

lemma chain_shift:
  "chain b xs e \<Longrightarrow> d \<le> b \<Longrightarrow> chain (b - d) (map (\<lambda>x. x\<lparr>off := off x - d\<rparr>) xs) (e - d)"
proof (induction b xs e rule: chain.induct)
  case (2 b x xs e)
  have "b + name_len x + value_len x - d = b - d + name_len x + value_len x" using 2(3) by simp
  then show ?case using 2 by simp
qed simp

lemma live_compact:
  assumes "table_fits t"
  shows "live (compact t) = map (\<lambda>x. x\<lparr>off := off x - data_begin t\<rparr>) (live t)"
proof (cases "data_begin t = 0")
  case False
  have "entries (compact t) ! ((first t + i) mod MAX_ENTRIES) =
      (entries t ! ((first t + i) mod MAX_ENTRIES))\<lparr>off := off (entries t ! ((first t + i) mod MAX_ENTRIES)) - data_begin t\<rparr>"
    if "i < count t" for i
    using compact_loop_nth [of "entries t" 0 "count t" i t] assms that False by (simp add: table_fits_def compact_def Let_def)
  then show ?thesis using False by (simp add: live_def compact_def Let_def)
qed (simp add: compact_def)

lemma moved_slice:
  assumes "b \<le> o1" "o1 + n \<le> e" "e \<le> length d"
  shows "take n (drop (o1 - b) (put 0 (take (e - b) (drop b d)) d)) = take n (drop o1 d)"
proof -
  have "drop (o1 - b) (take (e - b) (drop b d)) = take (e - o1) (drop o1 d)"
    using assms by (simp add: drop_take add.commute)
  then show ?thesis using assms by (simp add: put_0)
qed

lemma compact_ok:
  assumes "table_fits t"
  shows "table_fits (compact t) \<and> headers (compact t) = headers t \<and> data_begin (compact t) = 0 \<and> count (compact t) = count t \<and>
    max_size (compact t) = max_size t \<and> current_size (compact t) = current_size t \<and> first (compact t) = first t \<and>
    data_end (compact t) = data_end t - data_begin t"
proof (cases "data_begin t = 0")
  case True
  then show ?thesis using assms by (simp add: compact_def)
next
  case False
  note l = live_compact [OF assms]
  have c: "chain (data_begin t) (live t) (data_end t)" "data_end t \<le> length (data t)" using assms by (simp_all add: table_fits_def)
  have d: "data (compact t) = put 0 (take (data_end t - data_begin t) (drop (data_begin t) (data t))) (data t)"
    using False by (simp add: compact_def Let_def)
  have "entry_strings (data (compact t)) (x\<lparr>off := off x - data_begin t\<rparr>) = entry_strings (data t) x" if "x \<in> set (live t)" for x
  proof -
    note b = chain_bounds [OF c(1) that]
    have "off x - data_begin t + name_len x = off x + name_len x - data_begin t" using b by simp
    then show ?thesis using b c(2) moved_slice [of "data_begin t" "off x" "name_len x" "data_end t" "data t"]
        moved_slice [of "data_begin t" "off x + name_len x" "value_len x" "data_end t" "data t"] by (simp add: entry_strings_def d)
  qed
  then have h: "headers (compact t) = headers t" by (simp add: headers_def l comp_def)
  have "length (data (compact t)) = kStorageBytes" using c assms by (simp add: d length_put table_fits_def)
  moreover have "sum_list (map entry_size (live (compact t))) = sum_list (map entry_size (live t))" by (simp add: l comp_def entry_size_def [abs_def])
  moreover have "chain 0 (live (compact t)) (data_end t - data_begin t)" using chain_shift [OF c(1), of "data_begin t"] by (simp add: l)
  ultimately show ?thesis using assms h False by (auto simp: table_fits_def compact_def Let_def)
qed

section \<open>Insertion\<close>

text \<open>Writing a header behind the last one.\<close>

definition appended :: "byte list \<Rightarrow> byte list \<Rightarrow> HPACKDynamicTable \<Rightarrow> HPACKDynamicTable" where
  "appended name val t =
     (let t = t\<lparr>data := put (data_end t + length name) val (put (data_end t) name (data t))\<rparr>;
          t = t\<lparr>entries := (entries t)[(first t + count t) mod MAX_ENTRIES :=
                  \<lparr>off = data_end t, name_len = length name, value_len = length val\<rparr>]\<rparr>;
          t = (if count t = 0 then t\<lparr>data_begin := data_end t\<rparr> else t)
      in t\<lparr>data_end := data_end t + length name + length val, count := count t + 1,
           current_size := current_size t + (length name + length val + 32)\<rparr>)"

lemma live_appended:
  assumes "table_fits t" "count t < MAX_ENTRIES"
  shows "live (appended name val t) = live t @ [\<lparr>off = data_end t, name_len = length name, value_len = length val\<rparr>]"
proof -
  have p: "(first t + count t) mod MAX_ENTRIES < MAX_ENTRIES" by (simp add: MAX_ENTRIES_def)
  have "(first t + count t) mod MAX_ENTRIES \<noteq> (first t + i) mod MAX_ENTRIES" if "i < count t" for i
    using mod_add_inj [of i MAX_ENTRIES "count t" "first t"] that assms(2) by simp
  then have "map (\<lambda>i. entries (appended name val t) ! ((first t + i) mod MAX_ENTRIES)) [0..<count t] = live t"
    by (auto simp: live_def appended_def Let_def)
  moreover have "entries (appended name val t) ! ((first t + count t) mod MAX_ENTRIES) = \<lparr>off = data_end t, name_len = length name, value_len = length val\<rparr>"
    using p assms(1) by (simp add: appended_def Let_def table_fits_def)
  moreover have "first (appended name val t) = first t" "count (appended name val t) = Suc (count t)" by (simp_all add: appended_def Let_def)
  ultimately show ?thesis by (simp add: live_def [of "appended name val t"])
qed

lemma appended_ok:
  assumes "table_fits t" "count t < MAX_ENTRIES" "data_end t + length name + length val \<le> kStorageBytes"
    "current_size t + (length name + length val + 32) \<le> max_size t"
  shows "table_ok (appended name val t) \<and> headers (appended name val t) = (name, val) # headers t \<and> max_size (appended name val t) = max_size t"
proof -
  have f: "length (data t) = kStorageBytes" "chain (data_begin t) (live t) (data_end t)" "data_end t \<le> kStorageBytes" "length (entries t) = MAX_ENTRIES"
    using assms(1) by (simp_all add: table_fits_def)
  note l = live_appended [OF assms(1,2), of name val]
  have d: "data (appended name val t) = put (data_end t) (name @ val) (data t)"
    using put_two [of "data_end t" name val "data t"] assms(3) f by (simp add: appended_def Let_def)
  have old: "entry_strings (data (appended name val t)) x = entry_strings (data t) x" if "x \<in> set (live t)" for x
  proof -
    note b = chain_bounds [OF f(2) that]
    show ?thesis using b f put_before [of "off x" "name_len x" "data_end t" "data t" "name @ val"]
        put_before [of "off x + name_len x" "value_len x" "data_end t" "data t" "name @ val"] by (simp add: entry_strings_def d)
  qed
  have new: "entry_strings (data (appended name val t)) \<lparr>off = data_end t, name_len = length name, value_len = length val\<rparr> = (name, val)"
    using f by (simp add: entry_strings_def d put_def)
  have h: "headers (appended name val t) = (name, val) # headers t"
    using old by (simp add: headers_def l new)
  have b: "chain (data_begin (appended name val t)) (live t) (data_end t)"
    using f(2) by (cases "count t = 0") (simp_all add: appended_def Let_def live_def)
  have "length (data (appended name val t)) = kStorageBytes" using f assms(3) by (simp add: d length_put)
  moreover have "chain (data_begin (appended name val t)) (live (appended name val t)) (data_end (appended name val t))"
    unfolding l chain_append using b by (auto intro!: exI [of _ "data_end t"] simp: appended_def Let_def)
  moreover have "current_size (appended name val t) = sum_list (map entry_size (live (appended name val t)))"
    using assms(1) by (simp add: l table_fits_def) (simp add: appended_def Let_def entry_size_def)
  ultimately show ?thesis
    using assms h f by (auto simp: table_ok_def table_fits_def appended_def Let_def)
qed

lemma table_add_ok:
  assumes "table_ok t"
  shows "table_ok (table_add name val t) \<and> headers (table_add name val t) = spec_insert (max_size t) (name, val) (headers t) \<and>
    max_size (table_add name val t) = max_size t"
proof (cases "length name + length val + 32 > max_size t")
  case True
  then show ?thesis
    using assms by (auto simp: table_add_def clear_def table_ok_def live_def headers_def spec_insert_def field_size_def MAX_ENTRIES_def)
next
  case False
  define sz where "sz = length name + length val + 32"
  define t1 where "t1 = evict_for sz t"
  define t2 where "t2 = (if data_end t1 + (length name + length val) > kStorageBytes then compact t1 else t1)"
  have t1: "table_fits t1" "headers t1 = keep (max_size t - sz) (headers t)" "max_size t1 = max_size t" "current_size t1 + sz \<le> max_size t" "count t1 < MAX_ENTRIES"
    using evict_for_fits [of t sz] assms False by (simp_all add: table_ok_fits sz_def t1_def)
  note c = compact_ok [OF t1(1)]
  have t2: "table_fits t2" "headers t2 = headers t1" "max_size t2 = max_size t" "current_size t2 = current_size t1" "count t2 = count t1"
    using t1 c by (auto simp: t2_def)
  have "data_end t1 - data_begin t1 = sum_list (map (\<lambda>x. name_len x + value_len x) (live t1))"
    using chain_end [of "data_begin t1" "live t1" "data_end t1"] t1(1) by (auto simp: table_fits_def)
  moreover have "\<dots> \<le> current_size t1" using t1(1) by (auto simp: table_fits_def entry_size_def intro!: sum_list_mono)
  moreover have "max_size t \<le> kStorageBytes" using assms by (simp add: table_ok_def)
  ultimately have "data_end t2 + length name + length val \<le> kStorageBytes"
    using t1(4) c by (auto simp: t2_def sz_def)
  then have "table_ok (appended name val t2) \<and> headers (appended name val t2) = (name, val) # headers t2 \<and> max_size (appended name val t2) = max_size t2"
    by (intro appended_ok) (use t1 t2 in \<open>simp_all add: sz_def\<close>)
  moreover have "table_add name val t = appended name val t2"
    using False by (simp add: table_add_def Let_def sz_def [symmetric] t1_def [symmetric] t2_def [symmetric] appended_def)
  ultimately show ?thesis using t1 t2 False by (simp add: spec_insert_def field_size_def sz_def)
qed

lemma table_get_nth:
  "table_ok t \<Longrightarrow> table_get i t = (if i < count t then Some (headers t ! i) else None)"
proof -
  assume "table_ok t"
  show ?thesis
  proof (cases "i < count t")
    case True
    have "headers t ! i = entry_strings (data t) (live t ! (count t - Suc i))" using True by (simp add: headers_def rev_nth)
    also have "live t ! (count t - Suc i) = entries t ! ((first t + (count t - Suc i)) mod MAX_ENTRIES)" using True by (simp add: live_def)
    also have "first t + (count t - Suc i) = first t + count t - 1 - i" using True by simp
    finally show ?thesis using True by (simp add: table_get_def)
  qed (simp add: table_get_def)
qed

lemma set_max_size_ok:
  assumes "table_ok t"
  shows "table_ok (set_max_size m t) \<and> headers (set_max_size m t) = keep (min m kStorageBytes) (headers t) \<and>
    max_size (set_max_size m t) = min m kStorageBytes"
proof -
  let ?t = "t\<lparr>max_size := min m kStorageBytes\<rparr>"
  have "table_fits ?t" "headers ?t = headers t" using assms by (auto simp: table_ok_def table_fits_def live_def headers_def)
  then show ?thesis using evict_to_max_ok [of ?t] by (simp add: set_max_size_def)
qed

lemma table_new_ok: "table_ok (table_new m) \<and> headers (table_new m) = [] \<and> max_size (table_new m) = min m kStorageBytes"
  by (simp add: table_ok_def table_new_def live_def headers_def MAX_ENTRIES_def)

section \<open>The contract of a header table\<close>

text \<open>
  What the decoder relies on: a table stands for a list of headers, newest first; insertion and a change of
  the limit act on that list as the RFC says; lookup reads it.
\<close>

locale header_table =
  fixes ok :: "'t \<Rightarrow> bool" and hdrs :: "'t \<Rightarrow> header_field list" and limit :: "'t \<Rightarrow> nat"
    and insert :: "byte list \<Rightarrow> byte list \<Rightarrow> 't \<Rightarrow> 't" and resize :: "nat \<Rightarrow> 't \<Rightarrow> 't" and lookup :: "nat \<Rightarrow> 't \<Rightarrow> header_field option"
  assumes insert_spec: "ok t \<Longrightarrow> ok (insert n v t) \<and> hdrs (insert n v t) = spec_insert (limit t) (n, v) (hdrs t) \<and> limit (insert n v t) = limit t"
    and resize_spec: "ok t \<Longrightarrow> m \<le> kStorageBytes \<Longrightarrow> ok (resize m t) \<and> hdrs (resize m t) = keep m (hdrs t) \<and> limit (resize m t) = m"
    and lookup_spec: "ok t \<Longrightarrow> lookup i t = (if i < length (hdrs t) then Some (hdrs t ! i) else None)"
    and size_spec: "ok t \<Longrightarrow> total (hdrs t) \<le> limit t"
begin

lemma lookup_inserted: "ok t \<Longrightarrow> field_size (n, v) \<le> limit t \<Longrightarrow> lookup 0 (insert n v t) = Some (n, v)"
  using insert_spec [of t n v] lookup_spec [of "insert n v t" 0] by (simp add: spec_insert_def)

lemma lookup_older:
  assumes "ok t" "total (hdrs t) + field_size (n, v) \<le> limit t"
  shows "lookup (Suc i) (insert n v t) = lookup i t"
proof -
  have "hdrs (insert n v t) = (n, v) # hdrs t"
    using insert_spec [OF assms(1), of n v] assms(2) keep_all [of "hdrs t" "limit t - field_size (n, v)"] by (simp add: spec_insert_def)
  then show ?thesis using insert_spec [OF assms(1), of n v] lookup_spec [of "insert n v t" "Suc i"] lookup_spec [OF assms(1), of i] by simp
qed

lemma oversized_empties: "ok t \<Longrightarrow> limit t < field_size (n, v) \<Longrightarrow> lookup i (insert n v t) = None"
  using insert_spec [of t n v] lookup_spec [of "insert n v t" i] by (simp add: spec_insert_def)

lemma resize_same: "ok t \<Longrightarrow> limit t \<le> m \<Longrightarrow> m \<le> kStorageBytes \<Longrightarrow> hdrs (resize m t) = hdrs t"
  using resize_spec [of t m] size_spec [of t] keep_all [of "hdrs t" m] by simp

end

interpretation dyn: header_table table_ok headers max_size table_add set_max_size table_get
proof
  fix t :: HPACKDynamicTable assume "table_ok t"
  then show "total (headers t) \<le> max_size t" using total_headers [of t] by (simp add: table_ok_fits)
qed (use table_add_ok set_max_size_ok table_get_nth in auto)

section \<open>Property\<close>

text \<open>
  C3. The ring-and-region dynamic table implements the table of RFC 7541: starting from an empty table of any
  size, after any sequence of insertions and size changes its entries, read by index, are exactly those of the
  list that inserts at the front and keeps the longest prefix within the current limit; it never holds more
  than 128 descriptors or writes past its 4096 bytes, and its size is at most the limit.
\<close>

datatype table_op = Insert "byte list" "byte list" | Resize nat

fun run_table :: "table_op list \<Rightarrow> HPACKDynamicTable \<Rightarrow> HPACKDynamicTable" where
  "run_table [] t = t"
| "run_table (Insert n v # ops) t = run_table ops (table_add n v t)"
| "run_table (Resize m # ops) t = run_table ops (set_max_size m t)"

fun run_spec :: "table_op list \<Rightarrow> nat \<times> header_field list \<Rightarrow> nat \<times> header_field list" where
  "run_spec [] s = s"
| "run_spec (Insert n v # ops) (m, hs) = run_spec ops (m, spec_insert m (n, v) hs)"
| "run_spec (Resize k # ops) (m, hs) = run_spec ops (min k 4096, keep (min k 4096) hs)"

lemma run_table_spec:
  "table_ok t \<Longrightarrow> table_ok (run_table ops t) \<and> run_spec ops (max_size t, headers t) = (max_size (run_table ops t), headers (run_table ops t))"
proof (induction ops t rule: run_table.induct)
  case (2 n v ops t)
  then show ?case using table_add_ok [of t n v] by simp
next
  case (3 m ops t)
  then show ?case using set_max_size_ok [of t m] by (simp add: kStorageBytes_def)
qed simp

theorem hpack_table_refines_rfc:
  "(let t = run_table ops (table_new m); (limit, hs) = run_spec ops (min m 4096, [])
    in max_size t = limit \<and> (\<forall>i. table_get i t = (if i < length hs then Some (hs ! i) else None)) \<and> count t = length hs \<and>
       current_size t = total hs \<and> total hs \<le> limit \<and> count t \<le> 128 \<and> data_end t \<le> 4096 \<and> length (data t) = 4096)"
proof -
  define t where "t = run_table ops (table_new m)"
  have "table_ok t" "run_spec ops (min m 4096, []) = (max_size t, headers t)"
    using run_table_spec [of "table_new m" ops] table_new_ok [of m] by (simp_all add: t_def kStorageBytes_def)
  moreover from this have "total (headers t) = current_size t" using total_headers by (simp add: table_ok_fits)
  ultimately show ?thesis
    using table_get_nth [of t] by (simp add: t_def [symmetric] table_ok_def MAX_ENTRIES_def kStorageBytes_def)
qed

end
