(* ===== verification/Huffman_Tables.thy ===== *)
theory Huffman_Tables
  imports Bolt_Bytes
begin

text \<open>
  The static data of the Huffman codecs, copied from the sources: the three code tables
  (\<^verbatim>\<open>src/http/huffman.cpp\<close>, \<^verbatim>\<open>src/http/huffman_table.cpp\<close>, \<^verbatim>\<open>include/boltapi/http3/qpack_huffman.h\<close>), each entry
  the right-aligned code and its number of bits, and the transition table of the decoding automaton
  (\<^verbatim>\<open>src/http/huffman_table_data.cpp\<close>), 257 states by 16 nibbles, each entry the next state with the
  flags and the symbol. The automaton's rows are grouped by seven.
\<close>

section \<open>Code tables\<close>

type_synonym code_entry = "u32 \<times> byte"

definition huffman_encode_table :: "code_entry list" where
  "huffman_encode_table = [
     (0x1FF8, 13), (0x7FFFD8, 23), (0xFFFFFE2, 28), (0xFFFFFE3, 28), (0xFFFFFE4, 28), (0xFFFFFE5, 28),
     (0xFFFFFE6, 28), (0xFFFFFE7, 28), (0xFFFFFE8, 28), (0xFFFFEA, 24), (0x3FFFFFFC, 30), (0xFFFFFE9, 28),
     (0xFFFFFEA, 28), (0x3FFFFFFD, 30), (0xFFFFFEB, 28), (0xFFFFFEC, 28), (0xFFFFFED, 28), (0xFFFFFEE, 28),
     (0xFFFFFEF, 28), (0xFFFFFF0, 28), (0xFFFFFF1, 28), (0xFFFFFF2, 28), (0x3FFFFFFE, 30), (0xFFFFFF3, 28),
     (0xFFFFFF4, 28), (0xFFFFFF5, 28), (0xFFFFFF6, 28), (0xFFFFFF7, 28), (0xFFFFFF8, 28), (0xFFFFFF9, 28),
     (0xFFFFFFA, 28), (0xFFFFFFB, 28), (0x14, 6), (0x3F8, 10), (0x3F9, 10), (0xFFA, 12),
     (0x1FF9, 13), (0x15, 6), (0xF8, 8), (0x7FA, 11), (0x3FA, 10), (0x3FB, 10),
     (0xF9, 8), (0x7FB, 11), (0xFA, 8), (0x16, 6), (0x17, 6), (0x18, 6),
     (0, 5), (1, 5), (2, 5), (0x19, 6), (0x1A, 6), (0x1B, 6),
     (0x1C, 6), (0x1D, 6), (0x1E, 6), (0x1F, 6), (0x5C, 7), (0xFB, 8),
     (0x7FFC, 15), (0x20, 6), (0xFFB, 12), (0x3FC, 10), (0x1FFA, 13), (0x21, 6),
     (0x5D, 7), (0x5E, 7), (0x5F, 7), (0x60, 7), (0x61, 7), (0x62, 7),
     (0x63, 7), (0x64, 7), (0x65, 7), (0x66, 7), (0x67, 7), (0x68, 7),
     (0x69, 7), (0x6A, 7), (0x6B, 7), (0x6C, 7), (0x6D, 7), (0x6E, 7),
     (0x6F, 7), (0x70, 7), (0x71, 7), (0x72, 7), (0xFC, 8), (0x73, 7),
     (0xFD, 8), (0x1FFB, 13), (0x7FFF0, 19), (0x1FFC, 13), (0x3FFC, 14), (0x22, 6),
     (0x7FFD, 15), (3, 5), (0x23, 6), (4, 5), (0x24, 6), (5, 5),
     (0x25, 6), (0x26, 6), (0x27, 6), (6, 5), (0x74, 7), (0x75, 7),
     (0x28, 6), (0x29, 6), (0x2A, 6), (7, 5), (0x2B, 6), (0x76, 7),
     (0x2C, 6), (8, 5), (9, 5), (0x2D, 6), (0x77, 7), (0x78, 7),
     (0x79, 7), (0x7A, 7), (0x7B, 7), (0x7FFE, 15), (0x7FC, 11), (0x3FFD, 14),
     (0x1FFD, 13), (0xFFFFFFC, 28), (0xFFFE6, 20), (0x3FFFD2, 22), (0xFFFE7, 20), (0xFFFE8, 20),
     (0x3FFFD3, 22), (0x3FFFD4, 22), (0x3FFFD5, 22), (0x7FFFD9, 23), (0x3FFFD6, 22), (0x7FFFDA, 23),
     (0x7FFFDB, 23), (0x7FFFDC, 23), (0x7FFFDD, 23), (0x7FFFDE, 23), (0xFFFFEB, 24), (0x7FFFDF, 23),
     (0xFFFFEC, 24), (0xFFFFED, 24), (0x3FFFD7, 22), (0x7FFFE0, 23), (0xFFFFEE, 24), (0x7FFFE1, 23),
     (0x7FFFE2, 23), (0x7FFFE3, 23), (0x7FFFE4, 23), (0x1FFFDC, 21), (0x3FFFD8, 22), (0x7FFFE5, 23),
     (0x3FFFD9, 22), (0x7FFFE6, 23), (0x7FFFE7, 23), (0xFFFFEF, 24), (0x3FFFDA, 22), (0x1FFFDD, 21),
     (0xFFFE9, 20), (0x3FFFDB, 22), (0x3FFFDC, 22), (0x7FFFE8, 23), (0x7FFFE9, 23), (0x1FFFDE, 21),
     (0x7FFFEA, 23), (0x3FFFDD, 22), (0x3FFFDE, 22), (0xFFFFF0, 24), (0x1FFFDF, 21), (0x3FFFDF, 22),
     (0x7FFFEB, 23), (0x7FFFEC, 23), (0x1FFFE0, 21), (0x1FFFE1, 21), (0x3FFFE0, 22), (0x1FFFE2, 21),
     (0x7FFFED, 23), (0x3FFFE1, 22), (0x7FFFEE, 23), (0x7FFFEF, 23), (0xFFFEA, 20), (0x3FFFE2, 22),
     (0x3FFFE3, 22), (0x3FFFE4, 22), (0x7FFFF0, 23), (0x3FFFE5, 22), (0x3FFFE6, 22), (0x7FFFF1, 23),
     (0x3FFFFE0, 26), (0x3FFFFE1, 26), (0xFFFEB, 20), (0x7FFF1, 19), (0x3FFFE7, 22), (0x7FFFF2, 23),
     (0x3FFFE8, 22), (0x1FFFFEC, 25), (0x3FFFFE2, 26), (0x3FFFFE3, 26), (0x3FFFFE4, 26), (0x7FFFFDE, 27),
     (0x7FFFFDF, 27), (0x3FFFFE5, 26), (0xFFFFF1, 24), (0x1FFFFED, 25), (0x7FFF2, 19), (0x1FFFE3, 21),
     (0x3FFFFE6, 26), (0x7FFFFE0, 27), (0x7FFFFE1, 27), (0x3FFFFE7, 26), (0x7FFFFE2, 27), (0xFFFFF2, 24),
     (0x1FFFE4, 21), (0x1FFFE5, 21), (0x3FFFFE8, 26), (0x3FFFFE9, 26), (0xFFFFFFD, 28), (0x7FFFFE3, 27),
     (0x7FFFFE4, 27), (0x7FFFFE5, 27), (0xFFFEC, 20), (0xFFFFF3, 24), (0xFFFED, 20), (0x1FFFE6, 21),
     (0x3FFFE9, 22), (0x1FFFE7, 21), (0x1FFFE8, 21), (0x7FFFF3, 23), (0x3FFFEA, 22), (0x3FFFEB, 22),
     (0x1FFFFEE, 25), (0x1FFFFEF, 25), (0xFFFFF4, 24), (0xFFFFF5, 24), (0x3FFFFEA, 26), (0x7FFFF4, 23),
     (0x3FFFFEB, 26), (0x7FFFFE6, 27), (0x3FFFFEC, 26), (0x3FFFFED, 26), (0x7FFFFE7, 27), (0x7FFFFE8, 27),
     (0x7FFFFE9, 27), (0x7FFFFEA, 27), (0x7FFFFEB, 27), (0xFFFFFFE, 28), (0x7FFFFEC, 27), (0x7FFFFED, 27),
     (0x7FFFFEE, 27), (0x7FFFFEF, 27), (0x7FFFFF0, 27), (0x3FFFFEE, 26)]"

definition HUFFMAN_ENCODE_TABLE_lo :: "code_entry list" where
  "HUFFMAN_ENCODE_TABLE_lo = [
     (0x1FF8, 13), (0x7FFFD8, 23), (0xFFFFFE2, 28), (0xFFFFFE3, 28), (0xFFFFFE4, 28), (0xFFFFFE5, 28),
     (0xFFFFFE6, 28), (0xFFFFFE7, 28), (0xFFFFFE8, 28), (0xFFFFEA, 24), (0x3FFFFFFC, 30), (0xFFFFFE9, 28),
     (0xFFFFFEA, 28), (0x3FFFFFFD, 30), (0xFFFFFEB, 28), (0xFFFFFEC, 28), (0xFFFFFED, 28), (0xFFFFFEE, 28),
     (0xFFFFFEF, 28), (0xFFFFFF0, 28), (0xFFFFFF1, 28), (0xFFFFFF2, 28), (0x3FFFFFFE, 30), (0xFFFFFF3, 28),
     (0xFFFFFF4, 28), (0xFFFFFF5, 28), (0xFFFFFF6, 28), (0xFFFFFF7, 28), (0xFFFFFF8, 28), (0xFFFFFF9, 28),
     (0xFFFFFFA, 28), (0xFFFFFFB, 28), (0x14, 6), (0x3F8, 10), (0x3F9, 10), (0xFFA, 12),
     (0x1FF9, 13), (0x15, 6), (0xF8, 8), (0x7FA, 11), (0x3FA, 10), (0x3FB, 10),
     (0xF9, 8), (0x7FB, 11), (0xFA, 8), (0x16, 6), (0x17, 6), (0x18, 6),
     (0, 5), (1, 5), (2, 5), (0x19, 6), (0x1A, 6), (0x1B, 6),
     (0x1C, 6), (0x1D, 6), (0x1E, 6), (0x1F, 6), (0x5C, 7), (0xFB, 8),
     (0x7FFC, 15), (0x20, 6), (0xFFB, 12), (0x3FC, 10), (0x1FFA, 13), (0x21, 6),
     (0x5D, 7), (0x5E, 7), (0x5F, 7), (0x60, 7), (0x61, 7), (0x62, 7),
     (0x63, 7), (0x64, 7), (0x65, 7), (0x66, 7), (0x67, 7), (0x68, 7),
     (0x69, 7), (0x6A, 7), (0x6B, 7), (0x6C, 7), (0x6D, 7), (0x6E, 7),
     (0x6F, 7), (0x70, 7), (0x71, 7), (0x72, 7), (0xFC, 8), (0x73, 7),
     (0xFD, 8), (0x1FFB, 13), (0x7FFF0, 19), (0x1FFC, 13), (0x3FFC, 14), (0x22, 6),
     (0x7FFD, 15), (3, 5), (0x23, 6), (4, 5), (0x24, 6), (5, 5),
     (0x25, 6), (0x26, 6), (0x27, 6), (6, 5), (0x74, 7), (0x75, 7),
     (0x28, 6), (0x29, 6), (0x2A, 6), (7, 5), (0x2B, 6), (0x76, 7),
     (0x2C, 6), (8, 5), (9, 5), (0x2D, 6), (0x77, 7), (0x78, 7),
     (0x79, 7), (0x7A, 7), (0x7B, 7), (0x7FFE, 15), (0x7FC, 11), (0x3FFD, 14),
     (0x1FFD, 13), (0xFFFFFFC, 28)]"

definition HUFFMAN_ENCODE_TABLE_hi :: "code_entry list" where
  "HUFFMAN_ENCODE_TABLE_hi = [
     (0xFFFE6, 20), (0x3FFFD2, 22), (0xFFFE7, 20), (0xFFFE8, 20), (0x3FFFD3, 22), (0x3FFFD4, 22),
     (0x3FFFD5, 22), (0x7FFFD9, 23), (0x3FFFD6, 22), (0x7FFFDA, 23), (0x7FFFDB, 23), (0x7FFFDC, 23),
     (0x7FFFDD, 23), (0x7FFFDE, 23), (0xFFFFEB, 24), (0x7FFFDF, 23), (0xFFFFEC, 24), (0xFFFFED, 24),
     (0x3FFFD7, 22), (0x7FFFE0, 23), (0xFFFFEE, 24), (0x7FFFE1, 23), (0x7FFFE2, 23), (0x7FFFE3, 23),
     (0x7FFFE4, 23), (0x1FFFDC, 21), (0x3FFFD8, 22), (0x7FFFE5, 23), (0x3FFFD9, 22), (0x7FFFE6, 23),
     (0x7FFFE7, 23), (0xFFFFEF, 24), (0x3FFFDA, 22), (0x1FFFDD, 21), (0xFFFE9, 20), (0x3FFFDB, 22),
     (0x3FFFDC, 22), (0x7FFFE8, 23), (0x7FFFE9, 23), (0x1FFFDE, 21), (0x7FFFEA, 23), (0x3FFFDD, 22),
     (0x3FFFDE, 22), (0xFFFFF0, 24), (0x1FFFDF, 21), (0x3FFFDF, 22), (0x7FFFEB, 23), (0x7FFFEC, 23),
     (0x1FFFE0, 21), (0x1FFFE1, 21), (0x3FFFE0, 22), (0x1FFFE2, 21), (0x7FFFED, 23), (0x3FFFE1, 22),
     (0x7FFFEE, 23), (0x7FFFEF, 23), (0xFFFEA, 20), (0x3FFFE2, 22), (0x3FFFE3, 22), (0x3FFFE4, 22),
     (0x7FFFF0, 23), (0x3FFFE5, 22), (0x3FFFE6, 22), (0x7FFFF1, 23), (0x3FFFFE0, 26), (0x3FFFFE1, 26),
     (0xFFFEB, 20), (0x7FFF1, 19), (0x3FFFE7, 22), (0x7FFFF2, 23), (0x3FFFE8, 22), (0x1FFFFEC, 25),
     (0x3FFFFE2, 26), (0x3FFFFE3, 26), (0x3FFFFE4, 26), (0x7FFFFDE, 27), (0x7FFFFDF, 27), (0x3FFFFE5, 26),
     (0xFFFFF1, 24), (0x1FFFFED, 25), (0x7FFF2, 19), (0x1FFFE3, 21), (0x3FFFFE6, 26), (0x7FFFFE0, 27),
     (0x7FFFFE1, 27), (0x3FFFFE7, 26), (0x7FFFFE2, 27), (0xFFFFF2, 24), (0x1FFFE4, 21), (0x1FFFE5, 21),
     (0x3FFFFE8, 26), (0x3FFFFE9, 26), (0xFFFFFFD, 28), (0x7FFFFE3, 27), (0x7FFFFE4, 27), (0x7FFFFE5, 27),
     (0xFFFEC, 20), (0xFFFFF3, 24), (0xFFFED, 20), (0x1FFFE6, 21), (0x3FFFE9, 22), (0x1FFFE7, 21),
     (0x1FFFE8, 21), (0x7FFFF3, 23), (0x3FFFEA, 22), (0x3FFFEB, 22), (0x1FFFFEE, 25), (0x1FFFFEF, 25),
     (0xFFFFF4, 24), (0xFFFFF5, 24), (0x3FFFFEA, 26), (0x7FFFF4, 23), (0x3FFFFEB, 26), (0x7FFFFE6, 27),
     (0x3FFFFEC, 26), (0x3FFFFED, 26), (0x7FFFFE7, 27), (0x7FFFFE8, 27), (0x7FFFFE9, 27), (0x7FFFFEA, 27),
     (0x7FFFFEB, 27), (0xFFFFFFE, 28), (0x7FFFFEC, 27), (0x7FFFFED, 27), (0x7FFFFEE, 27), (0x7FFFFEF, 27),
     (0x7FFFFF0, 27), (0x3FFFFEE, 26)]"

definition HUFFMAN_ENCODE_TABLE :: "code_entry list" where
  "HUFFMAN_ENCODE_TABLE = HUFFMAN_ENCODE_TABLE_lo @ HUFFMAN_ENCODE_TABLE_hi"

definition qpack_huffman_table :: "code_entry list" where
  "qpack_huffman_table = [
     (0x1FF8, 13), (0x7FFFD8, 23), (0xFFFFFE2, 28), (0xFFFFFE3, 28), (0xFFFFFE4, 28), (0xFFFFFE5, 28),
     (0xFFFFFE6, 28), (0xFFFFFE7, 28), (0xFFFFFE8, 28), (0xFFFFEA, 24), (0x3FFFFFFC, 30), (0xFFFFFE9, 28),
     (0xFFFFFEA, 28), (0x3FFFFFFD, 30), (0xFFFFFEB, 28), (0xFFFFFEC, 28), (0xFFFFFED, 28), (0xFFFFFEE, 28),
     (0xFFFFFEF, 28), (0xFFFFFF0, 28), (0xFFFFFF1, 28), (0xFFFFFF2, 28), (0x3FFFFFFE, 30), (0xFFFFFF3, 28),
     (0xFFFFFF4, 28), (0xFFFFFF5, 28), (0xFFFFFF6, 28), (0xFFFFFF7, 28), (0xFFFFFF8, 28), (0xFFFFFF9, 28),
     (0xFFFFFFA, 28), (0xFFFFFFB, 28), (0x14, 6), (0x3F8, 10), (0x3F9, 10), (0xFFA, 12),
     (0x1FF9, 13), (0x15, 6), (0xF8, 8), (0x7FA, 11), (0x3FA, 10), (0x3FB, 10),
     (0xF9, 8), (0x7FB, 11), (0xFA, 8), (0x16, 6), (0x17, 6), (0x18, 6),
     (0, 5), (1, 5), (2, 5), (0x19, 6), (0x1A, 6), (0x1B, 6),
     (0x1C, 6), (0x1D, 6), (0x1E, 6), (0x1F, 6), (0x5C, 7), (0xFB, 8),
     (0x7FFC, 15), (0x20, 6), (0xFFB, 12), (0x3FC, 10), (0x1FFA, 13), (0x21, 6),
     (0x5D, 7), (0x5E, 7), (0x5F, 7), (0x60, 7), (0x61, 7), (0x62, 7),
     (0x63, 7), (0x64, 7), (0x65, 7), (0x66, 7), (0x67, 7), (0x68, 7),
     (0x69, 7), (0x6A, 7), (0x6B, 7), (0x6C, 7), (0x6D, 7), (0x6E, 7),
     (0x6F, 7), (0x70, 7), (0x71, 7), (0x72, 7), (0xFC, 8), (0x73, 7),
     (0xFD, 8), (0x1FFB, 13), (0x7FFF0, 19), (0x1FFC, 13), (0x3FFC, 14), (0x22, 6),
     (0x7FFD, 15), (3, 5), (0x23, 6), (4, 5), (0x24, 6), (5, 5),
     (0x25, 6), (0x26, 6), (0x27, 6), (6, 5), (0x74, 7), (0x75, 7),
     (0x28, 6), (0x29, 6), (0x2A, 6), (7, 5), (0x2B, 6), (0x76, 7),
     (0x2C, 6), (8, 5), (9, 5), (0x2D, 6), (0x77, 7), (0x78, 7),
     (0x79, 7), (0x7A, 7), (0x7B, 7), (0x7FFE, 15), (0x7FC, 11), (0x3FFD, 14),
     (0x1FFD, 13), (0xFFFFFFC, 28), (0xFFFE6, 20), (0x3FFFD2, 22), (0xFFFE7, 20), (0xFFFE8, 20),
     (0x3FFFD3, 22), (0x3FFFD4, 22), (0x3FFFD5, 22), (0x7FFFD9, 23), (0x3FFFD6, 22), (0x7FFFDA, 23),
     (0x7FFFDB, 23), (0x7FFFDC, 23), (0x7FFFDD, 23), (0x7FFFDE, 23), (0xFFFFEB, 24), (0x7FFFDF, 23),
     (0xFFFFEC, 24), (0xFFFFED, 24), (0x3FFFD7, 22), (0x7FFFE0, 23), (0xFFFFEE, 24), (0x7FFFE1, 23),
     (0x7FFFE2, 23), (0x7FFFE3, 23), (0x7FFFE4, 23), (0x1FFFDC, 21), (0x3FFFD8, 22), (0x7FFFE5, 23),
     (0x3FFFD9, 22), (0x7FFFE6, 23), (0x7FFFE7, 23), (0xFFFFEF, 24), (0x3FFFDA, 22), (0x1FFFDD, 21),
     (0xFFFE9, 20), (0x3FFFDB, 22), (0x3FFFDC, 22), (0x7FFFE8, 23), (0x7FFFE9, 23), (0x1FFFDE, 21),
     (0x7FFFEA, 23), (0x3FFFDD, 22), (0x3FFFDE, 22), (0xFFFFF0, 24), (0x1FFFDF, 21), (0x3FFFDF, 22),
     (0x7FFFEB, 23), (0x7FFFEC, 23), (0x1FFFE0, 21), (0x1FFFE1, 21), (0x3FFFE0, 22), (0x1FFFE2, 21),
     (0x7FFFED, 23), (0x3FFFE1, 22), (0x7FFFEE, 23), (0x7FFFEF, 23), (0xFFFEA, 20), (0x3FFFE2, 22),
     (0x3FFFE3, 22), (0x3FFFE4, 22), (0x7FFFF0, 23), (0x3FFFE5, 22), (0x3FFFE6, 22), (0x7FFFF1, 23),
     (0x3FFFFE0, 26), (0x3FFFFE1, 26), (0xFFFEB, 20), (0x7FFF1, 19), (0x3FFFE7, 22), (0x7FFFF2, 23),
     (0x3FFFE8, 22), (0x1FFFFEC, 25), (0x3FFFFE2, 26), (0x3FFFFE3, 26), (0x3FFFFE4, 26), (0x7FFFFDE, 27),
     (0x7FFFFDF, 27), (0x3FFFFE5, 26), (0xFFFFF1, 24), (0x1FFFFED, 25), (0x7FFF2, 19), (0x1FFFE3, 21),
     (0x3FFFFE6, 26), (0x7FFFFE0, 27), (0x7FFFFE1, 27), (0x3FFFFE7, 26), (0x7FFFFE2, 27), (0xFFFFF2, 24),
     (0x1FFFE4, 21), (0x1FFFE5, 21), (0x3FFFFE8, 26), (0x3FFFFE9, 26), (0xFFFFFFD, 28), (0x7FFFFE3, 27),
     (0x7FFFFE4, 27), (0x7FFFFE5, 27), (0xFFFEC, 20), (0xFFFFF3, 24), (0xFFFED, 20), (0x1FFFE6, 21),
     (0x3FFFE9, 22), (0x1FFFE7, 21), (0x1FFFE8, 21), (0x7FFFF3, 23), (0x3FFFEA, 22), (0x3FFFEB, 22),
     (0x1FFFFEE, 25), (0x1FFFFEF, 25), (0xFFFFF4, 24), (0xFFFFF5, 24), (0x3FFFFEA, 26), (0x7FFFF4, 23),
     (0x3FFFFEB, 26), (0x7FFFFE6, 27), (0x3FFFFEC, 26), (0x3FFFFED, 26), (0x7FFFFE7, 27), (0x7FFFFE8, 27),
     (0x7FFFFE9, 27), (0x7FFFFEA, 27), (0x7FFFFEB, 27), (0xFFFFFFE, 28), (0x7FFFFEC, 27), (0x7FFFFED, 27),
     (0x7FFFFEE, 27), (0x7FFFFEF, 27), (0x7FFFFF0, 27), (0x3FFFFEE, 26)]"

section \<open>The decoding automaton\<close>

type_synonym DecodeEntry = "u16 \<times> byte"

definition decode_rows_0 :: "DecodeEntry list list" where
  "decode_rows_0 = [
     [(4, 0), (5, 0), (7, 0), (8, 0), (0xB, 0), (0xC, 0), (0x10, 0), (0x13, 0),
      (0x19, 0), (0x1C, 0), (0x20, 0), (0x23, 0), (0x2A, 0), (0x31, 0), (0x39, 0), (0x4040, 0)],
     [(0xC000, 48), (0xC000, 49), (0xC000, 50), (0xC000, 97), (0xC000, 99), (0xC000, 101), (0xC000, 105), (0xC000, 111),
      (0xC000, 115), (0xC000, 116), (0xD, 0), (0xE, 0), (0x11, 0), (0x12, 0), (0x14, 0), (0x15, 0)],
     [(0x8001, 48), (0xC016, 48), (0x8001, 49), (0xC016, 49), (0x8001, 50), (0xC016, 50), (0x8001, 97), (0xC016, 97),
      (0x8001, 99), (0xC016, 99), (0x8001, 101), (0xC016, 101), (0x8001, 105), (0xC016, 105), (0x8001, 111), (0xC016, 111)],
     [(0x8002, 48), (0x8009, 48), (0x8017, 48), (0xC028, 48), (0x8002, 49), (0x8009, 49), (0x8017, 49), (0xC028, 49),
      (0x8002, 50), (0x8009, 50), (0x8017, 50), (0xC028, 50), (0x8002, 97), (0x8009, 97), (0x8017, 97), (0xC028, 97)],
     [(0x8003, 48), (0x8006, 48), (0x800A, 48), (0x800F, 48), (0x8018, 48), (0x801F, 48), (0x8029, 48), (0xC038, 48),
      (0x8003, 49), (0x8006, 49), (0x800A, 49), (0x800F, 49), (0x8018, 49), (0x801F, 49), (0x8029, 49), (0xC038, 49)],
     [(0x8003, 50), (0x8006, 50), (0x800A, 50), (0x800F, 50), (0x8018, 50), (0x801F, 50), (0x8029, 50), (0xC038, 50),
      (0x8003, 97), (0x8006, 97), (0x800A, 97), (0x800F, 97), (0x8018, 97), (0x801F, 97), (0x8029, 97), (0xC038, 97)],
     [(0x8002, 99), (0x8009, 99), (0x8017, 99), (0xC028, 99), (0x8002, 101), (0x8009, 101), (0x8017, 101), (0xC028, 101),
      (0x8002, 105), (0x8009, 105), (0x8017, 105), (0xC028, 105), (0x8002, 111), (0x8009, 111), (0x8017, 111), (0xC028, 111)]]"

definition decode_rows_7 :: "DecodeEntry list list" where
  "decode_rows_7 = [
     [(0x8003, 99), (0x8006, 99), (0x800A, 99), (0x800F, 99), (0x8018, 99), (0x801F, 99), (0x8029, 99), (0xC038, 99),
      (0x8003, 101), (0x8006, 101), (0x800A, 101), (0x800F, 101), (0x8018, 101), (0x801F, 101), (0x8029, 101), (0xC038, 101)],
     [(0x8003, 105), (0x8006, 105), (0x800A, 105), (0x800F, 105), (0x8018, 105), (0x801F, 105), (0x8029, 105), (0xC038, 105),
      (0x8003, 111), (0x8006, 111), (0x800A, 111), (0x800F, 111), (0x8018, 111), (0x801F, 111), (0x8029, 111), (0xC038, 111)],
     [(0x8001, 115), (0xC016, 115), (0x8001, 116), (0xC016, 116), (0xC000, 32), (0xC000, 37), (0xC000, 45), (0xC000, 46),
      (0xC000, 47), (0xC000, 51), (0xC000, 52), (0xC000, 53), (0xC000, 54), (0xC000, 55), (0xC000, 56), (0xC000, 57)],
     [(0x8002, 115), (0x8009, 115), (0x8017, 115), (0xC028, 115), (0x8002, 116), (0x8009, 116), (0x8017, 116), (0xC028, 116),
      (0x8001, 32), (0xC016, 32), (0x8001, 37), (0xC016, 37), (0x8001, 45), (0xC016, 45), (0x8001, 46), (0xC016, 46)],
     [(0x8003, 115), (0x8006, 115), (0x800A, 115), (0x800F, 115), (0x8018, 115), (0x801F, 115), (0x8029, 115), (0xC038, 115),
      (0x8003, 116), (0x8006, 116), (0x800A, 116), (0x800F, 116), (0x8018, 116), (0x801F, 116), (0x8029, 116), (0xC038, 116)],
     [(0x8002, 32), (0x8009, 32), (0x8017, 32), (0xC028, 32), (0x8002, 37), (0x8009, 37), (0x8017, 37), (0xC028, 37),
      (0x8002, 45), (0x8009, 45), (0x8017, 45), (0xC028, 45), (0x8002, 46), (0x8009, 46), (0x8017, 46), (0xC028, 46)],
     [(0x8003, 32), (0x8006, 32), (0x800A, 32), (0x800F, 32), (0x8018, 32), (0x801F, 32), (0x8029, 32), (0xC038, 32),
      (0x8003, 37), (0x8006, 37), (0x800A, 37), (0x800F, 37), (0x8018, 37), (0x801F, 37), (0x8029, 37), (0xC038, 37)]]"

definition decode_rows_14 :: "DecodeEntry list list" where
  "decode_rows_14 = [
     [(0x8003, 45), (0x8006, 45), (0x800A, 45), (0x800F, 45), (0x8018, 45), (0x801F, 45), (0x8029, 45), (0xC038, 45),
      (0x8003, 46), (0x8006, 46), (0x800A, 46), (0x800F, 46), (0x8018, 46), (0x801F, 46), (0x8029, 46), (0xC038, 46)],
     [(0x8001, 47), (0xC016, 47), (0x8001, 51), (0xC016, 51), (0x8001, 52), (0xC016, 52), (0x8001, 53), (0xC016, 53),
      (0x8001, 54), (0xC016, 54), (0x8001, 55), (0xC016, 55), (0x8001, 56), (0xC016, 56), (0x8001, 57), (0xC016, 57)],
     [(0x8002, 47), (0x8009, 47), (0x8017, 47), (0xC028, 47), (0x8002, 51), (0x8009, 51), (0x8017, 51), (0xC028, 51),
      (0x8002, 52), (0x8009, 52), (0x8017, 52), (0xC028, 52), (0x8002, 53), (0x8009, 53), (0x8017, 53), (0xC028, 53)],
     [(0x8003, 47), (0x8006, 47), (0x800A, 47), (0x800F, 47), (0x8018, 47), (0x801F, 47), (0x8029, 47), (0xC038, 47),
      (0x8003, 51), (0x8006, 51), (0x800A, 51), (0x800F, 51), (0x8018, 51), (0x801F, 51), (0x8029, 51), (0xC038, 51)],
     [(0x8003, 52), (0x8006, 52), (0x800A, 52), (0x800F, 52), (0x8018, 52), (0x801F, 52), (0x8029, 52), (0xC038, 52),
      (0x8003, 53), (0x8006, 53), (0x800A, 53), (0x800F, 53), (0x8018, 53), (0x801F, 53), (0x8029, 53), (0xC038, 53)],
     [(0x8002, 54), (0x8009, 54), (0x8017, 54), (0xC028, 54), (0x8002, 55), (0x8009, 55), (0x8017, 55), (0xC028, 55),
      (0x8002, 56), (0x8009, 56), (0x8017, 56), (0xC028, 56), (0x8002, 57), (0x8009, 57), (0x8017, 57), (0xC028, 57)],
     [(0x8003, 54), (0x8006, 54), (0x800A, 54), (0x800F, 54), (0x8018, 54), (0x801F, 54), (0x8029, 54), (0xC038, 54),
      (0x8003, 55), (0x8006, 55), (0x800A, 55), (0x800F, 55), (0x8018, 55), (0x801F, 55), (0x8029, 55), (0xC038, 55)]]"

definition decode_rows_21 :: "DecodeEntry list list" where
  "decode_rows_21 = [
     [(0x8003, 56), (0x8006, 56), (0x800A, 56), (0x800F, 56), (0x8018, 56), (0x801F, 56), (0x8029, 56), (0xC038, 56),
      (0x8003, 57), (0x8006, 57), (0x800A, 57), (0x800F, 57), (0x8018, 57), (0x801F, 57), (0x8029, 57), (0xC038, 57)],
     [(0x1A, 0), (0x1B, 0), (0x1D, 0), (0x1E, 0), (0x21, 0), (0x22, 0), (0x24, 0), (0x25, 0),
      (0x2B, 0), (0x2E, 0), (0x32, 0), (0x35, 0), (0x3A, 0), (0x3D, 0), (0x41, 0), (0x4044, 0)],
     [(0xC000, 61), (0xC000, 65), (0xC000, 95), (0xC000, 98), (0xC000, 100), (0xC000, 102), (0xC000, 103), (0xC000, 104),
      (0xC000, 108), (0xC000, 109), (0xC000, 110), (0xC000, 112), (0xC000, 114), (0xC000, 117), (0x26, 0), (0x27, 0)],
     [(0x8001, 61), (0xC016, 61), (0x8001, 65), (0xC016, 65), (0x8001, 95), (0xC016, 95), (0x8001, 98), (0xC016, 98),
      (0x8001, 100), (0xC016, 100), (0x8001, 102), (0xC016, 102), (0x8001, 103), (0xC016, 103), (0x8001, 104), (0xC016, 104)],
     [(0x8002, 61), (0x8009, 61), (0x8017, 61), (0xC028, 61), (0x8002, 65), (0x8009, 65), (0x8017, 65), (0xC028, 65),
      (0x8002, 95), (0x8009, 95), (0x8017, 95), (0xC028, 95), (0x8002, 98), (0x8009, 98), (0x8017, 98), (0xC028, 98)],
     [(0x8003, 61), (0x8006, 61), (0x800A, 61), (0x800F, 61), (0x8018, 61), (0x801F, 61), (0x8029, 61), (0xC038, 61),
      (0x8003, 65), (0x8006, 65), (0x800A, 65), (0x800F, 65), (0x8018, 65), (0x801F, 65), (0x8029, 65), (0xC038, 65)],
     [(0x8003, 95), (0x8006, 95), (0x800A, 95), (0x800F, 95), (0x8018, 95), (0x801F, 95), (0x8029, 95), (0xC038, 95),
      (0x8003, 98), (0x8006, 98), (0x800A, 98), (0x800F, 98), (0x8018, 98), (0x801F, 98), (0x8029, 98), (0xC038, 98)]]"

definition decode_rows_28 :: "DecodeEntry list list" where
  "decode_rows_28 = [
     [(0x8002, 100), (0x8009, 100), (0x8017, 100), (0xC028, 100), (0x8002, 102), (0x8009, 102), (0x8017, 102), (0xC028, 102),
      (0x8002, 103), (0x8009, 103), (0x8017, 103), (0xC028, 103), (0x8002, 104), (0x8009, 104), (0x8017, 104), (0xC028, 104)],
     [(0x8003, 100), (0x8006, 100), (0x800A, 100), (0x800F, 100), (0x8018, 100), (0x801F, 100), (0x8029, 100), (0xC038, 100),
      (0x8003, 102), (0x8006, 102), (0x800A, 102), (0x800F, 102), (0x8018, 102), (0x801F, 102), (0x8029, 102), (0xC038, 102)],
     [(0x8003, 103), (0x8006, 103), (0x800A, 103), (0x800F, 103), (0x8018, 103), (0x801F, 103), (0x8029, 103), (0xC038, 103),
      (0x8003, 104), (0x8006, 104), (0x800A, 104), (0x800F, 104), (0x8018, 104), (0x801F, 104), (0x8029, 104), (0xC038, 104)],
     [(0x8001, 108), (0xC016, 108), (0x8001, 109), (0xC016, 109), (0x8001, 110), (0xC016, 110), (0x8001, 112), (0xC016, 112),
      (0x8001, 114), (0xC016, 114), (0x8001, 117), (0xC016, 117), (0xC000, 58), (0xC000, 66), (0xC000, 67), (0xC000, 68)],
     [(0x8002, 108), (0x8009, 108), (0x8017, 108), (0xC028, 108), (0x8002, 109), (0x8009, 109), (0x8017, 109), (0xC028, 109),
      (0x8002, 110), (0x8009, 110), (0x8017, 110), (0xC028, 110), (0x8002, 112), (0x8009, 112), (0x8017, 112), (0xC028, 112)],
     [(0x8003, 108), (0x8006, 108), (0x800A, 108), (0x800F, 108), (0x8018, 108), (0x801F, 108), (0x8029, 108), (0xC038, 108),
      (0x8003, 109), (0x8006, 109), (0x800A, 109), (0x800F, 109), (0x8018, 109), (0x801F, 109), (0x8029, 109), (0xC038, 109)],
     [(0x8003, 110), (0x8006, 110), (0x800A, 110), (0x800F, 110), (0x8018, 110), (0x801F, 110), (0x8029, 110), (0xC038, 110),
      (0x8003, 112), (0x8006, 112), (0x800A, 112), (0x800F, 112), (0x8018, 112), (0x801F, 112), (0x8029, 112), (0xC038, 112)]]"

definition decode_rows_35 :: "DecodeEntry list list" where
  "decode_rows_35 = [
     [(0x8002, 114), (0x8009, 114), (0x8017, 114), (0xC028, 114), (0x8002, 117), (0x8009, 117), (0x8017, 117), (0xC028, 117),
      (0x8001, 58), (0xC016, 58), (0x8001, 66), (0xC016, 66), (0x8001, 67), (0xC016, 67), (0x8001, 68), (0xC016, 68)],
     [(0x8003, 114), (0x8006, 114), (0x800A, 114), (0x800F, 114), (0x8018, 114), (0x801F, 114), (0x8029, 114), (0xC038, 114),
      (0x8003, 117), (0x8006, 117), (0x800A, 117), (0x800F, 117), (0x8018, 117), (0x801F, 117), (0x8029, 117), (0xC038, 117)],
     [(0x8002, 58), (0x8009, 58), (0x8017, 58), (0xC028, 58), (0x8002, 66), (0x8009, 66), (0x8017, 66), (0xC028, 66),
      (0x8002, 67), (0x8009, 67), (0x8017, 67), (0xC028, 67), (0x8002, 68), (0x8009, 68), (0x8017, 68), (0xC028, 68)],
     [(0x8003, 58), (0x8006, 58), (0x800A, 58), (0x800F, 58), (0x8018, 58), (0x801F, 58), (0x8029, 58), (0xC038, 58),
      (0x8003, 66), (0x8006, 66), (0x800A, 66), (0x800F, 66), (0x8018, 66), (0x801F, 66), (0x8029, 66), (0xC038, 66)],
     [(0x8003, 67), (0x8006, 67), (0x800A, 67), (0x800F, 67), (0x8018, 67), (0x801F, 67), (0x8029, 67), (0xC038, 67),
      (0x8003, 68), (0x8006, 68), (0x800A, 68), (0x800F, 68), (0x8018, 68), (0x801F, 68), (0x8029, 68), (0xC038, 68)],
     [(0x2C, 0), (0x2D, 0), (0x2F, 0), (0x30, 0), (0x33, 0), (0x34, 0), (0x36, 0), (0x37, 0),
      (0x3B, 0), (0x3C, 0), (0x3E, 0), (0x3F, 0), (0x42, 0), (0x43, 0), (0x45, 0), (0x4048, 0)],
     [(0xC000, 69), (0xC000, 70), (0xC000, 71), (0xC000, 72), (0xC000, 73), (0xC000, 74), (0xC000, 75), (0xC000, 76),
      (0xC000, 77), (0xC000, 78), (0xC000, 79), (0xC000, 80), (0xC000, 81), (0xC000, 82), (0xC000, 83), (0xC000, 84)]]"

definition decode_rows_42 :: "DecodeEntry list list" where
  "decode_rows_42 = [
     [(0x8001, 69), (0xC016, 69), (0x8001, 70), (0xC016, 70), (0x8001, 71), (0xC016, 71), (0x8001, 72), (0xC016, 72),
      (0x8001, 73), (0xC016, 73), (0x8001, 74), (0xC016, 74), (0x8001, 75), (0xC016, 75), (0x8001, 76), (0xC016, 76)],
     [(0x8002, 69), (0x8009, 69), (0x8017, 69), (0xC028, 69), (0x8002, 70), (0x8009, 70), (0x8017, 70), (0xC028, 70),
      (0x8002, 71), (0x8009, 71), (0x8017, 71), (0xC028, 71), (0x8002, 72), (0x8009, 72), (0x8017, 72), (0xC028, 72)],
     [(0x8003, 69), (0x8006, 69), (0x800A, 69), (0x800F, 69), (0x8018, 69), (0x801F, 69), (0x8029, 69), (0xC038, 69),
      (0x8003, 70), (0x8006, 70), (0x800A, 70), (0x800F, 70), (0x8018, 70), (0x801F, 70), (0x8029, 70), (0xC038, 70)],
     [(0x8003, 71), (0x8006, 71), (0x800A, 71), (0x800F, 71), (0x8018, 71), (0x801F, 71), (0x8029, 71), (0xC038, 71),
      (0x8003, 72), (0x8006, 72), (0x800A, 72), (0x800F, 72), (0x8018, 72), (0x801F, 72), (0x8029, 72), (0xC038, 72)],
     [(0x8002, 73), (0x8009, 73), (0x8017, 73), (0xC028, 73), (0x8002, 74), (0x8009, 74), (0x8017, 74), (0xC028, 74),
      (0x8002, 75), (0x8009, 75), (0x8017, 75), (0xC028, 75), (0x8002, 76), (0x8009, 76), (0x8017, 76), (0xC028, 76)],
     [(0x8003, 73), (0x8006, 73), (0x800A, 73), (0x800F, 73), (0x8018, 73), (0x801F, 73), (0x8029, 73), (0xC038, 73),
      (0x8003, 74), (0x8006, 74), (0x800A, 74), (0x800F, 74), (0x8018, 74), (0x801F, 74), (0x8029, 74), (0xC038, 74)],
     [(0x8003, 75), (0x8006, 75), (0x800A, 75), (0x800F, 75), (0x8018, 75), (0x801F, 75), (0x8029, 75), (0xC038, 75),
      (0x8003, 76), (0x8006, 76), (0x800A, 76), (0x800F, 76), (0x8018, 76), (0x801F, 76), (0x8029, 76), (0xC038, 76)]]"

definition decode_rows_49 :: "DecodeEntry list list" where
  "decode_rows_49 = [
     [(0x8001, 77), (0xC016, 77), (0x8001, 78), (0xC016, 78), (0x8001, 79), (0xC016, 79), (0x8001, 80), (0xC016, 80),
      (0x8001, 81), (0xC016, 81), (0x8001, 82), (0xC016, 82), (0x8001, 83), (0xC016, 83), (0x8001, 84), (0xC016, 84)],
     [(0x8002, 77), (0x8009, 77), (0x8017, 77), (0xC028, 77), (0x8002, 78), (0x8009, 78), (0x8017, 78), (0xC028, 78),
      (0x8002, 79), (0x8009, 79), (0x8017, 79), (0xC028, 79), (0x8002, 80), (0x8009, 80), (0x8017, 80), (0xC028, 80)],
     [(0x8003, 77), (0x8006, 77), (0x800A, 77), (0x800F, 77), (0x8018, 77), (0x801F, 77), (0x8029, 77), (0xC038, 77),
      (0x8003, 78), (0x8006, 78), (0x800A, 78), (0x800F, 78), (0x8018, 78), (0x801F, 78), (0x8029, 78), (0xC038, 78)],
     [(0x8003, 79), (0x8006, 79), (0x800A, 79), (0x800F, 79), (0x8018, 79), (0x801F, 79), (0x8029, 79), (0xC038, 79),
      (0x8003, 80), (0x8006, 80), (0x800A, 80), (0x800F, 80), (0x8018, 80), (0x801F, 80), (0x8029, 80), (0xC038, 80)],
     [(0x8002, 81), (0x8009, 81), (0x8017, 81), (0xC028, 81), (0x8002, 82), (0x8009, 82), (0x8017, 82), (0xC028, 82),
      (0x8002, 83), (0x8009, 83), (0x8017, 83), (0xC028, 83), (0x8002, 84), (0x8009, 84), (0x8017, 84), (0xC028, 84)],
     [(0x8003, 81), (0x8006, 81), (0x800A, 81), (0x800F, 81), (0x8018, 81), (0x801F, 81), (0x8029, 81), (0xC038, 81),
      (0x8003, 82), (0x8006, 82), (0x800A, 82), (0x800F, 82), (0x8018, 82), (0x801F, 82), (0x8029, 82), (0xC038, 82)],
     [(0x8003, 83), (0x8006, 83), (0x800A, 83), (0x800F, 83), (0x8018, 83), (0x801F, 83), (0x8029, 83), (0xC038, 83),
      (0x8003, 84), (0x8006, 84), (0x800A, 84), (0x800F, 84), (0x8018, 84), (0x801F, 84), (0x8029, 84), (0xC038, 84)]]"

definition decode_rows_56 :: "DecodeEntry list list" where
  "decode_rows_56 = [
     [(0xC000, 85), (0xC000, 86), (0xC000, 87), (0xC000, 89), (0xC000, 106), (0xC000, 107), (0xC000, 113), (0xC000, 118),
      (0xC000, 119), (0xC000, 120), (0xC000, 121), (0xC000, 122), (0x46, 0), (0x47, 0), (0x49, 0), (0x404A, 0)],
     [(0x8001, 85), (0xC016, 85), (0x8001, 86), (0xC016, 86), (0x8001, 87), (0xC016, 87), (0x8001, 89), (0xC016, 89),
      (0x8001, 106), (0xC016, 106), (0x8001, 107), (0xC016, 107), (0x8001, 113), (0xC016, 113), (0x8001, 118), (0xC016, 118)],
     [(0x8002, 85), (0x8009, 85), (0x8017, 85), (0xC028, 85), (0x8002, 86), (0x8009, 86), (0x8017, 86), (0xC028, 86),
      (0x8002, 87), (0x8009, 87), (0x8017, 87), (0xC028, 87), (0x8002, 89), (0x8009, 89), (0x8017, 89), (0xC028, 89)],
     [(0x8003, 85), (0x8006, 85), (0x800A, 85), (0x800F, 85), (0x8018, 85), (0x801F, 85), (0x8029, 85), (0xC038, 85),
      (0x8003, 86), (0x8006, 86), (0x800A, 86), (0x800F, 86), (0x8018, 86), (0x801F, 86), (0x8029, 86), (0xC038, 86)],
     [(0x8003, 87), (0x8006, 87), (0x800A, 87), (0x800F, 87), (0x8018, 87), (0x801F, 87), (0x8029, 87), (0xC038, 87),
      (0x8003, 89), (0x8006, 89), (0x800A, 89), (0x800F, 89), (0x8018, 89), (0x801F, 89), (0x8029, 89), (0xC038, 89)],
     [(0x8002, 106), (0x8009, 106), (0x8017, 106), (0xC028, 106), (0x8002, 107), (0x8009, 107), (0x8017, 107), (0xC028, 107),
      (0x8002, 113), (0x8009, 113), (0x8017, 113), (0xC028, 113), (0x8002, 118), (0x8009, 118), (0x8017, 118), (0xC028, 118)],
     [(0x8003, 106), (0x8006, 106), (0x800A, 106), (0x800F, 106), (0x8018, 106), (0x801F, 106), (0x8029, 106), (0xC038, 106),
      (0x8003, 107), (0x8006, 107), (0x800A, 107), (0x800F, 107), (0x8018, 107), (0x801F, 107), (0x8029, 107), (0xC038, 107)]]"

definition decode_rows_63 :: "DecodeEntry list list" where
  "decode_rows_63 = [
     [(0x8003, 113), (0x8006, 113), (0x800A, 113), (0x800F, 113), (0x8018, 113), (0x801F, 113), (0x8029, 113), (0xC038, 113),
      (0x8003, 118), (0x8006, 118), (0x800A, 118), (0x800F, 118), (0x8018, 118), (0x801F, 118), (0x8029, 118), (0xC038, 118)],
     [(0x8001, 119), (0xC016, 119), (0x8001, 120), (0xC016, 120), (0x8001, 121), (0xC016, 121), (0x8001, 122), (0xC016, 122),
      (0xC000, 38), (0xC000, 42), (0xC000, 44), (0xC000, 59), (0xC000, 88), (0xC000, 90), (0x4B, 0), (0x4E, 0)],
     [(0x8002, 119), (0x8009, 119), (0x8017, 119), (0xC028, 119), (0x8002, 120), (0x8009, 120), (0x8017, 120), (0xC028, 120),
      (0x8002, 121), (0x8009, 121), (0x8017, 121), (0xC028, 121), (0x8002, 122), (0x8009, 122), (0x8017, 122), (0xC028, 122)],
     [(0x8003, 119), (0x8006, 119), (0x800A, 119), (0x800F, 119), (0x8018, 119), (0x801F, 119), (0x8029, 119), (0xC038, 119),
      (0x8003, 120), (0x8006, 120), (0x800A, 120), (0x800F, 120), (0x8018, 120), (0x801F, 120), (0x8029, 120), (0xC038, 120)],
     [(0x8003, 121), (0x8006, 121), (0x800A, 121), (0x800F, 121), (0x8018, 121), (0x801F, 121), (0x8029, 121), (0xC038, 121),
      (0x8003, 122), (0x8006, 122), (0x800A, 122), (0x800F, 122), (0x8018, 122), (0x801F, 122), (0x8029, 122), (0xC038, 122)],
     [(0x8001, 38), (0xC016, 38), (0x8001, 42), (0xC016, 42), (0x8001, 44), (0xC016, 44), (0x8001, 59), (0xC016, 59),
      (0x8001, 88), (0xC016, 88), (0x8001, 90), (0xC016, 90), (0x4C, 0), (0x4D, 0), (0x4F, 0), (0x51, 0)],
     [(0x8002, 38), (0x8009, 38), (0x8017, 38), (0xC028, 38), (0x8002, 42), (0x8009, 42), (0x8017, 42), (0xC028, 42),
      (0x8002, 44), (0x8009, 44), (0x8017, 44), (0xC028, 44), (0x8002, 59), (0x8009, 59), (0x8017, 59), (0xC028, 59)]]"

definition decode_rows_70 :: "DecodeEntry list list" where
  "decode_rows_70 = [
     [(0x8003, 38), (0x8006, 38), (0x800A, 38), (0x800F, 38), (0x8018, 38), (0x801F, 38), (0x8029, 38), (0xC038, 38),
      (0x8003, 42), (0x8006, 42), (0x800A, 42), (0x800F, 42), (0x8018, 42), (0x801F, 42), (0x8029, 42), (0xC038, 42)],
     [(0x8003, 44), (0x8006, 44), (0x800A, 44), (0x800F, 44), (0x8018, 44), (0x801F, 44), (0x8029, 44), (0xC038, 44),
      (0x8003, 59), (0x8006, 59), (0x800A, 59), (0x800F, 59), (0x8018, 59), (0x801F, 59), (0x8029, 59), (0xC038, 59)],
     [(0x8002, 88), (0x8009, 88), (0x8017, 88), (0xC028, 88), (0x8002, 90), (0x8009, 90), (0x8017, 90), (0xC028, 90),
      (0xC000, 33), (0xC000, 34), (0xC000, 40), (0xC000, 41), (0xC000, 63), (0x50, 0), (0x52, 0), (0x54, 0)],
     [(0x8003, 88), (0x8006, 88), (0x800A, 88), (0x800F, 88), (0x8018, 88), (0x801F, 88), (0x8029, 88), (0xC038, 88),
      (0x8003, 90), (0x8006, 90), (0x800A, 90), (0x800F, 90), (0x8018, 90), (0x801F, 90), (0x8029, 90), (0xC038, 90)],
     [(0x8001, 33), (0xC016, 33), (0x8001, 34), (0xC016, 34), (0x8001, 40), (0xC016, 40), (0x8001, 41), (0xC016, 41),
      (0x8001, 63), (0xC016, 63), (0xC000, 39), (0xC000, 43), (0xC000, 124), (0x53, 0), (0x55, 0), (0x58, 0)],
     [(0x8002, 33), (0x8009, 33), (0x8017, 33), (0xC028, 33), (0x8002, 34), (0x8009, 34), (0x8017, 34), (0xC028, 34),
      (0x8002, 40), (0x8009, 40), (0x8017, 40), (0xC028, 40), (0x8002, 41), (0x8009, 41), (0x8017, 41), (0xC028, 41)],
     [(0x8003, 33), (0x8006, 33), (0x800A, 33), (0x800F, 33), (0x8018, 33), (0x801F, 33), (0x8029, 33), (0xC038, 33),
      (0x8003, 34), (0x8006, 34), (0x800A, 34), (0x800F, 34), (0x8018, 34), (0x801F, 34), (0x8029, 34), (0xC038, 34)]]"

definition decode_rows_77 :: "DecodeEntry list list" where
  "decode_rows_77 = [
     [(0x8003, 40), (0x8006, 40), (0x800A, 40), (0x800F, 40), (0x8018, 40), (0x801F, 40), (0x8029, 40), (0xC038, 40),
      (0x8003, 41), (0x8006, 41), (0x800A, 41), (0x800F, 41), (0x8018, 41), (0x801F, 41), (0x8029, 41), (0xC038, 41)],
     [(0x8002, 63), (0x8009, 63), (0x8017, 63), (0xC028, 63), (0x8001, 39), (0xC016, 39), (0x8001, 43), (0xC016, 43),
      (0x8001, 124), (0xC016, 124), (0xC000, 35), (0xC000, 62), (0x56, 0), (0x57, 0), (0x59, 0), (0x5A, 0)],
     [(0x8003, 63), (0x8006, 63), (0x800A, 63), (0x800F, 63), (0x8018, 63), (0x801F, 63), (0x8029, 63), (0xC038, 63),
      (0x8002, 39), (0x8009, 39), (0x8017, 39), (0xC028, 39), (0x8002, 43), (0x8009, 43), (0x8017, 43), (0xC028, 43)],
     [(0x8003, 39), (0x8006, 39), (0x800A, 39), (0x800F, 39), (0x8018, 39), (0x801F, 39), (0x8029, 39), (0xC038, 39),
      (0x8003, 43), (0x8006, 43), (0x800A, 43), (0x800F, 43), (0x8018, 43), (0x801F, 43), (0x8029, 43), (0xC038, 43)],
     [(0x8002, 124), (0x8009, 124), (0x8017, 124), (0xC028, 124), (0x8001, 35), (0xC016, 35), (0x8001, 62), (0xC016, 62),
      (0xC000, 0), (0xC000, 36), (0xC000, 64), (0xC000, 91), (0xC000, 93), (0xC000, 126), (0x5B, 0), (0x5C, 0)],
     [(0x8003, 124), (0x8006, 124), (0x800A, 124), (0x800F, 124), (0x8018, 124), (0x801F, 124), (0x8029, 124), (0xC038, 124),
      (0x8002, 35), (0x8009, 35), (0x8017, 35), (0xC028, 35), (0x8002, 62), (0x8009, 62), (0x8017, 62), (0xC028, 62)],
     [(0x8003, 35), (0x8006, 35), (0x800A, 35), (0x800F, 35), (0x8018, 35), (0x801F, 35), (0x8029, 35), (0xC038, 35),
      (0x8003, 62), (0x8006, 62), (0x800A, 62), (0x800F, 62), (0x8018, 62), (0x801F, 62), (0x8029, 62), (0xC038, 62)]]"

definition decode_rows_84 :: "DecodeEntry list list" where
  "decode_rows_84 = [
     [(0x8001, 0), (0xC016, 0), (0x8001, 36), (0xC016, 36), (0x8001, 64), (0xC016, 64), (0x8001, 91), (0xC016, 91),
      (0x8001, 93), (0xC016, 93), (0x8001, 126), (0xC016, 126), (0xC000, 94), (0xC000, 125), (0x5D, 0), (0x5E, 0)],
     [(0x8002, 0), (0x8009, 0), (0x8017, 0), (0xC028, 0), (0x8002, 36), (0x8009, 36), (0x8017, 36), (0xC028, 36),
      (0x8002, 64), (0x8009, 64), (0x8017, 64), (0xC028, 64), (0x8002, 91), (0x8009, 91), (0x8017, 91), (0xC028, 91)],
     [(0x8003, 0), (0x8006, 0), (0x800A, 0), (0x800F, 0), (0x8018, 0), (0x801F, 0), (0x8029, 0), (0xC038, 0),
      (0x8003, 36), (0x8006, 36), (0x800A, 36), (0x800F, 36), (0x8018, 36), (0x801F, 36), (0x8029, 36), (0xC038, 36)],
     [(0x8003, 64), (0x8006, 64), (0x800A, 64), (0x800F, 64), (0x8018, 64), (0x801F, 64), (0x8029, 64), (0xC038, 64),
      (0x8003, 91), (0x8006, 91), (0x800A, 91), (0x800F, 91), (0x8018, 91), (0x801F, 91), (0x8029, 91), (0xC038, 91)],
     [(0x8002, 93), (0x8009, 93), (0x8017, 93), (0xC028, 93), (0x8002, 126), (0x8009, 126), (0x8017, 126), (0xC028, 126),
      (0x8001, 94), (0xC016, 94), (0x8001, 125), (0xC016, 125), (0xC000, 60), (0xC000, 96), (0xC000, 123), (0x5F, 0)],
     [(0x8003, 93), (0x8006, 93), (0x800A, 93), (0x800F, 93), (0x8018, 93), (0x801F, 93), (0x8029, 93), (0xC038, 93),
      (0x8003, 126), (0x8006, 126), (0x800A, 126), (0x800F, 126), (0x8018, 126), (0x801F, 126), (0x8029, 126), (0xC038, 126)],
     [(0x8002, 94), (0x8009, 94), (0x8017, 94), (0xC028, 94), (0x8002, 125), (0x8009, 125), (0x8017, 125), (0xC028, 125),
      (0x8001, 60), (0xC016, 60), (0x8001, 96), (0xC016, 96), (0x8001, 123), (0xC016, 123), (0x60, 0), (0x6E, 0)]]"

definition decode_rows_91 :: "DecodeEntry list list" where
  "decode_rows_91 = [
     [(0x8003, 94), (0x8006, 94), (0x800A, 94), (0x800F, 94), (0x8018, 94), (0x801F, 94), (0x8029, 94), (0xC038, 94),
      (0x8003, 125), (0x8006, 125), (0x800A, 125), (0x800F, 125), (0x8018, 125), (0x801F, 125), (0x8029, 125), (0xC038, 125)],
     [(0x8002, 60), (0x8009, 60), (0x8017, 60), (0xC028, 60), (0x8002, 96), (0x8009, 96), (0x8017, 96), (0xC028, 96),
      (0x8002, 123), (0x8009, 123), (0x8017, 123), (0xC028, 123), (0x61, 0), (0x65, 0), (0x6F, 0), (0x85, 0)],
     [(0x8003, 60), (0x8006, 60), (0x800A, 60), (0x800F, 60), (0x8018, 60), (0x801F, 60), (0x8029, 60), (0xC038, 60),
      (0x8003, 96), (0x8006, 96), (0x800A, 96), (0x800F, 96), (0x8018, 96), (0x801F, 96), (0x8029, 96), (0xC038, 96)],
     [(0x8003, 123), (0x8006, 123), (0x800A, 123), (0x800F, 123), (0x8018, 123), (0x801F, 123), (0x8029, 123), (0xC038, 123),
      (0x62, 0), (0x63, 0), (0x66, 0), (0x69, 0), (0x70, 0), (0x77, 0), (0x86, 0), (0x99, 0)],
     [(0xC000, 92), (0xC000, 195), (0xC000, 208), (0x64, 0), (0x67, 0), (0x68, 0), (0x6A, 0), (0x6B, 0),
      (0x71, 0), (0x74, 0), (0x78, 0), (0x7E, 0), (0x87, 0), (0x8E, 0), (0x9A, 0), (0xA9, 0)],
     [(0x8001, 92), (0xC016, 92), (0x8001, 195), (0xC016, 195), (0x8001, 208), (0xC016, 208), (0xC000, 128), (0xC000, 130),
      (0xC000, 131), (0xC000, 162), (0xC000, 184), (0xC000, 194), (0xC000, 224), (0xC000, 226), (0x6C, 0), (0x6D, 0)],
     [(0x8002, 92), (0x8009, 92), (0x8017, 92), (0xC028, 92), (0x8002, 195), (0x8009, 195), (0x8017, 195), (0xC028, 195),
      (0x8002, 208), (0x8009, 208), (0x8017, 208), (0xC028, 208), (0x8001, 128), (0xC016, 128), (0x8001, 130), (0xC016, 130)]]"

definition decode_rows_98 :: "DecodeEntry list list" where
  "decode_rows_98 = [
     [(0x8003, 92), (0x8006, 92), (0x800A, 92), (0x800F, 92), (0x8018, 92), (0x801F, 92), (0x8029, 92), (0xC038, 92),
      (0x8003, 195), (0x8006, 195), (0x800A, 195), (0x800F, 195), (0x8018, 195), (0x801F, 195), (0x8029, 195), (0xC038, 195)],
     [(0x8003, 208), (0x8006, 208), (0x800A, 208), (0x800F, 208), (0x8018, 208), (0x801F, 208), (0x8029, 208), (0xC038, 208),
      (0x8002, 128), (0x8009, 128), (0x8017, 128), (0xC028, 128), (0x8002, 130), (0x8009, 130), (0x8017, 130), (0xC028, 130)],
     [(0x8003, 128), (0x8006, 128), (0x800A, 128), (0x800F, 128), (0x8018, 128), (0x801F, 128), (0x8029, 128), (0xC038, 128),
      (0x8003, 130), (0x8006, 130), (0x800A, 130), (0x800F, 130), (0x8018, 130), (0x801F, 130), (0x8029, 130), (0xC038, 130)],
     [(0x8001, 131), (0xC016, 131), (0x8001, 162), (0xC016, 162), (0x8001, 184), (0xC016, 184), (0x8001, 194), (0xC016, 194),
      (0x8001, 224), (0xC016, 224), (0x8001, 226), (0xC016, 226), (0xC000, 153), (0xC000, 161), (0xC000, 167), (0xC000, 172)],
     [(0x8002, 131), (0x8009, 131), (0x8017, 131), (0xC028, 131), (0x8002, 162), (0x8009, 162), (0x8017, 162), (0xC028, 162),
      (0x8002, 184), (0x8009, 184), (0x8017, 184), (0xC028, 184), (0x8002, 194), (0x8009, 194), (0x8017, 194), (0xC028, 194)],
     [(0x8003, 131), (0x8006, 131), (0x800A, 131), (0x800F, 131), (0x8018, 131), (0x801F, 131), (0x8029, 131), (0xC038, 131),
      (0x8003, 162), (0x8006, 162), (0x800A, 162), (0x800F, 162), (0x8018, 162), (0x801F, 162), (0x8029, 162), (0xC038, 162)],
     [(0x8003, 184), (0x8006, 184), (0x800A, 184), (0x800F, 184), (0x8018, 184), (0x801F, 184), (0x8029, 184), (0xC038, 184),
      (0x8003, 194), (0x8006, 194), (0x800A, 194), (0x800F, 194), (0x8018, 194), (0x801F, 194), (0x8029, 194), (0xC038, 194)]]"

definition decode_rows_105 :: "DecodeEntry list list" where
  "decode_rows_105 = [
     [(0x8002, 224), (0x8009, 224), (0x8017, 224), (0xC028, 224), (0x8002, 226), (0x8009, 226), (0x8017, 226), (0xC028, 226),
      (0x8001, 153), (0xC016, 153), (0x8001, 161), (0xC016, 161), (0x8001, 167), (0xC016, 167), (0x8001, 172), (0xC016, 172)],
     [(0x8003, 224), (0x8006, 224), (0x800A, 224), (0x800F, 224), (0x8018, 224), (0x801F, 224), (0x8029, 224), (0xC038, 224),
      (0x8003, 226), (0x8006, 226), (0x800A, 226), (0x800F, 226), (0x8018, 226), (0x801F, 226), (0x8029, 226), (0xC038, 226)],
     [(0x8002, 153), (0x8009, 153), (0x8017, 153), (0xC028, 153), (0x8002, 161), (0x8009, 161), (0x8017, 161), (0xC028, 161),
      (0x8002, 167), (0x8009, 167), (0x8017, 167), (0xC028, 167), (0x8002, 172), (0x8009, 172), (0x8017, 172), (0xC028, 172)],
     [(0x8003, 153), (0x8006, 153), (0x800A, 153), (0x800F, 153), (0x8018, 153), (0x801F, 153), (0x8029, 153), (0xC038, 153),
      (0x8003, 161), (0x8006, 161), (0x800A, 161), (0x800F, 161), (0x8018, 161), (0x801F, 161), (0x8029, 161), (0xC038, 161)],
     [(0x8003, 167), (0x8006, 167), (0x800A, 167), (0x800F, 167), (0x8018, 167), (0x801F, 167), (0x8029, 167), (0xC038, 167),
      (0x8003, 172), (0x8006, 172), (0x800A, 172), (0x800F, 172), (0x8018, 172), (0x801F, 172), (0x8029, 172), (0xC038, 172)],
     [(0x72, 0), (0x73, 0), (0x75, 0), (0x76, 0), (0x79, 0), (0x7B, 0), (0x7F, 0), (0x82, 0),
      (0x88, 0), (0x8B, 0), (0x8F, 0), (0x92, 0), (0x9B, 0), (0xA2, 0), (0xAA, 0), (0xB4, 0)],
     [(0xC000, 176), (0xC000, 177), (0xC000, 179), (0xC000, 209), (0xC000, 216), (0xC000, 217), (0xC000, 227), (0xC000, 229),
      (0xC000, 230), (0x7A, 0), (0x7C, 0), (0x7D, 0), (0x80, 0), (0x81, 0), (0x83, 0), (0x84, 0)]]"

definition decode_rows_112 :: "DecodeEntry list list" where
  "decode_rows_112 = [
     [(0x8001, 176), (0xC016, 176), (0x8001, 177), (0xC016, 177), (0x8001, 179), (0xC016, 179), (0x8001, 209), (0xC016, 209),
      (0x8001, 216), (0xC016, 216), (0x8001, 217), (0xC016, 217), (0x8001, 227), (0xC016, 227), (0x8001, 229), (0xC016, 229)],
     [(0x8002, 176), (0x8009, 176), (0x8017, 176), (0xC028, 176), (0x8002, 177), (0x8009, 177), (0x8017, 177), (0xC028, 177),
      (0x8002, 179), (0x8009, 179), (0x8017, 179), (0xC028, 179), (0x8002, 209), (0x8009, 209), (0x8017, 209), (0xC028, 209)],
     [(0x8003, 176), (0x8006, 176), (0x800A, 176), (0x800F, 176), (0x8018, 176), (0x801F, 176), (0x8029, 176), (0xC038, 176),
      (0x8003, 177), (0x8006, 177), (0x800A, 177), (0x800F, 177), (0x8018, 177), (0x801F, 177), (0x8029, 177), (0xC038, 177)],
     [(0x8003, 179), (0x8006, 179), (0x800A, 179), (0x800F, 179), (0x8018, 179), (0x801F, 179), (0x8029, 179), (0xC038, 179),
      (0x8003, 209), (0x8006, 209), (0x800A, 209), (0x800F, 209), (0x8018, 209), (0x801F, 209), (0x8029, 209), (0xC038, 209)],
     [(0x8002, 216), (0x8009, 216), (0x8017, 216), (0xC028, 216), (0x8002, 217), (0x8009, 217), (0x8017, 217), (0xC028, 217),
      (0x8002, 227), (0x8009, 227), (0x8017, 227), (0xC028, 227), (0x8002, 229), (0x8009, 229), (0x8017, 229), (0xC028, 229)],
     [(0x8003, 216), (0x8006, 216), (0x800A, 216), (0x800F, 216), (0x8018, 216), (0x801F, 216), (0x8029, 216), (0xC038, 216),
      (0x8003, 217), (0x8006, 217), (0x800A, 217), (0x800F, 217), (0x8018, 217), (0x801F, 217), (0x8029, 217), (0xC038, 217)],
     [(0x8003, 227), (0x8006, 227), (0x800A, 227), (0x800F, 227), (0x8018, 227), (0x801F, 227), (0x8029, 227), (0xC038, 227),
      (0x8003, 229), (0x8006, 229), (0x800A, 229), (0x800F, 229), (0x8018, 229), (0x801F, 229), (0x8029, 229), (0xC038, 229)]]"

definition decode_rows_119 :: "DecodeEntry list list" where
  "decode_rows_119 = [
     [(0x8001, 230), (0xC016, 230), (0xC000, 129), (0xC000, 132), (0xC000, 133), (0xC000, 134), (0xC000, 136), (0xC000, 146),
      (0xC000, 154), (0xC000, 156), (0xC000, 160), (0xC000, 163), (0xC000, 164), (0xC000, 169), (0xC000, 170), (0xC000, 173)],
     [(0x8002, 230), (0x8009, 230), (0x8017, 230), (0xC028, 230), (0x8001, 129), (0xC016, 129), (0x8001, 132), (0xC016, 132),
      (0x8001, 133), (0xC016, 133), (0x8001, 134), (0xC016, 134), (0x8001, 136), (0xC016, 136), (0x8001, 146), (0xC016, 146)],
     [(0x8003, 230), (0x8006, 230), (0x800A, 230), (0x800F, 230), (0x8018, 230), (0x801F, 230), (0x8029, 230), (0xC038, 230),
      (0x8002, 129), (0x8009, 129), (0x8017, 129), (0xC028, 129), (0x8002, 132), (0x8009, 132), (0x8017, 132), (0xC028, 132)],
     [(0x8003, 129), (0x8006, 129), (0x800A, 129), (0x800F, 129), (0x8018, 129), (0x801F, 129), (0x8029, 129), (0xC038, 129),
      (0x8003, 132), (0x8006, 132), (0x800A, 132), (0x800F, 132), (0x8018, 132), (0x801F, 132), (0x8029, 132), (0xC038, 132)],
     [(0x8002, 133), (0x8009, 133), (0x8017, 133), (0xC028, 133), (0x8002, 134), (0x8009, 134), (0x8017, 134), (0xC028, 134),
      (0x8002, 136), (0x8009, 136), (0x8017, 136), (0xC028, 136), (0x8002, 146), (0x8009, 146), (0x8017, 146), (0xC028, 146)],
     [(0x8003, 133), (0x8006, 133), (0x800A, 133), (0x800F, 133), (0x8018, 133), (0x801F, 133), (0x8029, 133), (0xC038, 133),
      (0x8003, 134), (0x8006, 134), (0x800A, 134), (0x800F, 134), (0x8018, 134), (0x801F, 134), (0x8029, 134), (0xC038, 134)],
     [(0x8003, 136), (0x8006, 136), (0x800A, 136), (0x800F, 136), (0x8018, 136), (0x801F, 136), (0x8029, 136), (0xC038, 136),
      (0x8003, 146), (0x8006, 146), (0x800A, 146), (0x800F, 146), (0x8018, 146), (0x801F, 146), (0x8029, 146), (0xC038, 146)]]"

definition decode_rows_126 :: "DecodeEntry list list" where
  "decode_rows_126 = [
     [(0x8001, 154), (0xC016, 154), (0x8001, 156), (0xC016, 156), (0x8001, 160), (0xC016, 160), (0x8001, 163), (0xC016, 163),
      (0x8001, 164), (0xC016, 164), (0x8001, 169), (0xC016, 169), (0x8001, 170), (0xC016, 170), (0x8001, 173), (0xC016, 173)],
     [(0x8002, 154), (0x8009, 154), (0x8017, 154), (0xC028, 154), (0x8002, 156), (0x8009, 156), (0x8017, 156), (0xC028, 156),
      (0x8002, 160), (0x8009, 160), (0x8017, 160), (0xC028, 160), (0x8002, 163), (0x8009, 163), (0x8017, 163), (0xC028, 163)],
     [(0x8003, 154), (0x8006, 154), (0x800A, 154), (0x800F, 154), (0x8018, 154), (0x801F, 154), (0x8029, 154), (0xC038, 154),
      (0x8003, 156), (0x8006, 156), (0x800A, 156), (0x800F, 156), (0x8018, 156), (0x801F, 156), (0x8029, 156), (0xC038, 156)],
     [(0x8003, 160), (0x8006, 160), (0x800A, 160), (0x800F, 160), (0x8018, 160), (0x801F, 160), (0x8029, 160), (0xC038, 160),
      (0x8003, 163), (0x8006, 163), (0x800A, 163), (0x800F, 163), (0x8018, 163), (0x801F, 163), (0x8029, 163), (0xC038, 163)],
     [(0x8002, 164), (0x8009, 164), (0x8017, 164), (0xC028, 164), (0x8002, 169), (0x8009, 169), (0x8017, 169), (0xC028, 169),
      (0x8002, 170), (0x8009, 170), (0x8017, 170), (0xC028, 170), (0x8002, 173), (0x8009, 173), (0x8017, 173), (0xC028, 173)],
     [(0x8003, 164), (0x8006, 164), (0x800A, 164), (0x800F, 164), (0x8018, 164), (0x801F, 164), (0x8029, 164), (0xC038, 164),
      (0x8003, 169), (0x8006, 169), (0x800A, 169), (0x800F, 169), (0x8018, 169), (0x801F, 169), (0x8029, 169), (0xC038, 169)],
     [(0x8003, 170), (0x8006, 170), (0x800A, 170), (0x800F, 170), (0x8018, 170), (0x801F, 170), (0x8029, 170), (0xC038, 170),
      (0x8003, 173), (0x8006, 173), (0x800A, 173), (0x800F, 173), (0x8018, 173), (0x801F, 173), (0x8029, 173), (0xC038, 173)]]"

definition decode_rows_133 :: "DecodeEntry list list" where
  "decode_rows_133 = [
     [(0x89, 0), (0x8A, 0), (0x8C, 0), (0x8D, 0), (0x90, 0), (0x91, 0), (0x93, 0), (0x96, 0),
      (0x9C, 0), (0x9F, 0), (0xA3, 0), (0xA6, 0), (0xAB, 0), (0xAE, 0), (0xB5, 0), (0xBE, 0)],
     [(0xC000, 178), (0xC000, 181), (0xC000, 185), (0xC000, 186), (0xC000, 187), (0xC000, 189), (0xC000, 190), (0xC000, 196),
      (0xC000, 198), (0xC000, 228), (0xC000, 232), (0xC000, 233), (0x94, 0), (0x95, 0), (0x97, 0), (0x98, 0)],
     [(0x8001, 178), (0xC016, 178), (0x8001, 181), (0xC016, 181), (0x8001, 185), (0xC016, 185), (0x8001, 186), (0xC016, 186),
      (0x8001, 187), (0xC016, 187), (0x8001, 189), (0xC016, 189), (0x8001, 190), (0xC016, 190), (0x8001, 196), (0xC016, 196)],
     [(0x8002, 178), (0x8009, 178), (0x8017, 178), (0xC028, 178), (0x8002, 181), (0x8009, 181), (0x8017, 181), (0xC028, 181),
      (0x8002, 185), (0x8009, 185), (0x8017, 185), (0xC028, 185), (0x8002, 186), (0x8009, 186), (0x8017, 186), (0xC028, 186)],
     [(0x8003, 178), (0x8006, 178), (0x800A, 178), (0x800F, 178), (0x8018, 178), (0x801F, 178), (0x8029, 178), (0xC038, 178),
      (0x8003, 181), (0x8006, 181), (0x800A, 181), (0x800F, 181), (0x8018, 181), (0x801F, 181), (0x8029, 181), (0xC038, 181)],
     [(0x8003, 185), (0x8006, 185), (0x800A, 185), (0x800F, 185), (0x8018, 185), (0x801F, 185), (0x8029, 185), (0xC038, 185),
      (0x8003, 186), (0x8006, 186), (0x800A, 186), (0x800F, 186), (0x8018, 186), (0x801F, 186), (0x8029, 186), (0xC038, 186)],
     [(0x8002, 187), (0x8009, 187), (0x8017, 187), (0xC028, 187), (0x8002, 189), (0x8009, 189), (0x8017, 189), (0xC028, 189),
      (0x8002, 190), (0x8009, 190), (0x8017, 190), (0xC028, 190), (0x8002, 196), (0x8009, 196), (0x8017, 196), (0xC028, 196)]]"

definition decode_rows_140 :: "DecodeEntry list list" where
  "decode_rows_140 = [
     [(0x8003, 187), (0x8006, 187), (0x800A, 187), (0x800F, 187), (0x8018, 187), (0x801F, 187), (0x8029, 187), (0xC038, 187),
      (0x8003, 189), (0x8006, 189), (0x800A, 189), (0x800F, 189), (0x8018, 189), (0x801F, 189), (0x8029, 189), (0xC038, 189)],
     [(0x8003, 190), (0x8006, 190), (0x800A, 190), (0x800F, 190), (0x8018, 190), (0x801F, 190), (0x8029, 190), (0xC038, 190),
      (0x8003, 196), (0x8006, 196), (0x800A, 196), (0x800F, 196), (0x8018, 196), (0x801F, 196), (0x8029, 196), (0xC038, 196)],
     [(0x8001, 198), (0xC016, 198), (0x8001, 228), (0xC016, 228), (0x8001, 232), (0xC016, 232), (0x8001, 233), (0xC016, 233),
      (0xC000, 1), (0xC000, 135), (0xC000, 137), (0xC000, 138), (0xC000, 139), (0xC000, 140), (0xC000, 141), (0xC000, 143)],
     [(0x8002, 198), (0x8009, 198), (0x8017, 198), (0xC028, 198), (0x8002, 228), (0x8009, 228), (0x8017, 228), (0xC028, 228),
      (0x8002, 232), (0x8009, 232), (0x8017, 232), (0xC028, 232), (0x8002, 233), (0x8009, 233), (0x8017, 233), (0xC028, 233)],
     [(0x8003, 198), (0x8006, 198), (0x800A, 198), (0x800F, 198), (0x8018, 198), (0x801F, 198), (0x8029, 198), (0xC038, 198),
      (0x8003, 228), (0x8006, 228), (0x800A, 228), (0x800F, 228), (0x8018, 228), (0x801F, 228), (0x8029, 228), (0xC038, 228)],
     [(0x8003, 232), (0x8006, 232), (0x800A, 232), (0x800F, 232), (0x8018, 232), (0x801F, 232), (0x8029, 232), (0xC038, 232),
      (0x8003, 233), (0x8006, 233), (0x800A, 233), (0x800F, 233), (0x8018, 233), (0x801F, 233), (0x8029, 233), (0xC038, 233)],
     [(0x8001, 1), (0xC016, 1), (0x8001, 135), (0xC016, 135), (0x8001, 137), (0xC016, 137), (0x8001, 138), (0xC016, 138),
      (0x8001, 139), (0xC016, 139), (0x8001, 140), (0xC016, 140), (0x8001, 141), (0xC016, 141), (0x8001, 143), (0xC016, 143)]]"

definition decode_rows_147 :: "DecodeEntry list list" where
  "decode_rows_147 = [
     [(0x8002, 1), (0x8009, 1), (0x8017, 1), (0xC028, 1), (0x8002, 135), (0x8009, 135), (0x8017, 135), (0xC028, 135),
      (0x8002, 137), (0x8009, 137), (0x8017, 137), (0xC028, 137), (0x8002, 138), (0x8009, 138), (0x8017, 138), (0xC028, 138)],
     [(0x8003, 1), (0x8006, 1), (0x800A, 1), (0x800F, 1), (0x8018, 1), (0x801F, 1), (0x8029, 1), (0xC038, 1),
      (0x8003, 135), (0x8006, 135), (0x800A, 135), (0x800F, 135), (0x8018, 135), (0x801F, 135), (0x8029, 135), (0xC038, 135)],
     [(0x8003, 137), (0x8006, 137), (0x800A, 137), (0x800F, 137), (0x8018, 137), (0x801F, 137), (0x8029, 137), (0xC038, 137),
      (0x8003, 138), (0x8006, 138), (0x800A, 138), (0x800F, 138), (0x8018, 138), (0x801F, 138), (0x8029, 138), (0xC038, 138)],
     [(0x8002, 139), (0x8009, 139), (0x8017, 139), (0xC028, 139), (0x8002, 140), (0x8009, 140), (0x8017, 140), (0xC028, 140),
      (0x8002, 141), (0x8009, 141), (0x8017, 141), (0xC028, 141), (0x8002, 143), (0x8009, 143), (0x8017, 143), (0xC028, 143)],
     [(0x8003, 139), (0x8006, 139), (0x800A, 139), (0x800F, 139), (0x8018, 139), (0x801F, 139), (0x8029, 139), (0xC038, 139),
      (0x8003, 140), (0x8006, 140), (0x800A, 140), (0x800F, 140), (0x8018, 140), (0x801F, 140), (0x8029, 140), (0xC038, 140)],
     [(0x8003, 141), (0x8006, 141), (0x800A, 141), (0x800F, 141), (0x8018, 141), (0x801F, 141), (0x8029, 141), (0xC038, 141),
      (0x8003, 143), (0x8006, 143), (0x800A, 143), (0x800F, 143), (0x8018, 143), (0x801F, 143), (0x8029, 143), (0xC038, 143)],
     [(0x9D, 0), (0x9E, 0), (0xA0, 0), (0xA1, 0), (0xA4, 0), (0xA5, 0), (0xA7, 0), (0xA8, 0),
      (0xAC, 0), (0xAD, 0), (0xAF, 0), (0xB1, 0), (0xB6, 0), (0xB9, 0), (0xBF, 0), (0xCF, 0)]]"

definition decode_rows_154 :: "DecodeEntry list list" where
  "decode_rows_154 = [
     [(0xC000, 147), (0xC000, 149), (0xC000, 150), (0xC000, 151), (0xC000, 152), (0xC000, 155), (0xC000, 157), (0xC000, 158),
      (0xC000, 165), (0xC000, 166), (0xC000, 168), (0xC000, 174), (0xC000, 175), (0xC000, 180), (0xC000, 182), (0xC000, 183)],
     [(0x8001, 147), (0xC016, 147), (0x8001, 149), (0xC016, 149), (0x8001, 150), (0xC016, 150), (0x8001, 151), (0xC016, 151),
      (0x8001, 152), (0xC016, 152), (0x8001, 155), (0xC016, 155), (0x8001, 157), (0xC016, 157), (0x8001, 158), (0xC016, 158)],
     [(0x8002, 147), (0x8009, 147), (0x8017, 147), (0xC028, 147), (0x8002, 149), (0x8009, 149), (0x8017, 149), (0xC028, 149),
      (0x8002, 150), (0x8009, 150), (0x8017, 150), (0xC028, 150), (0x8002, 151), (0x8009, 151), (0x8017, 151), (0xC028, 151)],
     [(0x8003, 147), (0x8006, 147), (0x800A, 147), (0x800F, 147), (0x8018, 147), (0x801F, 147), (0x8029, 147), (0xC038, 147),
      (0x8003, 149), (0x8006, 149), (0x800A, 149), (0x800F, 149), (0x8018, 149), (0x801F, 149), (0x8029, 149), (0xC038, 149)],
     [(0x8003, 150), (0x8006, 150), (0x800A, 150), (0x800F, 150), (0x8018, 150), (0x801F, 150), (0x8029, 150), (0xC038, 150),
      (0x8003, 151), (0x8006, 151), (0x800A, 151), (0x800F, 151), (0x8018, 151), (0x801F, 151), (0x8029, 151), (0xC038, 151)],
     [(0x8002, 152), (0x8009, 152), (0x8017, 152), (0xC028, 152), (0x8002, 155), (0x8009, 155), (0x8017, 155), (0xC028, 155),
      (0x8002, 157), (0x8009, 157), (0x8017, 157), (0xC028, 157), (0x8002, 158), (0x8009, 158), (0x8017, 158), (0xC028, 158)],
     [(0x8003, 152), (0x8006, 152), (0x800A, 152), (0x800F, 152), (0x8018, 152), (0x801F, 152), (0x8029, 152), (0xC038, 152),
      (0x8003, 155), (0x8006, 155), (0x800A, 155), (0x800F, 155), (0x8018, 155), (0x801F, 155), (0x8029, 155), (0xC038, 155)]]"

definition decode_rows_161 :: "DecodeEntry list list" where
  "decode_rows_161 = [
     [(0x8003, 157), (0x8006, 157), (0x800A, 157), (0x800F, 157), (0x8018, 157), (0x801F, 157), (0x8029, 157), (0xC038, 157),
      (0x8003, 158), (0x8006, 158), (0x800A, 158), (0x800F, 158), (0x8018, 158), (0x801F, 158), (0x8029, 158), (0xC038, 158)],
     [(0x8001, 165), (0xC016, 165), (0x8001, 166), (0xC016, 166), (0x8001, 168), (0xC016, 168), (0x8001, 174), (0xC016, 174),
      (0x8001, 175), (0xC016, 175), (0x8001, 180), (0xC016, 180), (0x8001, 182), (0xC016, 182), (0x8001, 183), (0xC016, 183)],
     [(0x8002, 165), (0x8009, 165), (0x8017, 165), (0xC028, 165), (0x8002, 166), (0x8009, 166), (0x8017, 166), (0xC028, 166),
      (0x8002, 168), (0x8009, 168), (0x8017, 168), (0xC028, 168), (0x8002, 174), (0x8009, 174), (0x8017, 174), (0xC028, 174)],
     [(0x8003, 165), (0x8006, 165), (0x800A, 165), (0x800F, 165), (0x8018, 165), (0x801F, 165), (0x8029, 165), (0xC038, 165),
      (0x8003, 166), (0x8006, 166), (0x800A, 166), (0x800F, 166), (0x8018, 166), (0x801F, 166), (0x8029, 166), (0xC038, 166)],
     [(0x8003, 168), (0x8006, 168), (0x800A, 168), (0x800F, 168), (0x8018, 168), (0x801F, 168), (0x8029, 168), (0xC038, 168),
      (0x8003, 174), (0x8006, 174), (0x800A, 174), (0x800F, 174), (0x8018, 174), (0x801F, 174), (0x8029, 174), (0xC038, 174)],
     [(0x8002, 175), (0x8009, 175), (0x8017, 175), (0xC028, 175), (0x8002, 180), (0x8009, 180), (0x8017, 180), (0xC028, 180),
      (0x8002, 182), (0x8009, 182), (0x8017, 182), (0xC028, 182), (0x8002, 183), (0x8009, 183), (0x8017, 183), (0xC028, 183)],
     [(0x8003, 175), (0x8006, 175), (0x800A, 175), (0x800F, 175), (0x8018, 175), (0x801F, 175), (0x8029, 175), (0xC038, 175),
      (0x8003, 180), (0x8006, 180), (0x800A, 180), (0x800F, 180), (0x8018, 180), (0x801F, 180), (0x8029, 180), (0xC038, 180)]]"

definition decode_rows_168 :: "DecodeEntry list list" where
  "decode_rows_168 = [
     [(0x8003, 182), (0x8006, 182), (0x800A, 182), (0x800F, 182), (0x8018, 182), (0x801F, 182), (0x8029, 182), (0xC038, 182),
      (0x8003, 183), (0x8006, 183), (0x800A, 183), (0x800F, 183), (0x8018, 183), (0x801F, 183), (0x8029, 183), (0xC038, 183)],
     [(0xC000, 188), (0xC000, 191), (0xC000, 197), (0xC000, 231), (0xC000, 239), (0xB0, 0), (0xB2, 0), (0xB3, 0),
      (0xB7, 0), (0xB8, 0), (0xBA, 0), (0xBB, 0), (0xC0, 0), (0xC7, 0), (0xD0, 0), (0xDF, 0)],
     [(0x8001, 188), (0xC016, 188), (0x8001, 191), (0xC016, 191), (0x8001, 197), (0xC016, 197), (0x8001, 231), (0xC016, 231),
      (0x8001, 239), (0xC016, 239), (0xC000, 9), (0xC000, 142), (0xC000, 144), (0xC000, 145), (0xC000, 148), (0xC000, 159)],
     [(0x8002, 188), (0x8009, 188), (0x8017, 188), (0xC028, 188), (0x8002, 191), (0x8009, 191), (0x8017, 191), (0xC028, 191),
      (0x8002, 197), (0x8009, 197), (0x8017, 197), (0xC028, 197), (0x8002, 231), (0x8009, 231), (0x8017, 231), (0xC028, 231)],
     [(0x8003, 188), (0x8006, 188), (0x800A, 188), (0x800F, 188), (0x8018, 188), (0x801F, 188), (0x8029, 188), (0xC038, 188),
      (0x8003, 191), (0x8006, 191), (0x800A, 191), (0x800F, 191), (0x8018, 191), (0x801F, 191), (0x8029, 191), (0xC038, 191)],
     [(0x8003, 197), (0x8006, 197), (0x800A, 197), (0x800F, 197), (0x8018, 197), (0x801F, 197), (0x8029, 197), (0xC038, 197),
      (0x8003, 231), (0x8006, 231), (0x800A, 231), (0x800F, 231), (0x8018, 231), (0x801F, 231), (0x8029, 231), (0xC038, 231)],
     [(0x8002, 239), (0x8009, 239), (0x8017, 239), (0xC028, 239), (0x8001, 9), (0xC016, 9), (0x8001, 142), (0xC016, 142),
      (0x8001, 144), (0xC016, 144), (0x8001, 145), (0xC016, 145), (0x8001, 148), (0xC016, 148), (0x8001, 159), (0xC016, 159)]]"

definition decode_rows_175 :: "DecodeEntry list list" where
  "decode_rows_175 = [
     [(0x8003, 239), (0x8006, 239), (0x800A, 239), (0x800F, 239), (0x8018, 239), (0x801F, 239), (0x8029, 239), (0xC038, 239),
      (0x8002, 9), (0x8009, 9), (0x8017, 9), (0xC028, 9), (0x8002, 142), (0x8009, 142), (0x8017, 142), (0xC028, 142)],
     [(0x8003, 9), (0x8006, 9), (0x800A, 9), (0x800F, 9), (0x8018, 9), (0x801F, 9), (0x8029, 9), (0xC038, 9),
      (0x8003, 142), (0x8006, 142), (0x800A, 142), (0x800F, 142), (0x8018, 142), (0x801F, 142), (0x8029, 142), (0xC038, 142)],
     [(0x8002, 144), (0x8009, 144), (0x8017, 144), (0xC028, 144), (0x8002, 145), (0x8009, 145), (0x8017, 145), (0xC028, 145),
      (0x8002, 148), (0x8009, 148), (0x8017, 148), (0xC028, 148), (0x8002, 159), (0x8009, 159), (0x8017, 159), (0xC028, 159)],
     [(0x8003, 144), (0x8006, 144), (0x800A, 144), (0x800F, 144), (0x8018, 144), (0x801F, 144), (0x8029, 144), (0xC038, 144),
      (0x8003, 145), (0x8006, 145), (0x800A, 145), (0x800F, 145), (0x8018, 145), (0x801F, 145), (0x8029, 145), (0xC038, 145)],
     [(0x8003, 148), (0x8006, 148), (0x800A, 148), (0x800F, 148), (0x8018, 148), (0x801F, 148), (0x8029, 148), (0xC038, 148),
      (0x8003, 159), (0x8006, 159), (0x800A, 159), (0x800F, 159), (0x8018, 159), (0x801F, 159), (0x8029, 159), (0xC038, 159)],
     [(0xC000, 171), (0xC000, 206), (0xC000, 215), (0xC000, 225), (0xC000, 236), (0xC000, 237), (0xBC, 0), (0xBD, 0),
      (0xC1, 0), (0xC4, 0), (0xC8, 0), (0xCB, 0), (0xD1, 0), (0xD8, 0), (0xE0, 0), (0xEE, 0)],
     [(0x8001, 171), (0xC016, 171), (0x8001, 206), (0xC016, 206), (0x8001, 215), (0xC016, 215), (0x8001, 225), (0xC016, 225),
      (0x8001, 236), (0xC016, 236), (0x8001, 237), (0xC016, 237), (0xC000, 199), (0xC000, 207), (0xC000, 234), (0xC000, 235)]]"

definition decode_rows_182 :: "DecodeEntry list list" where
  "decode_rows_182 = [
     [(0x8002, 171), (0x8009, 171), (0x8017, 171), (0xC028, 171), (0x8002, 206), (0x8009, 206), (0x8017, 206), (0xC028, 206),
      (0x8002, 215), (0x8009, 215), (0x8017, 215), (0xC028, 215), (0x8002, 225), (0x8009, 225), (0x8017, 225), (0xC028, 225)],
     [(0x8003, 171), (0x8006, 171), (0x800A, 171), (0x800F, 171), (0x8018, 171), (0x801F, 171), (0x8029, 171), (0xC038, 171),
      (0x8003, 206), (0x8006, 206), (0x800A, 206), (0x800F, 206), (0x8018, 206), (0x801F, 206), (0x8029, 206), (0xC038, 206)],
     [(0x8003, 215), (0x8006, 215), (0x800A, 215), (0x800F, 215), (0x8018, 215), (0x801F, 215), (0x8029, 215), (0xC038, 215),
      (0x8003, 225), (0x8006, 225), (0x800A, 225), (0x800F, 225), (0x8018, 225), (0x801F, 225), (0x8029, 225), (0xC038, 225)],
     [(0x8002, 236), (0x8009, 236), (0x8017, 236), (0xC028, 236), (0x8002, 237), (0x8009, 237), (0x8017, 237), (0xC028, 237),
      (0x8001, 199), (0xC016, 199), (0x8001, 207), (0xC016, 207), (0x8001, 234), (0xC016, 234), (0x8001, 235), (0xC016, 235)],
     [(0x8003, 236), (0x8006, 236), (0x800A, 236), (0x800F, 236), (0x8018, 236), (0x801F, 236), (0x8029, 236), (0xC038, 236),
      (0x8003, 237), (0x8006, 237), (0x800A, 237), (0x800F, 237), (0x8018, 237), (0x801F, 237), (0x8029, 237), (0xC038, 237)],
     [(0x8002, 199), (0x8009, 199), (0x8017, 199), (0xC028, 199), (0x8002, 207), (0x8009, 207), (0x8017, 207), (0xC028, 207),
      (0x8002, 234), (0x8009, 234), (0x8017, 234), (0xC028, 234), (0x8002, 235), (0x8009, 235), (0x8017, 235), (0xC028, 235)],
     [(0x8003, 199), (0x8006, 199), (0x800A, 199), (0x800F, 199), (0x8018, 199), (0x801F, 199), (0x8029, 199), (0xC038, 199),
      (0x8003, 207), (0x8006, 207), (0x800A, 207), (0x800F, 207), (0x8018, 207), (0x801F, 207), (0x8029, 207), (0xC038, 207)]]"

definition decode_rows_189 :: "DecodeEntry list list" where
  "decode_rows_189 = [
     [(0x8003, 234), (0x8006, 234), (0x800A, 234), (0x800F, 234), (0x8018, 234), (0x801F, 234), (0x8029, 234), (0xC038, 234),
      (0x8003, 235), (0x8006, 235), (0x800A, 235), (0x800F, 235), (0x8018, 235), (0x801F, 235), (0x8029, 235), (0xC038, 235)],
     [(0xC2, 0), (0xC3, 0), (0xC5, 0), (0xC6, 0), (0xC9, 0), (0xCA, 0), (0xCC, 0), (0xCD, 0),
      (0xD2, 0), (0xD5, 0), (0xD9, 0), (0xDC, 0), (0xE1, 0), (0xE7, 0), (0xEF, 0), (0xF6, 0)],
     [(0xC000, 192), (0xC000, 193), (0xC000, 200), (0xC000, 201), (0xC000, 202), (0xC000, 205), (0xC000, 210), (0xC000, 213),
      (0xC000, 218), (0xC000, 219), (0xC000, 238), (0xC000, 240), (0xC000, 242), (0xC000, 243), (0xC000, 255), (0xCE, 0)],
     [(0x8001, 192), (0xC016, 192), (0x8001, 193), (0xC016, 193), (0x8001, 200), (0xC016, 200), (0x8001, 201), (0xC016, 201),
      (0x8001, 202), (0xC016, 202), (0x8001, 205), (0xC016, 205), (0x8001, 210), (0xC016, 210), (0x8001, 213), (0xC016, 213)],
     [(0x8002, 192), (0x8009, 192), (0x8017, 192), (0xC028, 192), (0x8002, 193), (0x8009, 193), (0x8017, 193), (0xC028, 193),
      (0x8002, 200), (0x8009, 200), (0x8017, 200), (0xC028, 200), (0x8002, 201), (0x8009, 201), (0x8017, 201), (0xC028, 201)],
     [(0x8003, 192), (0x8006, 192), (0x800A, 192), (0x800F, 192), (0x8018, 192), (0x801F, 192), (0x8029, 192), (0xC038, 192),
      (0x8003, 193), (0x8006, 193), (0x800A, 193), (0x800F, 193), (0x8018, 193), (0x801F, 193), (0x8029, 193), (0xC038, 193)],
     [(0x8003, 200), (0x8006, 200), (0x800A, 200), (0x800F, 200), (0x8018, 200), (0x801F, 200), (0x8029, 200), (0xC038, 200),
      (0x8003, 201), (0x8006, 201), (0x800A, 201), (0x800F, 201), (0x8018, 201), (0x801F, 201), (0x8029, 201), (0xC038, 201)]]"

definition decode_rows_196 :: "DecodeEntry list list" where
  "decode_rows_196 = [
     [(0x8002, 202), (0x8009, 202), (0x8017, 202), (0xC028, 202), (0x8002, 205), (0x8009, 205), (0x8017, 205), (0xC028, 205),
      (0x8002, 210), (0x8009, 210), (0x8017, 210), (0xC028, 210), (0x8002, 213), (0x8009, 213), (0x8017, 213), (0xC028, 213)],
     [(0x8003, 202), (0x8006, 202), (0x800A, 202), (0x800F, 202), (0x8018, 202), (0x801F, 202), (0x8029, 202), (0xC038, 202),
      (0x8003, 205), (0x8006, 205), (0x800A, 205), (0x800F, 205), (0x8018, 205), (0x801F, 205), (0x8029, 205), (0xC038, 205)],
     [(0x8003, 210), (0x8006, 210), (0x800A, 210), (0x800F, 210), (0x8018, 210), (0x801F, 210), (0x8029, 210), (0xC038, 210),
      (0x8003, 213), (0x8006, 213), (0x800A, 213), (0x800F, 213), (0x8018, 213), (0x801F, 213), (0x8029, 213), (0xC038, 213)],
     [(0x8001, 218), (0xC016, 218), (0x8001, 219), (0xC016, 219), (0x8001, 238), (0xC016, 238), (0x8001, 240), (0xC016, 240),
      (0x8001, 242), (0xC016, 242), (0x8001, 243), (0xC016, 243), (0x8001, 255), (0xC016, 255), (0xC000, 203), (0xC000, 204)],
     [(0x8002, 218), (0x8009, 218), (0x8017, 218), (0xC028, 218), (0x8002, 219), (0x8009, 219), (0x8017, 219), (0xC028, 219),
      (0x8002, 238), (0x8009, 238), (0x8017, 238), (0xC028, 238), (0x8002, 240), (0x8009, 240), (0x8017, 240), (0xC028, 240)],
     [(0x8003, 218), (0x8006, 218), (0x800A, 218), (0x800F, 218), (0x8018, 218), (0x801F, 218), (0x8029, 218), (0xC038, 218),
      (0x8003, 219), (0x8006, 219), (0x800A, 219), (0x800F, 219), (0x8018, 219), (0x801F, 219), (0x8029, 219), (0xC038, 219)],
     [(0x8003, 238), (0x8006, 238), (0x800A, 238), (0x800F, 238), (0x8018, 238), (0x801F, 238), (0x8029, 238), (0xC038, 238),
      (0x8003, 240), (0x8006, 240), (0x800A, 240), (0x800F, 240), (0x8018, 240), (0x801F, 240), (0x8029, 240), (0xC038, 240)]]"

definition decode_rows_203 :: "DecodeEntry list list" where
  "decode_rows_203 = [
     [(0x8002, 242), (0x8009, 242), (0x8017, 242), (0xC028, 242), (0x8002, 243), (0x8009, 243), (0x8017, 243), (0xC028, 243),
      (0x8002, 255), (0x8009, 255), (0x8017, 255), (0xC028, 255), (0x8001, 203), (0xC016, 203), (0x8001, 204), (0xC016, 204)],
     [(0x8003, 242), (0x8006, 242), (0x800A, 242), (0x800F, 242), (0x8018, 242), (0x801F, 242), (0x8029, 242), (0xC038, 242),
      (0x8003, 243), (0x8006, 243), (0x800A, 243), (0x800F, 243), (0x8018, 243), (0x801F, 243), (0x8029, 243), (0xC038, 243)],
     [(0x8003, 255), (0x8006, 255), (0x800A, 255), (0x800F, 255), (0x8018, 255), (0x801F, 255), (0x8029, 255), (0xC038, 255),
      (0x8002, 203), (0x8009, 203), (0x8017, 203), (0xC028, 203), (0x8002, 204), (0x8009, 204), (0x8017, 204), (0xC028, 204)],
     [(0x8003, 203), (0x8006, 203), (0x800A, 203), (0x800F, 203), (0x8018, 203), (0x801F, 203), (0x8029, 203), (0xC038, 203),
      (0x8003, 204), (0x8006, 204), (0x800A, 204), (0x800F, 204), (0x8018, 204), (0x801F, 204), (0x8029, 204), (0xC038, 204)],
     [(0xD3, 0), (0xD4, 0), (0xD6, 0), (0xD7, 0), (0xDA, 0), (0xDB, 0), (0xDD, 0), (0xDE, 0),
      (0xE2, 0), (0xE4, 0), (0xE8, 0), (0xEB, 0), (0xF0, 0), (0xF3, 0), (0xF7, 0), (0xFA, 0)],
     [(0xC000, 211), (0xC000, 212), (0xC000, 214), (0xC000, 221), (0xC000, 222), (0xC000, 223), (0xC000, 241), (0xC000, 244),
      (0xC000, 245), (0xC000, 246), (0xC000, 247), (0xC000, 248), (0xC000, 250), (0xC000, 251), (0xC000, 252), (0xC000, 253)],
     [(0x8001, 211), (0xC016, 211), (0x8001, 212), (0xC016, 212), (0x8001, 214), (0xC016, 214), (0x8001, 221), (0xC016, 221),
      (0x8001, 222), (0xC016, 222), (0x8001, 223), (0xC016, 223), (0x8001, 241), (0xC016, 241), (0x8001, 244), (0xC016, 244)]]"

definition decode_rows_210 :: "DecodeEntry list list" where
  "decode_rows_210 = [
     [(0x8002, 211), (0x8009, 211), (0x8017, 211), (0xC028, 211), (0x8002, 212), (0x8009, 212), (0x8017, 212), (0xC028, 212),
      (0x8002, 214), (0x8009, 214), (0x8017, 214), (0xC028, 214), (0x8002, 221), (0x8009, 221), (0x8017, 221), (0xC028, 221)],
     [(0x8003, 211), (0x8006, 211), (0x800A, 211), (0x800F, 211), (0x8018, 211), (0x801F, 211), (0x8029, 211), (0xC038, 211),
      (0x8003, 212), (0x8006, 212), (0x800A, 212), (0x800F, 212), (0x8018, 212), (0x801F, 212), (0x8029, 212), (0xC038, 212)],
     [(0x8003, 214), (0x8006, 214), (0x800A, 214), (0x800F, 214), (0x8018, 214), (0x801F, 214), (0x8029, 214), (0xC038, 214),
      (0x8003, 221), (0x8006, 221), (0x800A, 221), (0x800F, 221), (0x8018, 221), (0x801F, 221), (0x8029, 221), (0xC038, 221)],
     [(0x8002, 222), (0x8009, 222), (0x8017, 222), (0xC028, 222), (0x8002, 223), (0x8009, 223), (0x8017, 223), (0xC028, 223),
      (0x8002, 241), (0x8009, 241), (0x8017, 241), (0xC028, 241), (0x8002, 244), (0x8009, 244), (0x8017, 244), (0xC028, 244)],
     [(0x8003, 222), (0x8006, 222), (0x800A, 222), (0x800F, 222), (0x8018, 222), (0x801F, 222), (0x8029, 222), (0xC038, 222),
      (0x8003, 223), (0x8006, 223), (0x800A, 223), (0x800F, 223), (0x8018, 223), (0x801F, 223), (0x8029, 223), (0xC038, 223)],
     [(0x8003, 241), (0x8006, 241), (0x800A, 241), (0x800F, 241), (0x8018, 241), (0x801F, 241), (0x8029, 241), (0xC038, 241),
      (0x8003, 244), (0x8006, 244), (0x800A, 244), (0x800F, 244), (0x8018, 244), (0x801F, 244), (0x8029, 244), (0xC038, 244)],
     [(0x8001, 245), (0xC016, 245), (0x8001, 246), (0xC016, 246), (0x8001, 247), (0xC016, 247), (0x8001, 248), (0xC016, 248),
      (0x8001, 250), (0xC016, 250), (0x8001, 251), (0xC016, 251), (0x8001, 252), (0xC016, 252), (0x8001, 253), (0xC016, 253)]]"

definition decode_rows_217 :: "DecodeEntry list list" where
  "decode_rows_217 = [
     [(0x8002, 245), (0x8009, 245), (0x8017, 245), (0xC028, 245), (0x8002, 246), (0x8009, 246), (0x8017, 246), (0xC028, 246),
      (0x8002, 247), (0x8009, 247), (0x8017, 247), (0xC028, 247), (0x8002, 248), (0x8009, 248), (0x8017, 248), (0xC028, 248)],
     [(0x8003, 245), (0x8006, 245), (0x800A, 245), (0x800F, 245), (0x8018, 245), (0x801F, 245), (0x8029, 245), (0xC038, 245),
      (0x8003, 246), (0x8006, 246), (0x800A, 246), (0x800F, 246), (0x8018, 246), (0x801F, 246), (0x8029, 246), (0xC038, 246)],
     [(0x8003, 247), (0x8006, 247), (0x800A, 247), (0x800F, 247), (0x8018, 247), (0x801F, 247), (0x8029, 247), (0xC038, 247),
      (0x8003, 248), (0x8006, 248), (0x800A, 248), (0x800F, 248), (0x8018, 248), (0x801F, 248), (0x8029, 248), (0xC038, 248)],
     [(0x8002, 250), (0x8009, 250), (0x8017, 250), (0xC028, 250), (0x8002, 251), (0x8009, 251), (0x8017, 251), (0xC028, 251),
      (0x8002, 252), (0x8009, 252), (0x8017, 252), (0xC028, 252), (0x8002, 253), (0x8009, 253), (0x8017, 253), (0xC028, 253)],
     [(0x8003, 250), (0x8006, 250), (0x800A, 250), (0x800F, 250), (0x8018, 250), (0x801F, 250), (0x8029, 250), (0xC038, 250),
      (0x8003, 251), (0x8006, 251), (0x800A, 251), (0x800F, 251), (0x8018, 251), (0x801F, 251), (0x8029, 251), (0xC038, 251)],
     [(0x8003, 252), (0x8006, 252), (0x800A, 252), (0x800F, 252), (0x8018, 252), (0x801F, 252), (0x8029, 252), (0xC038, 252),
      (0x8003, 253), (0x8006, 253), (0x800A, 253), (0x800F, 253), (0x8018, 253), (0x801F, 253), (0x8029, 253), (0xC038, 253)],
     [(0xC000, 254), (0xE3, 0), (0xE5, 0), (0xE6, 0), (0xE9, 0), (0xEA, 0), (0xEC, 0), (0xED, 0),
      (0xF1, 0), (0xF2, 0), (0xF4, 0), (0xF5, 0), (0xF8, 0), (0xF9, 0), (0xFB, 0), (0xFC, 0)]]"

definition decode_rows_224 :: "DecodeEntry list list" where
  "decode_rows_224 = [
     [(0x8001, 254), (0xC016, 254), (0xC000, 2), (0xC000, 3), (0xC000, 4), (0xC000, 5), (0xC000, 6), (0xC000, 7),
      (0xC000, 8), (0xC000, 11), (0xC000, 12), (0xC000, 14), (0xC000, 15), (0xC000, 16), (0xC000, 17), (0xC000, 18)],
     [(0x8002, 254), (0x8009, 254), (0x8017, 254), (0xC028, 254), (0x8001, 2), (0xC016, 2), (0x8001, 3), (0xC016, 3),
      (0x8001, 4), (0xC016, 4), (0x8001, 5), (0xC016, 5), (0x8001, 6), (0xC016, 6), (0x8001, 7), (0xC016, 7)],
     [(0x8003, 254), (0x8006, 254), (0x800A, 254), (0x800F, 254), (0x8018, 254), (0x801F, 254), (0x8029, 254), (0xC038, 254),
      (0x8002, 2), (0x8009, 2), (0x8017, 2), (0xC028, 2), (0x8002, 3), (0x8009, 3), (0x8017, 3), (0xC028, 3)],
     [(0x8003, 2), (0x8006, 2), (0x800A, 2), (0x800F, 2), (0x8018, 2), (0x801F, 2), (0x8029, 2), (0xC038, 2),
      (0x8003, 3), (0x8006, 3), (0x800A, 3), (0x800F, 3), (0x8018, 3), (0x801F, 3), (0x8029, 3), (0xC038, 3)],
     [(0x8002, 4), (0x8009, 4), (0x8017, 4), (0xC028, 4), (0x8002, 5), (0x8009, 5), (0x8017, 5), (0xC028, 5),
      (0x8002, 6), (0x8009, 6), (0x8017, 6), (0xC028, 6), (0x8002, 7), (0x8009, 7), (0x8017, 7), (0xC028, 7)],
     [(0x8003, 4), (0x8006, 4), (0x800A, 4), (0x800F, 4), (0x8018, 4), (0x801F, 4), (0x8029, 4), (0xC038, 4),
      (0x8003, 5), (0x8006, 5), (0x800A, 5), (0x800F, 5), (0x8018, 5), (0x801F, 5), (0x8029, 5), (0xC038, 5)],
     [(0x8003, 6), (0x8006, 6), (0x800A, 6), (0x800F, 6), (0x8018, 6), (0x801F, 6), (0x8029, 6), (0xC038, 6),
      (0x8003, 7), (0x8006, 7), (0x800A, 7), (0x800F, 7), (0x8018, 7), (0x801F, 7), (0x8029, 7), (0xC038, 7)]]"

definition decode_rows_231 :: "DecodeEntry list list" where
  "decode_rows_231 = [
     [(0x8001, 8), (0xC016, 8), (0x8001, 11), (0xC016, 11), (0x8001, 12), (0xC016, 12), (0x8001, 14), (0xC016, 14),
      (0x8001, 15), (0xC016, 15), (0x8001, 16), (0xC016, 16), (0x8001, 17), (0xC016, 17), (0x8001, 18), (0xC016, 18)],
     [(0x8002, 8), (0x8009, 8), (0x8017, 8), (0xC028, 8), (0x8002, 11), (0x8009, 11), (0x8017, 11), (0xC028, 11),
      (0x8002, 12), (0x8009, 12), (0x8017, 12), (0xC028, 12), (0x8002, 14), (0x8009, 14), (0x8017, 14), (0xC028, 14)],
     [(0x8003, 8), (0x8006, 8), (0x800A, 8), (0x800F, 8), (0x8018, 8), (0x801F, 8), (0x8029, 8), (0xC038, 8),
      (0x8003, 11), (0x8006, 11), (0x800A, 11), (0x800F, 11), (0x8018, 11), (0x801F, 11), (0x8029, 11), (0xC038, 11)],
     [(0x8003, 12), (0x8006, 12), (0x800A, 12), (0x800F, 12), (0x8018, 12), (0x801F, 12), (0x8029, 12), (0xC038, 12),
      (0x8003, 14), (0x8006, 14), (0x800A, 14), (0x800F, 14), (0x8018, 14), (0x801F, 14), (0x8029, 14), (0xC038, 14)],
     [(0x8002, 15), (0x8009, 15), (0x8017, 15), (0xC028, 15), (0x8002, 16), (0x8009, 16), (0x8017, 16), (0xC028, 16),
      (0x8002, 17), (0x8009, 17), (0x8017, 17), (0xC028, 17), (0x8002, 18), (0x8009, 18), (0x8017, 18), (0xC028, 18)],
     [(0x8003, 15), (0x8006, 15), (0x800A, 15), (0x800F, 15), (0x8018, 15), (0x801F, 15), (0x8029, 15), (0xC038, 15),
      (0x8003, 16), (0x8006, 16), (0x800A, 16), (0x800F, 16), (0x8018, 16), (0x801F, 16), (0x8029, 16), (0xC038, 16)],
     [(0x8003, 17), (0x8006, 17), (0x800A, 17), (0x800F, 17), (0x8018, 17), (0x801F, 17), (0x8029, 17), (0xC038, 17),
      (0x8003, 18), (0x8006, 18), (0x800A, 18), (0x800F, 18), (0x8018, 18), (0x801F, 18), (0x8029, 18), (0xC038, 18)]]"

definition decode_rows_238 :: "DecodeEntry list list" where
  "decode_rows_238 = [
     [(0xC000, 19), (0xC000, 20), (0xC000, 21), (0xC000, 23), (0xC000, 24), (0xC000, 25), (0xC000, 26), (0xC000, 27),
      (0xC000, 28), (0xC000, 29), (0xC000, 30), (0xC000, 31), (0xC000, 127), (0xC000, 220), (0xC000, 249), (0xFD, 0)],
     [(0x8001, 19), (0xC016, 19), (0x8001, 20), (0xC016, 20), (0x8001, 21), (0xC016, 21), (0x8001, 23), (0xC016, 23),
      (0x8001, 24), (0xC016, 24), (0x8001, 25), (0xC016, 25), (0x8001, 26), (0xC016, 26), (0x8001, 27), (0xC016, 27)],
     [(0x8002, 19), (0x8009, 19), (0x8017, 19), (0xC028, 19), (0x8002, 20), (0x8009, 20), (0x8017, 20), (0xC028, 20),
      (0x8002, 21), (0x8009, 21), (0x8017, 21), (0xC028, 21), (0x8002, 23), (0x8009, 23), (0x8017, 23), (0xC028, 23)],
     [(0x8003, 19), (0x8006, 19), (0x800A, 19), (0x800F, 19), (0x8018, 19), (0x801F, 19), (0x8029, 19), (0xC038, 19),
      (0x8003, 20), (0x8006, 20), (0x800A, 20), (0x800F, 20), (0x8018, 20), (0x801F, 20), (0x8029, 20), (0xC038, 20)],
     [(0x8003, 21), (0x8006, 21), (0x800A, 21), (0x800F, 21), (0x8018, 21), (0x801F, 21), (0x8029, 21), (0xC038, 21),
      (0x8003, 23), (0x8006, 23), (0x800A, 23), (0x800F, 23), (0x8018, 23), (0x801F, 23), (0x8029, 23), (0xC038, 23)],
     [(0x8002, 24), (0x8009, 24), (0x8017, 24), (0xC028, 24), (0x8002, 25), (0x8009, 25), (0x8017, 25), (0xC028, 25),
      (0x8002, 26), (0x8009, 26), (0x8017, 26), (0xC028, 26), (0x8002, 27), (0x8009, 27), (0x8017, 27), (0xC028, 27)],
     [(0x8003, 24), (0x8006, 24), (0x800A, 24), (0x800F, 24), (0x8018, 24), (0x801F, 24), (0x8029, 24), (0xC038, 24),
      (0x8003, 25), (0x8006, 25), (0x800A, 25), (0x800F, 25), (0x8018, 25), (0x801F, 25), (0x8029, 25), (0xC038, 25)]]"

definition decode_rows_245 :: "DecodeEntry list list" where
  "decode_rows_245 = [
     [(0x8003, 26), (0x8006, 26), (0x800A, 26), (0x800F, 26), (0x8018, 26), (0x801F, 26), (0x8029, 26), (0xC038, 26),
      (0x8003, 27), (0x8006, 27), (0x800A, 27), (0x800F, 27), (0x8018, 27), (0x801F, 27), (0x8029, 27), (0xC038, 27)],
     [(0x8001, 28), (0xC016, 28), (0x8001, 29), (0xC016, 29), (0x8001, 30), (0xC016, 30), (0x8001, 31), (0xC016, 31),
      (0x8001, 127), (0xC016, 127), (0x8001, 220), (0xC016, 220), (0x8001, 249), (0xC016, 249), (0xFE, 0), (0xFF, 0)],
     [(0x8002, 28), (0x8009, 28), (0x8017, 28), (0xC028, 28), (0x8002, 29), (0x8009, 29), (0x8017, 29), (0xC028, 29),
      (0x8002, 30), (0x8009, 30), (0x8017, 30), (0xC028, 30), (0x8002, 31), (0x8009, 31), (0x8017, 31), (0xC028, 31)],
     [(0x8003, 28), (0x8006, 28), (0x800A, 28), (0x800F, 28), (0x8018, 28), (0x801F, 28), (0x8029, 28), (0xC038, 28),
      (0x8003, 29), (0x8006, 29), (0x800A, 29), (0x800F, 29), (0x8018, 29), (0x801F, 29), (0x8029, 29), (0xC038, 29)],
     [(0x8003, 30), (0x8006, 30), (0x800A, 30), (0x800F, 30), (0x8018, 30), (0x801F, 30), (0x8029, 30), (0xC038, 30),
      (0x8003, 31), (0x8006, 31), (0x800A, 31), (0x800F, 31), (0x8018, 31), (0x801F, 31), (0x8029, 31), (0xC038, 31)],
     [(0x8002, 127), (0x8009, 127), (0x8017, 127), (0xC028, 127), (0x8002, 220), (0x8009, 220), (0x8017, 220), (0xC028, 220),
      (0x8002, 249), (0x8009, 249), (0x8017, 249), (0xC028, 249), (0xC000, 10), (0xC000, 13), (0xC000, 22), (0x100, 0)],
     [(0x8003, 127), (0x8006, 127), (0x800A, 127), (0x800F, 127), (0x8018, 127), (0x801F, 127), (0x8029, 127), (0xC038, 127),
      (0x8003, 220), (0x8006, 220), (0x800A, 220), (0x800F, 220), (0x8018, 220), (0x801F, 220), (0x8029, 220), (0xC038, 220)]]"

definition decode_rows_252 :: "DecodeEntry list list" where
  "decode_rows_252 = [
     [(0x8003, 249), (0x8006, 249), (0x800A, 249), (0x800F, 249), (0x8018, 249), (0x801F, 249), (0x8029, 249), (0xC038, 249),
      (0x8001, 10), (0xC016, 10), (0x8001, 13), (0xC016, 13), (0x8001, 22), (0xC016, 22), (0x100, 0), (0x100, 0)],
     [(0x8002, 10), (0x8009, 10), (0x8017, 10), (0xC028, 10), (0x8002, 13), (0x8009, 13), (0x8017, 13), (0xC028, 13),
      (0x8002, 22), (0x8009, 22), (0x8017, 22), (0xC028, 22), (0x100, 0), (0x100, 0), (0x100, 0), (0x100, 0)],
     [(0x8003, 10), (0x8006, 10), (0x800A, 10), (0x800F, 10), (0x8018, 10), (0x801F, 10), (0x8029, 10), (0xC038, 10),
      (0x8003, 13), (0x8006, 13), (0x800A, 13), (0x800F, 13), (0x8018, 13), (0x801F, 13), (0x8029, 13), (0xC038, 13)],
     [(0x8003, 22), (0x8006, 22), (0x800A, 22), (0x800F, 22), (0x8018, 22), (0x801F, 22), (0x8029, 22), (0xC038, 22),
      (0x100, 0), (0x100, 0), (0x100, 0), (0x100, 0), (0x100, 0), (0x100, 0), (0x100, 0), (0x100, 0)],
     [(0x100, 0), (0x100, 0), (0x100, 0), (0x100, 0), (0x100, 0), (0x100, 0), (0x100, 0), (0x100, 0),
      (0x100, 0), (0x100, 0), (0x100, 0), (0x100, 0), (0x100, 0), (0x100, 0), (0x100, 0), (0x100, 0)]]"

definition decode_table :: "DecodeEntry list list" where
  "decode_table = decode_rows_0 @ decode_rows_7 @ decode_rows_14 @ decode_rows_21 @ decode_rows_28 @ decode_rows_35 @
     decode_rows_42 @ decode_rows_49 @ decode_rows_56 @ decode_rows_63 @ decode_rows_70 @ decode_rows_77 @ decode_rows_84 @
     decode_rows_91 @ decode_rows_98 @ decode_rows_105 @ decode_rows_112 @ decode_rows_119 @ decode_rows_126 @ decode_rows_133 @
     decode_rows_140 @ decode_rows_147 @ decode_rows_154 @ decode_rows_161 @ decode_rows_168 @ decode_rows_175 @
     decode_rows_182 @ decode_rows_189 @ decode_rows_196 @ decode_rows_203 @ decode_rows_210 @ decode_rows_217 @
     decode_rows_224 @ decode_rows_231 @ decode_rows_238 @ decode_rows_245 @ decode_rows_252"

end
