(* ===== verification/Huffman.thy ===== *)
theory Huffman
  imports Huffman_Tables "HOL-Library.Monad_Syntax"
begin

text \<open>
  The Huffman codec of HPACK (\<^verbatim>\<open>include/boltapi/http/huffman.h\<close>, \<^verbatim>\<open>src/http/huffman.cpp\<close>). A result \<open>None\<close> is the
  return code 1; a result \<open>Some out\<close> is the return code 0 with the bytes written. The encoder's bit buffer
  is a 64 bit word that is never masked, so its high bits are shifted out; the count of bits it holds
  stays below 38.
\<close>

section \<open>Encoder\<close>

definition code_nbits :: "byte \<Rightarrow> nat" where
  "code_nbits symbol = unat (snd (huffman_encode_table ! unat symbol))"

definition encoded_size :: "byte list \<Rightarrow> nat" where
  "encoded_size input = (sum_list (map code_nbits input) + 7) div 8"

function flush_bytes :: "u64 \<Rightarrow> nat \<Rightarrow> byte list \<Rightarrow> nat \<times> byte list" where
  "flush_bytes bits nbits out =
     (if nbits \<ge> 8 then flush_bytes bits (nbits - 8) (out @ [ucast (drop_bit (nbits - 8) bits AND 0xFF)]) else (nbits, out))"
  by auto
termination by (relation "measure (\<lambda>(_, nbits, _). nbits)") auto

declare flush_bytes.simps [simp del]

fun encode_loop :: "code_entry list \<Rightarrow> byte list \<Rightarrow> u64 \<Rightarrow> nat \<Rightarrow> byte list \<Rightarrow> u64 \<times> nat \<times> byte list" where
  "encode_loop table [] bits nbits out = (bits, nbits, out)"
| "encode_loop table (symbol # input) bits nbits out =
     (let code = fst (table ! unat symbol);
          k = unat (snd (table ! unat symbol));
          bits = push_bit k bits OR ucast code;
          (nbits, out) = flush_bytes bits (nbits + k) out
      in encode_loop table input bits nbits out)"

definition pad_last :: "u64 \<times> nat \<times> byte list \<Rightarrow> byte list" where
  "pad_last = (\<lambda>(bits, nbits, out).
     if nbits > 0
     then out @ [ucast ((push_bit (8 - nbits) bits OR (push_bit (8 - nbits) 1 - 1)) AND 0xFF)]
     else out)"

definition huffman_encode :: "byte list \<Rightarrow> nat \<Rightarrow> byte list option" where
  "huffman_encode input output_capacity =
     (if input = [] then None
      else if encoded_size input > output_capacity then None
      else Some (pad_last (encode_loop huffman_encode_table input 0 0 [])))"

section \<open>Decoder\<close>

definition entry_state :: "DecodeEntry \<Rightarrow> u16" where
  "entry_state e = fst e AND 0x1FF"

definition emits_symbol :: "DecodeEntry \<Rightarrow> bool" where
  "emits_symbol e = (fst e AND 0x8000 \<noteq> 0)"

definition is_failure :: "DecodeEntry \<Rightarrow> bool" where
  "is_failure e = (entry_state e = 256)"

definition decode_nibble :: "nat \<Rightarrow> byte \<Rightarrow> u16 \<times> byte list \<Rightarrow> (u16 \<times> byte list) option" where
  "decode_nibble output_capacity nibble = (\<lambda>(state, out).
     let entry = decode_table ! unat (state AND 0x1FF) ! unat nibble
     in if is_failure entry then None
        else if emits_symbol entry then
          (if length out \<ge> output_capacity then None else Some (fst entry, out @ [snd entry]))
        else Some (fst entry, out))"

fun decode_loop :: "nat \<Rightarrow> byte list \<Rightarrow> u16 \<times> byte list \<Rightarrow> (u16 \<times> byte list) option" where
  "decode_loop output_capacity [] st = Some st"
| "decode_loop output_capacity (b # input) st = do {
     st \<leftarrow> decode_nibble output_capacity (drop_bit 4 b) st;
     st \<leftarrow> decode_nibble output_capacity (b AND 0x0F) st;
     decode_loop output_capacity input st
   }"

definition huffman_decode :: "byte list \<Rightarrow> nat \<Rightarrow> byte list option" where
  "huffman_decode input output_capacity =
     (if input = [] then None
      else do {
        (state, out) \<leftarrow> decode_loop output_capacity input (0x4000, []);
        if state AND 0x4000 = 0 then None else Some out
      })"

section \<open>Bit strings\<close>

text \<open>The low \<open>n\<close> bits of a word, most significant first.\<close>

definition msb_bits :: "'a::len word \<Rightarrow> nat \<Rightarrow> bool list" where
  "msb_bits w n = map (bit w) (rev [0..<n])"

lemma length_msb_bits [simp]: "length (msb_bits w n) = n"
  by (simp add: msb_bits_def)

lemma nth_msb_bits [simp]: "i < n \<Longrightarrow> msb_bits w n ! i = bit w (n - Suc i)"
  by (simp add: msb_bits_def rev_nth)

lemma msb_bits_0 [simp]: "msb_bits w 0 = []"
  by (simp add: msb_bits_def)

lemma msb_bits_eqI: "(\<And>i. i < n \<Longrightarrow> bit v i = bit w i) \<Longrightarrow> msb_bits v n = msb_bits w n"
  by (simp add: msb_bits_def)

definition stream_bits :: "byte list \<Rightarrow> bool list" where
  "stream_bits bs = concat (map (\<lambda>b. msb_bits b 8) bs)"

lemma stream_bits_simps [simp]:
  "stream_bits [] = []" "stream_bits (b # bs) = msb_bits b 8 @ stream_bits bs" "stream_bits (xs @ ys) = stream_bits xs @ stream_bits ys"
  by (simp_all add: stream_bits_def)

lemma length_stream_bits: "length (stream_bits bs) = 8 * length bs"
  by (induction bs) auto

text \<open>The code of a symbol and of a string.\<close>

definition code_of :: "byte \<Rightarrow> bool list" where
  "code_of s = msb_bits (fst (huffman_encode_table ! unat s)) (code_nbits s)"

definition codes :: "byte list \<Rightarrow> bool list" where
  "codes s = concat (map code_of s)"

lemma codes_simps [simp]: "codes [] = []" "codes (a # s) = code_of a @ codes s" "codes (s @ t) = codes s @ codes t"
  by (simp_all add: codes_def)

lemma length_codes: "length (codes s) = sum_list (map code_nbits s)"
  by (induction s) (auto simp: code_of_def)

end
