(* ===== verification/Huffman_Tree.thy ===== *)
theory Huffman_Tree
  imports Huffman
begin

text \<open>
  The Huffman code as a binary tree, its internal nodes numbered in preorder as the automaton numbers its
  states, and the evaluation of the two static tables against it: every code of the code table leads to its
  symbol, and every row of the decoder's transition table is what walking four bits from that node gives.
\<close>

section \<open>The tree\<close>

datatype htree = Leaf nat | Node nat htree htree

fun follow :: "htree \<Rightarrow> bool list \<Rightarrow> htree option" where
  "follow t [] = Some t"
| "follow (Node _ l r) (b # bs) = follow (if b then r else l) bs"
| "follow (Leaf _) (b # bs) = None"

fun leaves :: "htree \<Rightarrow> nat list" where
  "leaves (Leaf s) = [s]"
| "leaves (Node _ l r) = leaves l @ leaves r"

fun nodes :: "htree \<Rightarrow> htree list" where
  "nodes (Leaf _) = []"
| "nodes (Node q l r) = Node q l r # nodes l @ nodes r"

fun label :: "htree \<Rightarrow> nat" where
  "label (Node q _ _) = q"
| "label (Leaf _) = 0"

text \<open>Leaf 256 is the end-of-string symbol. Larger subtrees have names of their own.\<close>

definition huff_node_9 :: htree where
  "huff_node_9 =
     Node 9 (Node 10 (Node 11 (Leaf 115) (Leaf 116)) (Node 12 (Node 13 (Leaf 32) (Leaf 37)) (Node 14 (Leaf 45) (Leaf 46))))
     (Node 15 (Node 16 (Node 17 (Leaf 47) (Leaf 51)) (Node 18 (Leaf 52) (Leaf 53))) (Node 19 (Node 20 (Leaf 54) (Leaf 55))
     (Node 21 (Leaf 56) (Leaf 57))))"

definition huff_node_23 :: htree where
  "huff_node_23 =
     Node 23 (Node 24 (Node 25 (Node 26 (Leaf 61) (Leaf 65)) (Node 27 (Leaf 95) (Leaf 98))) (Node 28 (Node 29 (Leaf 100)
     (Leaf 102)) (Node 30 (Leaf 103) (Leaf 104)))) (Node 31 (Node 32 (Node 33 (Leaf 108) (Leaf 109)) (Node 34 (Leaf 110)
     (Leaf 112))) (Node 35 (Node 36 (Leaf 114) (Leaf 117)) (Node 37 (Node 38 (Leaf 58) (Leaf 66)) (Node 39 (Leaf 67) (Leaf
     68)))))"

definition huff_node_41 :: htree where
  "huff_node_41 =
     Node 41 (Node 42 (Node 43 (Node 44 (Leaf 69) (Leaf 70)) (Node 45 (Leaf 71) (Leaf 72))) (Node 46 (Node 47 (Leaf 73) (Leaf
     74)) (Node 48 (Leaf 75) (Leaf 76)))) (Node 49 (Node 50 (Node 51 (Leaf 77) (Leaf 78)) (Node 52 (Leaf 79) (Leaf 80)))
     (Node 53 (Node 54 (Leaf 81) (Leaf 82)) (Node 55 (Leaf 83) (Leaf 84))))"

definition huff_node_96 :: htree where
  "huff_node_96 =
     Node 96 (Node 97 (Node 98 (Leaf 92) (Leaf 195)) (Node 99 (Leaf 208) (Node 100 (Leaf 128) (Leaf 130)))) (Node 101 (Node
     102 (Node 103 (Leaf 131) (Leaf 162)) (Node 104 (Leaf 184) (Leaf 194))) (Node 105 (Node 106 (Leaf 224) (Leaf 226)) (Node
     107 (Node 108 (Leaf 153) (Leaf 161)) (Node 109 (Leaf 167) (Leaf 172)))))"

definition huff_node_119 :: htree where
  "huff_node_119 =
     Node 119 (Node 120 (Node 121 (Leaf 230) (Node 122 (Leaf 129) (Leaf 132))) (Node 123 (Node 124 (Leaf 133) (Leaf 134))
     (Node 125 (Leaf 136) (Leaf 146)))) (Node 126 (Node 127 (Node 128 (Leaf 154) (Leaf 156)) (Node 129 (Leaf 160) (Leaf
     163))) (Node 130 (Node 131 (Leaf 164) (Leaf 169)) (Node 132 (Leaf 170) (Leaf 173))))"

definition huff_node_142 :: htree where
  "huff_node_142 =
     Node 142 (Node 143 (Node 144 (Leaf 198) (Leaf 228)) (Node 145 (Leaf 232) (Leaf 233))) (Node 146 (Node 147 (Node 148
     (Leaf 1) (Leaf 135)) (Node 149 (Leaf 137) (Leaf 138))) (Node 150 (Node 151 (Leaf 139) (Leaf 140)) (Node 152 (Leaf 141)
     (Leaf 143))))"

definition huff_node_154 :: htree where
  "huff_node_154 =
     Node 154 (Node 155 (Node 156 (Node 157 (Leaf 147) (Leaf 149)) (Node 158 (Leaf 150) (Leaf 151))) (Node 159 (Node 160
     (Leaf 152) (Leaf 155)) (Node 161 (Leaf 157) (Leaf 158)))) (Node 162 (Node 163 (Node 164 (Leaf 165) (Leaf 166)) (Node 165
     (Leaf 168) (Leaf 174))) (Node 166 (Node 167 (Leaf 175) (Leaf 180)) (Node 168 (Leaf 182) (Leaf 183))))"

definition huff_node_191 :: htree where
  "huff_node_191 =
     Node 191 (Node 192 (Node 193 (Node 194 (Leaf 192) (Leaf 193)) (Node 195 (Leaf 200) (Leaf 201))) (Node 196 (Node 197
     (Leaf 202) (Leaf 205)) (Node 198 (Leaf 210) (Leaf 213)))) (Node 199 (Node 200 (Node 201 (Leaf 218) (Leaf 219)) (Node 202
     (Leaf 238) (Leaf 240))) (Node 203 (Node 204 (Leaf 242) (Leaf 243)) (Node 205 (Leaf 255) (Node 206 (Leaf 203) (Leaf
     204)))))"

definition huff_node_208 :: htree where
  "huff_node_208 =
     Node 208 (Node 209 (Node 210 (Node 211 (Leaf 211) (Leaf 212)) (Node 212 (Leaf 214) (Leaf 221))) (Node 213 (Node 214
     (Leaf 222) (Leaf 223)) (Node 215 (Leaf 241) (Leaf 244)))) (Node 216 (Node 217 (Node 218 (Leaf 245) (Leaf 246)) (Node 219
     (Leaf 247) (Leaf 248))) (Node 220 (Node 221 (Leaf 250) (Leaf 251)) (Node 222 (Leaf 252) (Leaf 253))))"

definition huff_node_224 :: htree where
  "huff_node_224 =
     Node 224 (Node 225 (Node 226 (Leaf 254) (Node 227 (Leaf 2) (Leaf 3))) (Node 228 (Node 229 (Leaf 4) (Leaf 5)) (Node 230
     (Leaf 6) (Leaf 7)))) (Node 231 (Node 232 (Node 233 (Leaf 8) (Leaf 11)) (Node 234 (Leaf 12) (Leaf 14))) (Node 235 (Node
     236 (Leaf 15) (Leaf 16)) (Node 237 (Leaf 17) (Leaf 18))))"

definition huff_node_238 :: htree where
  "huff_node_238 =
     Node 238 (Node 239 (Node 240 (Node 241 (Leaf 19) (Leaf 20)) (Node 242 (Leaf 21) (Leaf 23))) (Node 243 (Node 244 (Leaf
     24) (Leaf 25)) (Node 245 (Leaf 26) (Leaf 27)))) (Node 246 (Node 247 (Node 248 (Leaf 28) (Leaf 29)) (Node 249 (Leaf 30)
     (Leaf 31))) (Node 250 (Node 251 (Leaf 127) (Leaf 220)) (Node 252 (Leaf 249) (Node 253 (Node 254 (Leaf 10) (Leaf 13))
     (Node 255 (Leaf 22) (Leaf 256))))))"

definition huff_node_180 :: htree where
  "huff_node_180 =
     Node 180 (Node 181 (Node 182 (Node 183 (Leaf 171) (Leaf 206)) (Node 184 (Leaf 215) (Leaf 225))) (Node 185 (Node 186
     (Leaf 236) (Leaf 237)) (Node 187 (Node 188 (Leaf 199) (Leaf 207)) (Node 189 (Leaf 234) (Leaf 235))))) (Node 190
     huff_node_191 (Node 207 huff_node_208 (Node 223 huff_node_224 huff_node_238)))"

definition huff_node_169 :: htree where
  "huff_node_169 =
     Node 169 (Node 170 (Node 171 (Node 172 (Leaf 188) (Leaf 191)) (Node 173 (Leaf 197) (Leaf 231))) (Node 174 (Node 175
     (Leaf 239) (Node 176 (Leaf 9) (Leaf 142))) (Node 177 (Node 178 (Leaf 144) (Leaf 145)) (Node 179 (Leaf 148) (Leaf
     159))))) huff_node_180"

definition huff_node_110 :: htree where
  "huff_node_110 =
     Node 110 (Node 111 (Node 112 (Node 113 (Node 114 (Leaf 176) (Leaf 177)) (Node 115 (Leaf 179) (Leaf 209))) (Node 116
     (Node 117 (Leaf 216) (Leaf 217)) (Node 118 (Leaf 227) (Leaf 229)))) huff_node_119) (Node 133 (Node 134 (Node 135 (Node
     136 (Node 137 (Leaf 178) (Leaf 181)) (Node 138 (Leaf 185) (Leaf 186))) (Node 139 (Node 140 (Leaf 187) (Leaf 189)) (Node
     141 (Leaf 190) (Leaf 196)))) huff_node_142) (Node 153 huff_node_154 huff_node_169))"

definition huff_node_84 :: htree where
  "huff_node_84 =
     Node 84 (Node 85 (Node 86 (Leaf 0) (Leaf 36)) (Node 87 (Leaf 64) (Leaf 91))) (Node 88 (Node 89 (Leaf 93) (Leaf 126))
     (Node 90 (Node 91 (Leaf 94) (Leaf 125)) (Node 92 (Node 93 (Leaf 60) (Leaf 96)) (Node 94 (Leaf 123) (Node 95 huff_node_96
     huff_node_110)))))"

definition huff_node_72 :: htree where
  "huff_node_72 =
     Node 72 (Node 73 (Leaf 88) (Leaf 90)) (Node 74 (Node 75 (Node 76 (Leaf 33) (Leaf 34)) (Node 77 (Leaf 40) (Leaf 41)))
     (Node 78 (Node 79 (Leaf 63) (Node 80 (Leaf 39) (Leaf 43))) (Node 81 (Node 82 (Leaf 124) (Node 83 (Leaf 35) (Leaf 62)))
     huff_node_84)))"

definition huff_node_56 :: htree where
  "huff_node_56 =
     Node 56 (Node 57 (Node 58 (Node 59 (Leaf 85) (Leaf 86)) (Node 60 (Leaf 87) (Leaf 89))) (Node 61 (Node 62 (Leaf 106)
     (Leaf 107)) (Node 63 (Leaf 113) (Leaf 118)))) (Node 64 (Node 65 (Node 66 (Leaf 119) (Leaf 120)) (Node 67 (Leaf 121)
     (Leaf 122))) (Node 68 (Node 69 (Node 70 (Leaf 38) (Leaf 42)) (Node 71 (Leaf 44) (Leaf 59))) huff_node_72))"

definition huff_tree :: htree where
  "huff_tree =
     Node 0 (Node 1 (Node 2 (Node 3 (Node 4 (Leaf 48) (Leaf 49)) (Node 5 (Leaf 50) (Leaf 97))) (Node 6 (Node 7 (Leaf 99)
     (Leaf 101)) (Node 8 (Leaf 105) (Leaf 111)))) huff_node_9) (Node 22 huff_node_23 (Node 40 huff_node_41 huff_node_56))"

lemmas tree_defs = huff_node_9_def huff_node_23_def huff_node_41_def huff_node_96_def huff_node_119_def huff_node_142_def
  huff_node_154_def huff_node_191_def huff_node_208_def huff_node_224_def huff_node_238_def huff_node_180_def
  huff_node_169_def huff_node_110_def huff_node_84_def huff_node_72_def huff_node_56_def huff_tree_def

lemma follow_node: "t = Node q l r \<Longrightarrow> follow t (b # bs) = follow (if b then r else l) bs"
  by simp

lemmas follow_named = huff_node_9_def [THEN follow_node] huff_node_23_def [THEN follow_node] huff_node_41_def [THEN follow_node]
  huff_node_96_def [THEN follow_node] huff_node_119_def [THEN follow_node] huff_node_142_def [THEN follow_node]
  huff_node_154_def [THEN follow_node] huff_node_191_def [THEN follow_node] huff_node_208_def [THEN follow_node]
  huff_node_224_def [THEN follow_node] huff_node_238_def [THEN follow_node] huff_node_180_def [THEN follow_node]
  huff_node_169_def [THEN follow_node] huff_node_110_def [THEN follow_node] huff_node_84_def [THEN follow_node]
  huff_node_72_def [THEN follow_node] huff_node_56_def [THEN follow_node] huff_tree_def [THEN follow_node]

section \<open>What a row of the automaton must be\<close>

datatype target = Go nat | Emit nat nat | Fail

text \<open>The nodes reached from the root by at most three bits.\<close>

definition root_labels :: "nat \<Rightarrow> nat list" where
  "root_labels k = (if k = 0 then [0] else if k = 1 then [1, 22] else if k = 2 then [2, 9, 23, 40] else [3, 6, 10, 15, 24, 31, 41, 56])"

fun targets :: "nat \<Rightarrow> htree \<Rightarrow> target list" where
  "targets k (Leaf s) = (if s = 256 then replicate (2 ^ k) Fail else map (Emit s) (root_labels k))"
| "targets 0 (Node q l r) = [Go q]"
| "targets (Suc k) (Node q l r) = targets k l @ targets k r"

text \<open>The nodes on the path of fewer than eight ones, where the input may end.\<close>

definition accepting :: "nat list" where
  "accepting = [0, 22, 40, 56, 64, 68, 72, 74]"

definition accept_bit :: "nat \<Rightarrow> u16" where
  "accept_bit q = (if q \<in> set accepting then 0x4000 else 0)"

fun table_entry :: "target \<Rightarrow> DecodeEntry" where
  "table_entry (Go q) = (accept_bit q + of_nat q, 0)"
| "table_entry (Emit s q) = (0x8000 + accept_bit q + of_nat q, of_nat s)"
| "table_entry Fail = (0x100, 0)"

definition row_of :: "htree \<Rightarrow> DecodeEntry list" where
  "row_of t = map table_entry (targets 4 t)"

section \<open>Evaluation\<close>

lemma tree_labels: "map label (nodes huff_tree) = [0..<256]"
  by code_simp

lemma tree_leaves: "length (leaves huff_tree) = 257"
  by code_simp

lemma row_of_4: "row_of t = map table_entry (targets (Suc (Suc (Suc (Suc 0)))) t)"
  by (simp add: row_of_def numeral_eq_Suc)

lemma root_labels_simps:
  "root_labels 0 = [0]" "root_labels (Suc 0) = [1, 22]" "root_labels (Suc (Suc 0)) = [2, 9, 23, 40]"
  "root_labels (Suc (Suc (Suc 0))) = [3, 6, 10, 15, 24, 31, 41, 56]"
  by (simp_all add: root_labels_def)

lemma replicate_literals:
  "replicate 3 x = [x, x, x]"
  "replicate 2 x = [x, x]" "replicate 4 x = [x, x, x, x]" "replicate 8 x = [x, x, x, x, x, x, x, x]"
  "replicate 16 x = [x, x, x, x, x, x, x, x, x, x, x, x, x, x, x, x]"
  by (simp_all add: numeral_eq_Suc)

lemma decode_table_rows: "decode_table = map row_of (nodes huff_tree) @ [replicate 16 (0x100, 0)]"
  by (simp add: tree_defs row_of_4 root_labels_simps accept_bit_def accepting_def replicate_literals
      decode_table_def decode_rows_0_def decode_rows_7_def decode_rows_14_def decode_rows_21_def decode_rows_28_def
      decode_rows_35_def decode_rows_42_def decode_rows_49_def decode_rows_56_def decode_rows_63_def
      decode_rows_70_def decode_rows_77_def decode_rows_84_def decode_rows_91_def decode_rows_98_def
      decode_rows_105_def decode_rows_112_def decode_rows_119_def decode_rows_126_def decode_rows_133_def
      decode_rows_140_def decode_rows_147_def decode_rows_154_def decode_rows_161_def decode_rows_168_def
      decode_rows_175_def decode_rows_182_def decode_rows_189_def decode_rows_196_def decode_rows_203_def
      decode_rows_210_def decode_rows_217_def decode_rows_224_def decode_rows_231_def decode_rows_238_def
      decode_rows_245_def decode_rows_252_def)

text \<open>The bits of a numeral.\<close>

fun num_bits :: "nat \<Rightarrow> num \<Rightarrow> bool list \<Rightarrow> bool list" where
  "num_bits 0 w acc = acc"
| "num_bits (Suc n) num.One acc = replicate n False @ True # acc"
| "num_bits (Suc n) (num.Bit0 w) acc = num_bits n w (False # acc)"
| "num_bits (Suc n) (num.Bit1 w) acc = num_bits n w (True # acc)"

lemma num_bits_numeral:
  "num_bits (numeral n) num.One acc = replicate (pred_numeral n) False @ True # acc"
  "num_bits (numeral n) (num.Bit0 w) acc = num_bits (pred_numeral n) w (False # acc)"
  "num_bits (numeral n) (num.Bit1 w) acc = num_bits (pred_numeral n) w (True # acc)"
  by (simp_all add: numeral_eq_Suc)

definition entry_bits :: "code_entry \<Rightarrow> bool list" where
 "entry_bits c = msb_bits (fst c) (unat (snd c))"

lemma num_bits_nat: "num_bits n w acc = map (bit (numeral w :: nat)) (rev [0..<n]) @ acc"
proof (induction n w acc rule: num_bits.induct)
  case (2 n acc)
  have "map (bit (1 :: nat)) (rev [0..<Suc n]) = replicate n False @ [True]"
    by (rule nth_equalityI) (auto simp: rev_nth nth_append bit_Suc_0_iff simp del: upt_Suc)
  then show ?case by simp
next
  case (3 n w acc)
  have "map (bit (numeral (num.Bit0 w) :: nat)) (rev [0..<Suc n]) = map (bit (numeral w :: nat)) (rev [0..<n]) @ [False]"
    by (subst upt_conv_Cons) (simp_all add: map_Suc_upt [symmetric] rev_map bit_numeral_Bit0_Suc_iff comp_def del: upt_Suc)
  then show ?case using 3 by simp
next
  case (4 n w acc)
  have "map (bit (numeral (num.Bit1 w) :: nat)) (rev [0..<Suc n]) = map (bit (numeral w :: nat)) (rev [0..<n]) @ [True]"
    by (subst upt_conv_Cons) (simp_all add: map_Suc_upt [symmetric] rev_map bit_numeral_Bit1_Suc_iff comp_def del: upt_Suc)
  then show ?case using 4 by simp
qed simp

lemma num_bits_u32: "n \<le> 32 \<Longrightarrow> msb_bits (numeral w :: u32) n = num_bits n w []"
proof -
  assume n: "n \<le> 32"
  have "bit (numeral w :: u32) i = bit (numeral w :: nat) i" if "i < n" for i
    using bit_of_nat_iff [where 'a = u32, of "numeral w" i] n that by (simp only: of_nat_numeral) simp
  then show ?thesis by (simp add: num_bits_nat msb_bits_def)
qed

lemma entry_bits_numeral:
  "numeral n \<le> (32 :: nat) \<Longrightarrow> entry_bits (numeral w, numeral n) = num_bits (numeral n) w []"
  "entry_bits (0, 5) = [False, False, False, False, False]"
  "entry_bits (1, 5) = [False, False, False, False, True]"
proof -
  show "entry_bits (numeral w, numeral n) = num_bits (numeral n) w []" if "numeral n \<le> (32 :: nat)"
  proof -
    have "numeral n mod 256 = (numeral n :: nat)" by (rule mod_less) (use that in linarith)
    then have "unat (of_nat (numeral n) :: byte) = numeral n" by (simp only: unat_of_nat_byte)
    then have "unat (numeral n :: byte) = numeral n" by (simp only: of_nat_numeral)
    then show ?thesis using num_bits_u32 [OF that, of w] by (simp only: entry_bits_def fst_conv snd_conv)
  qed
  show "entry_bits (0, 5) = [False, False, False, False, False]" "entry_bits (1, 5) = [False, False, False, False, True]"
    by (simp_all add: entry_bits_def msb_bits_def) (simp_all add: eval_nat_numeral bit_1_iff)
qed

lemma upt_256:
  "[0..<256] =
    [0, 1, 2, 3, 4, 5, 6, 7, 8, 9, 10, 11, 12, 13, 14, 15, 16, 17, 18, 19, 20, 21, 22, 23, 24, 25, 26, 27, 28, 29,
    30, 31, 32, 33, 34, 35, 36, 37, 38, 39, 40, 41, 42, 43, 44, 45, 46, 47, 48, 49, 50, 51, 52, 53, 54, 55, 56,
    57, 58, 59, 60, 61, 62, 63, 64, 65, 66, 67, 68, 69, 70, 71, 72, 73, 74, 75, 76, 77, 78, 79, 80, 81, 82, 83,
    84, 85, 86, 87, 88, 89, 90, 91, 92, 93, 94, 95, 96, 97, 98, 99, 100, 101, 102, 103, 104, 105, 106, 107, 108,
    109, 110, 111, 112, 113, 114, 115, 116, 117, 118, 119, 120, 121, 122, 123, 124, 125, 126, 127, 128, 129, 130,
    131, 132, 133, 134, 135, 136, 137, 138, 139, 140, 141, 142, 143, 144, 145, 146, 147, 148, 149, 150, 151, 152,
    153, 154, 155, 156, 157, 158, 159, 160, 161, 162, 163, 164, 165, 166, 167, 168, 169, 170, 171, 172, 173, 174,
    175, 176, 177, 178, 179, 180, 181, 182, 183, 184, 185, 186, 187, 188, 189, 190, 191, 192, 193, 194, 195, 196,
    197, 198, 199, 200, 201, 202, 203, 204, 205, 206, 207, 208, 209, 210, 211, 212, 213, 214, 215, 216, 217, 218,
    219, 220, 221, 222, 223, 224, 225, 226, 227, 228, 229, 230, 231, 232, 233, 234, 235, 236, 237, 238, 239, 240,
    241, 242, 243, 244, 245, 246, 247, 248, 249, 250, 251, 252, 253, 254, 255]"
  by code_simp

lemma code_leaves: "map (\<lambda>c. follow huff_tree (entry_bits c)) huffman_encode_table = map (\<lambda>i. Some (Leaf i)) [0..<256]"
  by (simp add: upt_256 huffman_encode_table_def num_bits_numeral entry_bits_numeral follow_named replicate_literals)

end
