(* ===== verification/Huffman_Correct.thy ===== *)
theory Huffman_Correct
  imports Huffman_Tree
begin

text \<open>
  The Huffman decoder accepts exactly the strings the code describes, and decodes them to the unique
  preimage; the encoder produces such strings.
\<close>

section \<open>Codes and paths in the tree\<close>

lemma follow_append: "follow t (xs @ ys) = (case follow t xs of None \<Rightarrow> None | Some u \<Rightarrow> follow u ys)"
  by (induction t xs rule: follow.induct) (auto split: option.split)

lemma follow_Leaf: "follow (Leaf s) bs = Some u \<longleftrightarrow> bs = [] \<and> u = Leaf s"
  by (cases bs) auto

text \<open>Paths to leaves are prefix free.\<close>

lemma leaf_no_extension: "follow t p = Some (Leaf s) \<Longrightarrow> follow t (p @ q) = Some u \<Longrightarrow> q = []"
  by (simp add: follow_append follow_Leaf)

lemma leaf_prefix_unique:
  assumes "follow t p = Some (Leaf a)" "follow t q = Some (Leaf b)" "p @ x = q @ y"
  shows "p = q"
proof -
  obtain z where "p = q @ z \<and> z @ x = y \<or> p @ z = q \<and> x = z @ y" using assms(3) by (auto simp: append_eq_append_conv2)
  then show ?thesis using assms(1,2) leaf_no_extension [of t q b z] leaf_no_extension [of t p a z] by auto
qed

lemma huffman_encode_table_length [simp]: "length huffman_encode_table = 256"
  using arg_cong [OF code_leaves, of length] by simp

lemma code_of_leaf: "follow huff_tree (code_of s) = Some (Leaf (unat s))"
proof -
  have "map (\<lambda>c. follow huff_tree (entry_bits c)) huffman_encode_table ! unat s = map (\<lambda>i. Some (Leaf i)) [0..<256] ! unat s"
    by (simp only: code_leaves)
  then show ?thesis by (simp add: entry_bits_def code_of_def code_nbits_def)
qed

definition eos :: "bool list" where
  "eos = replicate 30 True"

lemma eos_leaf: "follow huff_tree eos = Some (Leaf 256)"
  by (simp add: eos_def numeral_eq_Suc follow_named)

text \<open>Labels and symbols occur once, so a node or leaf determines its path.\<close>

lemma follow_leaf_in: "follow t p = Some (Leaf s) \<Longrightarrow> s \<in> set (leaves t)"
  by (induction t p rule: follow.induct) (auto split: if_splits)

lemma follow_node_in: "follow t p = Some (Node q l r) \<Longrightarrow> Node q l r \<in> set (nodes t)"
  by (induction t p rule: follow.induct) (auto split: if_splits)

lemma follow_leaf_inj:
  "distinct (leaves t) \<Longrightarrow> follow t p = Some (Leaf s) \<Longrightarrow> follow t p' = Some (Leaf s) \<Longrightarrow> p = p'"
proof (induction t p arbitrary: p' rule: follow.induct)
  case (2 q l r b bs)
  then obtain b' bs' where p': "p' = b' # bs'" by (cases p') auto
  have "b = b'" using 2 p' follow_leaf_in [of l _ s] follow_leaf_in [of r _ s] by (auto split: if_splits)
  then show ?case using 2 p' by (auto split: if_splits)
qed (auto simp: follow_Leaf)

lemma follow_node_inj:
  "distinct (map label (nodes t)) \<Longrightarrow> follow t p = Some (Node q l r) \<Longrightarrow> follow t p' = Some (Node q l' r') \<Longrightarrow> p = p'"
proof (induction t p arbitrary: p' rule: follow.induct)
  case (1 t)
  then have t: "t = Node q l r" by simp
  have "q \<notin> label ` set (nodes l) \<union> label ` set (nodes r)" using 1 t by auto
  moreover have "q \<in> label ` set (nodes u)" if "follow u x = Some (Node q l' r')" for u x
    using follow_node_in [OF that] by force
  ultimately show ?case using 1 t by (cases p') (auto split: if_splits)
next
  case (2 q0 l0 r0 b bs)
  have mem: "q \<in> label ` set (nodes u)" if "follow u x = Some (Node q l1 r1)" for u x l1 r1
    using follow_node_in [OF that] by force
  have d: "q0 \<notin> label ` set (nodes l0)" "q0 \<notin> label ` set (nodes r0)" "label ` set (nodes l0) \<inter> label ` set (nodes r0) = {}"
    using 2 by auto
  obtain b' bs' where p': "p' = b' # bs'"
    using 2 mem [of "if b then r0 else l0" bs l r] d by (cases p') (auto split: if_splits)
  have "q \<in> label ` set (nodes (if b then r0 else l0))" "q \<in> label ` set (nodes (if b' then r0 else l0))"
    using mem 2(3,4) p' by (simp_all del: if_split)
  then have "b = b'" using d(3) by (auto split: if_splits)
  then show ?case using 2 p' by (auto split: if_splits)
qed simp

lemma distinct_labels: "distinct (map label (nodes huff_tree))"
  by (simp add: tree_labels)

lemma all_leaves: "s < 257 \<Longrightarrow> s \<in> set (leaves huff_tree)"
proof (cases "s = 256")
  case True
  then show ?thesis using follow_leaf_in [OF eos_leaf] by simp
next
  case False
  assume "s < 257"
  then have "unat (of_nat s :: byte) = s" using False by simp
  then show ?thesis using follow_leaf_in [OF code_of_leaf [of "of_nat s"]] by simp
qed

lemma distinct_leaves: "distinct (leaves huff_tree)"
proof (rule card_distinct)
  from all_leaves have "card {..<257::nat} \<le> card (set (leaves huff_tree))" by (intro card_mono) auto
  then show "card (set (leaves huff_tree)) = length (leaves huff_tree)"
    using card_length [of "leaves huff_tree"] by (simp add: tree_leaves)
qed

lemma leaf_path: "follow huff_tree p = Some (Leaf s) \<Longrightarrow> p = (if s = 256 then eos else code_of (of_nat s)) \<and> s \<le> 256"
proof -
  assume p: "follow huff_tree p = Some (Leaf s)"
  have "set (leaves huff_tree) = {..<257}"
  proof (rule sym, rule card_subset_eq)
    show "{..<257} \<subseteq> set (leaves huff_tree)" using all_leaves by blast
    show "card {..<257::nat} = card (set (leaves huff_tree))" using distinct_card [OF distinct_leaves] by (simp add: tree_leaves)
  qed simp
  then have s: "s < 257" using follow_leaf_in [OF p] by simp
  show ?thesis
  proof (cases "s = 256")
    case False
    then have "unat (of_nat s :: byte) = s" using s by simp
    then show ?thesis using follow_leaf_inj [OF distinct_leaves p] code_of_leaf [of "of_nat s"] s False by auto
  qed (use follow_leaf_inj [OF distinct_leaves p] eos_leaf in auto)
qed

section \<open>Unique decodability\<close>

text \<open>Nothing can be decoded from \<open>r\<close>.\<close>

definition stuck :: "bool list \<Rightarrow> bool" where
  "stuck r \<longleftrightarrow> (\<forall>s x. r \<noteq> code_of s @ x)"

lemma node_stuck: "follow huff_tree p = Some (Node q l r) \<Longrightarrow> stuck p"
proof (unfold stuck_def, intro allI notI)
  fix s x assume "follow huff_tree p = Some (Node q l r)" "p = code_of s @ x"
  then show False by (cases x) (simp_all add: follow_append code_of_leaf)
qed

lemma eos_stuck: "stuck (eos @ x)"
proof (unfold stuck_def, intro allI notI)
  fix s y assume "eos @ x = code_of s @ y"
  then have "eos = code_of s" by (rule leaf_prefix_unique [OF eos_leaf code_of_leaf])
  then show False using eos_leaf code_of_leaf [of s] byte_less_256 [of s] by simp
qed

lemma code_of_inj: "code_of a = code_of b \<longleftrightarrow> a = b"
  using code_of_leaf [of a] code_of_leaf [of b] by (auto intro: word_eq_of_unat)

lemma codes_prefix:
  assumes "codes s1 @ x = codes s2 @ r" "stuck r"
  shows "\<exists>s3. s2 = s1 @ s3 \<and> x = codes s3 @ r"
  using assms(1)
proof (induction s1 arbitrary: s2)
  case (Cons a s1)
  then obtain b s2' where s2: "s2 = b # s2'" using assms(2) by (cases s2) (auto simp: stuck_def)
  then have e: "code_of a @ codes s1 @ x = code_of b @ codes s2' @ r" using Cons.prems by simp
  then have "code_of a = code_of b" by (rule leaf_prefix_unique [OF code_of_leaf code_of_leaf])
  then show ?case using Cons.IH [of s2'] e s2 by (auto simp: code_of_inj)
qed simp

lemma codes_unique: "codes s1 @ r1 = codes s2 @ r2 \<Longrightarrow> stuck r1 \<Longrightarrow> stuck r2 \<Longrightarrow> s1 = s2 \<and> r1 = r2"
proof -
  assume e: "codes s1 @ r1 = codes s2 @ r2" and r: "stuck r1" "stuck r2"
  obtain s3 where s3: "s2 = s1 @ s3" "r1 = codes s3 @ r2" using codes_prefix [OF e r(2)] by blast
  then show ?thesis using r(1) by (cases s3) (auto simp: stuck_def)
qed

section \<open>Rows of the automaton\<close>

fun bits_nat :: "bool list \<Rightarrow> nat" where
  "bits_nat [] = 0"
| "bits_nat (b # bs) = (if b then 2 ^ length bs else 0) + bits_nat bs"

lemma bits_nat_less: "bits_nat bs < 2 ^ length bs"
  by (induction bs) auto

lemma msb_bits_Suc: "msb_bits w (Suc n) = bit w n # msb_bits w n"
  by (simp add: msb_bits_def)

lemma bits_nat_msb: "bits_nat (msb_bits w n) = unat w mod 2 ^ n"
proof -
  have "bits_nat (msb_bits w n) = take_bit n (unat w)"
    by (induction n) (auto simp: msb_bits_Suc take_bit_Suc_from_most bit_unsigned_iff possible_bit_def dest: bit_imp_le_length)
  then show ?thesis by (simp only: take_bit_eq_mod)
qed

fun walk :: "htree \<Rightarrow> bool list \<Rightarrow> target" where
  "walk (Node q l r) [] = Go q"
| "walk (Node q l r) (b # bs) = walk (if b then r else l) bs"
| "walk (Leaf s) bs = (if s = 256 then Fail else Emit s (root_labels (length bs) ! bits_nat bs))"

lemma length_root_labels: "k \<le> 3 \<Longrightarrow> length (root_labels k) = 2 ^ k"
  by (cases k; cases "k - 1"; cases "k - 2") (auto simp: root_labels_def)

lemma length_targets: "(case t of Leaf _ \<Rightarrow> k \<le> 3 | Node _ _ _ \<Rightarrow> k \<le> 4) \<Longrightarrow> length (targets k t) = 2 ^ k"
  by (induction k t rule: targets.induct) (auto simp: length_root_labels split: htree.splits)

lemma targets_walk:
  "(case t of Leaf _ \<Rightarrow> length bs \<le> 3 | Node _ _ _ \<Rightarrow> length bs \<le> 4) \<Longrightarrow> targets (length bs) t ! bits_nat bs = walk t bs"
proof (induction t bs rule: walk.induct)
  case (2 q l r b bs)
  have c: "case u of Leaf _ \<Rightarrow> length bs \<le> 3 | Node _ _ _ \<Rightarrow> length bs \<le> 4" for u using 2(2) by (cases u) auto
  show ?case using 2(1) [OF c] length_targets [OF c] bits_nat_less [of bs] by (cases b) (simp_all add: nth_append)
next
  case (3 s bs)
  then show ?case using bits_nat_less [of bs] by (simp add: length_root_labels)
qed simp

lemma root_follow: "length bs \<le> 3 \<Longrightarrow> \<exists>l r. follow huff_tree bs = Some (Node (root_labels (length bs) ! bits_nat bs) l r)"
proof -
  assume "length bs \<le> 3"
  then consider "bs = []" | b where "bs = [b]" | b c where "bs = [b, c]" | b c d where "bs = [b, c, d]"
    by (cases bs; cases "tl bs"; cases "tl (tl bs)"; cases "tl (tl (tl bs))") auto
  then show ?thesis
    by cases (auto simp: root_labels_def tree_defs)
qed

lemma walk_cases:
  assumes "follow huff_tree p = Some (Node q l r)" "length bs \<le> 4"
  shows "case walk (Node q l r) bs of
      Go q' \<Rightarrow> \<exists>l r. follow huff_tree (p @ bs) = Some (Node q' l r)
    | Emit s q' \<Rightarrow> \<exists>a b l r. bs = a @ b \<and> p @ a = code_of (of_nat s) \<and> follow huff_tree b = Some (Node q' l r) \<and> s < 256
    | Fail \<Rightarrow> \<exists>x. p @ bs = eos @ x"
  using assms
proof (induction bs arbitrary: p q l r)
  case (Cons b bs)
  let ?c = "if b then r else l"
  have f: "follow huff_tree (p @ [b]) = Some ?c" using Cons.prems(1) by (simp add: follow_append)
  have w: "walk (Node q l r) (b # bs) = walk ?c bs" by simp
  show ?case
  proof (cases ?c)
    case (Node q' l' r')
    have f': "follow huff_tree (p @ [b]) = Some (Node q' l' r')" using f Node by simp
    have "length bs \<le> 4" using Cons.prems(2) by simp
    note ih = Cons.IH [OF f' this]
    show ?thesis unfolding w Node
    proof (cases "walk (Node q' l' r') bs")
      case (Emit s q2)
      then obtain a d l2 r2 where "bs = a @ d" "(p @ [b]) @ a = code_of (of_nat s)" "follow huff_tree d = Some (Node q2 l2 r2)" "s < 256"
        using ih by auto
      then have "b # bs = (b # a) @ d \<and> p @ b # a = code_of (of_nat s) \<and> follow huff_tree d = Some (Node q2 l2 r2) \<and> s < 256" by simp
      then show "case walk (Node q' l' r') bs of
          Go q' \<Rightarrow> \<exists>l r. follow huff_tree (p @ b # bs) = Some (Node q' l r)
        | Emit s q' \<Rightarrow> \<exists>a d l r. b # bs = a @ d \<and> p @ a = code_of (of_nat s) \<and> follow huff_tree d = Some (Node q' l r) \<and> s < 256
        | Fail \<Rightarrow> \<exists>x. p @ b # bs = eos @ x"
        using Emit by (simp only: target.case) blast
    qed (use ih in auto)
  next
    case (Leaf s)
    then have lp: "p @ [b] = (if s = 256 then eos else code_of (of_nat s))" "s \<le> 256" using f leaf_path by auto
    obtain l2 r2 where "follow huff_tree bs = Some (Node (root_labels (length bs) ! bits_nat bs) l2 r2)"
      using root_follow [of bs] Cons.prems(2) by auto
    then have "s \<noteq> 256 \<Longrightarrow> b # bs = [b] @ bs \<and> p @ [b] = code_of (of_nat s) \<and>
        follow huff_tree bs = Some (Node (root_labels (length bs) ! bits_nat bs) l2 r2) \<and> s < 256"
      using lp by simp
    moreover have "s = 256 \<Longrightarrow> p @ b # bs = eos @ bs" using lp by (simp flip: append_assoc [of p "[b]" bs, simplified])
    ultimately show ?thesis unfolding w Leaf
      by (cases "s = 256") (simp_all only: walk.simps if_True if_False target.case simp_thms, blast+)
  qed
qed auto

text \<open>The entry for a node and a nibble, and how its packed word reads.\<close>

lemma nodes_labelled: "t \<in> set (nodes huff_tree) \<Longrightarrow> nodes huff_tree ! label t = t \<and> label t < 256"
proof -
  assume "t \<in> set (nodes huff_tree)"
  then obtain i where i: "i < length (nodes huff_tree)" "nodes huff_tree ! i = t" by (auto simp: in_set_conv_nth)
  have l: "length (nodes huff_tree) = 256" using arg_cong [OF tree_labels, of length] by simp
  have "map label (nodes huff_tree) ! i = i" using i l by (simp only: tree_labels) simp
  then show ?thesis using i l by simp
qed

lemma decode_table_entry:
  assumes "follow huff_tree p = Some (Node q l r)" "length bs = 4"
  shows "decode_table ! q ! bits_nat bs = table_entry (walk (Node q l r) bs)" "q < 256"
proof -
  have n: "nodes huff_tree ! q = Node q l r" "q < 256" using nodes_labelled [OF follow_node_in [OF assms(1)]] by auto
  have l: "length (nodes huff_tree) = 256" using arg_cong [OF tree_labels, of length] by simp
  have t: "targets 4 (Node q l r) ! bits_nat bs = walk (Node q l r) bs" using targets_walk [of bs "Node q l r"] assms(2) by simp
  have "bits_nat bs < length (targets 4 (Node q l r))" using bits_nat_less [of bs] length_targets [of 4 "Node q l r"] assms(2) by simp
  then show "decode_table ! q ! bits_nat bs = table_entry (walk (Node q l r) bs)" "q < 256"
    using n l t by (simp_all add: decode_table_rows nth_append row_of_def)
qed

lemma packed_word:
  assumes "q < 256" "f \<in> {0, 0x4000, 0x8000, 0xC000 :: nat}"
  shows "(of_nat (f + q) :: u16) AND 0x1FF = of_nat q"
    "(of_nat (f + q) :: u16) AND 0x8000 = 0 \<longleftrightarrow> f < 0x8000"
    "(of_nat (f + q) :: u16) AND 0x4000 = 0 \<longleftrightarrow> f \<in> {0, 0x8000}"
proof -
  have u: "unat (of_nat (f + q) :: u16) = f + q" using assms by (auto simp: unat_of_nat simp del: of_nat_add)
  have m: "unat ((of_nat (f + q) :: u16) AND 0x1FF) = (f + q) mod 2 ^ 9"
    using unat_and_low [of "0x1FF :: u16" 9 "of_nat (f + q) :: u16"] u by simp
  show "(of_nat (f + q) :: u16) AND 0x1FF = of_nat q"
  proof (rule word_eq_of_unat)
    have "f mod 512 = 0" using assms(2) by auto
    then have "(f + q) mod 512 = q" using mod_add_left_eq [of f 512 q] assms(1) by simp
    then show "unat ((of_nat (f + q) :: u16) AND 0x1FF) = unat (of_nat q :: u16)"
      using m assms(1) by (simp add: unat_of_nat del: of_nat_add)
  qed
  have b: "(w :: u16) AND 0x8000 = 0 \<longleftrightarrow> \<not> bit w 15" "(w :: u16) AND 0x4000 = 0 \<longleftrightarrow> \<not> bit w 14" for w
    using and_exp_eq_0_iff_not_bit [of w 15] and_exp_eq_0_iff_not_bit [of w 14] by simp_all
  have n: "k < 16 \<Longrightarrow> bit (of_nat (f + q) :: u16) k \<longleftrightarrow> odd ((f + q) div 2 ^ k)" for k
  proof -
    assume "k < 16"
    then have "possible_bit TYPE(u16) k" by (simp add: possible_bit_word)
    then show ?thesis using bit_of_nat_iff [where 'a = u16, of "f + q" k] bit_iff_odd [of "f + q" k] by blast
  qed
  have "f mod 16384 = 0" using assms(2) by auto
  then have d: "(f + q) div 16384 = f div 16384" using div_add1_eq [of f q 16384] assms(1) by simp
  then have e: "(f + q) div 32768 = f div 32768" using div_mult2_eq [of "f + q" 16384 2] div_mult2_eq [of f 16384 2] by simp
  show "(of_nat (f + q) :: u16) AND 0x8000 = 0 \<longleftrightarrow> f < 0x8000" "(of_nat (f + q) :: u16) AND 0x4000 = 0 \<longleftrightarrow> f \<in> {0, 0x8000}"
    unfolding b using n [of 14] n [of 15] d e assms(2) by (auto simp del: of_nat_add)
qed

lemma ones_literals:
  "replicate 2 b = [b, b]" "replicate 3 b = [b, b, b]" "replicate 4 b = [b, b, b, b]" "replicate 5 b = [b, b, b, b, b]"
  "replicate 6 b = [b, b, b, b, b, b]" "replicate 7 b = [b, b, b, b, b, b, b]"
  by (simp_all add: numeral_eq_Suc)

lemma named_nodes:
  "\<exists>l r. huff_tree = Node 0 l r" "\<exists>l r. huff_node_56 = Node 56 l r" "\<exists>l r. huff_node_72 = Node 72 l r"
  by (simp_all add: huff_tree_def huff_node_56_def huff_node_72_def)

lemma ones_follow: "k < 8 \<Longrightarrow> \<exists>l r. follow huff_tree (replicate k True) = Some (Node (accepting ! k) l r)"
proof -
  assume "k < 8"
  then consider "k = 0" | "k = 1" | "k = 2" | "k = 3" | "k = 4" | "k = 5" | "k = 6" | "k = 7" by linarith
  then show ?thesis by cases (simp_all add: accepting_def ones_literals follow_named named_nodes)
qed

lemma accepting_iff:
  assumes "follow huff_tree p = Some (Node q l r)"
  shows "q \<in> set accepting \<longleftrightarrow> (\<exists>k<8. p = replicate k True)"
proof
  assume "q \<in> set accepting"
  moreover have "length accepting = 8" by (simp add: accepting_def)
  ultimately obtain k where k: "k < 8" "q = accepting ! k" by (metis in_set_conv_nth)
  then obtain l' r' where "follow huff_tree (replicate k True) = Some (Node q l' r')" using ones_follow by blast
  then show "\<exists>k<8. p = replicate k True" using follow_node_inj [OF distinct_labels assms] k by blast
next
  assume "\<exists>k<8. p = replicate k True"
  then obtain k where k: "k < 8" "p = replicate k True" by blast
  then have "q = accepting ! k" using ones_follow [OF k(1)] assms by auto
  moreover have "length accepting = 8" by (simp add: accepting_def)
  ultimately show "q \<in> set accepting" using k nth_mem [of k accepting] by simp
qed

section \<open>Runs of the decoder\<close>

text \<open>
  After the bits \<open>P\<close> the decoder has emitted \<open>out\<close> and stands at the node whose path is the rest of \<open>P\<close>; its
  state carries the accepting flag exactly if that rest is fewer than eight ones.
\<close>

definition dec_inv :: "nat \<Rightarrow> bool list \<Rightarrow> u16 \<times> byte list \<Rightarrow> bool" where
  "dec_inv cap P st \<longleftrightarrow> (\<exists>p l r. P = codes (snd st) @ p \<and> follow huff_tree p = Some (Node (unat (fst st AND 0x1FF)) l r) \<and>
     length (snd st) \<le> cap \<and> (fst st AND 0x4000 \<noteq> 0 \<longleftrightarrow> (\<exists>k<8. p = replicate k True)))"

definition dec_failed :: "nat \<Rightarrow> bool list \<Rightarrow> bool" where
  "dec_failed cap P \<longleftrightarrow> (\<exists>out x. P = codes out @ x \<and> (cap < length out \<or> (\<exists>y. x = eos @ y)))"

lemma table_entry_word:
  assumes "q < 256"
  defines "w \<equiv> accept_bit q + of_nat q"
  shows "w AND 0x1FF = of_nat q" "w AND 0x8000 = 0" "(w AND 0x4000 \<noteq> 0) = (q \<in> set accepting)"
    "(0x8000 + w) AND 0x1FF = of_nat q" "(0x8000 + w) AND 0x8000 \<noteq> 0" "((0x8000 + w) AND 0x4000 \<noteq> 0) = (q \<in> set accepting)"
proof -
  define f :: nat where "f = (if q \<in> set accepting then 0x4000 else 0)"
  have w: "w = of_nat (f + q)" "0x8000 + w = of_nat (0x8000 + f + q)" by (simp_all add: w_def accept_bit_def f_def)
  have f: "f \<in> {0, 0x4000, 0x8000, 0xC000}" "0x8000 + f \<in> {0, 0x4000, 0x8000, 0xC000}" by (auto simp: f_def)
  show "w AND 0x1FF = of_nat q" "w AND 0x8000 = 0" "(w AND 0x4000 \<noteq> 0) = (q \<in> set accepting)"
    unfolding w(1) packed_word [OF assms(1) f(1)] by (simp_all add: f_def)
  show "(0x8000 + w) AND 0x1FF = of_nat q" "(0x8000 + w) AND 0x8000 \<noteq> 0" "((0x8000 + w) AND 0x4000 \<noteq> 0) = (q \<in> set accepting)"
    unfolding w(2) packed_word [OF assms(1) f(2)] by (simp_all add: f_def)
qed

lemma dec_inv_target:
  assumes "follow huff_tree p = Some (Node q l r)" "q < 256" "length out \<le> cap"
  shows "dec_inv cap (codes out @ p) (accept_bit q + of_nat q, out)" "dec_inv cap (codes out @ p) (0x8000 + (accept_bit q + of_nat q), out)"
  using assms table_entry_word [OF assms(2)] accepting_iff [OF assms(1)] by (simp_all add: dec_inv_def unat_of_nat)

lemma node_label_less: "follow huff_tree p = Some (Node q l r) \<Longrightarrow> q < 256"
  using nodes_labelled [OF follow_node_in] by auto

lemma small_not_failure: "q < 256 \<Longrightarrow> (of_nat q :: u16) \<noteq> 256"
  by (auto simp: word_unat_eq_iff unat_of_nat)

lemma decode_nibble_inv:
  assumes "dec_inv cap P st" "unat nib < 16"
  shows "case decode_nibble cap nib st of Some st' \<Rightarrow> dec_inv cap (P @ msb_bits nib 4) st' | None \<Rightarrow> dec_failed cap (P @ msb_bits nib 4)"
proof -
  obtain state out where st: "st = (state, out)" by (cases st)
  define q bs where "q = unat (state AND 0x1FF)" and "bs = msb_bits nib 4"
  obtain p l r where p: "P = codes out @ p" "follow huff_tree p = Some (Node q l r)" "length out \<le> cap"
    using assms(1) by (auto simp: dec_inv_def st q_def)
  have bs: "length bs = 4" "bits_nat bs = unat nib" using assms(2) by (simp_all add: bs_def bits_nat_msb)
  have e: "decode_table ! q ! unat nib = table_entry (walk (Node q l r) bs)" using decode_table_entry [OF p(2) bs(1)] bs(2) by simp
  have d: "decode_nibble cap nib st = (let entry = table_entry (walk (Node q l r) bs)
      in if is_failure entry then None
         else if emits_symbol entry then (if length out \<ge> cap then None else Some (fst entry, out @ [snd entry]))
         else Some (fst entry, out))"
    by (simp add: decode_nibble_def st e q_def [symmetric])
  have w: "case walk (Node q l r) bs of
      Go q' \<Rightarrow> \<exists>l r. follow huff_tree (p @ bs) = Some (Node q' l r)
    | Emit s q' \<Rightarrow> \<exists>a b l r. bs = a @ b \<and> p @ a = code_of (of_nat s) \<and> follow huff_tree b = Some (Node q' l r) \<and> s < 256
    | Fail \<Rightarrow> \<exists>x. p @ bs = eos @ x"
    using walk_cases [OF p(2), of bs] bs(1) by simp
  show ?thesis unfolding bs_def [symmetric]
  proof (cases "walk (Node q l r) bs")
    case (Go q')
    then obtain l' r' where f: "follow huff_tree (p @ bs) = Some (Node q' l' r')" using w by auto
    note q' = node_label_less [OF f]
    have "decode_nibble cap nib st = Some (accept_bit q' + of_nat q', out)"
      using table_entry_word [OF q'] small_not_failure [OF q'] by (simp add: d Go is_failure_def entry_state_def emits_symbol_def)
    then show "case decode_nibble cap nib st of Some st' \<Rightarrow> dec_inv cap (P @ bs) st' | None \<Rightarrow> dec_failed cap (P @ bs)"
      using dec_inv_target(1) [OF f q' p(3)] p(1) by simp
  next
    case (Emit s q')
    then obtain a b l' r' where f: "bs = a @ b" "p @ a = code_of (of_nat s)" "follow huff_tree b = Some (Node q' l' r')" "s < 256"
      using w by auto
    note q' = node_label_less [OF f(3)]
    have P: "P @ bs = codes (out @ [of_nat s]) @ b" using p(1) f by simp
    have "decode_nibble cap nib st = (if length out \<ge> cap then None else Some (0x8000 + (accept_bit q' + of_nat q'), out @ [of_nat s]))"
      using table_entry_word [OF q'] small_not_failure [OF q'] by (simp add: d Emit is_failure_def entry_state_def emits_symbol_def add.assoc)
    then show "case decode_nibble cap nib st of Some st' \<Rightarrow> dec_inv cap (P @ bs) st' | None \<Rightarrow> dec_failed cap (P @ bs)"
      using dec_inv_target(2) [OF f(3) q', of "out @ [of_nat s]" cap] P unfolding dec_failed_def
      by (auto intro!: exI [of _ "out @ [of_nat s]"] exI [of _ b])
  next
    case Fail
    then obtain x where "p @ bs = eos @ x" using w by auto
    moreover have "decode_nibble cap nib st = None" by (simp add: d Fail is_failure_def entry_state_def)
    ultimately show "case decode_nibble cap nib st of Some st' \<Rightarrow> dec_inv cap (P @ bs) st' | None \<Rightarrow> dec_failed cap (P @ bs)"
      using p(1) by (auto simp: dec_failed_def)
  qed
qed

lemma byte_nibbles: "msb_bits b 8 = msb_bits (drop_bit 4 b) 4 @ msb_bits (b AND 0x0F) 4" for b :: byte
proof (rule nth_equalityI)
  fix i assume "i < length (msb_bits b 8)"
  then have i: "i < 8" by simp
  have m: "bit (0x0F :: byte) k = (k < 4)" for k
    using bit_mask_iff [where 'a = byte, of 4 k] by (auto simp: mask_eq_exp_minus_1)
  show "msb_bits b 8 ! i = (msb_bits (drop_bit 4 b) 4 @ msb_bits (b AND 0x0F) 4) ! i"
    using i m [of "7 - i"] by (cases "i < 4") (auto simp: nth_append bit_drop_bit_eq bit_and_iff)
qed simp

lemma nibble_bounds: "unat (drop_bit 4 b) < 16" "unat (b AND 0x0F) < 16" for b :: byte
  using byte_less_256 [of b] unat_and_low [of "0x0F :: byte" 4 b]
  by (simp_all add: unat_drop_bit_div less_mult_imp_div_less)

lemma dec_failed_append: "dec_failed cap P \<Longrightarrow> dec_failed cap (P @ Q)"
  unfolding dec_failed_def by (metis append.assoc)

lemma decode_loop_inv:
  assumes "dec_inv cap P st"
  shows "case decode_loop cap bs st of Some st' \<Rightarrow> dec_inv cap (P @ stream_bits bs) st' | None \<Rightarrow> dec_failed cap (P @ stream_bits bs)"
  using assms
proof (induction bs arbitrary: P st)
  case (Cons b bs)
  note n1 = decode_nibble_inv [OF Cons.prems nibble_bounds(1) [of b]]
  show ?case
  proof (cases "decode_nibble cap (drop_bit 4 b) st")
    case None
    then show ?thesis
      using n1 dec_failed_append [of cap "P @ msb_bits (drop_bit 4 b) 4" "msb_bits (b AND 0x0F) 4 @ stream_bits bs"]
      by (simp add: byte_nibbles)
  next
    case (Some st1)
    note n2 = decode_nibble_inv [of cap "P @ msb_bits (drop_bit 4 b) 4" st1, OF _ nibble_bounds(2) [of b]]
    show ?thesis
    proof (cases "decode_nibble cap (b AND 0x0F) st1")
      case None
      then show ?thesis using n1 n2 Some dec_failed_append [of cap "P @ msb_bits b 8" "stream_bits bs"] by (simp add: byte_nibbles)
    next
      case (Some st2)
      then show ?thesis
        using n1 n2 \<open>decode_nibble cap (drop_bit 4 b) st = Some st1\<close> Cons.IH [of "P @ msb_bits b 8" st2]
        by (cases "decode_loop cap bs st2") (simp_all add: byte_nibbles [symmetric])
    qed
  qed
qed simp

lemma ones_stuck: "k < 8 \<Longrightarrow> stuck (replicate k True)"
  using ones_follow node_stuck by blast

text \<open>What a byte string decodes to, by definition of the code.\<close>

definition huffman_spec :: "byte list \<Rightarrow> byte list \<Rightarrow> bool" where
  "huffman_spec input s \<longleftrightarrow> (\<exists>k<8. stream_bits input = codes s @ replicate k True)"

lemma huffman_spec_unique: "huffman_spec input s \<Longrightarrow> huffman_spec input t \<Longrightarrow> s = t"
  unfolding huffman_spec_def using codes_unique ones_stuck by metis

lemma huffman_decode_iff:
  "huffman_decode input cap = Some s \<longleftrightarrow> input \<noteq> [] \<and> length s \<le> cap \<and> huffman_spec input s"
proof (cases "input = []")
  case False
  have "dec_inv cap [] (0x4000, [])" by (auto simp: dec_inv_def huff_tree_def)
  note run = decode_loop_inv [OF this, of input]
  show ?thesis
  proof (cases "decode_loop cap input (0x4000, [])")
    case None
    then obtain out x where o: "stream_bits input = codes out @ x" "cap < length out \<or> (\<exists>y. x = eos @ y)"
      using run by (auto simp: dec_failed_def)
    have "\<not> (length s \<le> cap \<and> huffman_spec input s)"
    proof
      assume a: "length s \<le> cap \<and> huffman_spec input s"
      then obtain k where k: "k < 8" "codes out @ x = codes s @ replicate k True" using o by (auto simp: huffman_spec_def)
      then obtain s3 where s3: "s = out @ s3" "x = codes s3 @ replicate k True" using codes_prefix ones_stuck by blast
      then obtain y where "x = eos @ y" using o(2) a by auto
      then have "s3 = [] \<and> eos @ y = replicate k True"
        using codes_unique [of "[]" "eos @ y" s3 "replicate k True"] s3(2) eos_stuck ones_stuck k by auto
      then have "length (eos @ y) = k" by simp
      then show False using k by (simp add: eos_def)
    qed
    then show ?thesis using None False by (simp add: huffman_decode_def)
  next
    case (Some st)
    obtain state out where st: "st = (state, out)" by (cases st)
    obtain p l r where p: "stream_bits input = codes out @ p" "follow huff_tree p = Some (Node (unat (state AND 0x1FF)) l r)"
      "length out \<le> cap" "state AND 0x4000 \<noteq> 0 \<longleftrightarrow> (\<exists>k<8. p = replicate k True)"
      using run Some by (auto simp: dec_inv_def st)
    have d: "huffman_decode input cap = (if state AND 0x4000 = 0 then None else Some out)"
      using False Some st by (simp add: huffman_decode_def)
    have u: "huffman_spec input s \<longleftrightarrow> out = s \<and> state AND 0x4000 \<noteq> 0"
      using p codes_unique [of out p s] node_stuck [OF p(2)] ones_stuck by (auto simp: huffman_spec_def)
    then show ?thesis using d p(3) False by auto
  qed
qed (simp add: huffman_decode_def)

section \<open>The encoder\<close>

definition entry_ok :: "code_entry \<Rightarrow> bool" where
  "entry_ok c \<longleftrightarrow> unat (fst c) < 2 ^ unat (snd c) \<and> 5 \<le> unat (snd c) \<and> unat (snd c) \<le> 30"

lemma table_entries_ok: "list_all entry_ok huffman_encode_table"
  by (simp add: entry_ok_def huffman_encode_table_def)

lemma table_entry_ok: "entry_ok (huffman_encode_table ! unat (s :: byte))"
  using table_entries_ok byte_less_256 [of s] by (simp only: list_all_length huffman_encode_table_length)

lemma high_bit_clear: "unat (w :: 'a::len word) < 2 ^ k \<Longrightarrow> k \<le> i \<Longrightarrow> \<not> bit w i"
proof -
  assume "unat w < 2 ^ k" "k \<le> i"
  then have "unat w < 2 ^ i" using power_increasing [of k i "2 :: nat"] by linarith
  then have "\<not> bit (unat w) i" by (simp add: bit_iff_odd)
  then show ?thesis by (auto simp: bit_unsigned_iff dest: bit_imp_le_length)
qed

lemma msb_bits_shift_in:
  assumes "n + k \<le> 64" "unat c < 2 ^ k"
  shows "msb_bits (push_bit k (bits :: u64) OR ucast (c :: u32)) (n + k) = msb_bits bits n @ msb_bits c k"
proof (rule nth_equalityI)
  fix i assume "i < length (msb_bits (push_bit k bits OR ucast c) (n + k))"
  then have i: "i < n + k" by simp
  show "msb_bits (push_bit k bits OR ucast c) (n + k) ! i = (msb_bits bits n @ msb_bits c k) ! i"
  proof (cases "i < n")
    case True
    then have "\<not> bit c (n + k - Suc i)" by (intro high_bit_clear [OF assms(2)]) simp
    moreover have "k \<le> n + k - Suc i" "n + k - Suc i < 64" using True assms(1) by auto
    ultimately show ?thesis using True by (simp add: nth_append bit_or_iff bit_push_bit_iff bit_ucast_iff)
  next
    case False
    then have "\<not> k \<le> n + k - Suc i" "n + k - Suc i < 64" "n + k - Suc i = k + n - Suc i" using i assms(1) by auto
    then show ?thesis using False i by (simp add: nth_append bit_or_iff bit_push_bit_iff bit_ucast_iff)
  qed
qed simp

lemma bit_low_byte: "bit (ucast ((w :: u64) AND 0xFF) :: byte) i \<longleftrightarrow> i < 8 \<and> bit w i"
proof -
  have "bit (0xFF :: u64) i \<longleftrightarrow> i < 8" using bit_mask_iff [where 'a = u64, of 8 i] by (auto simp: mask_eq_exp_minus_1)
  then show ?thesis by (auto simp: bit_ucast_iff bit_and_iff)
qed

lemma flush_bytes_bits:
  assumes "n \<le> 64" "flush_bytes bits n out = (n', out')"
  shows "n' = n mod 8" "stream_bits out' @ msb_bits bits n' = stream_bits out @ msb_bits bits n"
  using assms
proof (induction bits n out rule: flush_bytes.induct)
  case (1 bits n out)
  {
    case 1
    then show ?case using "1.IH"(1) by (cases "n \<ge> 8") (auto simp: flush_bytes.simps [of bits n] le_mod_geq)
  next
    case 2
    have "msb_bits bits n = msb_bits (ucast (drop_bit (n - 8) bits AND 0xFF) :: byte) 8 @ msb_bits bits (n - 8)" if "n \<ge> 8"
      using that by (intro nth_equalityI) (auto simp: nth_append bit_low_byte bit_drop_bit_eq)
    then show ?case using 2 "1.IH"(2) by (cases "n \<ge> 8") (auto simp: flush_bytes.simps [of bits n])
  }
qed

lemma encode_loop_bits:
  assumes "n < 8" "encode_loop huffman_encode_table input bits n out = (bits', n', out')"
  shows "n' < 8 \<and> stream_bits out' @ msb_bits bits' n' = stream_bits out @ msb_bits bits n @ codes input"
  using assms
proof (induction huffman_encode_table input bits n out rule: encode_loop.induct)
  case (2 s input bits n out)
  define k c where "k = code_nbits s" and "c = fst (huffman_encode_table ! unat s)"
  define b where "b = push_bit k bits OR ucast c"
  obtain n1 out1 where f: "flush_bytes b (n + k) out = (n1, out1)" by (cases "flush_bytes b (n + k) out")
  have ok: "unat c < 2 ^ k" "n + k \<le> 64" using table_entry_ok [of s] 2(2) by (simp_all add: entry_ok_def k_def c_def code_nbits_def)
  have "msb_bits b (n + k) = msb_bits bits n @ code_of s"
    using msb_bits_shift_in [OF ok(2,1), of bits] by (simp add: b_def code_of_def c_def k_def)
  moreover have "encode_loop huffman_encode_table input b n1 out1 = (bits', n', out')"
    using 2(3) f by (simp add: Let_def b_def k_def c_def code_nbits_def)
  ultimately show ?case
    using flush_bytes_bits [OF ok(2) f] 2(1) [of c k b "(n1, out1)" n1 out1] f by (simp add: b_def k_def c_def code_nbits_def)
qed simp

lemma pad_last_bits:
  assumes "n < 8"
  shows "\<exists>k<8. stream_bits (pad_last (bits, n, out)) = stream_bits out @ msb_bits bits n @ replicate k True"
proof (cases "n = 0")
  case False
  have m: "bit (push_bit (8 - n) 1 - 1 :: u64) i \<longleftrightarrow> i < 8 - n" for i
    using bit_mask_iff [where 'a = u64, of "8 - n" i] False by (auto simp: mask_eq_exp_minus_1 push_bit_eq_mult)
  have "msb_bits (ucast ((push_bit (8 - n) bits OR (push_bit (8 - n) 1 - 1)) AND 0xFF) :: byte) 8 = msb_bits bits n @ replicate (8 - n) True"
  proof (rule nth_equalityI)
    fix i assume "i < length (msb_bits (ucast ((push_bit (8 - n) bits OR (push_bit (8 - n) 1 - 1)) AND 0xFF) :: byte) 8)"
    then have i: "i < 8" by simp
    then show "msb_bits (ucast ((push_bit (8 - n) bits OR (push_bit (8 - n) 1 - 1)) AND 0xFF) :: byte) 8 ! i = (msb_bits bits n @ replicate (8 - n) True) ! i"
      using assms by (cases "i < n") (auto simp: nth_append bit_low_byte bit_or_iff m bit_push_bit_iff simp del: push_bit_of_1)
  qed (use assms in simp)
  then show ?thesis using False assms by (intro exI [of _ "8 - n"]) (simp add: pad_last_def)
qed (simp add: pad_last_def)

lemma huffman_encode_spec:
  "huffman_encode s cap = (if s = [] \<or> encoded_size s > cap then None else Some (pad_last (encode_loop huffman_encode_table s 0 0 [])))"
  "huffman_spec (pad_last (encode_loop huffman_encode_table s 0 0 [])) s"
  "length (pad_last (encode_loop huffman_encode_table s 0 0 [])) = encoded_size s"
proof -
  show "huffman_encode s cap = (if s = [] \<or> encoded_size s > cap then None else Some (pad_last (encode_loop huffman_encode_table s 0 0 [])))"
    by (simp add: huffman_encode_def)
  obtain b n o1 where e: "encode_loop huffman_encode_table s 0 0 [] = (b, n, o1)" by (cases "encode_loop huffman_encode_table s 0 0 []")
  have l: "n < 8" "stream_bits o1 @ msb_bits b n = codes s" using encode_loop_bits [OF _ e] by simp_all
  obtain k where k: "k < 8" "stream_bits (pad_last (b, n, o1)) = codes s @ replicate k True"
    using pad_last_bits [OF l(1), of b o1] l(2) by (metis append.assoc)
  then show "huffman_spec (pad_last (encode_loop huffman_encode_table s 0 0 [])) s" by (auto simp: huffman_spec_def e)
  have "8 * length (pad_last (b, n, o1)) = sum_list (map code_nbits s) + k"
    using arg_cong [OF k(2), of length] by (simp add: length_stream_bits length_codes)
  then show "length (pad_last (encode_loop huffman_encode_table s 0 0 [])) = encoded_size s"
    using k(1) by (simp add: e encoded_size_def)
qed

section \<open>Property\<close>

text \<open>
  C4. The table-driven decoder is exact: for every non-empty input it succeeds with the string \<open>s\<close> if and only
  if \<open>s\<close> fits the output and the bits of the input are the codes of the symbols of \<open>s\<close> followed by fewer than
  eight ones. So it refuses every string with the end-of-string symbol, with a cut-off code, with more than
  seven bits of padding or with zeros in the padding, and no input decodes in two ways. What the encoder
  writes is of that form and of the announced size, so it decodes to what was encoded.
\<close>

theorem huffman_automaton_exact:
  "(huffman_decode input cap = Some s \<longleftrightarrow>
      input \<noteq> [] \<and> length s \<le> cap \<and> (\<exists>k<8. stream_bits input = codes s @ replicate k True)) \<and>
   (huffman_encode s cap = None \<longleftrightarrow> s = [] \<or> cap < encoded_size s) \<and>
   (huffman_encode s cap = Some output \<longrightarrow> length output = encoded_size s \<and> huffman_decode output (length s) = Some s)"
proof (intro conjI impI)
  show "huffman_decode input cap = Some s \<longleftrightarrow>
      input \<noteq> [] \<and> length s \<le> cap \<and> (\<exists>k<8. stream_bits input = codes s @ replicate k True)"
    using huffman_decode_iff by (simp add: huffman_spec_def)
  show "huffman_encode s cap = None \<longleftrightarrow> s = [] \<or> cap < encoded_size s" by (simp add: huffman_encode_spec(1))
  assume "huffman_encode s cap = Some output"
  then have o: "output = pad_last (encode_loop huffman_encode_table s 0 0 [])" "s \<noteq> []" by (auto simp: huffman_encode_spec(1) split: if_splits)
  show l: "length output = encoded_size s" using huffman_encode_spec(3) o by simp
  have sp: "huffman_spec output s" using huffman_encode_spec(2) o by simp
  have "output \<noteq> []"
  proof
    assume "output = []"
    then have "codes s = []" using sp by (auto simp: huffman_spec_def)
    moreover have "code_of (hd s) \<noteq> []" using table_entry_ok [of "hd s"] by (auto simp: code_of_def code_nbits_def entry_ok_def simp flip: length_greater_0_conv)
    ultimately show False using o(2) by (cases s) simp_all
  qed
  then show "huffman_decode output (length s) = Some s" using huffman_decode_iff sp by simp
qed

theorem huffman_automaton_exact_witness:
  "huffman_encode [0x61] 8 = Some [0x1F] \<and> huffman_decode [0x1F] 1 = Some [0x61] \<and> huffman_decode [0xFF] 8 \<noteq> Some []"
proof -
  have t: "huffman_encode_table ! 97 = (3, 5)" by (simp add: huffman_encode_table_def)
  have e: "huffman_encode [0x61] 8 = Some [0x1F]"
    by (simp add: huffman_encode_def encoded_size_def code_nbits_def t pad_last_def flush_bytes.simps)
  have "stream_bits [0xFF] = replicate 8 True" by (simp add: msb_bits_def) (simp add: numeral_eq_Suc)
  then show ?thesis using e huffman_automaton_exact [of "[0xFF]" 8 "[]"] huffman_automaton_exact [of "[0x1F]" 8 "[0x61]" "[0x1F]"] by auto
qed

end
