(* ===== verification/Hpack.thy ===== *)
theory Hpack
  imports Hpack_Table Huffman_Correct
begin

text \<open>
  The HPACK encoder and decoder (\<^verbatim>\<open>include/boltapi/http/hpack.h\<close>, \<^verbatim>\<open>src/http/hpack.cpp\<close>). An input pointer with a
  length is a byte list; a result \<open>None\<close> is a return code other than 0. The encoder returns the bytes it
  writes; a call that fails leaves the connection's encoder state as it was, and what it wrote before is not
  used.
\<close>

record HPACKHeader =
  name :: "byte list"
  val :: "byte list"
  sensitive :: bool

section \<open>Integers\<close>

definition kMaxIntegerBytes :: nat where "kMaxIntegerBytes = 6"
definition kMaxStringLen :: nat where "kMaxStringLen = 64 * 1024"

fun integer_loop :: "byte list \<Rightarrow> nat \<Rightarrow> u64 \<Rightarrow> (u64 \<times> nat) option" where
  "integer_loop [] i v = None"
| "integer_loop (b # input) i v =
     (if i < kMaxIntegerBytes then
        (let v = v + push_bit (7 * (i - 1)) (ucast (b AND 0x7F))
         in if b AND 0x80 = 0 then Some (v, i + 1) else integer_loop input (i + 1) v)
      else None)"

definition prefix_mask :: "nat \<Rightarrow> byte" where
  "prefix_mask prefix_bits = of_nat (2 ^ prefix_bits - 1)"

definition decode_integer :: "byte list \<Rightarrow> nat \<Rightarrow> (u64 \<times> nat) option" where
  "decode_integer input prefix_bits =
     (if input = [] \<or> prefix_bits < 1 \<or> prefix_bits > 8 then None
      else
        let mask = prefix_mask prefix_bits;
            v = ucast (hd input AND mask) :: u64
        in if v < ucast mask then Some (v, 1) else integer_loop (tl input) 1 v)"

function encode_rest :: "u64 \<Rightarrow> nat \<Rightarrow> nat \<Rightarrow> byte list option" where
  "encode_rest v pos capacity =
     (if v \<ge> 128 then
        (if pos \<ge> capacity then None
         else map_option (\<lambda>out. ucast ((v AND 0x7F) OR 0x80) # out) (encode_rest (drop_bit 7 v) (pos + 1) capacity))
      else if pos \<ge> capacity then None
      else Some [ucast v])"
  by auto
termination
  by (relation "measure (\<lambda>(v, _, _). unat v)") (auto simp: unat_drop_bit_div word_le_nat_alt)

declare encode_rest.simps [simp del]

text \<open>The byte \<open>b0\<close> is what the caller stored at \<^verbatim>\<open>output[0]\<close>; its bits above the prefix are kept.\<close>

definition encode_integer :: "u64 \<Rightarrow> nat \<Rightarrow> byte \<Rightarrow> nat \<Rightarrow> byte list option" where
  "encode_integer v prefix_bits b0 capacity =
     (if capacity = 0 \<or> prefix_bits < 1 \<or> prefix_bits > 8 then None
      else
        let mask = prefix_mask prefix_bits;
            flags = b0 AND NOT mask
        in if v < ucast mask then Some [flags OR ucast v]
           else map_option (\<lambda>out. (flags OR mask) # out) (encode_rest (v - ucast mask) 1 capacity))"

section \<open>Strings and literals\<close>

definition decode_string :: "byte list \<Rightarrow> (byte list \<times> nat) option" where
  "decode_string input =
     (if input = [] then None
      else do {
        (str_len, int_len) \<leftarrow> decode_integer input 7;
        if unat str_len > kMaxStringLen \<or> unat str_len > length input - int_len then None
        else
          let n = unat str_len;
              p = take n (drop int_len input)
          in if hd input AND 0x80 = 0 then Some (p, int_len + n)
             else if n = 0 then Some ([], int_len + n)
             else do { out \<leftarrow> huffman_decode p (n * 8 div 5 + 1); Some (out, int_len + n) }
      })"

definition encode_string :: "byte list \<Rightarrow> nat \<Rightarrow> byte list option" where
  "encode_string str capacity =
     (if capacity = 0 then None
      else
        let huff_len = (if str = [] then 0 else encoded_size str);
            huffman = (str \<noteq> [] \<and> huff_len < length str);
            payload = (if huffman then huff_len else length str)
        in do {
          len_bytes \<leftarrow> encode_integer (of_nat payload) 7 (if huffman then 0x80 else 0x00) capacity;
          if payload > capacity - length len_bytes then None
          else if huffman then do { n \<leftarrow> huffman_encode str payload; Some (len_bytes @ n) }
          else Some (len_bytes @ str)
        })"

section \<open>Decoder\<close>

record HPACKDecoder =
  table :: HPACKDynamicTable
  limit :: nat

definition decoder_new :: "nat \<Rightarrow> HPACKDecoder" where
  "decoder_new max_table_size = \<lparr>table = table_new (min max_table_size kStorageBytes), limit = min max_table_size kStorageBytes\<rparr>"

definition decoder_set_max_table_size :: "nat \<Rightarrow> HPACKDecoder \<Rightarrow> HPACKDecoder" where
  "decoder_set_max_table_size sz d =
     (let d = d\<lparr>limit := min sz kStorageBytes\<rparr>
      in if max_size (table d) > limit d then d\<lparr>table := set_max_size (limit d) (table d)\<rparr> else d)"

definition lookup :: "u64 \<Rightarrow> HPACKDecoder \<Rightarrow> header_field option" where
  "lookup index d =
     (if index = 0 then None
      else if unat index \<le> STATIC_TABLE_SIZE then static_get (unat index)
      else
        let dyn = unat index - STATIC_TABLE_SIZE - 1
        in if dyn \<ge> count (table d) then None else table_get dyn (table d))"

definition decode_literal :: "byte list \<Rightarrow> nat \<Rightarrow> HPACKDecoder \<Rightarrow> (byte list \<times> byte list \<times> nat) option" where
  "decode_literal input prefix_bits d = do {
     (index, pos) \<leftarrow> decode_integer input prefix_bits;
     (nm, pos) \<leftarrow> (if index = 0 then do { (nm, used) \<leftarrow> decode_string (drop pos input); Some (nm, pos + used) }
                 else do { h \<leftarrow> lookup index d; Some (fst h, pos) });
     (v, used) \<leftarrow> decode_string (drop pos input);
     Some (nm, v, pos + used)
   }"

datatype decode_status = kOk | kCompressionError | kTooManyHeaders

record DecodeState =
  dec :: HPACKDecoder
  produced :: "HPACKHeader list"
  field_seen :: bool
  too_many :: bool

definition push_header :: "nat \<Rightarrow> HPACKHeader \<Rightarrow> DecodeState \<Rightarrow> DecodeState" where
  "push_header max_headers h st =
     (if length (produced st) \<ge> max_headers then st\<lparr>too_many := True\<rparr> else st\<lparr>produced := produced st @ [h]\<rparr>)"

text \<open>One representation: the bytes used and the state, or a compression error.\<close>

definition decode_field :: "nat \<Rightarrow> byte list \<Rightarrow> DecodeState \<Rightarrow> (nat \<times> DecodeState) option" where
  "decode_field max_headers input st =
     (let b = hd input
      in if b AND 0x80 \<noteq> 0 then do {
           (index, used) \<leftarrow> decode_integer input 7;
           h \<leftarrow> lookup index (dec st);
           Some (used, push_header max_headers \<lparr>name = fst h, val = snd h, sensitive = False\<rparr> (st\<lparr>field_seen := True\<rparr>))
         }
         else if b AND 0xC0 = 0x40 then do {
           (nm, v, used) \<leftarrow> decode_literal input 6 (dec st);
           Some (used, push_header max_headers \<lparr>name = nm, val = v, sensitive = False\<rparr>
             (st\<lparr>field_seen := True, dec := (dec st)\<lparr>table := table_add nm v (table (dec st))\<rparr>\<rparr>))
         }
         else if b AND 0xE0 = 0x20 then
           (if field_seen st then None
            else do {
              (sz, used) \<leftarrow> decode_integer input 5;
              if unat sz > limit (dec st) then None
              else Some (used, st\<lparr>dec := (dec st)\<lparr>table := set_max_size (unat sz) (table (dec st))\<rparr>\<rparr>)
            })
         else do {
           (nm, v, used) \<leftarrow> decode_literal input 4 (dec st);
           Some (used, push_header max_headers \<lparr>name = nm, val = v, sensitive = (b AND 0x10 \<noteq> 0)\<rparr> (st\<lparr>field_seen := True\<rparr>))
         })"

text \<open>
  The loop runs at most once per byte of input. It returns whether it met no error, the position it stopped
  at and the state; an error leaves what the fields before it did.
\<close>

fun decode_fields :: "nat \<Rightarrow> nat \<Rightarrow> byte list \<Rightarrow> nat \<Rightarrow> DecodeState \<Rightarrow> bool \<times> nat \<times> DecodeState" where
  "decode_fields 0 max_headers input pos st = (True, pos, st)"
| "decode_fields (Suc guard) max_headers input pos st =
     (if pos < length input then
        (case decode_field max_headers (drop pos input) st of
           None \<Rightarrow> (False, pos, st)
         | Some (used, st) \<Rightarrow> decode_fields guard max_headers input (pos + used) st)
      else (True, pos, st))"

definition decode_start :: "HPACKDecoder \<Rightarrow> DecodeState" where
  "decode_start d = \<lparr>dec = d, produced = [], field_seen = False, too_many = False\<rparr>"

definition hpack_decode :: "byte list \<Rightarrow> nat \<Rightarrow> HPACKDecoder \<Rightarrow> decode_status \<times> HPACKHeader list \<times> HPACKDecoder" where
  "hpack_decode input max_headers d =
     (case decode_fields (length input) max_headers input 0 (decode_start d) of
        (ok, _, st) \<Rightarrow> (if \<not> ok then kCompressionError else if too_many st then kTooManyHeaders else kOk, produced st, dec st))"

section \<open>Encoder\<close>

record HPACKEncoder =
  table_size :: nat
  pending_min :: nat
  pending_update :: bool

definition encoder_new :: "nat \<Rightarrow> HPACKEncoder" where
  "encoder_new max_table_size =
     \<lparr>table_size = min max_table_size kStorageBytes, pending_min = min max_table_size kStorageBytes, pending_update = False\<rparr>"

definition encoder_set_max_table_size :: "nat \<Rightarrow> HPACKEncoder \<Rightarrow> HPACKEncoder" where
  "encoder_set_max_table_size sz e =
     (if sz \<ge> table_size e then e
      else e\<lparr>table_size := sz, pending_min := (if pending_update e then min (pending_min e) sz else sz), pending_update := True\<rparr>)"

definition encode_update :: "nat \<Rightarrow> nat \<Rightarrow> byte list \<Rightarrow> byte list option" where
  "encode_update sz output_capacity out =
     (if length out \<ge> output_capacity then None
      else do { n \<leftarrow> encode_integer (of_nat sz) 5 0x20 (output_capacity - length out); Some (out @ n) })"

definition encode_updates :: "HPACKEncoder \<Rightarrow> nat \<Rightarrow> byte list option" where
  "encode_updates e output_capacity =
     (if pending_update e then do {
        out \<leftarrow> encode_update (pending_min e) output_capacity [];
        if table_size e = pending_min e then Some out else encode_update (table_size e) output_capacity out
      } else Some [])"

definition encode_field :: "HPACKHeader \<Rightarrow> nat \<Rightarrow> byte list \<Rightarrow> byte list option" where
  "encode_field h output_capacity out =
     (if length out \<ge> output_capacity then None
      else
        let full = (if sensitive h then 0 else static_find (name h) (val h))
        in if full \<noteq> 0 then do { n \<leftarrow> encode_integer (of_nat full) 7 0x80 (output_capacity - length out); Some (out @ n) }
           else
             let name_idx = static_find_name (name h)
             in do {
               n \<leftarrow> encode_integer (of_nat name_idx) 4 (if sensitive h then 0x10 else 0x00) (output_capacity - length out);
               out \<leftarrow> Some (out @ n);
               out \<leftarrow> (if name_idx = 0 then do { n \<leftarrow> encode_string (name h) (output_capacity - length out); Some (out @ n) } else Some out);
               n \<leftarrow> encode_string (val h) (output_capacity - length out);
               Some (out @ n)
             })"

fun encode_fields :: "HPACKHeader list \<Rightarrow> nat \<Rightarrow> byte list \<Rightarrow> byte list option" where
  "encode_fields [] output_capacity out = Some out"
| "encode_fields (h # hs) output_capacity out = do { out \<leftarrow> encode_field h output_capacity out; encode_fields hs output_capacity out }"

definition hpack_encode :: "HPACKHeader list \<Rightarrow> nat \<Rightarrow> HPACKEncoder \<Rightarrow> (byte list \<times> HPACKEncoder) option" where
  "hpack_encode hs output_capacity e = do {
     out \<leftarrow> encode_updates e output_capacity;
     out \<leftarrow> encode_fields hs output_capacity out;
     Some (out, e\<lparr>pending_update := False\<rparr>)
   }"

section \<open>Integers read back\<close>

lemma integer_loop_rest:
  assumes "encode_rest v pos capacity = Some out" "1 \<le> i" "i \<le> 5" "unat v < 128 ^ (6 - i)" "unat x + unat v * 128 ^ (i - 1) < 2 ^ 64"
  shows "integer_loop (out @ tail) i x = Some (x + of_nat (unat v * 128 ^ (i - 1)), i + length out)"
  using assms
proof (induction v pos capacity arbitrary: out i x rule: encode_rest.induct)
  case (1 v pos capacity)
  show ?case
  proof (cases "v \<ge> 128")
    case True
    define b where "b = (ucast ((v AND 0x7F) OR 0x80) :: byte)"
    note b = continuation_byte [of v, folded b_def]
    obtain out' where o: "encode_rest (drop_bit 7 v) (pos + 1) capacity = Some out'" "out = b # out'" "\<not> capacity \<le> pos"
      using 1(2) True by (auto simp: encode_rest.simps [of v] b_def split: if_splits)
    have d: "unat (drop_bit 7 v) = unat v div 128" by (simp add: unat_drop_bit_div)
    have v: "unat v = unat v mod 128 + 128 * (unat v div 128)" by simp
    have pw: "(128 :: nat) ^ i = 128 * 128 ^ (i - 1)" using 1(3) by (cases i) auto
    have big: "128 \<le> unat v" using True by (simp add: word_le_nat_alt)
    have i4: "i \<le> 4"
    proof (rule ccontr)
      assume "\<not> i \<le> 4"
      then have "i = 5" using 1(4) by simp
      then show False using 1(5) big by simp
    qed
    have split: "unat v * 128 ^ (i - 1) = unat v mod 128 * 128 ^ (i - 1) + unat v div 128 * 128 ^ i"
    proof -
      define m d where "m = unat v mod 128" and "d = unat v div 128"
      have "unat v * 128 ^ (i - 1) = (m + 128 * d) * 128 ^ (i - 1)" by (simp only: v [symmetric] m_def d_def)
      then show ?thesis unfolding pw m_def [symmetric] d_def [symmetric] by (simp add: algebra_simps)
    qed
    define x' where "x' = x + push_bit (7 * (i - 1)) (ucast (b AND 0x7F) :: u64)"
    have ux: "unat x' = unat x + unat v mod 128 * 128 ^ (i - 1)"
      unfolding x'_def using unat_shifted [of x "b AND 0x7F" "i - 1"] b(1) 1(6) split by simp
    have "unat (drop_bit 7 v) < 128 ^ (6 - (i + 1))"
    proof -
      have "6 - i = Suc (6 - (i + 1))" using i4 by simp
      then show ?thesis using 1(5) d by (simp add: less_mult_imp_div_less mult.commute)
    qed
    then have "integer_loop (out' @ tail) (i + 1) x' = Some (x' + of_nat (unat (drop_bit 7 v) * 128 ^ (i + 1 - 1)), i + 1 + length out')"
      using 1(6) split ux d i4 o(1) by (intro 1(1)) (auto simp: True o(3))
    moreover have "x' + of_nat (unat (drop_bit 7 v) * 128 ^ i) = x + of_nat (unat v * 128 ^ (i - 1))"
    proof (rule word_eq_of_unat)
      define A B :: u64 where "A = of_nat (unat (drop_bit 7 v) * 128 ^ i)" and "B = of_nat (unat v * 128 ^ (i - 1))"
      have a: "unat A = unat v div 128 * 128 ^ i" using 1(6) split by (simp add: A_def d unat_of_nat del: of_nat_mult of_nat_power)
      have c: "unat B = unat v * 128 ^ (i - 1)" using 1(6) by (simp add: B_def unat_of_nat del: of_nat_mult of_nat_power)
      have "unat (x' + A) = unat x' + unat A" by (rule unat_add_small) (use a ux 1(6) split in simp)
      moreover have "unat (x + B) = unat x + unat B" by (rule unat_add_small) (use c 1(6) in simp)
      ultimately show "unat (x' + of_nat (unat (drop_bit 7 v) * 128 ^ i)) = unat (x + of_nat (unat v * 128 ^ (i - 1)))"
        unfolding A_def [symmetric] B_def [symmetric] using a c ux split by simp
    qed
    ultimately show ?thesis using b(2) o(2) 1(4) by (simp add: kMaxIntegerBytes_def Let_def x'_def)
  next
    case False
    then have l: "unat v < 128" by (simp add: word_le_nat_alt)
    then have "out = [ucast v]" using 1(2) False by (auto simp: encode_rest.simps [of v] split: if_splits)
    moreover have u: "unat (ucast v :: byte) = unat v" using l by (simp add: unat_ucast_mod)
    moreover have "ucast (ucast v AND 0x7F :: byte) = v" by (rule word_eq_of_unat) (use u l in \<open>simp add: unat_ucast_byte_u64 unat_byte_7F\<close>)
    moreover have "push_bit (7 * (i - 1)) v = of_nat (unat v * 128 ^ (i - 1))"
      by (rule word_eq_of_unat) (simp add: unat_push_bit_mod unat_of_nat power_mult del: of_nat_mult of_nat_power)
    ultimately show ?thesis using 1(4) l by (simp add: kMaxIntegerBytes_def Let_def byte_bit7)
  qed
qed

lemma unat_prefix_mask: "1 \<le> p \<Longrightarrow> p \<le> 8 \<Longrightarrow> unat (prefix_mask p) = 2 ^ p - 1"
proof -
  assume "1 \<le> p" "p \<le> 8"
  then have "(2 :: nat) ^ p \<le> 2 ^ 8" by (intro power_increasing) auto
  then show ?thesis by (simp add: prefix_mask_def del: of_nat_diff of_nat_power)
qed

text \<open>Any value below 2 to the 35 is read back; the caller's flag bits are kept.\<close>

lemma integer_roundtrip:
  assumes "encode_integer v p b0 capacity = Some out" "unat v < 2 ^ 35"
  shows "decode_integer (out @ tail) p = Some (v, length out) \<and> out \<noteq> [] \<and> hd out AND NOT (prefix_mask p) = b0 AND NOT (prefix_mask p)"
proof -
  let ?m = "prefix_mask p"
  have p: "1 \<le> p" "p \<le> 8" using assms(1) by (auto simp: encode_integer_def split: if_splits)
  note um = unat_prefix_mask [OF p]
  show ?thesis
  proof (cases "v < ucast ?m")
    case True
    then have l: "unat v < 2 ^ p - 1" using um by (simp add: word_less_nat_alt)
    moreover have "(2 :: nat) ^ p \<le> 2 ^ 8" using p by (intro power_increasing) auto
    ultimately have u: "unat (ucast v :: byte) = unat v" by (simp add: unat_ucast_mod)
    have "(ucast v :: byte) AND ?m = ucast v"
      by (rule word_eq_of_unat) (use unat_and_low [OF um, of "ucast v"] u l in simp)
    note fb = first_byte [OF this, of b0]
    have o: "out = [(b0 AND NOT ?m) OR ucast v]" using assms(1) True by (auto simp: encode_integer_def Let_def split: if_splits)
    have "ucast (ucast v :: byte) = v" by (rule word_eq_of_unat) (simp add: u)
    then show ?thesis using o fb p True by (simp add: decode_integer_def Let_def)
  next
    case False
    then obtain out' where o: "encode_rest (v - ucast ?m) 1 capacity = Some out'" "out = ((b0 AND NOT ?m) OR ?m) # out'"
      using assms(1) by (auto simp: encode_integer_def Let_def split: if_splits)
    note fb = first_byte [of ?m ?m b0]
    have le: "ucast ?m \<le> v" using False by simp
    have d: "unat (v - ucast ?m) = unat v - unat ?m" using unat_sub_small [OF le] by simp
    have vm: "unat ?m \<le> unat v" using le by (simp add: word_le_nat_alt)
    have "integer_loop (out' @ tail) 1 (ucast ?m) = Some (ucast ?m + of_nat (unat (v - ucast ?m) * 128 ^ (1 - 1)), 1 + length out')"
      by (rule integer_loop_rest [OF o(1)]) (use assms(2) d vm u64_less [of v] in auto)
    moreover have "ucast ?m + of_nat (unat (v - ucast ?m) * 128 ^ (1 - 1)) = v" by simp
    ultimately show ?thesis using fb o p by (simp add: decode_integer_def Let_def)
  qed
qed

section \<open>Strings read back\<close>

lemma huffman_capacity: "huffman_spec p s \<Longrightarrow> length s \<le> length p * 8 div 5"
proof -
  assume "huffman_spec p s"
  then obtain k where "8 * length p = sum_list (map code_nbits s) + k" by (auto simp: huffman_spec_def length_codes simp flip: length_stream_bits)
  moreover have "length s * 5 \<le> sum_list (map code_nbits s)"
  proof (induction s)
    case (Cons a s)
    then show ?case using table_entry_ok [of a] by (simp add: entry_ok_def code_nbits_def)
  qed simp
  ultimately show ?thesis by (simp add: less_eq_div_iff_mult_less_eq)
qed

lemma encoded_size_pos: "s \<noteq> [] \<Longrightarrow> 0 < encoded_size s"
proof (cases s)
  case (Cons a s')
  then show ?thesis using table_entry_ok [of a] by (simp add: encoded_size_def entry_ok_def code_nbits_def div_greater_zero_iff)
qed simp

lemma string_roundtrip:
  assumes "encode_string s capacity = Some out" "length s \<le> kMaxStringLen"
  shows "decode_string (out @ tail) = Some (s, length out) \<and> out \<noteq> []"
proof -
  define huffman payload where "huffman = (s \<noteq> [] \<and> encoded_size s < length s)" and "payload = (if huffman then encoded_size s else length s)"
  obtain len_bytes body where o: "out = len_bytes @ body"
    "encode_integer (of_nat payload) 7 (if huffman then 0x80 else 0x00) capacity = Some len_bytes"
    "if huffman then huffman_encode s payload = Some body else body = s"
    using assms(1) by (auto simp: encode_string_def Let_def huffman_def payload_def bind_eq_Some_conv split: if_splits)
  have pl: "payload \<le> 65536" using assms(2) by (simp add: payload_def huffman_def kMaxStringLen_def)
  then have up: "unat (of_nat payload :: u64) = payload" by (simp add: unat_of_nat)
  have "unat (of_nat payload :: u64) < 2 ^ 35" using pl up by simp
  note i = integer_roundtrip [OF o(2) this, of "body @ tail"]
  have m: "NOT (prefix_mask 7) = (0x80 :: byte)" by (simp add: prefix_mask_def)
  have h: "hd out = hd len_bytes" "out \<noteq> []" using i o(1) by auto
  have flag: "hd out AND 0x80 = (if huffman then 0x80 else 0)" using i m h by simp
  show ?thesis
  proof (cases huffman)
    case True
    then have "huffman_encode s payload = Some body" using o(3) by simp
    then have b: "huffman_spec body s" "length body = payload" "payload \<noteq> 0"
      using huffman_encode_spec [of s] True by (auto simp: payload_def huffman_def encoded_size_pos split: if_splits)
    then have "huffman_decode body (payload * 8 div 5 + 1) = Some s"
      using huffman_capacity [OF b(1)] by (auto simp: huffman_decode_iff)
    then show ?thesis
      using i h flag True b up pl o(1) by (simp add: decode_string_def Let_def kMaxStringLen_def)
  next
    case False
    then have "body = s" "payload = length s" using o(3) by (simp_all add: payload_def)
    then show ?thesis using i h flag False up pl o(1) by (simp add: decode_string_def Let_def kMaxStringLen_def)
  qed
qed

section \<open>Fields read back\<close>

lemma find_loop_found:
  "find_loop matches xs i \<noteq> 0 \<Longrightarrow>
    i < find_loop matches xs i \<and> find_loop matches xs i \<le> i + length xs \<and> matches (xs ! (find_loop matches xs i - i - 1))"
proof (induction matches xs i rule: find_loop.induct)
  case (2 matches entry rest i)
  show ?case
  proof (cases "matches entry")
    case False
    then have "find_loop matches rest (i + 1) \<noteq> 0" using 2(2) by simp
    then show ?thesis using 2(1) False by (simp add: nth_Cons' Suc_diff_Suc)
  qed simp
qed simp

lemma static_size: "STATIC_TABLE_SIZE = 61"
  by (simp add: STATIC_TABLE_SIZE_def STATIC_TABLE_def)

lemma static_find_get: "static_find n v \<noteq> 0 \<Longrightarrow> static_get (static_find n v) = Some (n, v) \<and> static_find n v \<le> 61"
  using find_loop_found [of "\<lambda>e. n = bytes_of (fst e) \<and> v = bytes_of (snd e)" STATIC_TABLE 0]
  by (auto simp: static_find_def static_get_def STATIC_TABLE_SIZE_def static_size [unfolded STATIC_TABLE_SIZE_def] Let_def)

lemma static_find_name_get: "static_find_name n \<noteq> 0 \<Longrightarrow> (\<exists>v. static_get (static_find_name n) = Some (n, v)) \<and> static_find_name n \<le> 61"
  using find_loop_found [of "\<lambda>e. n = bytes_of (fst e)" STATIC_TABLE 0]
  by (auto simp: static_find_name_def static_get_def STATIC_TABLE_SIZE_def static_size [unfolded STATIC_TABLE_SIZE_def] Let_def)

lemma lookup_static:
  assumes "k \<noteq> 0" "k \<le> 61"
  shows "lookup (of_nat k) d = static_get k"
proof -
  have "unat (of_nat k :: u64) = k" using assms by (simp add: unat_of_nat)
  moreover from this have "(of_nat k :: u64) \<noteq> 0" using assms(1) by (metis unat_0)
  ultimately show ?thesis using assms by (simp add: lookup_def static_size)
qed

text \<open>The strings of a header fit the decoder's limit.\<close>

definition header_fits :: "HPACKHeader \<Rightarrow> bool" where
  "header_fits h \<longleftrightarrow> length (name h) \<le> kMaxStringLen \<and> length (val h) \<le> kMaxStringLen"

lemma first_byte_bits:
  "NOT (prefix_mask 7) = (0x80 :: byte)" "NOT (prefix_mask 4) = (0xF0 :: byte)" "NOT (prefix_mask 5) = (0xE0 :: byte)"
  by (simp_all add: prefix_mask_def)

lemma high_nibble:
  assumes "b AND 0xF0 = (f :: byte)" "f \<in> {0x00, 0x10}"
  shows "b AND 0x80 = 0" "b AND 0xC0 \<noteq> 0x40" "b AND 0xE0 \<noteq> 0x20" "b AND 0x10 = f"
proof -
  have e: "b AND m = (b AND 0xF0) AND m" if "0xF0 AND m = m" for m :: byte using that by (simp add: and.assoc)
  show "b AND 0x80 = 0" "b AND 0xC0 \<noteq> 0x40" "b AND 0xE0 \<noteq> 0x20" "b AND 0x10 = f"
    using assms e [of "0x80"] e [of "0xC0"] e [of "0xE0"] e [of "0x10"] by auto
qed

lemma decode_encoded_field:
  assumes "encode_field h capacity out = Some out'" "header_fits h"
  shows "\<exists>enc. out' = out @ enc \<and> enc \<noteq> [] \<and>
    (\<forall>tail st. decode_field mh (enc @ tail) st = Some (length enc, push_header mh h (st\<lparr>field_seen := True\<rparr>)))"
proof (cases "(if sensitive h then 0 else static_find (name h) (val h)) = 0")
  case False
  define k where "k = static_find (name h) (val h)"
  have k: "k \<noteq> 0" "\<not> sensitive h" "static_get k = Some (name h, val h)" "k \<le> 61"
    using False static_find_get [of "name h" "val h"] by (auto simp: k_def split: if_splits)
  obtain enc where o: "encode_integer (of_nat k) 7 0x80 (capacity - length out) = Some enc" "out' = out @ enc"
    using assms(1) k by (auto simp: encode_field_def Let_def k_def bind_eq_Some_conv split: if_splits)
  have "unat (of_nat k :: u64) < 2 ^ 35" using k by (simp add: unat_of_nat)
  note i = integer_roundtrip [OF o(1) this]
  have "hd (enc @ tail) AND 0x80 \<noteq> 0" for tail using i [of tail] by (simp add: first_byte_bits)
  moreover have "push_header mh \<lparr>name = name h, val = val h, sensitive = False\<rparr> = push_header mh h" using k(2) by (cases h) simp
  ultimately show ?thesis using o i k lookup_static [of k] by (auto simp: decode_field_def Let_def)
next
  case True
  define k where "k = static_find_name (name h)"
  define f :: byte where "f = (if sensitive h then 0x10 else 0x00)"
  obtain n1 n2 n3 where o: "encode_integer (of_nat k) 4 f (capacity - length out) = Some n1"
    "if k = 0 then encode_string (name h) (capacity - length (out @ n1)) = Some n2 else n2 = []"
    "encode_string (val h) (capacity - length (out @ n1 @ n2)) = Some n3" "out' = out @ n1 @ n2 @ n3"
    using assms(1) True by (auto simp: encode_field_def Let_def k_def f_def bind_eq_Some_conv split: if_splits)
  have k: "k \<le> 61" "k \<noteq> 0 \<longrightarrow> (\<exists>v. static_get k = Some (name h, v))" using static_find_name_get [of "name h"] by (cases "k = 0"; simp add: k_def)+
  have u: "unat (of_nat k :: u64) = k" using k by (simp add: unat_of_nat)
  then have "unat (of_nat k :: u64) < 2 ^ 35" using k by simp
  note i = integer_roundtrip [OF o(1) this]
  have z: "(of_nat k :: u64) = 0 \<longleftrightarrow> k = 0" using u by (simp only: word_unat_eq_iff unat_0)
  note s3 = string_roundtrip [OF o(3)]
  have lit: "decode_literal (n1 @ n2 @ n3 @ tail) 4 d = Some (name h, val h, length n1 + length n2 + length n3)" for tail d
  proof (cases "k = 0")
    case True
    then have "decode_string (n2 @ n3 @ tail) = Some (name h, length n2)" using o(2) string_roundtrip [of "name h" _ n2] assms(2) by (simp add: header_fits_def)
    then show ?thesis using i [of "n2 @ n3 @ tail"] s3 [of tail] z True assms(2) by (simp add: decode_literal_def header_fits_def)
  next
    case False
    then obtain v where "lookup (of_nat k) d = Some (name h, v)" using k lookup_static [of k d] by auto
    then show ?thesis using i [of "n2 @ n3 @ tail"] s3 [of tail] z False o(2) assms(2) by (simp add: decode_literal_def header_fits_def)
  qed
  have hd: "hd (n1 @ n2 @ n3 @ tail) AND 0xF0 = f" for tail using i [of tail] by (auto simp: first_byte_bits f_def)
  have "decode_field mh (n1 @ n2 @ n3 @ tail) st = Some (length (n1 @ n2 @ n3), push_header mh h (st\<lparr>field_seen := True\<rparr>))" for tail st
  proof -
    have b: "f \<in> {0x00, 0x10}" "(f \<noteq> 0) = sensitive h" by (simp_all add: f_def)
    note hn = high_nibble [OF hd b(1), of tail]
    have "push_header mh \<lparr>name = name h, val = val h, sensitive = sensitive h\<rparr> = push_header mh h" by (cases h) simp
    then show ?thesis using lit hn b(2) unfolding decode_field_def Let_def by simp
  qed
  then show ?thesis using o(4) i by (intro exI [of _ "n1 @ n2 @ n3"]) auto
qed

section \<open>Blocks\<close>

lemma decode_fields_step:
  assumes "decode_field mh (enc @ tail) st = Some (length enc, st')" "enc \<noteq> []" "pos = length pre"
  shows "decode_fields (Suc g) mh (pre @ enc @ tail) pos st = decode_fields g mh (pre @ enc @ tail) (length (pre @ enc)) st'"
  using assms by simp

lemma decode_encoded_fields:
  assumes "encode_fields hs capacity out = Some out'" "list_all header_fits hs"
  shows "\<exists>enc. out' = out @ enc \<and>
    (\<forall>pre st g. length enc \<le> g \<longrightarrow> length (produced st) + length hs \<le> mh \<longrightarrow>
      (\<exists>st'. decode_fields g mh (pre @ enc) (length pre) st = (True, length (pre @ enc), st') \<and>
        produced st' = produced st @ hs \<and> dec st' = dec st \<and> too_many st' = too_many st))"
  using assms
proof (induction hs arbitrary: out)
  case Nil
  have "decode_fields g mh pre (length pre) st = (True, length pre, st)" for g pre st by (cases g) simp_all
  then show ?case using Nil by (intro exI [of _ "[]"]) simp
next
  case (Cons h hs)
  obtain out1 where o: "encode_field h capacity out = Some out1" "encode_fields hs capacity out1 = Some out'"
    using Cons.prems(1) by (auto simp: bind_eq_Some_conv)
  obtain e1 where e1: "out1 = out @ e1" "e1 \<noteq> []"
    "\<And>tail st. decode_field mh (e1 @ tail) st = Some (length e1, push_header mh h (st\<lparr>field_seen := True\<rparr>))"
    using decode_encoded_field [OF o(1), of mh] Cons.prems(2) by auto
  obtain e2 where e2: "out' = out1 @ e2"
    "\<And>pre st g. length e2 \<le> g \<Longrightarrow> length (produced st) + length hs \<le> mh \<Longrightarrow>
      (\<exists>st'. decode_fields g mh (pre @ e2) (length pre) st = (True, length (pre @ e2), st') \<and>
        produced st' = produced st @ hs \<and> dec st' = dec st \<and> too_many st' = too_many st)"
    using Cons.IH [OF o(2)] Cons.prems(2) by auto
  have "\<exists>st'. decode_fields g mh (pre @ e1 @ e2) (length pre) st = (True, length (pre @ e1 @ e2), st') \<and>
      produced st' = produced st @ h # hs \<and> dec st' = dec st \<and> too_many st' = too_many st"
    if g: "length (e1 @ e2) \<le> g" and mh: "length (produced st) + length (h # hs) \<le> mh" for pre st g
  proof -
    obtain g' where g': "g = Suc g'" "length e2 \<le> g'" using g e1(2) by (cases g; cases e1) auto
    define st1 where "st1 = push_header mh h (st\<lparr>field_seen := True\<rparr>)"
    have st1: "produced st1 = produced st @ [h]" "dec st1 = dec st" "too_many st1 = too_many st" using mh by (simp_all add: st1_def push_header_def)
    obtain st' where "decode_fields g' mh ((pre @ e1) @ e2) (length (pre @ e1)) st1 = (True, length ((pre @ e1) @ e2), st')"
      "produced st' = produced st1 @ hs" "dec st' = dec st1" "too_many st' = too_many st1"
      using e2(2) [of g' st1 "pre @ e1"] g' mh st1 by auto
    then show ?thesis using decode_fields_step [OF e1(3) [of e2 st] e1(2) refl, of g' pre] st1 g'(1) by (simp add: st1_def)
  qed
  then show ?case using e1(1) e2(1) by (intro exI [of _ "e1 @ e2"]) auto
qed

lemma decode_update:
  assumes "encode_integer (of_nat sz) 5 0x20 capacity = Some enc" "sz \<le> limit (dec st)" "limit (dec st) \<le> kStorageBytes" "\<not> field_seen st"
  shows "decode_field mh (enc @ tail) st = Some (length enc, st\<lparr>dec := (dec st)\<lparr>table := set_max_size sz (table (dec st))\<rparr>\<rparr>) \<and> enc \<noteq> []"
proof -
  have u: "unat (of_nat sz :: u64) = sz" using assms(2,3) by (simp add: kStorageBytes_def unat_of_nat)
  then have "unat (of_nat sz :: u64) < 2 ^ 35" using assms(2,3) by (simp add: kStorageBytes_def)
  note i = integer_roundtrip [OF assms(1) this, of tail]
  define b where "b = hd (enc @ tail)"
  have b: "b AND 0xE0 = 0x20" using i by (simp add: b_def first_byte_bits)
  have e: "b AND m = (b AND 0xE0) AND m" if "0xE0 AND m = m" for m :: byte using that by (simp add: and.assoc)
  have "b AND 0x80 = 0" "b AND 0xC0 \<noteq> 0x40" using e [of "0x80"] e [of "0xC0"] b by auto
  then show ?thesis using i b assms u unfolding decode_field_def Let_def b_def by simp
qed

text \<open>A decoder in a state the constructor and the operations produce.\<close>

definition decoder_ok :: "HPACKDecoder \<Rightarrow> bool" where
  "decoder_ok d \<longleftrightarrow> table_ok (table d) \<and> max_size (table d) \<le> limit d \<and> limit d \<le> kStorageBytes"

definition encoder_ok :: "HPACKEncoder \<Rightarrow> bool" where
  "encoder_ok e \<longleftrightarrow> table_size e \<le> kStorageBytes \<and> pending_min e = table_size e"

lemma encoder_new_ok: "encoder_ok (encoder_new n)"
  by (simp add: encoder_ok_def encoder_new_def)

lemma encoder_set_max_ok: "encoder_ok e \<Longrightarrow> encoder_ok (encoder_set_max_table_size n e)"
  by (auto simp: encoder_ok_def encoder_set_max_table_size_def)

text \<open>What the decoder's state is after a block of an encoder with a pending size update.\<close>

definition after_update :: "HPACKEncoder \<Rightarrow> HPACKDecoder \<Rightarrow> HPACKDecoder" where
  "after_update e d = (if pending_update e then d\<lparr>table := set_max_size (table_size e) (table d)\<rparr> else d)"

lemma hpack_roundtrip_lemma:
  assumes "hpack_encode hs capacity e = Some (out, e')" "encoder_ok e" "decoder_ok d" "pending_update e \<longrightarrow> table_size e \<le> limit d"
    "list_all header_fits hs" "length hs \<le> mh"
  shows "hpack_decode out mh d = (kOk, hs, after_update e d)"
proof -
  obtain u where u: "encode_updates e capacity = Some u" "encode_fields hs capacity u = Some out"
    using assms(1) by (auto simp: hpack_encode_def bind_eq_Some_conv)
  obtain enc where enc: "out = u @ enc"
    "\<And>pre st g. length enc \<le> g \<Longrightarrow> length (produced st) + length hs \<le> mh \<Longrightarrow>
      (\<exists>st'. decode_fields g mh (pre @ enc) (length pre) st = (True, length (pre @ enc), st') \<and>
        produced st' = produced st @ hs \<and> dec st' = dec st \<and> too_many st' = too_many st)"
    using decode_encoded_fields [OF u(2) assms(5), of mh] by auto
  show ?thesis
  proof (cases "pending_update e")
    case False
    then have "u = []" using u(1) by (simp add: encode_updates_def)
    then show ?thesis
      using enc(2) [of "length out" "decode_start d" "[]"] enc(1) assms(6) False
      by (auto simp: hpack_decode_def decode_start_def after_update_def)
  next
    case True
    have un: "encode_integer (of_nat (table_size e)) 5 0x20 capacity = Some u"
      using u(1) True assms(2) by (auto simp: encode_updates_def encode_update_def encoder_ok_def bind_eq_Some_conv split: if_splits)
    define st1 where "st1 = (decode_start d)\<lparr>dec := after_update e d\<rparr>"
    have f: "decode_field mh (u @ enc) (decode_start d) = Some (length u, st1)" "u \<noteq> []"
      using decode_update [OF un, of "decode_start d"] assms True by (simp_all add: decoder_ok_def decode_start_def st1_def after_update_def)
    obtain g where g: "length out = Suc g" "length enc \<le> g" using f(2) enc(1) by (cases u) auto
    obtain st' where "decode_fields g mh (u @ enc) (length u) st1 = (True, length (u @ enc), st')"
      "produced st' = produced st1 @ hs" "dec st' = dec st1" "too_many st' = too_many st1"
      using enc(2) [of g st1 u] g(2) assms(6) by (auto simp: st1_def decode_start_def)
    moreover have "decode_fields (length out) mh out 0 (decode_start d) = decode_fields g mh (u @ enc) (length u) st1"
      using decode_fields_step [OF f, of 0 "[]" g] g(1) enc(1) by (simp only: append_Nil list.size)
    ultimately show ?thesis by (simp add: hpack_decode_def st1_def decode_start_def)
  qed
qed

section \<open>Every input\<close>

lemma integer_loop_used: "integer_loop input i x = Some (v, n) \<Longrightarrow> i < n \<and> n \<le> i + length input"
  by (induction input i x rule: integer_loop.induct) (fastforce simp: Let_def split: if_splits)+

lemma decode_integer_used: "decode_integer input p = Some (v, n) \<Longrightarrow> 1 \<le> n \<and> n \<le> length input"
  by (cases input) (auto simp: decode_integer_def Let_def split: if_splits dest!: integer_loop_used)

lemma decode_string_used: "decode_string input = Some (s, n) \<Longrightarrow> 1 \<le> n \<and> n \<le> length input"
  by (auto simp: decode_string_def Let_def bind_eq_Some_conv split: if_splits dest!: decode_integer_used)

lemma decode_literal_used: "decode_literal input p d = Some (nm, v, n) \<Longrightarrow> 1 \<le> n \<and> n \<le> length input"
  by (auto simp: decode_literal_def bind_eq_Some_conv split: if_splits dest!: decode_integer_used decode_string_used)

lemma push_header_fields [simp]:
  "dec (push_header mh h st) = dec st" "length (produced st) \<le> mh \<Longrightarrow> length (produced (push_header mh h st)) \<le> mh"
  by (auto simp: push_header_def)

lemma decode_field_ok:
  assumes "decode_field mh input st = Some (n, st')" "decoder_ok (dec st)" "length (produced st) \<le> mh"
  shows "1 \<le> n \<and> n \<le> length input \<and> decoder_ok (dec st') \<and> limit (dec st') = limit (dec st) \<and> length (produced st') \<le> mh"
proof -
  consider "hd input AND 0x80 \<noteq> 0" | "hd input AND 0x80 = 0" "hd input AND 0xC0 = 0x40"
    | "hd input AND 0x80 = 0" "hd input AND 0xC0 \<noteq> 0x40" "hd input AND 0xE0 = 0x20"
    | "hd input AND 0x80 = 0" "hd input AND 0xC0 \<noteq> 0x40" "hd input AND 0xE0 \<noteq> 0x20" by blast
  then show ?thesis
  proof cases
    case 1
    then show ?thesis using assms by (auto simp: decode_field_def Let_def bind_eq_Some_conv dest!: decode_integer_used)
  next
    case 2
    then obtain nm v where l: "decode_literal input 6 (dec st) = Some (nm, v, n)"
      "st' = push_header mh \<lparr>name = nm, val = v, sensitive = False\<rparr> (st\<lparr>field_seen := True, dec := (dec st)\<lparr>table := table_add nm v (table (dec st))\<rparr>\<rparr>)"
      using assms(1) by (auto simp: decode_field_def Let_def bind_eq_Some_conv)
    then show ?thesis
      using decode_literal_used [OF l(1)] assms(2,3) dyn.insert_spec [of "table (dec st)" nm v] by (simp add: decoder_ok_def)
  next
    case 3
    then obtain sz where l: "decode_integer input 5 = Some (sz, n)" "unat sz \<le> limit (dec st)"
      "st' = st\<lparr>dec := (dec st)\<lparr>table := set_max_size (unat sz) (table (dec st))\<rparr>\<rparr>"
      using assms(1) by (auto simp: decode_field_def Let_def bind_eq_Some_conv not_less split: if_splits)
    then show ?thesis
      using decode_integer_used [OF l(1)] assms(2,3) dyn.resize_spec [of "table (dec st)" "unat sz"] by (simp add: decoder_ok_def)
  next
    case 4
    then show ?thesis using assms by (auto simp: decode_field_def Let_def bind_eq_Some_conv dest!: decode_literal_used)
  qed
qed

lemma decode_fields_ok:
  assumes "decode_fields g mh input pos st = (ok, pos', st')" "decoder_ok (dec st)" "length (produced st) \<le> mh" "pos \<le> length input" "length input - pos \<le> g"
  shows "decoder_ok (dec st') \<and> limit (dec st') = limit (dec st) \<and> length (produced st') \<le> mh \<and> pos' \<le> length input \<and>
    (if ok then pos' = length input else pos' < length input \<and> decode_field mh (drop pos' input) st' = None)"
  using assms
proof (induction g mh input pos st rule: decode_fields.induct)
  case (2 g mh input pos st)
  show ?case
  proof (cases "pos < length input")
    case True
    show ?thesis
    proof (cases "decode_field mh (drop pos input) st")
      case None
      then show ?thesis using 2 True by auto
    next
      case (Some x)
      obtain n st1 where x: "x = (n, st1)" by (cases x)
      note f = decode_field_ok [OF Some [unfolded x] 2(3,4)]
      have "decode_fields g mh input (pos + n) st1 = (ok, pos', st')" using 2(2) True Some x by simp
      then show ?thesis using 2(1) [OF True Some x [symmetric]] f 2(6) True by auto
    qed
  qed (use 2 in auto)
qed auto

lemma decoder_new_ok: "decoder_ok (decoder_new n)"
  using table_new_ok [of "min n kStorageBytes"] by (simp add: decoder_ok_def decoder_new_def)

lemma decoder_set_max_ok: "decoder_ok d \<Longrightarrow> decoder_ok (decoder_set_max_table_size n d)"
  using dyn.resize_spec [of "table d" "min n kStorageBytes"] by (auto simp: decoder_ok_def decoder_set_max_table_size_def Let_def)

section \<open>Properties\<close>

lemma static_get_2: "static_find (bytes_of '':method'') (bytes_of ''GET'') = 2"
  by (simp add: static_find_def STATIC_TABLE_def bytes_of_def)

text \<open>
  An encoder and the decoder of its peer are in step: the table size the encoder works with is the one the
  decoder's table has, or an update to it is pending and the decoder's limit admits it.
\<close>

definition in_step :: "HPACKEncoder \<Rightarrow> HPACKDecoder \<Rightarrow> bool" where
  "in_step e d \<longleftrightarrow> encoder_ok e \<and> decoder_ok d \<and>
     (if pending_update e then table_size e \<le> limit d else table_size e = max_size (table d))"

lemma in_step_new: "in_step (encoder_new n) (decoder_new n)"
  using encoder_new_ok [of n] decoder_new_ok [of n] by (simp add: in_step_def encoder_new_def decoder_new_def table_new_def)

lemma in_step_announce: "in_step e d \<Longrightarrow> in_step (encoder_set_max_table_size n e) d"
  using encoder_set_max_ok [of e n] by (auto simp: in_step_def encoder_set_max_table_size_def decoder_ok_def split: if_splits)

lemma in_step_settings: "in_step e d \<Longrightarrow> in_step (encoder_set_max_table_size n e) (decoder_set_max_table_size n d)"
  using encoder_set_max_ok [of e n] decoder_set_max_ok [of d n]
  by (auto simp: in_step_def encoder_set_max_table_size_def decoder_set_max_table_size_def Let_def decoder_ok_def encoder_ok_def split: if_splits)

lemma in_step_block:
  assumes "in_step e d" "hpack_encode hs capacity e = Some (out, e')"
  shows "in_step e' (after_update e d) \<and> max_size (table (after_update e d)) = table_size e \<and> e' = e\<lparr>pending_update := False\<rparr>"
proof -
  have "e' = e\<lparr>pending_update := False\<rparr>" using assms(2) by (auto simp: hpack_encode_def bind_eq_Some_conv)
  moreover have "max_size (set_max_size (table_size e) (table d)) = table_size e" "table_ok (set_max_size (table_size e) (table d))"
    if "table_size e \<le> kStorageBytes" "table_ok (table d)"
    using dyn.resize_spec [of "table d" "table_size e"] that by simp_all
  ultimately show ?thesis using assms(1)
    by (auto simp: in_step_def encoder_ok_def decoder_ok_def after_update_def)
qed

text \<open>
  C6. What the HPACK encoder writes, the peer's decoder reads. Take an encoder and a decoder that are in step,
  a list of at most \<open>mh\<close> headers (the decoder's bound on the headers of a block) whose names and values have
  at most 65536 bytes (the decoder's bound on a string as transmitted; the encoder itself has no such bound, and a
  longer string it writes may be refused), and a capacity in which the encoder succeeds. Decoding gives the same
  names, values and sensitivity marks in the same order, whichever of the static table, literal and Huffman
  representations the encoder picks. The decoder's dynamic table changes only by the size update the encoder
  announces; afterwards no update is pending, the table has the encoder's table size, and the two are in step
  again, so the next block is read as well. A new pair of the same size is in step, and lowering the
  encoder's table size, alone or as a setting applied to both sides, keeps them in step.
\<close>

theorem hpack_roundtrip:
  assumes "in_step e d" "hpack_encode hs capacity e = Some (out, e')" "list_all header_fits hs" "length hs \<le> mh"
  shows "\<exists>d'. hpack_decode out mh d = (kOk, hs, d') \<and>
      d' = (if pending_update e then d\<lparr>table := set_max_size (table_size e) (table d)\<rparr> else d) \<and>
      \<not> pending_update e' \<and> max_size (table d') = table_size e' \<and> table_size e' = table_size e \<and> in_step e' d' \<and>
      in_step (encoder_new n) (decoder_new n) \<and>
      in_step (encoder_set_max_table_size n e) d \<and> table_size (encoder_set_max_table_size n e) = min n (table_size e) \<and>
      in_step (encoder_set_max_table_size n e) (decoder_set_max_table_size n d)"
  using hpack_roundtrip_lemma [of hs capacity e out e' d mh] assms in_step_block [OF assms(1,2)] in_step_new [of n]
    in_step_announce [OF assms(1), of n] in_step_settings [OF assms(1), of n]
  by (auto simp: after_update_def in_step_def encoder_set_max_table_size_def split: if_splits)

theorem hpack_roundtrip_witness:
  "hpack_decode [0x82] 100 (decoder_new 4096) =
     (kOk, [\<lparr>name = bytes_of '':method'', val = bytes_of ''GET'', sensitive = False\<rparr>], decoder_new 4096)"
proof -
  let ?h = "\<lparr>name = bytes_of '':method'', val = bytes_of ''GET'', sensitive = False\<rparr>"
  have "hpack_encode [?h] 16 (encoder_new 4096) = Some ([0x82], encoder_new 4096)"
    using static_get_2
    by (simp add: hpack_encode_def encode_updates_def encoder_new_def encode_field_def encode_integer_def prefix_mask_def Let_def)
  moreover have "list_all header_fits [?h]" by (simp add: header_fits_def kMaxStringLen_def bytes_of_def)
  ultimately show ?thesis
    using hpack_roundtrip [of "encoder_new 4096" "decoder_new 4096" "[?h]" 16 "[0x82]" "encoder_new 4096" 100 100]
      in_step_new [of 4096] by (auto simp: encoder_new_def)
qed

text \<open>
  C21. No header block can corrupt the decoder: for every input, from a well-formed decoder, the dynamic table
  stays well formed and within the advertised limit, at most \<open>mh\<close> headers are returned, and decoding either
  reads the block to its very end or stops at a field that is not decodable with a compression error.
  Construction and a change of the limit give well-formed decoders too.
\<close>

theorem hpack_decoder_well_formed:
  assumes "decoder_ok d" "hpack_decode input mh d = (status, hs, d')"
  shows "decoder_ok d' \<and> limit d' = limit d \<and> length hs \<le> mh \<and> decoder_ok (decoder_new n) \<and> decoder_ok (decoder_set_max_table_size n d) \<and>
    (\<exists>pos st. decode_fields (length input) mh input 0 (decode_start d) = (status \<noteq> kCompressionError, pos, st) \<and>
      (if status = kCompressionError then pos < length input \<and> decode_field mh (drop pos input) st = None else pos = length input))"
proof -
  obtain ok pos st where r: "decode_fields (length input) mh input 0 (decode_start d) = (ok, pos, st)" by (metis prod_cases3)
  note f = decode_fields_ok [OF r]
  have "status = (if \<not> ok then kCompressionError else if too_many st then kTooManyHeaders else kOk)" "hs = produced st" "d' = dec st"
    using assms(2) r by (simp_all add: hpack_decode_def)
  then show ?thesis
    using f r assms(1) decoder_new_ok decoder_set_max_ok by (auto simp: decode_start_def)
qed

theorem hpack_decoder_well_formed_witness:
  "\<exists>status hs d'. hpack_decode [0xBE] 100 (decoder_new 4096) = (status, hs, d') \<and> decoder_ok d' \<and> length hs \<le> 100"
proof -
  obtain status hs d' where "hpack_decode [0xBE] 100 (decoder_new 4096) = (status, hs, d')" by (metis prod_cases3)
  then show ?thesis using hpack_decoder_well_formed [OF decoder_new_ok, of "[0xBE]" 100 4096] by blast
qed

end
