(* ===== verification/Qpack_Huffman.thy ===== *)
theory Qpack_Huffman
  imports Huffman_Correct "HOL-Library.Multiset"
begin

text \<open>
  The Huffman codec of QPACK (\<^verbatim>\<open>include/boltapi/http3/qpack_huffman.h\<close>): the same code with a table of its own,
  decoded through a canonical index that is built once from the table. The codec is shown to agree with the
  automaton of HPACK. A result \<open>None\<close> is the return code 1.
\<close>

section \<open>Encoder\<close>

definition qpack_huffman_encoded_size :: "byte list \<Rightarrow> nat" where
  "qpack_huffman_encoded_size input = (sum_list (map (\<lambda>s. unat (snd (qpack_huffman_table ! unat s))) input) + 7) div 8"

definition qpack_huffman_encode :: "byte list \<Rightarrow> nat \<Rightarrow> byte list option" where
  "qpack_huffman_encode input output_capacity =
     (if qpack_huffman_encoded_size input > output_capacity then None
      else Some (pad_last (encode_loop qpack_huffman_table input 0 0 [])))"

section \<open>Decode index\<close>

record QpackHuffmanDecodeIndex =
  first_code :: "u32 list"
  first_symbol :: "nat list"
  count :: "u32 list"
  symbols :: "nat list"

definition kMinBits :: nat where "kMinBits = 5"
definition kMaxBits :: nat where "kMaxBits = 30"

abbreviation sym_bits :: "nat \<Rightarrow> nat" where
  "sym_bits s \<equiv> unat (snd (qpack_huffman_table ! s))"

abbreviation sym_code :: "nat \<Rightarrow> u32" where
  "sym_code s \<equiv> fst (qpack_huffman_table ! s)"

definition sorts_after :: "nat \<Rightarrow> nat \<Rightarrow> bool" where
  "sorts_after s key \<longleftrightarrow> sym_bits s > sym_bits key \<or> (sym_bits s = sym_bits key \<and> sym_code s > sym_code key)"

text \<open>One round of the insertion sort; the sorted part of the array is held last element first.\<close>

fun shift_in :: "nat \<Rightarrow> nat list \<Rightarrow> nat list" where
  "shift_in key [] = [key]"
| "shift_in key (s # rest) = (if sorts_after s key then s # shift_in key rest else key # s # rest)"

definition sorted_symbols :: "nat list" where
  "sorted_symbols = rev (fold shift_in [1..<256] [0])"

text \<open>The pass over the sorted symbols for one length: first code, its position and the count.\<close>

fun length_pass :: "nat \<Rightarrow> nat list \<Rightarrow> nat \<Rightarrow> bool \<Rightarrow> u32 \<times> nat \<times> u32 \<Rightarrow> u32 \<times> nat \<times> u32" where
  "length_pass len [] i seen acc = acc"
| "length_pass len (s # order) i seen (fc, fs, n) =
     (if sym_bits s \<noteq> len then length_pass len order (i + 1) seen (fc, fs, n)
      else if \<not> seen then length_pass len order (i + 1) True (sym_code s, i, n + 1)
      else length_pass len order (i + 1) seen (fc, fs, n + 1))"

definition length_entry :: "nat \<Rightarrow> u32 \<times> nat \<times> u32" where
  "length_entry len = (if kMinBits \<le> len \<and> len \<le> kMaxBits then length_pass len sorted_symbols 0 False (0, 0, 0) else (0, 0, 0))"

definition qpack_build_decode_index :: QpackHuffmanDecodeIndex where
  "qpack_build_decode_index =
     \<lparr>first_code = map (\<lambda>len. fst (length_entry len)) [0..<kMaxBits + 1],
      first_symbol = map (\<lambda>len. fst (snd (length_entry len))) [0..<kMaxBits + 1],
      count = map (\<lambda>len. snd (snd (length_entry len))) [0..<kMaxBits + 1],
      symbols = sorted_symbols\<rparr>"

section \<open>Decoder\<close>

function refill :: "u64 \<Rightarrow> nat \<Rightarrow> byte list \<Rightarrow> u64 \<times> nat \<times> byte list" where
  "refill acc nbits input =
     (if nbits \<le> 56 \<and> input \<noteq> [] then refill (push_bit 8 acc OR ucast (hd input)) (nbits + 8) (tl input) else (acc, nbits, input))"
  by auto
termination by (relation "measure (\<lambda>(_, _, input). length input)") auto

declare refill.simps [simp del]

definition candidate :: "u64 \<Rightarrow> nat \<Rightarrow> nat \<Rightarrow> u32" where
  "candidate acc nbits L = ucast (drop_bit (nbits - L) acc AND (push_bit L 1 - 1))"

text \<open>The search for the next symbol: its length and value, lengths tried in increasing order.\<close>

function match_from :: "QpackHuffmanDecodeIndex \<Rightarrow> u64 \<Rightarrow> nat \<Rightarrow> nat \<Rightarrow> (nat \<times> byte) option" where
  "match_from idx acc nbits L =
     (if L \<le> kMaxBits \<and> L \<le> nbits then
        (if count idx ! L = 0 then match_from idx acc nbits (L + 1)
         else
           let cand = candidate acc nbits L
           in if cand \<ge> first_code idx ! L \<and> cand < first_code idx ! L + count idx ! L
              then Some (L, of_nat (symbols idx ! (first_symbol idx ! L + unat (cand - first_code idx ! L))))
              else match_from idx acc nbits (L + 1))
      else None)"
  by auto
termination by (relation "measure (\<lambda>(_, _, _, L). Suc kMaxBits - L)") auto

declare match_from.simps [simp del]

lemma refill_total: "refill acc nbits input = (acc', nbits', input') \<Longrightarrow> nbits' + 8 * length input' = nbits + 8 * length input"
proof (induction acc nbits input rule: refill.induct)
  case (1 acc nbits input)
  then show ?case by (cases "nbits \<le> 56 \<and> input \<noteq> []"; cases input) (auto simp: refill.simps [of acc nbits])
qed

lemma match_from_bounds: "match_from idx acc nbits L0 = Some (L, s) \<Longrightarrow> L0 \<le> L \<and> L \<le> nbits"
proof (induction idx acc nbits L0 rule: match_from.induct)
  case (1 idx acc nbits L0)
  then show ?case by (auto simp: match_from.simps [of idx acc nbits L0] Let_def split: if_splits)
qed

lemma loop_decreases:
  assumes "x = refill acc nbits input" "(acc', y) = x" "(nbits', input') = y" "match_from idx acc' nbits' kMinBits = Some z" "(L, s) = z"
  shows "nbits' - L + 8 * length input' < nbits + 8 * length input"
  using assms refill_total [of acc nbits input acc' nbits' input'] match_from_bounds [of idx acc' nbits' kMinBits L s] by (auto simp: kMinBits_def)

text \<open>The decoding loop: \<open>None\<close> when the output is full, else the accumulator, the bits left in it and the output.\<close>

function qpack_loop :: "QpackHuffmanDecodeIndex \<Rightarrow> nat \<Rightarrow> u64 \<Rightarrow> nat \<Rightarrow> byte list \<Rightarrow> byte list \<Rightarrow> (u64 \<times> nat \<times> byte list) option" where
  "qpack_loop idx output_capacity acc nbits input out =
     (case refill acc nbits input of (acc, nbits, input) \<Rightarrow>
        if nbits < kMinBits then Some (acc, nbits, out)
        else case match_from idx acc nbits kMinBits of
          None \<Rightarrow> Some (acc, nbits, out)
        | Some (L, s) \<Rightarrow>
            if length out \<ge> output_capacity then None
            else qpack_loop idx output_capacity acc (nbits - L) input (out @ [s]))"
  by pat_completeness auto
termination
  by (relation "measure (\<lambda>(_, _, _, nbits, input, _). nbits + 8 * length input)") (simp, simp only: in_measure split, blast intro: loop_decreases)

declare qpack_loop.simps [simp del]

definition qpack_huffman_decode :: "byte list \<Rightarrow> nat \<Rightarrow> byte list option" where
  "qpack_huffman_decode input output_capacity =
     (case qpack_loop qpack_build_decode_index output_capacity 0 0 input [] of
        None \<Rightarrow> None
      | Some (acc, nbits, out) \<Rightarrow>
          if nbits > 7 then None
          else if nbits > 0 \<and> acc AND (push_bit nbits 1 - 1) \<noteq> push_bit nbits 1 - 1 then None
          else Some out)"

section \<open>The canonical order\<close>

lemma qpack_table_same: "qpack_huffman_table = huffman_encode_table"
  by (simp only: qpack_huffman_table_def huffman_encode_table_def)

lemma encode_table_same: "HUFFMAN_ENCODE_TABLE = huffman_encode_table"
  by (simp add: HUFFMAN_ENCODE_TABLE_def HUFFMAN_ENCODE_TABLE_lo_def HUFFMAN_ENCODE_TABLE_hi_def huffman_encode_table_def)

text \<open>The symbols with their codes, by length and code.\<close>

definition canonical :: "(nat \<times> code_entry) list" where
  "canonical = [(48, (0, 5)), (49, (1, 5)), (50, (2, 5)), (97, (3, 5)), (99, (4, 5)), (101, (5, 5)), (105, (6, 5)), (111, (7, 5)),
     (115, (8, 5)), (116, (9, 5)), (32, (0x14, 6)), (37, (0x15, 6)), (45, (0x16, 6)), (46, (0x17, 6)), (47, (0x18, 6)),
     (51, (0x19, 6)), (52, (0x1A, 6)), (53, (0x1B, 6)), (54, (0x1C, 6)), (55, (0x1D, 6)), (56, (0x1E, 6)), (57, (0x1F,
     6)), (61, (0x20, 6)), (65, (0x21, 6)), (95, (0x22, 6)), (98, (0x23, 6)), (100, (0x24, 6)), (102, (0x25, 6)), (103,
     (0x26, 6)), (104, (0x27, 6)), (108, (0x28, 6)), (109, (0x29, 6)), (110, (0x2A, 6)), (112, (0x2B, 6)), (114, (0x2C,
     6)), (117, (0x2D, 6)), (58, (0x5C, 7)), (66, (0x5D, 7)), (67, (0x5E, 7)), (68, (0x5F, 7)), (69, (0x60, 7)), (70,
     (0x61, 7)), (71, (0x62, 7)), (72, (0x63, 7)), (73, (0x64, 7)), (74, (0x65, 7)), (75, (0x66, 7)), (76, (0x67, 7)),
     (77, (0x68, 7)), (78, (0x69, 7)), (79, (0x6A, 7)), (80, (0x6B, 7)), (81, (0x6C, 7)), (82, (0x6D, 7)), (83, (0x6E,
     7)), (84, (0x6F, 7)), (85, (0x70, 7)), (86, (0x71, 7)), (87, (0x72, 7)), (89, (0x73, 7)), (106, (0x74, 7)), (107,
     (0x75, 7)), (113, (0x76, 7)), (118, (0x77, 7)), (119, (0x78, 7)), (120, (0x79, 7)), (121, (0x7A, 7)), (122, (0x7B,
     7)), (38, (0xF8, 8)), (42, (0xF9, 8)), (44, (0xFA, 8)), (59, (0xFB, 8)), (88, (0xFC, 8)), (90, (0xFD, 8)), (33,
     (0x3F8, 10)), (34, (0x3F9, 10)), (40, (0x3FA, 10)), (41, (0x3FB, 10)), (63, (0x3FC, 10)), (39, (0x7FA, 11)), (43,
     (0x7FB, 11)), (124, (0x7FC, 11)), (35, (0xFFA, 12)), (62, (0xFFB, 12)), (0, (0x1FF8, 13)), (36, (0x1FF9, 13)), (64,
     (0x1FFA, 13)), (91, (0x1FFB, 13)), (93, (0x1FFC, 13)), (126, (0x1FFD, 13)), (94, (0x3FFC, 14)), (125, (0x3FFD,
     14)), (60, (0x7FFC, 15)), (96, (0x7FFD, 15)), (123, (0x7FFE, 15)), (92, (0x7FFF0, 19)), (195, (0x7FFF1, 19)), (208,
     (0x7FFF2, 19)), (128, (0xFFFE6, 20)), (130, (0xFFFE7, 20)), (131, (0xFFFE8, 20)), (162, (0xFFFE9, 20)), (184,
     (0xFFFEA, 20)), (194, (0xFFFEB, 20)), (224, (0xFFFEC, 20)), (226, (0xFFFED, 20)), (153, (0x1FFFDC, 21)), (161,
     (0x1FFFDD, 21)), (167, (0x1FFFDE, 21)), (172, (0x1FFFDF, 21)), (176, (0x1FFFE0, 21)), (177, (0x1FFFE1, 21)), (179,
     (0x1FFFE2, 21)), (209, (0x1FFFE3, 21)), (216, (0x1FFFE4, 21)), (217, (0x1FFFE5, 21)), (227, (0x1FFFE6, 21)), (229,
     (0x1FFFE7, 21)), (230, (0x1FFFE8, 21)), (129, (0x3FFFD2, 22)), (132, (0x3FFFD3, 22)), (133, (0x3FFFD4, 22)), (134,
     (0x3FFFD5, 22)), (136, (0x3FFFD6, 22)), (146, (0x3FFFD7, 22)), (154, (0x3FFFD8, 22)), (156, (0x3FFFD9, 22)), (160,
     (0x3FFFDA, 22)), (163, (0x3FFFDB, 22)), (164, (0x3FFFDC, 22)), (169, (0x3FFFDD, 22)), (170, (0x3FFFDE, 22)), (173,
     (0x3FFFDF, 22)), (178, (0x3FFFE0, 22)), (181, (0x3FFFE1, 22)), (185, (0x3FFFE2, 22)), (186, (0x3FFFE3, 22)), (187,
     (0x3FFFE4, 22)), (189, (0x3FFFE5, 22)), (190, (0x3FFFE6, 22)), (196, (0x3FFFE7, 22)), (198, (0x3FFFE8, 22)), (228,
     (0x3FFFE9, 22)), (232, (0x3FFFEA, 22)), (233, (0x3FFFEB, 22)), (1, (0x7FFFD8, 23)), (135, (0x7FFFD9, 23)), (137,
     (0x7FFFDA, 23)), (138, (0x7FFFDB, 23)), (139, (0x7FFFDC, 23)), (140, (0x7FFFDD, 23)), (141, (0x7FFFDE, 23)), (143,
     (0x7FFFDF, 23)), (147, (0x7FFFE0, 23)), (149, (0x7FFFE1, 23)), (150, (0x7FFFE2, 23)), (151, (0x7FFFE3, 23)), (152,
     (0x7FFFE4, 23)), (155, (0x7FFFE5, 23)), (157, (0x7FFFE6, 23)), (158, (0x7FFFE7, 23)), (165, (0x7FFFE8, 23)), (166,
     (0x7FFFE9, 23)), (168, (0x7FFFEA, 23)), (174, (0x7FFFEB, 23)), (175, (0x7FFFEC, 23)), (180, (0x7FFFED, 23)), (182,
     (0x7FFFEE, 23)), (183, (0x7FFFEF, 23)), (188, (0x7FFFF0, 23)), (191, (0x7FFFF1, 23)), (197, (0x7FFFF2, 23)), (231,
     (0x7FFFF3, 23)), (239, (0x7FFFF4, 23)), (9, (0xFFFFEA, 24)), (142, (0xFFFFEB, 24)), (144, (0xFFFFEC, 24)), (145,
     (0xFFFFED, 24)), (148, (0xFFFFEE, 24)), (159, (0xFFFFEF, 24)), (171, (0xFFFFF0, 24)), (206, (0xFFFFF1, 24)), (215,
     (0xFFFFF2, 24)), (225, (0xFFFFF3, 24)), (236, (0xFFFFF4, 24)), (237, (0xFFFFF5, 24)), (199, (0x1FFFFEC, 25)), (207,
     (0x1FFFFED, 25)), (234, (0x1FFFFEE, 25)), (235, (0x1FFFFEF, 25)), (192, (0x3FFFFE0, 26)), (193, (0x3FFFFE1, 26)),
     (200, (0x3FFFFE2, 26)), (201, (0x3FFFFE3, 26)), (202, (0x3FFFFE4, 26)), (205, (0x3FFFFE5, 26)), (210, (0x3FFFFE6,
     26)), (213, (0x3FFFFE7, 26)), (218, (0x3FFFFE8, 26)), (219, (0x3FFFFE9, 26)), (238, (0x3FFFFEA, 26)), (240,
     (0x3FFFFEB, 26)), (242, (0x3FFFFEC, 26)), (243, (0x3FFFFED, 26)), (255, (0x3FFFFEE, 26)), (203, (0x7FFFFDE, 27)),
     (204, (0x7FFFFDF, 27)), (211, (0x7FFFFE0, 27)), (212, (0x7FFFFE1, 27)), (214, (0x7FFFFE2, 27)), (221, (0x7FFFFE3,
     27)), (222, (0x7FFFFE4, 27)), (223, (0x7FFFFE5, 27)), (241, (0x7FFFFE6, 27)), (244, (0x7FFFFE7, 27)), (245,
     (0x7FFFFE8, 27)), (246, (0x7FFFFE9, 27)), (247, (0x7FFFFEA, 27)), (248, (0x7FFFFEB, 27)), (250, (0x7FFFFEC, 27)),
     (251, (0x7FFFFED, 27)), (252, (0x7FFFFEE, 27)), (253, (0x7FFFFEF, 27)), (254, (0x7FFFFF0, 27)), (2, (0xFFFFFE2,
     28)), (3, (0xFFFFFE3, 28)), (4, (0xFFFFFE4, 28)), (5, (0xFFFFFE5, 28)), (6, (0xFFFFFE6, 28)), (7, (0xFFFFFE7, 28)),
     (8, (0xFFFFFE8, 28)), (11, (0xFFFFFE9, 28)), (12, (0xFFFFFEA, 28)), (14, (0xFFFFFEB, 28)), (15, (0xFFFFFEC, 28)),
     (16, (0xFFFFFED, 28)), (17, (0xFFFFFEE, 28)), (18, (0xFFFFFEF, 28)), (19, (0xFFFFFF0, 28)), (20, (0xFFFFFF1, 28)),
     (21, (0xFFFFFF2, 28)), (23, (0xFFFFFF3, 28)), (24, (0xFFFFFF4, 28)), (25, (0xFFFFFF5, 28)), (26, (0xFFFFFF6, 28)),
     (27, (0xFFFFFF7, 28)), (28, (0xFFFFFF8, 28)), (29, (0xFFFFFF9, 28)), (30, (0xFFFFFFA, 28)), (31, (0xFFFFFFB, 28)),
     (127, (0xFFFFFFC, 28)), (220, (0xFFFFFFD, 28)), (249, (0xFFFFFFE, 28)), (10, (0x3FFFFFFC, 30)), (13, (0x3FFFFFFD,
     30)), (22, (0x3FFFFFFE, 30))]"

fun canon_steps :: "(nat \<times> code_entry) list \<Rightarrow> bool" where
  "canon_steps (a # b # rest) =
     ((snd (snd a) = snd (snd b) \<and> fst (snd b) = fst (snd a) + 1 \<or> snd (snd a) < snd (snd b)) \<and> canon_steps (b # rest))"
| "canon_steps _ = True"

lemma canonical_length: "length canonical = 256"
  by (simp add: canonical_def)

lemma canonical_leaves: "list_all (\<lambda>(s, c). follow huff_tree (entry_bits c) = Some (Leaf s)) canonical"
  by (simp add: canonical_def num_bits_numeral entry_bits_numeral follow_named replicate_literals)

lemma canonical_ok: "list_all (\<lambda>(s, c). entry_ok c) canonical"
  by (simp add: canonical_def entry_ok_def)

lemma canonical_steps: "canon_steps canonical"
  by (simp add: canonical_def)

lemma canonical_less: "list_all (\<lambda>(s, c). s < 256) canonical"
  by (simp add: canonical_def)

lemma canonical_code:
  assumes "(s, c) \<in> set canonical"
  shows "s < 256 \<and> huffman_encode_table ! s = c"
proof -
  have leaf: "follow huff_tree (entry_bits c) = Some (Leaf s)" and ok: "entry_ok c"
    using canonical_leaves canonical_ok assms by (auto simp: list_all_iff)
  have small: "s < 256" using assms canonical_less by (auto simp: list_all_iff)
  define b :: byte where "b = of_nat s"
  have b: "unat b = s" using small by (simp add: b_def unat_of_nat)
  have same: "entry_bits c = code_of b" using leaf_path [OF leaf] small by (simp add: b_def)
  have ok': "entry_ok (huffman_encode_table ! s)" using table_entry_ok [of b] b by simp
  have len: "unat (snd c) = unat (snd (huffman_encode_table ! s))"
    using arg_cong [OF same, of length] b by (simp add: entry_bits_def code_of_def code_nbits_def msb_bits_def)
  have "unat (fst c) mod 2 ^ unat (snd c) = unat (fst (huffman_encode_table ! s)) mod 2 ^ unat (snd c)"
    using arg_cong [OF same, of bits_nat] b len by (simp add: entry_bits_def code_of_def code_nbits_def bits_nat_msb)
  then have "unat (fst c) = unat (fst (huffman_encode_table ! s))"
    using ok ok' len by (simp add: entry_ok_def)
  then show ?thesis using small len by (simp add: prod_eq_iff word_unat_eq_iff)
qed

lemma sym_entry: "(s, c) \<in> set canonical \<Longrightarrow> qpack_huffman_table ! s = c"
  using canonical_code qpack_table_same by simp

definition order :: "nat list" where
  "order = map fst canonical"

lemma order_nth: "i < 256 \<Longrightarrow> qpack_huffman_table ! (order ! i) = snd (canonical ! i) \<and> order ! i < 256"
  using sym_entry [of "fst (canonical ! i)" "snd (canonical ! i)"] canonical_code [of "fst (canonical ! i)" "snd (canonical ! i)"]
  by (simp add: order_def canonical_length)

lemma canon_steps_nth:
  "canon_steps xs \<Longrightarrow> Suc i < length xs \<Longrightarrow>
   snd (snd (xs ! i)) = snd (snd (xs ! Suc i)) \<and> fst (snd (xs ! Suc i)) = fst (snd (xs ! i)) + 1 \<or> snd (snd (xs ! i)) < snd (snd (xs ! Suc i))"
proof (induction xs arbitrary: i rule: canon_steps.induct)
  case (1 a b rest)
  then show ?case by (cases i) auto
qed auto

lemma order_step:
  assumes "Suc i < 256"
  shows "sym_bits (order ! i) = sym_bits (order ! Suc i) \<and> sym_code (order ! Suc i) = sym_code (order ! i) + 1 \<or>
         sym_bits (order ! i) < sym_bits (order ! Suc i)"
  using canon_steps_nth [OF canonical_steps, of i] assms order_nth [of i] order_nth [of "Suc i"]
  by (auto simp: canonical_length word_less_nat_alt)

definition rank :: "nat \<Rightarrow> nat" where
  "rank s = sym_bits s * 4294967296 + unat (sym_code s)"

lemma lex_rank: "a * 4294967296 + unat (x :: u32) < b * 4294967296 + unat (y :: u32) \<longleftrightarrow> a < b \<or> a = b \<and> x < y"
  using unsigned_less [of x, where 'a = nat] unsigned_less [of y, where 'a = nat] by (auto simp: word_less_nat_alt)

lemma sorts_after_rank: "sorts_after s key \<longleftrightarrow> rank key < rank s"
  by (auto simp: sorts_after_def rank_def lex_rank)

lemma sym_code_less: "s < 256 \<Longrightarrow> unat (sym_code s) < 2 ^ sym_bits s \<and> 5 \<le> sym_bits s \<and> sym_bits s \<le> 30"
  using table_entry_ok [of "of_nat s"] by (simp add: qpack_table_same entry_ok_def unat_of_nat)

lemma order_rank_step: "Suc i < 256 \<Longrightarrow> rank (order ! i) < rank (order ! Suc i)"
proof -
  assume i: "Suc i < 256"
  have "unat (sym_code (order ! i)) < 2 ^ 30"
    using sym_code_less [of "order ! i"] order_nth [of i] i power_increasing [of "sym_bits (order ! i)" 30 "2 :: nat"] by fastforce
  then have "sym_code (order ! i) < sym_code (order ! i) + 1"
    by (simp add: word_less_nat_alt unat_word_ariths)
  then show ?thesis using order_step [OF i] by (auto simp: rank_def lex_rank)
qed

lemma order_length: "length order = 256"
  by (simp add: order_def canonical_length)

lemma order_sorted: "sorted_wrt (<) (map rank order)"
  by (subst sorted_wrt_iff_nth_Suc_transp) (simp_all add: order_length order_rank_step)

lemma order_set: "set order = {0..<256}" and order_distinct: "distinct order"
proof -
  show d: "distinct order" using order_sorted by (simp add: strict_sorted_iff distinct_map)
  have "set order \<subseteq> {0..<256}" using order_nth order_length by (auto simp: in_set_conv_nth)
  then show "set order = {0..<256}" using distinct_card [OF d] by (intro card_subset_eq) (simp_all add: order_length)
qed

lemma shift_in_mset: "mset (shift_in key xs) = add_mset key (mset xs)"
  by (induction xs) auto

lemma shift_in_sorted:
  "sorted_wrt (\<lambda>a b. rank b \<le> rank a) xs \<Longrightarrow> sorted_wrt (\<lambda>a b. rank b \<le> rank a) (shift_in key xs)"
proof (induction xs)
  case (Cons s xs)
  have "set (shift_in key xs) = insert key (set xs)" by (metis shift_in_mset set_mset_mset set_mset_add_mset_insert)
  then show ?case using Cons by (auto simp: sorts_after_rank)
qed simp

lemma insertion_sort:
  "sorted_wrt (\<lambda>a b. rank b \<le> rank a) xs \<Longrightarrow>
   sorted_wrt (\<lambda>a b. rank b \<le> rank a) (fold shift_in ks xs) \<and> mset (fold shift_in ks xs) = mset ks + mset xs"
  by (induction ks arbitrary: xs) (auto simp: shift_in_sorted shift_in_mset)

lemma sorted_symbols_order: "sorted_symbols = order"
proof -
  let ?xs = "fold shift_in [1..<256] [0]"
  have s: "sorted_wrt (\<lambda>a b. rank b \<le> rank a) ?xs \<and> mset ?xs = mset [1..<256] + mset [0]"
    by (rule insertion_sort) simp
  then have sorted: "sorted (map rank sorted_symbols)" by (simp add: sorted_symbols_def sorted_wrt_rev sorted_wrt_map)
  have "[0..<256] = 0 # [1..<256]" by (simp add: upt_conv_Cons)
  then have "mset sorted_symbols = mset [0..<256]" using s by (simp add: sorted_symbols_def)
  also have "\<dots> = mset order" using order_set order_distinct by (intro set_eq_iff_mset_eq_distinct [THEN iffD1]) auto
  finally have m: "mset sorted_symbols = mset order" .
  have so: "sorted (map rank order)" and inj: "inj_on rank (set order)"
    using order_sorted by (auto simp: strict_sorted_iff distinct_map)
  have "sort_key rank sorted_symbols = order" using m so inj by (intro sort_key_inj_key_eq) (auto dest: mset_eq_setD)
  moreover have "sort_key rank sorted_symbols = sorted_symbols" using sorted m inj by (intro sort_key_inj_key_eq) (auto dest: mset_eq_setD)
  ultimately show ?thesis by simp
qed

lemma length_pass_filter:
  "length_pass len xs i seen (fc, fs, n) =
     (if seen \<or> filter (\<lambda>s. sym_bits s = len) xs = [] then (fc, fs, n + of_nat (length (filter (\<lambda>s. sym_bits s = len) xs)))
      else (sym_code (hd (filter (\<lambda>s. sym_bits s = len) xs)), i + length (takeWhile (\<lambda>s. sym_bits s \<noteq> len) xs),
            n + of_nat (length (filter (\<lambda>s. sym_bits s = len) xs))))"
  by (induction xs arbitrary: i seen fc fs n) auto

lemma sorted_block:
  fixes f :: "'a \<Rightarrow> nat"
  shows "sorted (map f xs) \<Longrightarrow> takeWhile (\<lambda>x. f x = L) (dropWhile (\<lambda>x. f x \<noteq> L) xs) = filter (\<lambda>x. f x = L) xs"
proof (induction xs)
  case (Cons x xs)
  show ?case
  proof (cases "f x = L")
    case True
    then have ge: "\<forall>y\<in>set xs. L \<le> f y" using Cons.prems by auto
    have "sorted (map f ys) \<Longrightarrow> \<forall>y\<in>set ys. L \<le> f y \<Longrightarrow> takeWhile (\<lambda>x. f x = L) ys = filter (\<lambda>x. f x = L) ys" for ys
    proof (induction ys)
      case (Cons y ys)
      have "filter (\<lambda>x. f x = L) ys = []" if "f y \<noteq> L" using Cons.prems that by (auto simp: filter_empty_conv)
      then show ?case using Cons by auto
    qed simp
    then show ?thesis using True ge Cons.prems by simp
  qed (use Cons in simp)
qed simp

text \<open>The symbols whose code has \<open>L\<close> bits, and where they start in the order.\<close>

definition block :: "nat \<Rightarrow> nat list" where
  "block L = filter (\<lambda>s. sym_bits s = L) order"

definition block_start :: "nat \<Rightarrow> nat" where
  "block_start L = length (takeWhile (\<lambda>s. sym_bits s \<noteq> L) order)"

lemma order_bits_sorted: "sorted (map sym_bits order)"
proof -
  have "sym_bits (order ! i) \<le> sym_bits (order ! Suc i)" if "Suc i < 256" for i
    using order_step [OF that] by auto
  then show ?thesis by (subst sorted_wrt_iff_nth_Suc_transp) (simp_all add: order_length)
qed

lemma block_nth:
  assumes "j < length (block L)"
  shows "order ! (block_start L + j) = block L ! j" "block_start L + j < 256"
proof -
  let ?d = "dropWhile (\<lambda>s. sym_bits s \<noteq> L) order"
  have b: "takeWhile (\<lambda>s. sym_bits s = L) ?d = block L" using sorted_block [OF order_bits_sorted, of L] by (simp add: block_def)
  have o: "order = takeWhile (\<lambda>s. sym_bits s \<noteq> L) order @ ?d" by simp
  have j: "j < length ?d" using assms b length_takeWhile_le [of "\<lambda>s. sym_bits s = L" ?d] by simp
  have "order ! (block_start L + j) = ?d ! j" using dropWhile_nth [OF j] by (simp add: block_start_def add.commute)
  also have "\<dots> = block L ! j" using assms b takeWhile_nth [of j "\<lambda>s. sym_bits s = L" ?d] by simp
  finally show "order ! (block_start L + j) = block L ! j" .
  have "block_start L + length ?d = 256" using order_length unfolding block_start_def by (metis length_append takeWhile_dropWhile_id)
  then show "block_start L + j < 256" using j by simp
qed

lemma block_in: "s \<in> set (block L) \<longleftrightarrow> s < 256 \<and> sym_bits s = L"
  by (auto simp: block_def order_set)

lemma block_codes: "j < length (block L) \<Longrightarrow> sym_code (block L ! j) = sym_code (hd (block L)) + of_nat j"
proof (induction j)
  case 0
  then show ?case by (simp add: hd_conv_nth)
next
  case (Suc j)
  have "block L ! j \<in> set (block L)" "block L ! Suc j \<in> set (block L)" using Suc.prems by auto
  then show ?case using order_step [of "block_start L + j"] block_nth [of j L] block_nth [of "Suc j" L] Suc by (simp add: block_in)
qed

lemma length_entry_block:
  "5 \<le> L \<Longrightarrow> L \<le> 30 \<Longrightarrow>
   length_entry L = (if block L = [] then (0, 0, 0) else (sym_code (hd (block L)), block_start L, of_nat (length (block L))))"
  by (simp add: length_entry_def kMinBits_def kMaxBits_def length_pass_filter sorted_symbols_order block_def block_start_def)

lemma block_length: "length (block L) \<le> 256"
  using length_filter_le [of "\<lambda>s. sym_bits s = L" order] by (simp add: block_def order_length)

text \<open>The test of the decoder against one length finds the symbol with that code, if there is one.\<close>

lemma block_test:
  assumes "block L \<noteq> []"
  shows "(sym_code (hd (block L)) \<le> cand \<and> cand < sym_code (hd (block L)) + of_nat (length (block L))) \<longleftrightarrow>
         (\<exists>s<256. sym_bits s = L \<and> sym_code s = cand)" (is "?l \<longleftrightarrow> ?r")
    and "s < 256 \<Longrightarrow> sym_bits s = L \<Longrightarrow> sym_code s = cand \<Longrightarrow> order ! (block_start L + unat (cand - sym_code (hd (block L)))) = s"
proof -
  let ?f = "sym_code (hd (block L))" and ?n = "length (block L)"
  have hd: "hd (block L) < 256" "sym_bits (hd (block L)) = L" using hd_in_set [OF assms] block_in [of "hd (block L)" L] by auto
  then have small: "unat ?f < 2 ^ 30" using sym_code_less [of "hd (block L)"] power_increasing [of L 30 "2 :: nat"] by fastforce
  have at: "unat (?f + of_nat j) = unat ?f + j" if "j \<le> ?n" for j
    using small that block_length [of L] by (simp add: unat_word_ariths unat_of_nat)
  have find: "\<exists>j<?n. block L ! j = s \<and> cand = ?f + of_nat j" if "s < 256" "sym_bits s = L" "sym_code s = cand" for s
  proof -
    have "s \<in> set (block L)" using that by (simp add: block_in)
    then obtain j where "j < ?n" "block L ! j = s" by (auto simp: in_set_conv_nth)
    then show ?thesis using block_codes [of j L] that by auto
  qed
  show "?l \<longleftrightarrow> ?r"
  proof
    assume ?l
    then have c: "unat ?f \<le> unat cand" "unat cand < unat ?f + ?n" using at [of ?n] by (auto simp: word_le_nat_alt word_less_nat_alt)
    define j where "j = unat cand - unat ?f"
    have j: "j < ?n" "unat cand = unat ?f + j" using c by (auto simp: j_def)
    then have "cand = ?f + of_nat j" using at [of j] by (simp add: word_unat_eq_iff)
    then have "sym_code (block L ! j) = cand" using block_codes j by simp
    moreover have "block L ! j \<in> set (block L)" using j by simp
    ultimately show ?r by (auto simp: block_in)
  next
    assume ?r
    then obtain j where "j < ?n" "cand = ?f + of_nat j" using find by blast
    then show ?l using at [of j] at [of ?n] by (simp add: word_le_nat_alt word_less_nat_alt)
  qed
  assume "s < 256" "sym_bits s = L" "sym_code s = cand"
  then obtain j where j: "j < ?n" "block L ! j = s" "cand = ?f + of_nat j" using find by blast
  then have "unat (cand - ?f) = j" using block_length [of L] by (simp add: unat_of_nat)
  then show "order ! (block_start L + unat (cand - ?f)) = s" using block_nth j by simp
qed

section \<open>Matching one symbol\<close>

lemma index_simps:
  assumes "L \<le> 30"
  shows "count qpack_build_decode_index ! L = snd (snd (length_entry L))" "first_code qpack_build_decode_index ! L = fst (length_entry L)"
    "first_symbol qpack_build_decode_index ! L = fst (snd (length_entry L))" "symbols qpack_build_decode_index = order"
  using assms by (simp_all add: qpack_build_decode_index_def kMaxBits_def sorted_symbols_order del: upt_Suc)

lemma bit_candidate: "L \<le> 30 \<Longrightarrow> bit (candidate acc nbits L) i \<longleftrightarrow> i < L \<and> bit acc (nbits - L + i)"
proof -
  assume L: "L \<le> 30"
  have m: "bit (push_bit L 1 - 1 :: u64) i \<longleftrightarrow> i < L \<and> i < 64" by (auto simp: bit_mask_iff simp flip: mask_eq_exp_minus_1)
  show ?thesis using L by (auto simp: candidate_def bit_ucast_iff bit_and_iff bit_drop_bit_eq m add.commute simp del: push_bit_of_1)
qed

lemma candidate_bits:
  assumes "L \<le> nbits" "L \<le> 30"
  shows "msb_bits (candidate acc nbits L) L = take L (msb_bits acc nbits)" "unat (candidate acc nbits L) < 2 ^ L"
proof -
  show "msb_bits (candidate acc nbits L) L = take L (msb_bits acc nbits)"
    using assms by (intro nth_equalityI) (auto simp: bit_candidate)
  have "take_bit L (candidate acc nbits L) = candidate acc nbits L"
    using assms by (intro bit_word_eqI) (auto simp: bit_take_bit_iff bit_candidate)
  then have "unat (candidate acc nbits L) = unat (candidate acc nbits L) mod 2 ^ L" by (metis unsigned_take_bit_eq take_bit_eq_mod)
  then show "unat (candidate acc nbits L) < 2 ^ L" by (metis mod_less_divisor zero_less_numeral zero_less_power)
qed

lemma msb_bits_inj: "unat v < 2 ^ n \<Longrightarrow> unat w < 2 ^ n \<Longrightarrow> msb_bits v n = msb_bits w n \<longleftrightarrow> v = w"
  by (metis bits_nat_msb mod_less word_unat_eq_iff)

definition at_length :: "u64 \<Rightarrow> nat \<Rightarrow> nat \<Rightarrow> byte \<Rightarrow> bool" where
  "at_length acc nbits L b \<longleftrightarrow> code_nbits b = L \<and> take L (msb_bits acc nbits) = code_of b"

lemma at_length_code:
  assumes "L \<le> nbits" "L \<le> 30"
  shows "at_length acc nbits L b \<longleftrightarrow> sym_bits (unat b) = L \<and> sym_code (unat b) = candidate acc nbits L"
proof -
  let ?e = "huffman_encode_table ! unat b" and ?c = "candidate acc nbits L"
  have e: "unat (fst ?e) < 2 ^ unat (snd ?e)" using table_entry_ok [of b] by (simp add: entry_ok_def)
  have "at_length acc nbits L b \<longleftrightarrow> unat (snd ?e) = L \<and> msb_bits ?c L = msb_bits (fst ?e) L"
    by (auto simp: at_length_def code_nbits_def code_of_def candidate_bits(1) [OF assms])
  also have "\<dots> \<longleftrightarrow> unat (snd ?e) = L \<and> fst ?e = ?c"
    using msb_bits_inj [of ?c L "fst ?e"] candidate_bits(2) [OF assms, of acc] e by metis
  finally show ?thesis by (simp add: qpack_table_same)
qed

lemma match_from_spec:
  assumes "5 \<le> L0"
  shows "case match_from qpack_build_decode_index acc nbits L0 of
      Some (L, b) \<Rightarrow> at_length acc nbits L b
    | None \<Rightarrow> \<forall>L b. L0 \<le> L \<longrightarrow> L \<le> nbits \<longrightarrow> \<not> at_length acc nbits L b"
  using assms
proof (induction "qpack_build_decode_index" acc nbits L0 rule: match_from.induct)
  case (1 acc nbits L0)
  let ?idx = qpack_build_decode_index
  show ?case
  proof (cases "L0 \<le> kMaxBits \<and> L0 \<le> nbits")
    case False
    have "code_nbits b \<le> 30" for b using table_entry_ok [of b] by (simp add: code_nbits_def entry_ok_def)
    note short = this
    have "\<not> at_length acc nbits L b" if "L0 \<le> L" "L \<le> nbits" for L b
      using False that short [of b] by (auto simp: at_length_def kMaxBits_def)
    moreover have "match_from ?idx acc nbits L0 = None" using False by (subst match_from.simps) auto
    ultimately show ?thesis by simp
  next
    case True
    then have L: "L0 \<le> 30" "L0 \<le> nbits" "5 \<le> L0" using 1(3) by (auto simp: kMaxBits_def)
    let ?c = "candidate acc nbits L0"
    have e: "length_entry L0 = (if block L0 = [] then (0, 0, 0) else (sym_code (hd (block L0)), block_start L0, of_nat (length (block L0))))"
      using length_entry_block L by simp
    have any: "at_length acc nbits L0 b \<Longrightarrow> block L0 \<noteq> []" for b
      using at_length_code [of L0 nbits acc b] L block_in [of "unat b" L0] byte_less_256 [of b] by auto
    have n: "block L0 \<noteq> [] \<Longrightarrow> (of_nat (length (block L0)) :: u32) \<noteq> 0"
      using block_length [of L0] by (simp add: word_unat_eq_iff unat_of_nat)
    show ?thesis
    proof (cases "\<exists>b. at_length acc nbits L0 b")
      case t: True
      then obtain b where b: "at_length acc nbits L0 b" by blast
      then have s: "sym_bits (unat b) = L0" "sym_code (unat b) = ?c" "unat b < 256" using at_length_code L byte_less_256 by auto
      have "match_from ?idx acc nbits L0 = Some (L0, b)"
        using True L any [OF b] n block_test(1) [of L0 ?c] block_test(2) [of L0 "unat b" ?c] s
        by (auto simp: match_from.simps [of ?idx acc nbits L0] index_simps e Let_def)
      then show ?thesis using b by simp
    next
      case f: False
      have no: "\<not> (sym_bits s = L0 \<and> sym_code s = ?c)" if "s < 256" for s
        using f at_length_code [of L0 nbits acc "of_nat s"] L that by (auto simp: unat_of_nat)
      have m: "match_from ?idx acc nbits L0 = match_from ?idx acc nbits (L0 + 1)"
        using True L n block_test(1) [of L0 ?c] no
        by (auto simp: match_from.simps [of ?idx acc nbits L0] index_simps e Let_def)
      have "case match_from ?idx acc nbits (L0 + 1) of Some (L, b) \<Rightarrow> at_length acc nbits L b
        | None \<Rightarrow> \<forall>L b. L0 + 1 \<le> L \<longrightarrow> L \<le> nbits \<longrightarrow> \<not> at_length acc nbits L b"
      proof (cases "count ?idx ! L0 = 0")
        case False
        then have "\<not> (first_code ?idx ! L0 \<le> ?c \<and> ?c < first_code ?idx ! L0 + count ?idx ! L0)"
          using L block_test(1) [of L0 ?c] no by (auto simp: index_simps e split: if_splits)
        then show ?thesis using 1(2) [OF True False refl] L by simp
      qed (use 1(1) [OF True] L in simp)
      moreover have "\<not> at_length acc nbits L b" if "\<forall>L b. L0 + 1 \<le> L \<longrightarrow> L \<le> nbits \<longrightarrow> \<not> at_length acc nbits L b" "L0 \<le> L" "L \<le> nbits" for L b
        using f that by (cases "L = L0") auto
      ultimately show ?thesis using m by (cases "match_from ?idx acc nbits (L0 + 1)") simp_all
    qed
  qed
qed

section \<open>The decoding loop\<close>

lemma msb_bits_shift_byte: "n \<le> 56 \<Longrightarrow> msb_bits (push_bit 8 (acc :: u64) OR ucast (b :: byte)) (n + 8) = msb_bits acc n @ msb_bits b 8"
proof -
  assume n: "n \<le> 56"
  have u: "unat (ucast b :: u32) < 2 ^ 8" by (simp add: unsigned_ucast_eq take_bit_eq_mod le_less_trans [OF mod_less_eq_dividend byte_less_256])
  have "ucast (ucast b :: u32) = (ucast b :: u64)" by (intro bit_word_eqI) (auto simp: bit_ucast_iff dest: bit_imp_le_length)
  moreover have "msb_bits (ucast b :: u32) 8 = msb_bits b 8" by (intro nth_equalityI) (auto simp: bit_ucast_iff)
  ultimately show ?thesis using msb_bits_shift_in [OF _ u, of n acc] n by simp
qed

lemma refill_bits:
  "refill acc nbits input = (acc', nbits', input') \<Longrightarrow> nbits \<le> 64 \<Longrightarrow>
   nbits' \<le> 64 \<and> (nbits' > 56 \<or> input' = []) \<and> msb_bits acc' nbits' @ stream_bits input' = msb_bits acc nbits @ stream_bits input"
proof (induction acc nbits input rule: refill.induct)
  case (1 acc nbits input)
  show ?case
  proof (cases "nbits \<le> 56 \<and> input \<noteq> []")
    case True
    then obtain b rest where i: "input = b # rest" by (cases input) auto
    show ?thesis using 1 True i msb_bits_shift_byte [of nbits acc b] by (auto simp: refill.simps [of acc nbits] stream_bits_def)
  next
    case False
    then show ?thesis using 1(2,3) by (auto simp: refill.simps [of acc nbits] split: list.splits)
  qed
qed

lemma at_length_split: "at_length acc nbits L b \<Longrightarrow> L \<le> nbits \<Longrightarrow> msb_bits acc nbits = code_of b @ msb_bits acc (nbits - L)"
proof -
  assume a: "at_length acc nbits L b" "L \<le> nbits"
  have "msb_bits acc nbits = take L (msb_bits acc nbits) @ drop L (msb_bits acc nbits)" by simp
  moreover have "drop L (msb_bits acc nbits) = msb_bits acc (nbits - L)" using a by (intro nth_equalityI) auto
  ultimately show ?thesis using a by (simp add: at_length_def)
qed

lemma unmatched_stuck:
  assumes "nbits < kMinBits \<or> match_from qpack_build_decode_index acc nbits kMinBits = None" "nbits > 56 \<or> rest = []"
  shows "stuck (msb_bits acc nbits @ stream_bits rest)"
proof (unfold stuck_def, intro allI notI)
  fix b x assume e: "msb_bits acc nbits @ stream_bits rest = code_of b @ x"
  have L: "5 \<le> code_nbits b" "code_nbits b \<le> 30" using table_entry_ok [of b] by (simp_all add: code_nbits_def entry_ok_def)
  have len: "length (code_of b) = code_nbits b" by (simp add: code_of_def)
  have n: "code_nbits b \<le> nbits" using assms(2) L arg_cong [OF e, of length] len by auto
  then have "take (code_nbits b) (msb_bits acc nbits) = code_of b"
    using arg_cong [OF e, of "take (code_nbits b)"] len by simp
  then have "at_length acc nbits (code_nbits b) b" by (simp add: at_length_def)
  then show False using assms(1) match_from_spec [of kMinBits nbits acc] L n by (auto simp: kMinBits_def)
qed

lemma qpack_loop_spec:
  assumes "nbits \<le> 64" "length out \<le> cap"
  shows "case qpack_loop qpack_build_decode_index cap acc nbits input out of
      None \<Rightarrow> \<exists>s x. codes out @ msb_bits acc nbits @ stream_bits input = codes s @ x \<and> cap < length s
    | Some (acc', nbits', s) \<Rightarrow> \<exists>x. codes out @ msb_bits acc nbits @ stream_bits input = codes s @ msb_bits acc' nbits' @ x \<and>
        stuck (msb_bits acc' nbits' @ x) \<and> (nbits' > 7 \<or> x = []) \<and> length s \<le> cap"
  using assms
proof (induction "qpack_build_decode_index" cap acc nbits input out rule: qpack_loop.induct)
  case (1 cap acc nbits input out)
  let ?idx = qpack_build_decode_index
  obtain acc1 n1 in1 where r: "refill acc nbits input = (acc1, n1, in1)" by (cases "refill acc nbits input")
  have rb: "n1 \<le> 64" "n1 > 56 \<or> in1 = []" "msb_bits acc nbits @ stream_bits input = msb_bits acc1 n1 @ stream_bits in1"
    using refill_bits [OF r] 1(2) by auto
  show ?case
  proof (cases "n1 < kMinBits \<or> match_from ?idx acc1 n1 kMinBits = None")
    case True
    then have "qpack_loop ?idx cap acc nbits input out = Some (acc1, n1, out)" by (auto simp: qpack_loop.simps [of ?idx cap acc] r)
    moreover have "n1 > 7 \<or> stream_bits in1 = []" using rb(2) by auto
    ultimately show ?thesis using unmatched_stuck [OF True rb(2)] rb(3) 1(3) by auto
  next
    case False
    then obtain L b where m: "match_from ?idx acc1 n1 kMinBits = Some (L, b)" by auto
    have at: "at_length acc1 n1 L b" using match_from_spec [of kMinBits n1 acc1] m by (simp add: kMinBits_def)
    have sp: "msb_bits acc1 n1 = code_of b @ msb_bits acc1 (n1 - L)" using at_length_split [OF at] match_from_bounds [OF m] by blast
    have step: "codes out @ msb_bits acc nbits @ stream_bits input = codes (out @ [b]) @ msb_bits acc1 (n1 - L) @ stream_bits in1"
      using rb(3) sp by (simp add: codes_def)
    show ?thesis
    proof (cases "cap \<le> length out")
      case True
      have "cap < length (out @ [b])" using True by simp
      then have "\<exists>s x. codes out @ msb_bits acc nbits @ stream_bits input = codes s @ x \<and> cap < length s" using step by (intro exI conjI)
      moreover have "qpack_loop ?idx cap acc nbits input out = None" using False True m by (simp add: qpack_loop.simps [of ?idx cap acc] r)
      ultimately show ?thesis by simp
    next
      case c: False
      have "qpack_loop ?idx cap acc nbits input out = qpack_loop ?idx cap acc1 (n1 - L) in1 (out @ [b])"
        using False c m by (simp add: qpack_loop.simps [of ?idx cap acc] r)
      moreover have "\<not> n1 < kMinBits" "n1 - L \<le> 64" "length (out @ [b]) \<le> cap" using False c rb(1) by auto
      ultimately show ?thesis using 1(1) [OF r [symmetric] refl _ m refl c] unfolding step by simp
    qed
  qed
qed

lemma low_ones:
  assumes "nbits \<le> 7"
  shows "nbits > 0 \<and> acc AND (push_bit nbits 1 - 1) \<noteq> push_bit nbits 1 - 1 \<longleftrightarrow> msb_bits (acc :: u64) nbits \<noteq> replicate nbits True"
proof -
  have "acc AND mask nbits = mask nbits \<longleftrightarrow> (\<forall>i<64. i < nbits \<longrightarrow> bit acc i)"
    by (auto simp: bit_eq_iff bit_and_iff bit_mask_iff)
  also have "\<dots> \<longleftrightarrow> (\<forall>i<nbits. bit acc i)"   proof -
    have "i < 64" if "i < nbits" for i using that assms by simp
    then show ?thesis by blast
  qed
  also have "\<dots> \<longleftrightarrow> (\<forall>i<nbits. bit acc (nbits - Suc i))" by (metis diff_Suc_less diff_less_Suc Suc_diff_Suc diff_diff_cancel less_or_eq_imp_le zero_less_diff diff_less gr_implies_not0 neq0_conv zero_less_Suc)
  also have "\<dots> \<longleftrightarrow> msb_bits acc nbits = replicate nbits True" by (auto simp: list_eq_iff_nth_eq)
  finally show ?thesis by (cases "nbits = 0") (auto simp: mask_eq_exp_minus_1 push_bit_of_1)
qed

lemma qpack_huffman_decode_iff:
  "qpack_huffman_decode input cap = Some s \<longleftrightarrow> length s \<le> cap \<and> huffman_spec input s"
proof (cases "qpack_loop qpack_build_decode_index cap 0 0 input []")
  case None
  then obtain t x where t: "stream_bits input = codes t @ x" "cap < length t"
    using qpack_loop_spec [of 0 "[]" cap 0 input] by (auto simp: codes_def)
  have "\<not> (length s \<le> cap \<and> huffman_spec input s)"
  proof
    assume a: "length s \<le> cap \<and> huffman_spec input s"
    then obtain k where "k < 8" "codes t @ x = codes s @ replicate k True" using t by (auto simp: huffman_spec_def)
    then obtain s3 where "s = t @ s3" using codes_prefix ones_stuck by blast
    then show False using a t by simp
  qed
  then show ?thesis using None by (simp add: qpack_huffman_decode_def)
next
  case (Some r)
  obtain acc n t where r: "r = (acc, n, t)" by (cases r)
  obtain x where x: "stream_bits input = codes t @ msb_bits acc n @ x" "stuck (msb_bits acc n @ x)" "n > 7 \<or> x = []" "length t \<le> cap"
    using qpack_loop_spec [of 0 "[]" cap 0 input] Some r by (auto simp: codes_def)
  have u: "huffman_spec input s \<longleftrightarrow> t = s \<and> (\<exists>k<8. msb_bits acc n @ x = replicate k True)"
    using x(1,2) codes_unique [of t "msb_bits acc n @ x" s] ones_stuck by (auto simp: huffman_spec_def)
  have "(\<exists>k<8. msb_bits acc n @ x = replicate k True) \<longleftrightarrow> n \<le> 7 \<and> msb_bits acc n = replicate n True"
  proof
    assume "\<exists>k<8. msb_bits acc n @ x = replicate k True"
    then obtain k where k: "k < 8" "msb_bits acc n @ x = replicate k True" by blast
    have "length (msb_bits acc n @ x) = length (replicate k True)" by (simp only: k(2))
    then have nk: "n + length x = k" by simp
    then have "n \<le> 7" "x = []" using k(1) x(3) by auto
    then show "n \<le> 7 \<and> msb_bits acc n = replicate n True" using k nk by simp
  next
    assume "n \<le> 7 \<and> msb_bits acc n = replicate n True"
    then show "\<exists>k<8. msb_bits acc n @ x = replicate k True" using x(3) by (intro exI [of _ n]) auto
  qed
  then show ?thesis using u x(4) Some r low_ones [of n acc] by (auto simp: qpack_huffman_decode_def simp del: push_bit_of_1)
qed

section \<open>Property\<close>

text \<open>
  C16. The two Huffman codecs of the library agree. All three copies of the code table are equal, the encoders
  write the same bytes, and the canonical-index decoder of QPACK, which sorts the symbols and compares code
  ranges, returns on every non-empty input and for every output capacity exactly what the nibble automaton of
  HPACK returns, errors included. They differ on the empty string only, which QPACK codes to itself and HPACK refuses.
\<close>

theorem qpack_huffman_agrees:
  "qpack_huffman_table = huffman_encode_table \<and> HUFFMAN_ENCODE_TABLE = huffman_encode_table \<and>
   qpack_huffman_decode input cap = (if input = [] then Some [] else huffman_decode input cap) \<and>
   qpack_huffman_encode s cap = (if s = [] then Some [] else huffman_encode s cap)"
proof (intro conjI)
  show "qpack_huffman_decode input cap = (if input = [] then Some [] else huffman_decode input cap)"
  proof (cases "input = []")
    case True
    have "huffman_spec [] []" by (auto simp: huffman_spec_def codes_def stream_bits_def)
    then show ?thesis using True qpack_huffman_decode_iff [of "[]" cap "[]"] by simp
  next
    case False
    have "qpack_huffman_decode input cap = Some t \<longleftrightarrow> huffman_decode input cap = Some t" for t
      using False qpack_huffman_decode_iff huffman_decode_iff by simp
    then have "qpack_huffman_decode input cap = huffman_decode input cap" by (metis option.exhaust)
    then show ?thesis using False by simp
  qed
  show "qpack_huffman_encode s cap = (if s = [] then Some [] else huffman_encode s cap)"
    by (simp add: qpack_huffman_encode_def huffman_encode_def qpack_huffman_encoded_size_def encoded_size_def qpack_table_same
        code_nbits_def [abs_def] pad_last_def)
qed (rule qpack_table_same, rule encode_table_same)

end
