(* ===== verification/Qpack.thy ===== *)
theory Qpack
  imports Qpack_Huffman Bolt_Bytes
begin

text \<open>
  QPACK header compression (\<^verbatim>\<open>include/boltapi/http3/qpack.h\<close>, \<^verbatim>\<open>include/boltapi/http3/qpack_static_table.h\<close>): the
  prefix integers, the static table, the dynamic table as a ring of fixed slots, the field section codec and the
  encoder stream that keeps the two dynamic tables equal. An input pointer with a length is the list of bytes left;
  an output buffer is the list written so far with the capacity of the whole. The insert and drop counters, 64 bit
  wide in the code, are natural numbers.
\<close>

section \<open>Limits and prefix integers\<close>

definition kQpackMaxHeaders :: nat where "kQpackMaxHeaders = 256"
definition kQpackMaxStringLen :: nat where "kQpackMaxStringLen = 8192"
definition kQpackMaxIntValue :: u64 where "kQpackMaxIntValue = push_bit 62 1 - 1"

text \<open>The continuation bytes: \<open>n\<close> bytes are written before them.\<close>

function encode_int_rest :: "u64 \<Rightarrow> nat \<Rightarrow> nat \<Rightarrow> byte list option" where
  "encode_int_rest v n cap =
     (if v \<ge> 128 then
        (if n \<ge> cap then None
         else map_option (\<lambda>r. ucast ((v AND 0x7F) OR 0x80) # r) (encode_int_rest (drop_bit 7 v) (n + 1) cap))
      else if n \<ge> cap then None else Some [ucast (v AND 0x7F)])"
  by pat_completeness auto
termination
proof (relation "measure (\<lambda>(v, _, _). unat v)", simp)
  fix v :: u64 and n cap :: nat
  assume "128 \<le> v"
  then have "0 < unat v" by (simp add: word_le_nat_alt)
  then have "unat v div 128 < unat v" by (intro div_less_dividend) simp_all
  then show "((drop_bit 7 v, n + 1, cap), v, n, cap) \<in> measure (\<lambda>(v, _, _). unat v)" by (simp add: unat_drop_bit_div)
qed

declare encode_int_rest.simps [simp del]

definition qpack_encode_int :: "u64 \<Rightarrow> nat \<Rightarrow> byte \<Rightarrow> nat \<Rightarrow> byte list option" where
  "qpack_encode_int v prefix_bits prefix_pattern cap =
     (let max_prefix = push_bit prefix_bits 1 - 1
      in if cap = 0 then None
         else if v < max_prefix then Some [prefix_pattern OR ucast v]
         else map_option (\<lambda>r. (prefix_pattern OR ucast max_prefix) # r) (encode_int_rest (v - max_prefix) 1 cap))"

fun decode_int_loop :: "byte list \<Rightarrow> u64 \<Rightarrow> nat \<Rightarrow> nat \<Rightarrow> (u64 \<times> nat) option" where
  "decode_int_loop [] v shift consumed = None"
| "decode_int_loop (b # input) v shift consumed =
     (if shift \<ge> 63 then None
      else
        let add = push_bit shift (ucast (b AND 0x7F))
        in if drop_bit shift add \<noteq> ucast (b AND 0x7F) then None
           else
             let v = v + add
             in if v > kQpackMaxIntValue then None
                else if b AND 0x80 \<noteq> 0 then decode_int_loop input v (shift + 7) (consumed + 1)
                else Some (v, consumed + 1))"

definition qpack_decode_int :: "byte list \<Rightarrow> nat \<Rightarrow> (u64 \<times> nat) option" where
  "qpack_decode_int input prefix_bits =
     (if input = [] then None
      else
        let max_prefix = push_bit prefix_bits 1 - 1;
            v = ucast (hd input) AND max_prefix
        in if v < max_prefix then Some (v, 1) else decode_int_loop (tl input) v 0 1)"

section \<open>Static table\<close>

definition kEntries :: "(string \<times> string) list" where
  "kEntries = [
    ('':authority'', ''''), ('':path'', ''/''), (''age'', ''0''), (''content-disposition'', ''''),
    (''content-length'', ''0''), (''cookie'', ''''), (''date'', ''''), (''etag'', ''''),
    (''if-modified-since'', ''''), (''if-none-match'', ''''), (''last-modified'', ''''), (''link'', ''''),
    (''location'', ''''), (''referer'', ''''), (''set-cookie'', ''''), ('':method'', ''CONNECT''),
    ('':method'', ''DELETE''), ('':method'', ''GET''), ('':method'', ''HEAD''), ('':method'', ''OPTIONS''),
    ('':method'', ''POST''), ('':method'', ''PUT''), ('':scheme'', ''http''), ('':scheme'', ''https''),
    ('':status'', ''103''), ('':status'', ''200''), ('':status'', ''304''), ('':status'', ''404''),
    ('':status'', ''503''), (''accept'', ''*/*''), (''accept'', ''application/dns-message''),
    (''accept-encoding'', ''gzip, deflate, br''), (''accept-ranges'', ''bytes''),
    (''access-control-allow-headers'', ''cache-control''), (''access-control-allow-headers'', ''content-type''),
    (''access-control-allow-origin'', ''*''), (''cache-control'', ''max-age=0''),
    (''cache-control'', ''max-age=2592000''), (''cache-control'', ''max-age=604800''),
    (''cache-control'', ''no-cache''), (''cache-control'', ''no-store''),
    (''cache-control'', ''public, max-age=31536000''), (''content-encoding'', ''br''),
    (''content-encoding'', ''gzip''), (''content-type'', ''application/dns-message''),
    (''content-type'', ''application/javascript''), (''content-type'', ''application/json''),
    (''content-type'', ''application/x-www-form-urlencoded''), (''content-type'', ''image/gif''),
    (''content-type'', ''image/jpeg''), (''content-type'', ''image/png''), (''content-type'', ''text/css''),
    (''content-type'', ''text/html; charset=utf-8''), (''content-type'', ''text/plain''),
    (''content-type'', ''text/plain;charset=utf-8''), (''range'', ''bytes=0-''),
    (''strict-transport-security'', ''max-age=31536000''),
    (''strict-transport-security'', ''max-age=31536000; includesubdomains''),
    (''strict-transport-security'', ''max-age=31536000; includesubdomains; preload''),
    (''vary'', ''accept-encoding''), (''vary'', ''origin''), (''x-content-type-options'', ''nosniff''),
    (''x-xss-protection'', ''1; mode=block''), ('':status'', ''100''), ('':status'', ''204''),
    ('':status'', ''206''), ('':status'', ''302''), ('':status'', ''400''), ('':status'', ''403''),
    ('':status'', ''421''), ('':status'', ''425''), ('':status'', ''500''), (''accept-language'', ''''),
    (''access-control-allow-credentials'', ''FALSE''), (''access-control-allow-credentials'', ''TRUE''),
    (''access-control-allow-headers'', ''*''), (''access-control-allow-methods'', ''get''),
    (''access-control-allow-methods'', ''get, post, options''), (''access-control-allow-methods'', ''options''),
    (''access-control-expose-headers'', ''content-length''), (''access-control-request-headers'', ''content-type''),
    (''access-control-request-method'', ''get''), (''access-control-request-method'', ''post''),
    (''alt-svc'', ''clear''), (''authorization'', ''''),
    (''content-security-policy'', ''script-src 'none'; object-src 'none'; base-uri 'none'' @ [CHR 0x27]),
    (''early-data'', ''1''), (''expect-ct'', ''''), (''forwarded'', ''''), (''if-range'', ''''), (''origin'', ''''),
    (''purpose'', ''prefetch''), (''server'', ''''), (''timing-allow-origin'', ''*''),
    (''upgrade-insecure-requests'', ''1''), (''user-agent'', ''''), (''x-forwarded-for'', ''''),
    (''x-frame-options'', ''deny''), (''x-frame-options'', ''sameorigin'')]"

definition kSize :: nat where "kSize = 99"

definition static_entry :: "nat \<Rightarrow> (byte list \<times> byte list) option" where
  "static_entry index =
     (if index \<ge> kSize then None else let e = kEntries ! index in Some (bytes_of (fst e), bytes_of (snd e)))"

fun first_match :: "('a \<Rightarrow> bool) \<Rightarrow> 'a list \<Rightarrow> nat \<Rightarrow> nat option" where
  "first_match P [] i = None"
| "first_match P (e # es) i = (if P e then Some i else first_match P es (i + 1))"

definition qstatic_find :: "byte list \<Rightarrow> byte list \<Rightarrow> nat option" where
  "qstatic_find nm v = first_match (\<lambda>e. bytes_of (fst e) = nm \<and> bytes_of (snd e) = v) kEntries 0"

definition qstatic_find_name :: "byte list \<Rightarrow> nat option" where
  "qstatic_find_name nm = first_match (\<lambda>e. bytes_of (fst e) = nm) kEntries 0"

section \<open>Dynamic table\<close>

definition kMaxEntries :: nat where "kMaxEntries = 128"
definition kEntryEntrySlot :: nat where "kEntryEntrySlot = 256"
definition kRfcOverhead :: nat where "kRfcOverhead = 32"

record QEntry =
  name_len :: nat
  value_len :: nat
  edata :: "byte list"

definition entry_name :: "QEntry \<Rightarrow> byte list" where
  "entry_name e = take (name_len e) (edata e)"

definition entry_value :: "QEntry \<Rightarrow> byte list" where
  "entry_value e = take (value_len e) (drop (name_len e) (edata e))"

record QpackDynamicTable =
  slots :: "QEntry list"
  capacity :: nat
  bytes :: nat
  head :: nat
  tail :: nat
  num :: nat
  insert_count :: nat
  drop_count :: nat

definition qtable_new :: "nat \<Rightarrow> QpackDynamicTable" where
  "qtable_new cap = \<lparr>slots = replicate kMaxEntries \<lparr>name_len = 0, value_len = 0, edata = replicate kEntryEntrySlot 0\<rparr>,
     capacity = cap, bytes = 0, head = 0, tail = 0, num = 0, insert_count = 0, drop_count = 0\<rparr>"

definition qevict_oldest :: "QpackDynamicTable \<Rightarrow> QpackDynamicTable" where
  "qevict_oldest t =
     (let e = slots t ! head t;
          entry_size = name_len e + value_len e + kRfcOverhead
      in t\<lparr>bytes := bytes t - entry_size, head := (head t + 1) mod kMaxEntries, num := num t - 1, drop_count := drop_count t + 1\<rparr>)"

lemma qevict_num [simp]: "num (qevict_oldest t) = num t - 1"
  by (simp add: qevict_oldest_def Let_def)

text \<open>Evict while an entry of the given size does not fit.\<close>

function qevict_for :: "nat \<Rightarrow> QpackDynamicTable \<Rightarrow> QpackDynamicTable" where
  "qevict_for entry_size t =
     (if bytes t + entry_size > capacity t \<and> num t > 0 then qevict_for entry_size (qevict_oldest t) else t)"
  by auto
termination by (relation "measure (\<lambda>(_, t). num t)") auto

declare qevict_for.simps [simp del]

definition qinsert :: "byte list \<Rightarrow> byte list \<Rightarrow> QpackDynamicTable \<Rightarrow> bool \<times> QpackDynamicTable" where
  "qinsert nm v t =
     (let entry_size = length nm + length v + kRfcOverhead
      in if entry_size > capacity t \<or> length nm + length v > kEntryEntrySlot then (False, t)
         else
           let t = qevict_for entry_size t
           in if num t \<ge> kMaxEntries then (False, t)
              else
                let e = slots t ! (tail t mod kMaxEntries);
                    e = e\<lparr>name_len := length nm, value_len := length v, edata := put (length nm) v (put 0 nm (edata e))\<rparr>
                in (True, t\<lparr>slots := (slots t)[tail t mod kMaxEntries := e], tail := (tail t + 1) mod kMaxEntries,
                            num := num t + 1, bytes := bytes t + entry_size, insert_count := insert_count t + 1\<rparr>))"

definition get_absolute :: "nat \<Rightarrow> QpackDynamicTable \<Rightarrow> (byte list \<times> byte list) option" where
  "get_absolute abs_index t =
     (if abs_index < drop_count t \<or> abs_index \<ge> insert_count t then None
      else
        let rel = abs_index - drop_count t
        in if rel \<ge> num t then None
           else let e = slots t ! ((head t + rel) mod kMaxEntries) in Some (entry_name e, entry_value e))"

definition ring_entries :: "QpackDynamicTable \<Rightarrow> QEntry list" where
  "ring_entries t = map (\<lambda>i. slots t ! ((head t + i) mod kMaxEntries)) [0..<num t]"

definition kNotFound :: int where "kNotFound = -1"

text \<open>The searches return an \<^verbatim>\<open>int\<close>: the 64 bit absolute index is narrowed to 32 bits and read as signed.\<close>

definition qfind :: "byte list \<Rightarrow> byte list \<Rightarrow> QpackDynamicTable \<Rightarrow> int" where
  "qfind nm v t =
     (case first_match (\<lambda>e. entry_name e = nm \<and> entry_value e = v) (ring_entries t) (drop_count t) of
        None \<Rightarrow> kNotFound
      | Some abs_index \<Rightarrow> sint (of_nat abs_index :: 32 word))"

definition qfind_name :: "byte list \<Rightarrow> QpackDynamicTable \<Rightarrow> int" where
  "qfind_name nm t =
     (case first_match (\<lambda>e. entry_name e = nm) (ring_entries t) (drop_count t) of
        None \<Rightarrow> kNotFound
      | Some abs_index \<Rightarrow> sint (of_nat abs_index :: 32 word))"

definition set_capacity :: "nat \<Rightarrow> QpackDynamicTable \<Rightarrow> QpackDynamicTable" where
  "set_capacity new_capacity t = qevict_for 0 (t\<lparr>capacity := new_capacity\<rparr>)"

definition qclear :: "QpackDynamicTable \<Rightarrow> QpackDynamicTable" where
  "qclear t = t\<lparr>head := 0, tail := 0, num := 0, bytes := 0, insert_count := 0, drop_count := 0\<rparr>"

section \<open>Encoder\<close>

record QpackEncoder =
  enc_table :: QpackDynamicTable
  use_huffman :: bool

definition qencoder_new :: "nat \<Rightarrow> QpackEncoder" where
  "qencoder_new max_table_capacity = \<lparr>enc_table = qtable_new max_table_capacity, use_huffman = True\<rparr>"

definition set_huffman :: "bool \<Rightarrow> QpackEncoder \<Rightarrow> QpackEncoder" where
  "set_huffman enabled e = e\<lparr>use_huffman := enabled\<rparr>"

text \<open>Append an integer at the position the output has reached.\<close>

definition put_int :: "nat \<Rightarrow> nat \<Rightarrow> byte \<Rightarrow> nat \<Rightarrow> byte list \<Rightarrow> byte list option" where
  "put_int v prefix_bits prefix_pattern cap out =
     map_option (\<lambda>n. out @ n) (qpack_encode_int (of_nat v) prefix_bits prefix_pattern (cap - length out))"

definition encode_string_impl :: "bool \<Rightarrow> byte list \<Rightarrow> byte \<Rightarrow> nat \<Rightarrow> byte \<Rightarrow> nat \<Rightarrow> byte list \<Rightarrow> byte list option" where
  "encode_string_impl huff str pattern prefix_bits huffman_bit cap out =
     (if huff \<and> qpack_huffman_encoded_size str < length str then
        (case put_int (qpack_huffman_encoded_size str) prefix_bits (pattern OR huffman_bit) cap out of
           None \<Rightarrow> None
         | Some out \<Rightarrow> map_option (\<lambda>enc. out @ enc) (qpack_huffman_encode str (cap - length out)))
      else
        (case put_int (length str) prefix_bits pattern cap out of
           None \<Rightarrow> None
         | Some out \<Rightarrow> if cap - length out < length str then None else Some (out @ str)))"

definition qencode_string :: "bool \<Rightarrow> byte list \<Rightarrow> nat \<Rightarrow> byte list \<Rightarrow> byte list option" where
  "qencode_string huff str cap out = encode_string_impl huff str 0x00 7 0x80 cap out"

definition encode_name_nbit :: "bool \<Rightarrow> byte list \<Rightarrow> byte \<Rightarrow> nat \<Rightarrow> byte \<Rightarrow> nat \<Rightarrow> byte list \<Rightarrow> byte list option" where
  "encode_name_nbit huff str pattern prefix_bits huffman_bit cap out = encode_string_impl huff str pattern prefix_bits huffman_bit cap out"

definition encode_name_5bit :: "bool \<Rightarrow> byte list \<Rightarrow> byte \<Rightarrow> nat \<Rightarrow> byte list \<Rightarrow> byte list option" where
  "encode_name_5bit huff nm pattern cap out = encode_name_nbit huff nm pattern 5 0x20 cap out"

definition encode_literal_name_line :: "bool \<Rightarrow> byte list \<Rightarrow> byte list \<Rightarrow> nat \<Rightarrow> byte list \<Rightarrow> byte list option" where
  "encode_literal_name_line huff nm v cap out =
     (case encode_name_nbit huff nm 0x20 3 0x08 cap out of None \<Rightarrow> None | Some out \<Rightarrow> qencode_string huff v cap out)"

definition encode_one_line :: "bool \<Rightarrow> byte list \<Rightarrow> byte list \<Rightarrow> nat \<Rightarrow> byte list \<Rightarrow> byte list option" where
  "encode_one_line huff nm v cap out =
     (case qstatic_find nm v of
        Some sidx \<Rightarrow> put_int sidx 6 0xC0 cap out
      | None \<Rightarrow>
          (case qstatic_find_name nm of
             Some sname \<Rightarrow> (case put_int sname 4 0x50 cap out of None \<Rightarrow> None | Some out \<Rightarrow> qencode_string huff v cap out)
           | None \<Rightarrow> encode_literal_name_line huff nm v cap out))"

fun encode_lines :: "bool \<Rightarrow> (byte list \<times> byte list) list \<Rightarrow> nat \<Rightarrow> byte list \<Rightarrow> byte list option" where
  "encode_lines huff [] cap out = Some out"
| "encode_lines huff (h # hs) cap out =
     (case encode_one_line huff (fst h) (snd h) cap out of None \<Rightarrow> None | Some out \<Rightarrow> encode_lines huff hs cap out)"

definition encode_field_section :: "(byte list \<times> byte list) list \<Rightarrow> nat \<Rightarrow> QpackEncoder \<Rightarrow> byte list option" where
  "encode_field_section hs cap e =
     (case put_int 0 8 0x00 cap [] of
        None \<Rightarrow> None
      | Some out \<Rightarrow> (case put_int 0 7 0x00 cap out of None \<Rightarrow> None | Some out \<Rightarrow> encode_lines (use_huffman e) hs cap out))"

text \<open>The two insert instructions: the bytes for the encoder stream, and the encoder with the entry in its table.\<close>

definition encode_insert_with_name_ref :: "byte list \<Rightarrow> byte list \<Rightarrow> nat \<Rightarrow> QpackEncoder \<Rightarrow> byte list option \<times> QpackEncoder" where
  "encode_insert_with_name_ref nm v cap e =
     (case qstatic_find_name nm of
        None \<Rightarrow> (None, e)
      | Some static_idx \<Rightarrow>
          (case put_int static_idx 6 0xC0 cap [] of
             None \<Rightarrow> (None, e)
           | Some out \<Rightarrow>
               (case qencode_string (use_huffman e) v cap out of
                  None \<Rightarrow> (None, e)
                | Some out \<Rightarrow>
                    (case qinsert nm v (enc_table e) of (ok, t) \<Rightarrow> (if ok then Some out else None, e\<lparr>enc_table := t\<rparr>)))))"

definition encode_insert_literal_name :: "byte list \<Rightarrow> byte list \<Rightarrow> nat \<Rightarrow> QpackEncoder \<Rightarrow> byte list option \<times> QpackEncoder" where
  "encode_insert_literal_name nm v cap e =
     (case encode_name_5bit (use_huffman e) nm 0x40 cap [] of
        None \<Rightarrow> (None, e)
      | Some out \<Rightarrow>
          (case qencode_string (use_huffman e) v cap out of
             None \<Rightarrow> (None, e)
           | Some out \<Rightarrow>
               (case qinsert nm v (enc_table e) of (ok, t) \<Rightarrow> (if ok then Some out else None, e\<lparr>enc_table := t\<rparr>))))"

section \<open>Decoder\<close>

record QpackDecoder =
  dec_table :: QpackDynamicTable
  max_capacity :: nat

definition qdecoder_new :: "nat \<Rightarrow> QpackDecoder" where
  "qdecoder_new max_table_capacity = \<lparr>dec_table = qtable_new max_table_capacity, max_capacity = max_table_capacity\<rparr>"

definition qdecode_string :: "byte list \<Rightarrow> nat \<Rightarrow> (byte list \<times> nat) option" where
  "qdecode_string input prefix_bits =
     (if input = [] then None
      else
        let huffman = (ucast (hd input) AND (push_bit prefix_bits 1 :: u32) \<noteq> 0)
        in case qpack_decode_int input prefix_bits of
             None \<Rightarrow> None
           | Some (slen, used) \<Rightarrow>
               if unat slen > kQpackMaxStringLen \<or> length input < used + unat slen then None
               else if huffman then
                 map_option (\<lambda>out. (out, used + unat slen)) (qpack_huffman_decode (take (unat slen) (drop used input)) kQpackMaxStringLen)
               else Some (take (unat slen) (drop used input), used + unat slen))"

definition resolve_dynamic_relative :: "nat \<Rightarrow> QpackDynamicTable \<Rightarrow> (byte list \<times> byte list) option" where
  "resolve_dynamic_relative rel t =
     (let ic = insert_count t in if ic = 0 \<or> rel \<ge> ic then None else get_absolute (ic - 1 - rel) t)"

text \<open>An entry by its index: of the static table, or relative to the newest of the dynamic table.\<close>

definition resolve :: "bool \<Rightarrow> u64 \<Rightarrow> QpackDynamicTable \<Rightarrow> (byte list \<times> byte list) option" where
  "resolve is_static index t = (if is_static then static_entry (unat index) else resolve_dynamic_relative (unat index) t)"

definition decode_indexed_line :: "byte list \<Rightarrow> QpackDynamicTable \<Rightarrow> ((byte list \<times> byte list) \<times> nat) option" where
  "decode_indexed_line input t =
     (case qpack_decode_int input 6 of
        None \<Rightarrow> None
      | Some (index, used) \<Rightarrow> map_option (\<lambda>h. (h, used)) (resolve (hd input AND 0x40 \<noteq> 0) index t))"

definition decode_name_ref_line :: "byte list \<Rightarrow> QpackDynamicTable \<Rightarrow> ((byte list \<times> byte list) \<times> nat) option" where
  "decode_name_ref_line input t =
     (case qpack_decode_int input 4 of
        None \<Rightarrow> None
      | Some (name_idx, used) \<Rightarrow>
          (case resolve (hd input AND 0x10 \<noteq> 0) name_idx t of
             None \<Rightarrow> None
           | Some h \<Rightarrow> map_option (\<lambda>(v, vused). ((fst h, v), used + vused)) (qdecode_string (drop used input) 7)))"

definition decode_literal_name_line :: "byte list \<Rightarrow> ((byte list \<times> byte list) \<times> nat) option" where
  "decode_literal_name_line input =
     (case qdecode_string input 3 of
        None \<Rightarrow> None
      | Some (nm, nused) \<Rightarrow> map_option (\<lambda>(v, vused). ((nm, v), nused + vused)) (qdecode_string (drop nused input) 7))"

definition decode_one_line :: "byte list \<Rightarrow> QpackDynamicTable \<Rightarrow> ((byte list \<times> byte list) \<times> nat) option" where
  "decode_one_line input t =
     (let b = hd input
      in if b AND 0x80 \<noteq> 0 then decode_indexed_line input t
         else if b AND 0x40 \<noteq> 0 then decode_name_ref_line input t
         else if b AND 0x20 \<noteq> 0 then decode_literal_name_line input
         else None)"

text \<open>The loop over the lines, at most \<open>n\<close> more; whether all of the input was read, and the headers.\<close>

fun decode_lines :: "nat \<Rightarrow> byte list \<Rightarrow> QpackDynamicTable \<Rightarrow> bool \<times> (byte list \<times> byte list) list" where
  "decode_lines 0 input t = (input = [], [])"
| "decode_lines (Suc n) input t =
     (if input = [] then (True, [])
      else case decode_one_line input t of
        None \<Rightarrow> (False, [])
      | Some (h, used) \<Rightarrow> (case decode_lines n (drop used input) t of (ok, hs) \<Rightarrow> (ok, h # hs)))"

definition decode_field_section :: "byte list \<Rightarrow> QpackDecoder \<Rightarrow> bool \<times> (byte list \<times> byte list) list" where
  "decode_field_section input d =
     (case qpack_decode_int input 8 of
        None \<Rightarrow> (False, [])
      | Some (ric, used) \<Rightarrow>
          (case qpack_decode_int (drop used input) 7 of
             None \<Rightarrow> (False, [])
           | Some (base, used') \<Rightarrow> decode_lines kQpackMaxHeaders (drop (used + used') input) (dec_table d)))"

definition encode_section_ack :: "nat \<Rightarrow> nat \<Rightarrow> byte list option" where
  "encode_section_ack stream_id cap = qpack_encode_int (of_nat stream_id) 7 0x80 cap"

definition apply_insert_name_ref :: "byte list \<Rightarrow> QpackDecoder \<Rightarrow> (bool \<times> nat \<times> QpackDecoder)" where
  "apply_insert_name_ref input d =
     (case qpack_decode_int input 6 of
        None \<Rightarrow> (False, 0, d)
      | Some (name_idx, used) \<Rightarrow>
          (case resolve (hd input AND 0x40 \<noteq> 0) name_idx (dec_table d) of
             None \<Rightarrow> (False, 0, d)
           | Some h \<Rightarrow>
               (case qdecode_string (drop used input) 7 of
                  None \<Rightarrow> (False, used, d)
                | Some (v, vused) \<Rightarrow>
                    (case qinsert (fst h) v (dec_table d) of (ok, t) \<Rightarrow> (ok, used + vused, d\<lparr>dec_table := t\<rparr>)))))"

definition apply_insert_literal_name :: "byte list \<Rightarrow> QpackDecoder \<Rightarrow> (bool \<times> nat \<times> QpackDecoder)" where
  "apply_insert_literal_name input d =
     (case qdecode_string input 5 of
        None \<Rightarrow> (False, 0, d)
      | Some (nm, nused) \<Rightarrow>
          (case qdecode_string (drop nused input) 7 of
             None \<Rightarrow> (False, nused, d)
           | Some (v, vused) \<Rightarrow>
               (case qinsert nm v (dec_table d) of (ok, t) \<Rightarrow> (ok, nused + vused, d\<lparr>dec_table := t\<rparr>))))"

definition apply_table_size_update :: "byte list \<Rightarrow> QpackDecoder \<Rightarrow> (bool \<times> nat \<times> QpackDecoder)" where
  "apply_table_size_update input d =
     (case qpack_decode_int input 5 of
        None \<Rightarrow> (False, 0, d)
      | Some (cap, used) \<Rightarrow>
          if unat cap > max_capacity d then (False, 0, d)
          else (True, used, d\<lparr>dec_table := set_capacity (unat cap) (dec_table d)\<rparr>))"

definition apply_instruction :: "byte list \<Rightarrow> QpackDecoder \<Rightarrow> (bool \<times> nat \<times> QpackDecoder)" where
  "apply_instruction input d =
     (let b = hd input
      in if b AND 0x80 \<noteq> 0 then apply_insert_name_ref input d
         else if b AND 0x40 \<noteq> 0 then apply_insert_literal_name input d
         else if b AND 0x20 \<noteq> 0 then apply_table_size_update input d
         else (False, 0, d))"

lemma decode_int_consumes: "decode_int_loop input v sh c = Some (w, n) \<Longrightarrow> c < n \<and> n \<le> c + length input"
  by (induction input v sh c rule: decode_int_loop.induct) (fastforce simp: Let_def split: if_splits)+

lemma qpack_decode_int_consumes: "qpack_decode_int input prefix_bits = Some (w, n) \<Longrightarrow> 0 < n \<and> n \<le> length input"
  by (cases input) (auto simp: qpack_decode_int_def Let_def split: if_splits dest!: decode_int_consumes)

lemma qdecode_string_consumes: "qdecode_string input prefix_bits = Some (s, n) \<Longrightarrow> 0 < n \<and> n \<le> length input"
  by (auto simp: qdecode_string_def Let_def split: if_splits option.splits dest!: qpack_decode_int_consumes)

lemma apply_instruction_consumes: "apply_instruction input d = (True, used, d') \<Longrightarrow> 0 < used"
  by (auto simp: apply_instruction_def apply_insert_name_ref_def apply_insert_literal_name_def apply_table_size_update_def Let_def
      split: if_splits option.splits prod.splits dest: qpack_decode_int_consumes qdecode_string_consumes)

function decode_encoder_stream :: "byte list \<Rightarrow> QpackDecoder \<Rightarrow> bool \<times> QpackDecoder" where
  "decode_encoder_stream input d =
     (if input = [] then (True, d)
      else case apply_instruction input d of
        (ok, used, d) \<Rightarrow> if ok then decode_encoder_stream (drop used input) d else (False, d))"
  by pat_completeness auto
termination
  by (relation "measure (\<lambda>(input, d). length input)") (auto dest!: sym [of "(_, _, _)"] apply_instruction_consumes)

declare decode_encoder_stream.simps [simp del]

end
