(* ===== verification/Qpack_Correct.thy ===== *)
theory Qpack_Correct
  imports Qpack
begin

text \<open>
  QPACK: what the encoder writes, the decoder reads back; and the dynamic tables of the two ends stay equal.
\<close>

section \<open>Integers read back\<close>

lemma unat_max_int: "unat kQpackMaxIntValue = 2 ^ 62 - 1"
  by (simp add: kQpackMaxIntValue_def)

lemma decode_int_step:
  assumes "7 * k < 63" "unat x + unat (b AND 0x7F) * 128 ^ k < 2 ^ 62"
  obtains y where "unat y = unat x + unat (b AND 0x7F) * 128 ^ k"
    "decode_int_loop (b # rest) x (7 * k) c = (if b AND 0x80 \<noteq> 0 then decode_int_loop rest y (7 * (k + 1)) (c + 1) else Some (y, c + 1))"
proof -
  define a where "a = push_bit (7 * k) (ucast (b AND 0x7F) :: u64)"
  have p: "(2 :: nat) ^ (7 * k) = 128 ^ k" by (simp add: power_mult)
  have ua: "unat a = unat (b AND 0x7F) * 128 ^ k" using assms(2) by (simp add: a_def unat_push_bit_mod p)
  have same: "drop_bit (7 * k) a = ucast (b AND 0x7F)"
    by (rule word_eq_of_unat) (simp add: unat_drop_bit_div ua p)
  have y: "unat (x + a) = unat x + unat (b AND 0x7F) * 128 ^ k" using unat_add_small [of x a] ua assms(2) by simp
  have "\<not> x + a > kQpackMaxIntValue" using y assms(2) by (simp add: word_less_nat_alt unat_max_int)
  then show thesis using that [OF y] same assms(1) by (simp add: a_def [symmetric] Let_def add.commute)
qed

lemma decode_int_rest:
  assumes "encode_int_rest v n cap = Some out" "k \<le> 8" "unat x + unat v * 128 ^ k < 2 ^ 62"
  shows "\<exists>y. decode_int_loop (out @ rest) x (7 * k) c = Some (y, c + length out) \<and> unat y = unat x + unat v * 128 ^ k"
  using assms
proof (induction v n cap arbitrary: out k x c rule: encode_int_rest.induct)
  case (1 v n cap)
  show ?case
  proof (cases "v \<ge> 128")
    case True
    define b where "b = (ucast ((v AND 0x7F) OR 0x80) :: byte)"
    note b = continuation_byte [of v, folded b_def]
    obtain out' where o: "encode_int_rest (drop_bit 7 v) (n + 1) cap = Some out'" "out = b # out'" "\<not> n \<ge> cap"
      using 1(2) True by (auto simp: encode_int_rest.simps [of v] b_def split: if_splits)
    have d: "unat (drop_bit 7 v) = unat v div 128" by (simp add: unat_drop_bit_div)
    have sum: "unat v * 128 ^ k = unat v mod 128 * 128 ^ k + unat v div 128 * 128 ^ (k + 1)"
    proof -
      define m d where "m = unat v mod 128" and "d = unat v div 128"
      have "unat v = m + 128 * d" by (simp add: m_def d_def)
      then show ?thesis unfolding m_def [symmetric] d_def [symmetric] by (simp add: algebra_simps)
    qed
    have k7: "k \<le> 7"
    proof (rule ccontr)
      assume "\<not> k \<le> 7"
      then have "k = 8" using 1(3) by simp
      moreover have "128 * 128 ^ k \<le> unat v * 128 ^ k" using True by (intro mult_le_mono1) (simp add: word_le_nat_alt)
      ultimately show False using 1(4) by simp
    qed
    obtain y where y: "unat y = unat x + unat (b AND 0x7F) * 128 ^ k"
      "decode_int_loop (b # out' @ rest) x (7 * k) c = (if b AND 0x80 \<noteq> 0 then decode_int_loop (out' @ rest) y (7 * (k + 1)) (c + 1) else Some (y, c + 1))"
      by (rule decode_int_step [of k x b "out' @ rest" c]) (use k7 1(4) b(1) sum in auto)
    have "\<exists>z. decode_int_loop (out' @ rest) y (7 * (k + 1)) (c + 1) = Some (z, c + 1 + length out') \<and> unat z = unat y + unat (drop_bit 7 v) * 128 ^ (k + 1)"
      by (rule 1(1)) (use True o k7 1(4) y(1) b(1) d sum in auto)
    then show ?thesis using y b d sum o(2) by auto
  next
    case False
    then have l: "unat v < 128" by (simp add: word_le_nat_alt)
    have v7: "unat (v AND 0x7F) = unat v" using unat_and_low [of "0x7F :: u64" 7 v] l by simp
    define b where "b = (ucast (v AND 0x7F) :: byte)"
    have o: "out = [b]" using 1(2) False by (auto simp: encode_int_rest.simps [of v] b_def split: if_splits)
    have u: "unat b = unat v" using v7 l by (simp add: b_def unat_ucast_mod)
    then have b: "unat (b AND 0x7F) = unat v" "b AND 0x80 = 0" using l by (simp_all add: unat_byte_7F byte_bit7)
    obtain y where "unat y = unat x + unat (b AND 0x7F) * 128 ^ k"
      "decode_int_loop (b # rest) x (7 * k) c = (if b AND 0x80 \<noteq> 0 then decode_int_loop rest y (7 * (k + 1)) (c + 1) else Some (y, c + 1))"
      by (rule decode_int_step [of k x b rest c]) (use 1(3,4) b(1) in auto)
    then show ?thesis using b o by simp
  qed
qed

lemma encode_int_rest_length: "encode_int_rest v n cap = Some out \<Longrightarrow> n + length out \<le> cap"
proof (induction v n cap arbitrary: out rule: encode_int_rest.induct)
  case (1 v n cap)
  show ?case
  proof (cases "v \<ge> 128")
    case True
    then obtain r where "encode_int_rest (drop_bit 7 v) (n + 1) cap = Some r" "\<not> n \<ge> cap" "length out = Suc (length r)"
      using 1(2) by (auto simp: encode_int_rest.simps [of v] split: if_splits)
    then show ?thesis using 1(1) [OF True] by auto
  next
    case False
    then show ?thesis using 1(2) by (auto simp: encode_int_rest.simps [of v] split: if_splits)
  qed
qed

lemma unat_low_mask:
  assumes "1 \<le> p" "p \<le> 8"
  shows "unat (push_bit p 1 - 1 :: byte) = 2 ^ p - 1" "unat (push_bit p 1 - 1 :: u64) = 2 ^ p - 1"
proof -
  have "p \<in> {1, 2, 3, 4, 5, 6, 7, 8}" using assms by auto
  then show "unat (push_bit p 1 - 1 :: byte) = 2 ^ p - 1" "unat (push_bit p 1 - 1 :: u64) = 2 ^ p - 1" by auto
qed

text \<open>Every value the decoder admits is read back, from the bytes of the encoder alone; flag bits outside the prefix are kept.\<close>

lemma qpack_int_roundtrip:
  fixes v :: u64
  assumes "qpack_encode_int v p pat cap = Some out" "unat v < 2 ^ 62" "1 \<le> p" "p \<le> 8" "pat AND (push_bit p 1 - 1) = 0"
  shows "qpack_decode_int (out @ rest) p = Some (v, length out) \<and> out \<noteq> [] \<and> length out \<le> cap \<and>
    (\<forall>f. f AND (push_bit p 1 - 1) = 0 \<longrightarrow> hd out AND f = pat AND f)"
proof -
  let ?m = "push_bit p 1 - 1 :: byte" and ?M = "push_bit p 1 - 1 :: u64"
  note um = unat_low_mask [OF assms(3,4)]
  have big: "(2 :: nat) ^ p \<le> 2 ^ 8" using assms(4) by (intro power_increasing) auto
  have keep: "pat AND NOT ?m = pat"
    by (rule bit_word_eqI) (use arg_cong [OF assms(5), of "\<lambda>w. bit w n" for n] in \<open>auto simp: bit_and_iff bit_not_iff\<close>)
  have flags: "h AND f = pat AND f" if "h AND NOT ?m = pat" "f AND ?m = 0" for h f :: byte
  proof -
    have "f AND NOT ?m = f"
      by (rule bit_word_eqI) (use arg_cong [OF that(2), of "\<lambda>w. bit w n" for n] in \<open>auto simp: bit_and_iff bit_not_iff\<close>)
    then have "h AND f = (h AND NOT ?m) AND f" by (metis and.assoc and.commute)
    then show ?thesis using that(1) by simp
  qed
  have low: "ucast ((pat OR x) :: byte) AND ?M = ucast x" "(pat OR x) AND NOT ?m = pat" if "x AND ?m = x" for x :: byte
  proof -
    note fb = first_byte [OF that, of pat, unfolded keep]
    have "unat (ucast (pat OR x) AND ?M) = unat (pat OR x) mod 2 ^ p" using unat_and_low [OF um(2)] by simp
    also have "\<dots> = unat ((pat OR x) AND ?m)" using unat_and_low [OF um(1)] by simp
    finally show "ucast (pat OR x) AND ?M = ucast x" using fb(1) by (intro word_eq_of_unat) simp
    show "(pat OR x) AND NOT ?m = pat" by (rule fb(2))
  qed
  show ?thesis
  proof (cases "v < ?M")
    case True
    then have l: "unat v < 2 ^ p - 1" using um(2) by (simp add: word_less_nat_alt)
    then have u: "unat (ucast v :: byte) = unat v" using big by (simp add: unat_ucast_mod)
    have x: "(ucast v :: byte) AND ?m = ucast v" by (rule word_eq_of_unat) (use unat_and_low [OF um(1), of "ucast v"] u l in simp)
    have v: "ucast (ucast v :: byte) = v" by (rule word_eq_of_unat) (simp add: u)
    have o: "out = [pat OR ucast v]" "0 < cap" using assms(1) True by (auto simp: qpack_encode_int_def Let_def split: if_splits)
    then show ?thesis using low [OF x] True v flags by (simp add: qpack_decode_int_def Let_def)
  next
    case False
    have M: "(ucast ?M :: byte) = ?m" by (rule word_eq_of_unat) (use um big in \<open>simp add: unat_ucast_mod\<close>)
    obtain out' where o: "encode_int_rest (v - ?M) 1 cap = Some out'" "out = (pat OR ?m) # out'"
      using assms(1) False M by (auto simp: qpack_encode_int_def Let_def split: if_splits)
    have le: "?M \<le> v" using False by simp
    then have d: "unat (v - ?M) = unat v - unat ?M" "unat ?M \<le> unat v" using unat_sub_small by (auto simp: word_le_nat_alt)
    have M': "ucast ?m = ?M" by (rule word_eq_of_unat) (use um in simp)
    obtain y where y: "decode_int_loop (out' @ rest) ?M 0 1 = Some (y, 1 + length out')" "unat y = unat v"
      using decode_int_rest [OF o(1), of 0 ?M rest 1] d assms(2) by auto
    have "y = v" using y(2) by (rule word_eq_of_unat)
    moreover have "length out \<le> cap" using encode_int_rest_length [OF o(1)] o(2) by simp
    ultimately show ?thesis using low [of ?m] y(1) M' o(2) flags by (simp add: qpack_decode_int_def Let_def)
  qed
qed

section \<open>Strings read back\<close>

lemma qpack_encode_spec:
  assumes "qpack_huffman_encode s cap = Some enc" "s \<noteq> []"
  shows "huffman_spec enc s \<and> length enc = qpack_huffman_encoded_size s \<and> length enc \<le> cap"
proof -
  have same: "qpack_huffman_encode s cap = huffman_encode s cap" "qpack_huffman_encoded_size s = encoded_size s"
    using assms(2) by (simp_all add: qpack_huffman_encode_def huffman_encode_def qpack_huffman_encoded_size_def encoded_size_def qpack_table_same
        code_nbits_def [abs_def] pad_last_def)
  show ?thesis using huffman_encode_spec [where s = s] assms same by (auto split: if_splits)
qed

definition int_written :: "nat \<Rightarrow> byte \<Rightarrow> nat \<Rightarrow> byte list \<Rightarrow> bool" where
  "int_written p pat v n \<longleftrightarrow> n \<noteq> [] \<and> (\<forall>rest. qpack_decode_int (n @ rest) p = Some (of_nat v, length n)) \<and>
     (\<forall>f. f AND (push_bit p 1 - 1) = 0 \<longrightarrow> hd n AND f = pat AND f)"

lemma put_int_written:
  assumes "put_int v p pat cap out = Some out'" "v < 2 ^ 62" "1 \<le> p" "p \<le> 8" "pat AND (push_bit p 1 - 1) = 0" "length out \<le> cap"
  obtains n where "out' = out @ n" "int_written p pat v n" "length out' \<le> cap"
proof -
  obtain n where n: "out' = out @ n" "qpack_encode_int (of_nat v) p pat (cap - length out) = Some n"
    using assms(1) by (auto simp: put_int_def)
  have "unat (of_nat v :: u64) < 2 ^ 62" using assms(2) by (simp add: unat_of_nat)
  note r = qpack_int_roundtrip [OF n(2) this assms(3-5)]
  have "int_written p pat v n" using r by (auto simp: int_written_def)
  moreover have "length out' \<le> cap" using r [of "[]"] n(1) assms(6) by auto
  ultimately show thesis by (rule that [OF n(1)])
qed

text \<open>The three forms a string literal has: its flag bit, its prefix and the pattern above them.\<close>

definition string_form :: "byte \<Rightarrow> nat \<Rightarrow> byte \<Rightarrow> bool" where
  "string_form pat p hb \<longleftrightarrow> (pat, p, hb) \<in> {(0x00, 7, 0x80), (0x20, 3, 0x08), (0x40, 5, 0x20)}"

lemma string_form_bits:
  assumes "string_form pat p hb"
  shows "1 \<le> p" "p \<le> 7" "pat AND (push_bit p 1 - 1) = 0" "(pat OR hb) AND (push_bit p 1 - 1) = 0" "hb AND (push_bit p 1 - 1) = 0"
    "(pat OR hb) AND hb \<noteq> 0" "pat AND hb = 0" "push_bit p 1 = hb"
  using assms unfolding string_form_def by auto

definition string_written :: "nat \<Rightarrow> byte \<Rightarrow> byte list \<Rightarrow> byte list \<Rightarrow> bool" where
  "string_written p pat s n \<longleftrightarrow> n \<noteq> [] \<and> (\<forall>rest. qdecode_string (n @ rest) p = Some (s, length n)) \<and>
     (\<forall>f. f AND (push_bit (p + 1) 1 - 1) = 0 \<longrightarrow> hd n AND f = pat AND f)"

lemma huffman_flag: "p \<le> 7 \<Longrightarrow> (ucast (h :: byte) AND (push_bit p 1 :: u32) \<noteq> 0) \<longleftrightarrow> h AND push_bit p 1 \<noteq> 0"
  by (simp add: push_bit_of_1 and_exp_eq_0_iff_not_bit bit_ucast_iff)

lemma decode_written_string:
  assumes "int_written p pat l n" "l \<le> kQpackMaxStringLen" "p \<le> 7" "l = length body" "push_bit p 1 = hb" "hb AND (push_bit p 1 - 1) = 0"
    "if pat AND hb \<noteq> 0 then huffman_spec body s \<and> length s \<le> kQpackMaxStringLen else s = body"
  shows "qdecode_string (n @ body @ rest) p = Some (s, length n + length body)"
proof -
  have n: "n \<noteq> []" "qpack_decode_int (n @ body @ rest) p = Some (of_nat l, length n)" "hd n AND hb = pat AND hb"
    using assms(1,6) by (auto simp: int_written_def)
  have u: "unat (of_nat l :: u64) = length body" using assms(2,4) by (simp add: unat_of_nat kQpackMaxStringLen_def)
  have h: "(ucast (hd (n @ body @ rest)) AND (push_bit p 1 :: u32) \<noteq> 0) \<longleftrightarrow> pat AND hb \<noteq> 0"
    using huffman_flag [OF assms(3), of "hd n"] n(1,3) assms(5) by simp
  show ?thesis
  proof (cases "pat AND hb \<noteq> 0")
    case True
    then have "qpack_huffman_decode body kQpackMaxStringLen = Some s" using assms(7) qpack_huffman_decode_iff by simp
    then show ?thesis using n True h u assms(2,4) by (simp add: qdecode_string_def del: push_bit_of_1)
  next
    case False
    then show ?thesis using n h u assms(2,4,7) by (simp add: qdecode_string_def del: push_bit_of_1)
  qed
qed

lemma int_written_flags:
  assumes "int_written p (pat OR x) l n" "string_form pat p hb" "x = 0 \<or> x = hb" "f AND (push_bit (p + 1) 1 - 1) = 0"
  shows "hd n AND f = pat AND f"
proof -
  have "f AND (push_bit p 1 - 1) = 0 \<and> f AND hb = 0"
  proof -
    have sub: "push_bit p 1 - 1 = (push_bit (p + 1) 1 - 1) AND (push_bit p 1 - 1 :: byte)" "hb = (push_bit (p + 1) 1 - 1) AND hb"
      using assms(2) unfolding string_form_def by auto
    have "f AND (push_bit p 1 - 1) = (f AND (push_bit (p + 1) 1 - 1)) AND (push_bit p 1 - 1)" by (subst sub(1)) (simp only: and.assoc)
    moreover have "f AND hb = (f AND (push_bit (p + 1) 1 - 1)) AND hb" by (subst sub(2)) (simp only: and.assoc)
    ultimately show ?thesis using assms(4) by simp
  qed
  then have "hd n AND f = (pat OR x) AND f" "x AND f = 0" using assms(1,3) by (auto simp: int_written_def and.commute)
  then show ?thesis by (simp add: bit.conj_disj_distrib2)
qed

lemma encode_string_written:
  assumes "encode_string_impl huff s pat p hb cap out = Some out'" "string_form pat p hb" "length s \<le> kQpackMaxStringLen" "length out \<le> cap"
  obtains n where "out' = out @ n" "string_written p pat s n" "length out' \<le> cap"
proof (cases "huff \<and> qpack_huffman_encoded_size s < length s")
  case True
  note f = string_form_bits [OF assms(2)]
  let ?l = "qpack_huffman_encoded_size s"
  obtain out1 enc where o: "put_int ?l p (pat OR hb) cap out = Some out1" "qpack_huffman_encode s (cap - length out1) = Some enc" "out' = out1 @ enc"
    using assms(1) True by (auto simp: encode_string_impl_def split: option.splits)
  have l: "?l \<le> kQpackMaxStringLen" "?l < 2 ^ 62" "s \<noteq> []" using True assms(3) by (auto simp: kQpackMaxStringLen_def)
  obtain n where n: "out1 = out @ n" "int_written p (pat OR hb) ?l n" "length out1 \<le> cap"
    by (rule put_int_written [OF o(1) l(2) f(1) _ f(4) assms(4)]) (use f(2) in simp)
  note e = qpack_encode_spec [OF o(2) l(3)]
  have "qdecode_string ((n @ enc) @ rest) p = Some (s, length (n @ enc))" for rest
    using decode_written_string [OF n(2) l(1) f(2) _ f(8,5), of enc s rest] e f(6) assms(3) by simp
  moreover have "n \<noteq> []" using n(2) by (simp add: int_written_def)
  ultimately have "string_written p pat s (n @ enc)" using int_written_flags [OF n(2) assms(2)] by (auto simp: string_written_def)
  moreover have "length out' \<le> cap" using o(3) n(3) e by auto
  ultimately show thesis using that [of "n @ enc"] o(3) n(1) by simp
next
  case False
  note f = string_form_bits [OF assms(2)]
  obtain out1 where o: "put_int (length s) p pat cap out = Some out1" "out' = out1 @ s" "\<not> cap - length out1 < length s"
    using assms(1) False by (auto simp: encode_string_impl_def split: option.splits if_splits)
  have l: "length s < 2 ^ 62" using assms(3) by (simp add: kQpackMaxStringLen_def)
  obtain n where n: "out1 = out @ n" "int_written p pat (length s) n" "length out1 \<le> cap"
    by (rule put_int_written [OF o(1) l f(1) _ f(3) assms(4)]) (use f(2) in simp)
  have "qdecode_string ((n @ s) @ rest) p = Some (s, length (n @ s))" for rest
    using decode_written_string [OF n(2) assms(3) f(2) refl f(8,5), of s rest] f(7) by simp
  moreover have "n \<noteq> []" using n(2) by (simp add: int_written_def)
  ultimately have "string_written p pat s (n @ s)" using int_written_flags [of p pat 0 _ n hb] n(2) assms(2) by (auto simp: string_written_def)
  then show thesis using that [of "n @ s"] o(2,3) n(1,3) by simp
qed

section \<open>Field lines read back\<close>

lemma first_match_found: "first_match P xs k = Some i \<Longrightarrow> k \<le> i \<and> i - k < length xs \<and> P (xs ! (i - k))"
proof (induction xs arbitrary: k)
  case (Cons x xs)
  show ?case
  proof (cases "P x")
    case False
    then have "first_match P xs (k + 1) = Some i" using Cons.prems by simp
    from Cons.IH [OF this] show ?thesis by (auto simp: nth_Cons' Suc_diff_Suc)
  qed (use Cons.prems in auto)
qed simp

lemma length_kEntries: "length kEntries = kSize"
  by (simp add: kEntries_def kSize_def)

lemma qstatic_find_entry: "qstatic_find nm v = Some i \<Longrightarrow> i < 2 ^ 62 \<and> static_entry i = Some (nm, v)"
  using length_kEntries by (auto simp: qstatic_find_def static_entry_def Let_def kSize_def dest!: first_match_found)

lemma qstatic_find_name_entry: "qstatic_find_name nm = Some i \<Longrightarrow> i < 2 ^ 62 \<and> (\<exists>v. static_entry i = Some (nm, v))"
  using length_kEntries by (auto simp: qstatic_find_name_def static_entry_def Let_def kSize_def dest!: first_match_found)

definition line_written :: "byte list \<times> byte list \<Rightarrow> byte list \<Rightarrow> bool" where
  "line_written h n \<longleftrightarrow> n \<noteq> [] \<and> (\<forall>rest t. decode_one_line (n @ rest) t = Some (h, length n))"

lemma unat_index: "i < 2 ^ 62 \<Longrightarrow> unat (of_nat i :: u64) = i"
  by (simp add: unat_of_nat)

lemma indexed_line_written:
  assumes "int_written 6 0xC0 i n" "i < 2 ^ 62" "static_entry i = Some h"
  shows "line_written h n"
proof -
  have n: "n \<noteq> []" "\<And>rest. qpack_decode_int (n @ rest) 6 = Some (of_nat i, length n)" "hd n AND 0x80 = 0x80" "hd n AND 0x40 = 0x40"
    using assms(1) by (auto simp: int_written_def)
  then show ?thesis using assms(3) unat_index [OF assms(2)] by (simp add: line_written_def decode_one_line_def decode_indexed_line_def resolve_def Let_def)
qed

lemma name_ref_line_written:
  assumes "int_written 4 0x50 i n" "i < 2 ^ 62" "static_entry i = Some (nm, w)" "string_written 7 0 v m"
  shows "line_written (nm, v) (n @ m)"
proof -
  have n: "n \<noteq> []" "\<And>rest. qpack_decode_int (n @ rest) 4 = Some (of_nat i, length n)" "hd n AND 0x80 = 0" "hd n AND 0x40 = 0x40" "hd n AND 0x10 = 0x10"
    using assms(1) by (auto simp: int_written_def)
  have m: "\<And>rest. qdecode_string (m @ rest) 7 = Some (v, length m)" using assms(4) by (simp add: string_written_def)
  show ?thesis using n m assms(3) unat_index [OF assms(2)] by (simp add: line_written_def decode_one_line_def decode_name_ref_line_def resolve_def Let_def)
qed

lemma literal_line_written:
  assumes "string_written 3 0x20 nm n" "string_written 7 0 v m"
  shows "line_written (nm, v) (n @ m)"
proof -
  have n: "n \<noteq> []" "\<And>rest. qdecode_string (n @ rest) 3 = Some (nm, length n)" "hd n AND 0x80 = 0" "hd n AND 0x40 = 0" "hd n AND 0x20 = 0x20"
    using assms(1) by (auto simp: string_written_def)
  have m: "\<And>rest. qdecode_string (m @ rest) 7 = Some (v, length m)" using assms(2) by (simp add: string_written_def)
  show ?thesis using n m by (simp add: line_written_def decode_one_line_def decode_literal_name_line_def Let_def)
qed

lemma encode_value_written:
  assumes "qencode_string huff v cap out = Some out'" "length v \<le> kQpackMaxStringLen" "length out \<le> cap"
  obtains n where "out' = out @ n" "string_written 7 0 v n" "length out' \<le> cap"
  by (rule encode_string_written [of huff v 0 7 "0x80" cap out out']) (use assms in \<open>auto simp: qencode_string_def string_form_def\<close>)

lemma encode_line_written:
  assumes "encode_one_line huff nm v cap out = Some out'" "length nm \<le> kQpackMaxStringLen" "length v \<le> kQpackMaxStringLen" "length out \<le> cap"
  obtains n where "out' = out @ n" "line_written (nm, v) n" "length out' \<le> cap"
proof (cases "qstatic_find nm v")
  case (Some i)
  then have i: "i < 2 ^ 62" "static_entry i = Some (nm, v)" "put_int i 6 0xC0 cap out = Some out'"
    using qstatic_find_entry assms(1) by (auto simp: encode_one_line_def)
  obtain n where n: "out' = out @ n" "int_written 6 0xC0 i n" "length out' \<le> cap"
    by (rule put_int_written [OF i(3,1) _ _ _ assms(4)]) simp_all
  then show thesis using that indexed_line_written [OF n(2) i(1,2)] by blast
next
  case none: None
  show thesis
  proof (cases "qstatic_find_name nm")
    case (Some i)
    then obtain w where i: "i < 2 ^ 62" "static_entry i = Some (nm, w)" using qstatic_find_name_entry by blast
    obtain out1 where o: "put_int i 4 0x50 cap out = Some out1" "qencode_string huff v cap out1 = Some out'"
      using none Some assms(1) by (auto simp: encode_one_line_def split: option.splits)
    obtain n where n: "out1 = out @ n" "int_written 4 0x50 i n" "length out1 \<le> cap"
      by (rule put_int_written [OF o(1) i(1) _ _ _ assms(4)]) simp_all
    obtain m where m: "out' = out1 @ m" "string_written 7 0 v m" "length out' \<le> cap" by (rule encode_value_written [OF o(2) assms(3) n(3)])
    show thesis using that [of "n @ m"] name_ref_line_written [OF n(2) i m(2)] n(1) m by simp
  next
    case None
    then obtain out1 where o: "encode_string_impl huff nm 0x20 3 0x08 cap out = Some out1" "qencode_string huff v cap out1 = Some out'"
      using none assms(1) by (auto simp: encode_one_line_def encode_literal_name_line_def encode_name_nbit_def split: option.splits)
    obtain n where n: "out1 = out @ n" "string_written 3 0x20 nm n" "length out1 \<le> cap"
      by (rule encode_string_written [OF o(1) _ assms(2,4)]) (simp_all add: string_form_def)
    obtain m where m: "out' = out1 @ m" "string_written 7 0 v m" "length out' \<le> cap" by (rule encode_value_written [OF o(2) assms(3) n(3)])
    show thesis using that [of "n @ m"] literal_line_written [OF n(2) m(2)] n(1) m by simp
  qed
qed

lemma encode_lines_written:
  assumes "encode_lines huff hs cap out = Some out'" "length out \<le> cap" "length hs \<le> k"
    "list_all (\<lambda>h. length (fst h) \<le> kQpackMaxStringLen \<and> length (snd h) \<le> kQpackMaxStringLen) hs"
  shows "\<exists>n. out' = out @ n \<and> decode_lines k n t = (True, hs) \<and> length out' \<le> cap"
  using assms
proof (induction hs arbitrary: out k)
  case Nil
  then show ?case by (cases k) auto
next
  case (Cons h hs)
  obtain j where k: "k = Suc j" "length hs \<le> j" using Cons.prems(3) by (cases k) auto
  obtain out1 where o: "encode_one_line huff (fst h) (snd h) cap out = Some out1" "encode_lines huff hs cap out1 = Some out'"
    using Cons.prems(1) by (auto split: option.splits)
  obtain n where n: "out1 = out @ n" "line_written (fst h, snd h) n" "length out1 \<le> cap"
    by (rule encode_line_written [OF o(1)]) (use Cons.prems(2,4) in auto)
  obtain m where m: "out' = out1 @ m" "decode_lines j m t = (True, hs)" "length out' \<le> cap"
    using Cons.IH [OF o(2) n(3) k(2)] Cons.prems(4) by auto
  have "n \<noteq> []" "decode_one_line (n @ m) t = Some (h, length n)" using n(2) by (auto simp: line_written_def)
  then show ?case using k(1) n(1) m by simp
qed

lemma field_section_read_back:
  assumes "encode_field_section hs cap e = Some out" "length hs \<le> kQpackMaxHeaders"
    "list_all (\<lambda>h. length (fst h) \<le> kQpackMaxStringLen \<and> length (snd h) \<le> kQpackMaxStringLen) hs"
  shows "decode_field_section out d = (True, hs) \<and> length out \<le> cap"
proof -
  obtain a b where o: "put_int 0 8 0 cap [] = Some a" "put_int 0 7 0 cap a = Some b" "encode_lines (use_huffman e) hs cap b = Some out"
    using assms(1) by (auto simp: encode_field_section_def split: option.splits)
  obtain n where n: "a = [] @ n" "int_written 8 0 0 n" "length a \<le> cap" by (rule put_int_written [OF o(1)]) simp_all
  obtain m where m: "b = a @ m" "int_written 7 0 0 m" "length b \<le> cap" by (rule put_int_written [OF o(2) _ _ _ _ n(3)]) simp_all
  obtain l where l: "out = b @ l" "decode_lines kQpackMaxHeaders l (dec_table d) = (True, hs)" "length out \<le> cap"
    using encode_lines_written [OF o(3) m(3) assms(2,3)] by blast
  show ?thesis using n m l by (simp add: decode_field_section_def int_written_def)
qed

section \<open>The dynamic table\<close>

definition entry_size :: "QEntry \<Rightarrow> nat" where
  "entry_size e = name_len e + value_len e + kRfcOverhead"

definition fields :: "QpackDynamicTable \<Rightarrow> (byte list \<times> byte list) list" where
  "fields t = map (\<lambda>e. (entry_name e, entry_value e)) (ring_entries t)"

text \<open>What the table promises: a queue of fields, oldest first, that drops from the front to make room. A state is the capacity, the number of fields dropped and the queue.\<close>

definition field_size :: "byte list \<times> byte list \<Rightarrow> nat" where
  "field_size f = length (fst f) + length (snd f) + kRfcOverhead"

definition total :: "(byte list \<times> byte list) list \<Rightarrow> nat" where
  "total fs = sum_list (map field_size fs)"

fun make_room :: "nat \<Rightarrow> nat \<Rightarrow> (byte list \<times> byte list) list \<Rightarrow> (byte list \<times> byte list) list" where
  "make_room sz cap [] = []"
| "make_room sz cap (f # fs) = (if total (f # fs) + sz > cap then make_room sz cap fs else f # fs)"

type_synonym queue = "nat \<times> nat \<times> (byte list \<times> byte list) list"

definition spec_insert :: "byte list \<Rightarrow> byte list \<Rightarrow> queue \<Rightarrow> bool \<times> queue" where
  "spec_insert nm v = (\<lambda>(cap, dropped, fs).
     let kept = make_room (length nm + length v + kRfcOverhead) cap fs
     in if length nm + length v + kRfcOverhead > cap \<or> length nm + length v > kEntryEntrySlot \<or> length kept \<ge> kMaxEntries then (False, cap, dropped, fs)
        else (True, cap, dropped + (length fs - length kept), kept @ [(nm, v)]))"

definition spec_capacity :: "nat \<Rightarrow> queue \<Rightarrow> queue" where
  "spec_capacity n = (\<lambda>(cap, dropped, fs). let kept = make_room 0 n fs in (n, dropped + (length fs - length kept), kept))"

definition qabs :: "QpackDynamicTable \<Rightarrow> queue" where
  "qabs t = (capacity t, drop_count t, fields t)"

text \<open>The ring is consistent: the slots, the indices, the accounting; with the capacity respected it is well formed.\<close>

definition qtable_fits :: "QpackDynamicTable \<Rightarrow> bool" where
  "qtable_fits t \<longleftrightarrow> length (slots t) = kMaxEntries \<and> list_all (\<lambda>e. length (edata e) = kEntryEntrySlot) (slots t) \<and>
     list_all (\<lambda>e. name_len e + value_len e \<le> kEntryEntrySlot) (ring_entries t) \<and>
     num t \<le> kMaxEntries \<and> head t < kMaxEntries \<and> tail t = (head t + num t) mod kMaxEntries \<and>
     bytes t = sum_list (map entry_size (ring_entries t)) \<and> insert_count t = drop_count t + num t"

definition qtable_ok :: "QpackDynamicTable \<Rightarrow> bool" where
  "qtable_ok t \<longleftrightarrow> qtable_fits t \<and> bytes t \<le> capacity t"

lemma length_ring_entries [simp]: "length (ring_entries t) = num t"
  by (simp add: ring_entries_def)

lemma length_fields [simp]: "length (fields t) = num t"
  by (simp add: fields_def)

lemma ring_entries_evict: "0 < num t \<Longrightarrow> ring_entries (qevict_oldest t) = tl (ring_entries t)"
proof (rule nth_equalityI)
  fix i assume "0 < num t" "i < length (ring_entries (qevict_oldest t))"
  then show "ring_entries (qevict_oldest t) ! i = tl (ring_entries t) ! i"
    by (simp add: nth_tl) (simp add: ring_entries_def qevict_oldest_def Let_def mod_add_left_eq)
qed simp

lemma ring_entries_hd: "0 < num t \<Longrightarrow> head t < kMaxEntries \<Longrightarrow> ring_entries t = slots t ! head t # tl (ring_entries t)"
  by (simp add: ring_entries_def upt_rec [of 0])

lemma qevict_fits:
  assumes "qtable_fits t" "0 < num t"
  shows "qtable_fits (qevict_oldest t)"
proof -
  have h: "head t < kMaxEntries" using assms by (simp add: qtable_fits_def)
  note r = ring_entries_hd [OF assms(2) h]
  have b: "bytes t = entry_size (slots t ! head t) + sum_list (map entry_size (tl (ring_entries t)))"
    using assms(1) r by (metis (no_types, lifting) list.simps(9) qtable_fits_def sum_list.Cons)
  have l: "list_all (\<lambda>e. name_len e + value_len e \<le> kEntryEntrySlot) (tl (ring_entries t))"
    using assms(1) by (cases "ring_entries t") (auto simp: qtable_fits_def)
  have k: "0 < kMaxEntries" using h by simp
  have "((head t + 1) mod kMaxEntries + (num t - 1)) mod kMaxEntries = (head t + 1 + (num t - 1)) mod kMaxEntries" by (rule mod_add_left_eq)
  then have "(head t + num t) mod kMaxEntries = ((head t + 1) mod kMaxEntries + (num t - 1)) mod kMaxEntries" using assms(2) by simp
  then show ?thesis using assms b l k ring_entries_evict [OF assms(2)]
    by (auto simp: qtable_fits_def qevict_oldest_def Let_def entry_size_def)
qed

lemma entry_fields_size:
  assumes "qtable_fits t" "e \<in> set (ring_entries t)"
  shows "field_size (entry_name e, entry_value e) = entry_size e"
proof -
  obtain i where "e = slots t ! ((head t + i) mod kMaxEntries)" using assms(2) by (auto simp: ring_entries_def)
  then have "length (edata e) = kEntryEntrySlot" using assms(1) by (simp add: qtable_fits_def list_all_length kMaxEntries_def)
  moreover have "name_len e + value_len e \<le> kEntryEntrySlot" using assms by (simp add: qtable_fits_def list_all_iff)
  ultimately show ?thesis by (simp add: field_size_def entry_name_def entry_value_def entry_size_def)
qed

lemma total_fields: "qtable_fits t \<Longrightarrow> total (fields t) = bytes t"
proof -
  assume f: "qtable_fits t"
  then have "map field_size (fields t) = map entry_size (ring_entries t)" using entry_fields_size [OF f] by (simp add: fields_def)
  then show ?thesis using f by (simp add: total_def qtable_fits_def)
qed

lemma qevict_for_spec:
  assumes "qtable_fits t"
  shows "fields (qevict_for sz t) = make_room sz (capacity t) (fields t) \<and> drop_count (qevict_for sz t) + num (qevict_for sz t) = drop_count t + num t \<and>
    qtable_fits (qevict_for sz t) \<and> capacity (qevict_for sz t) = capacity t \<and> insert_count (qevict_for sz t) = insert_count t \<and>
    (bytes (qevict_for sz t) + sz \<le> capacity t \<or> num (qevict_for sz t) = 0) \<and> num (qevict_for sz t) \<le> num t \<and>
    (num (qevict_for sz t) = num t \<longrightarrow> qevict_for sz t = t)"
  using assms
proof (induction sz t rule: qevict_for.induct)
  case (1 sz t)
  show ?case
  proof (cases "bytes t + sz > capacity t \<and> num t > 0")
    case True
    let ?e = "qevict_oldest t"
    have e: "qevict_for sz t = qevict_for sz ?e" using True by (simp add: qevict_for.simps [of sz t])
    have same: "capacity ?e = capacity t" "insert_count ?e = insert_count t" "drop_count ?e + num ?e = drop_count t + num t" "num ?e < num t"
      using True by (simp_all add: qevict_oldest_def Let_def)
    have "fields ?e = tl (fields t)" using True by (simp add: ring_entries_evict fields_def map_tl)
    moreover have "fields t \<noteq> []" using True by (metis length_fields length_0_conv less_irrefl)
    ultimately have "make_room sz (capacity t) (fields t) = make_room sz (capacity t) (fields ?e)"
      using True total_fields [OF 1(2)] by (cases "fields t") auto
    then show ?thesis unfolding e using 1(1) [OF True qevict_fits [OF 1(2)]] True same by simp
  next
    case False
    then have e: "qevict_for sz t = t" unfolding qevict_for.simps [of sz t] by (rule if_not_P)
    have "make_room sz (capacity t) (fields t) = fields t"
      using False total_fields [OF 1(2)] by (cases "fields t") (auto dest: arg_cong [of _ _ length])
    then show ?thesis using False 1(2) e by auto
  qed
qed

definition stored :: "byte list \<Rightarrow> byte list \<Rightarrow> QEntry \<Rightarrow> QEntry" where
  "stored nm v e = e\<lparr>name_len := length nm, value_len := length v, edata := put (length nm) v (put 0 nm (edata e))\<rparr>"

lemma stored_fields:
  assumes "length (edata e) = kEntryEntrySlot" "length nm + length v \<le> kEntryEntrySlot"
  shows "entry_name (stored nm v e) = nm" "entry_value (stored nm v e) = v" "length (edata (stored nm v e)) = kEntryEntrySlot"
    "entry_size (stored nm v e) = length nm + length v + kRfcOverhead"
proof -
  have "put (length nm) v (put 0 nm (edata e)) = (nm @ v) @ drop (length (nm @ v)) (edata e)"
    using put_two [of 0 nm v "edata e"] assms by (simp add: put_0)
  then show "entry_name (stored nm v e) = nm" "entry_value (stored nm v e) = v" "length (edata (stored nm v e)) = kEntryEntrySlot"
    "entry_size (stored nm v e) = length nm + length v + kRfcOverhead"
    using assms by (simp_all add: stored_def entry_name_def entry_value_def entry_size_def)
qed

lemma ring_entries_push:
  assumes "num t < kMaxEntries" "length (slots t) = kMaxEntries" "tail t = (head t + num t) mod kMaxEntries"
  shows "ring_entries (t\<lparr>slots := (slots t)[tail t mod kMaxEntries := e], tail := tl', num := num t + 1, bytes := b, insert_count := ic\<rparr>) = ring_entries t @ [e]"
proof -
  have k: "0 < kMaxEntries" using assms(1) by simp
  have "(slots t)[tail t mod kMaxEntries := e] ! ((head t + i) mod kMaxEntries) = slots t ! ((head t + i) mod kMaxEntries)" if "i < num t" for i
  proof -
    have "(head t + num t) mod kMaxEntries \<noteq> (head t + i) mod kMaxEntries" using mod_add_inj [of "num t" kMaxEntries i] that assms(1) by simp
    then show ?thesis using assms(3) by simp
  qed
  then show ?thesis using assms k by (auto simp: ring_entries_def)
qed

lemma qinsert_spec:
  assumes "qtable_ok t" "qinsert nm v t = (ok, t')"
  shows "qtable_ok t' \<and> (ok, qabs t') = spec_insert nm v (qabs t) \<and> (\<not> ok \<longrightarrow> t' = t)"
proof (cases "length nm + length v + kRfcOverhead > capacity t \<or> length nm + length v > kEntryEntrySlot")
  case True
  then show ?thesis using assms by (auto simp: qinsert_def spec_insert_def qabs_def)
next
  case small: False
  let ?sz = "length nm + length v + kRfcOverhead" and ?u = "qevict_for (length nm + length v + kRfcOverhead) t"
  have fits: "qtable_fits t" using assms(1) by (simp add: qtable_ok_def)
  note k = qevict_for_spec [OF fits, of ?sz]
  have room: "length (make_room ?sz (capacity t) (fields t)) = num ?u" using k by (metis length_fields)
  show ?thesis
  proof (cases "num ?u \<ge> kMaxEntries")
    case True
    then have "num ?u = num t" using k fits by (auto simp: qtable_fits_def)
    moreover have "qinsert nm v t = (False, ?u)" using small True by (simp add: qinsert_def Let_def)
    ultimately show ?thesis using assms k room True small by (auto simp: spec_insert_def qabs_def Let_def)
  next
    case False
    let ?i = "tail ?u mod kMaxEntries"
    let ?e = "stored nm v (slots ?u ! ?i)"
    have t': "ok" "t' = ?u\<lparr>slots := (slots ?u)[?i := ?e], tail := (tail ?u + 1) mod kMaxEntries, num := num ?u + 1, bytes := bytes ?u + ?sz, insert_count := insert_count ?u + 1\<rparr>"
      using assms(2) small False by (auto simp: qinsert_def Let_def stored_def)
    have u: "length (slots ?u) = kMaxEntries" "tail ?u = (head ?u + num ?u) mod kMaxEntries" "list_all (\<lambda>e. length (edata e) = kEntryEntrySlot) (slots ?u)"
      using k by (auto simp: qtable_fits_def)
    have i: "?i < length (slots ?u)" using u(1) by (simp add: kMaxEntries_def)
    have sl: "length (edata (slots ?u ! ?i)) = kEntryEntrySlot" using u(3) i by (simp add: list_all_length)
    note s = stored_fields [OF sl, of nm v]
    have r: "ring_entries t' = ring_entries ?u @ [?e]" unfolding t'(2) by (rule ring_entries_push) (use False u in auto)
    have "list_all (\<lambda>e. length (edata e) = kEntryEntrySlot) ((slots ?u)[?i := ?e])"
      using u(3) s(3) small by (auto simp: list_all_iff dest: set_update_subset_insert [THEN subsetD])
    moreover have "name_len ?e + value_len ?e \<le> kEntryEntrySlot" using small by (simp add: stored_def)
    moreover have "(tail ?u + 1) mod kMaxEntries = (head ?u + (num ?u + 1)) mod kMaxEntries" unfolding u(2) by (simp add: mod_Suc_eq)
    ultimately have f: "qtable_fits t'" using k r s(4) small False
      by (simp add: qtable_fits_def) (simp add: t'(2))
    have "bytes ?u + ?sz \<le> capacity t" using k small by (auto simp: qtable_fits_def ring_entries_def)
    then have "qtable_ok t'" using f k by (simp add: qtable_ok_def t'(2))
    moreover have "fields t' = make_room ?sz (capacity t) (fields t) @ [(nm, v)]" using r s small k by (simp add: fields_def)
    moreover have "drop_count t' = drop_count t + (num t - num ?u)" "capacity t' = capacity t" using k by (auto simp: t'(2))
    ultimately show ?thesis using small False room t'(1) by (simp add: spec_insert_def qabs_def Let_def)
  qed
qed

lemma qset_capacity_spec:
  assumes "qtable_ok t"
  shows "qtable_ok (set_capacity c t) \<and> qabs (set_capacity c t) = spec_capacity c (qabs t)"
proof -
  let ?t = "t\<lparr>capacity := c\<rparr>"
  have same: "ring_entries ?t = ring_entries t" "fields ?t = fields t" by (simp_all add: ring_entries_def fields_def)
  have f: "qtable_fits ?t" using assms same by (simp add: qtable_ok_def qtable_fits_def)
  note k = qevict_for_spec [OF f, of 0]
  have "length (make_room 0 c (fields t)) = num (qevict_for 0 ?t)" using k same by (metis QpackDynamicTable.select_convs(2) QpackDynamicTable.update_convs(2) QpackDynamicTable.surjective length_fields)
  moreover have "bytes (qevict_for 0 ?t) \<le> c" using k by (auto simp: qtable_fits_def ring_entries_def)
  ultimately show ?thesis using k same by (auto simp: set_capacity_def qtable_ok_def qabs_def spec_capacity_def Let_def)
qed

lemma qclear_spec: "qtable_ok t \<Longrightarrow> qtable_ok (qclear t) \<and> qabs (qclear t) = (capacity t, 0, [])"
  by (auto simp: qtable_ok_def qtable_fits_def qclear_def ring_entries_def qabs_def fields_def kMaxEntries_def)

lemma qtable_new_ok: "qtable_ok (qtable_new cap)"
  by (simp add: qtable_ok_def qtable_fits_def qtable_new_def ring_entries_def kMaxEntries_def list_all_iff)

lemma get_absolute_fields:
  assumes "qtable_ok t"
  shows "get_absolute i t = (if drop_count t \<le> i \<and> i < insert_count t then Some (fields t ! (i - drop_count t)) else None)"
proof -
  have "insert_count t = drop_count t + num t" using assms by (simp add: qtable_ok_def qtable_fits_def)
  then show ?thesis by (auto simp: get_absolute_def Let_def fields_def ring_entries_def)
qed

section \<open>The encoder stream\<close>

datatype insert_op = InsertNameRef "byte list" "byte list" | InsertLiteral "byte list" "byte list"

fun encode_insert :: "insert_op \<Rightarrow> nat \<Rightarrow> QpackEncoder \<Rightarrow> byte list option \<times> QpackEncoder" where
  "encode_insert (InsertNameRef nm v) cap e = encode_insert_with_name_ref nm v cap e"
| "encode_insert (InsertLiteral nm v) cap e = encode_insert_literal_name nm v cap e"

text \<open>A sequence of insertions: what goes on the encoder stream, and the encoder after them.\<close>

fun encode_inserts :: "(insert_op \<times> nat) list \<Rightarrow> QpackEncoder \<Rightarrow> byte list \<times> QpackEncoder" where
  "encode_inserts [] e = ([], e)"
| "encode_inserts (x # xs) e =
     (case encode_insert (fst x) (snd x) e of (r, e) \<Rightarrow>
        case encode_inserts xs e of (bs, e) \<Rightarrow> ((case r of None \<Rightarrow> bs | Some b \<Rightarrow> b @ bs), e))"

lemma qinsert_small: "qinsert nm v t = (True, t') \<Longrightarrow> length nm \<le> kQpackMaxStringLen \<and> length v \<le> kQpackMaxStringLen"
  by (auto simp: qinsert_def Let_def kEntryEntrySlot_def kQpackMaxStringLen_def split: if_splits)

lemma encode_insert_applied:
  assumes "encode_insert x cap e = (r, e')" "qtable_ok (enc_table e)" "dec_table d = enc_table e"
  shows "qtable_ok (enc_table e') \<and>
    (case r of None \<Rightarrow> e' = e
     | Some b \<Rightarrow> b \<noteq> [] \<and> (\<forall>rest. apply_instruction (b @ rest) d = (True, length b, d\<lparr>dec_table := enc_table e'\<rparr>)))"
proof (cases r)
  case None
  have "e' = e \<or> (\<exists>nm v t. qinsert nm v (enc_table e) = (False, t) \<and> e' = e\<lparr>enc_table := t\<rparr>)"
    using assms(1) None by (cases x) (auto simp: encode_insert_with_name_ref_def encode_insert_literal_name_def split: option.splits prod.splits if_splits)
  then have "e' = e" using qinsert_spec [OF assms(2)] by fastforce
  then show ?thesis using None assms(2) by simp
next
  case (Some b)
  show ?thesis
  proof (cases x)
    case (InsertNameRef nm v)
    then obtain i out t where o: "qstatic_find_name nm = Some i" "put_int i 6 0xC0 cap [] = Some out" "qencode_string (use_huffman e) v cap out = Some b"
      "qinsert nm v (enc_table e) = (True, t)" "e' = e\<lparr>enc_table := t\<rparr>"
      using assms(1) Some by (auto simp: encode_insert_with_name_ref_def split: option.splits prod.splits if_splits)
    obtain w where i: "i < 2 ^ 62" "static_entry i = Some (nm, w)" using qstatic_find_name_entry [OF o(1)] by blast
    obtain n where n: "out = [] @ n" "int_written 6 0xC0 i n" "length out \<le> cap" by (rule put_int_written [OF o(2) i(1)]) simp_all
    obtain m where m: "b = out @ m" "string_written 7 0 v m"
      by (rule encode_value_written [OF o(3) _ n(3)]) (use qinsert_small [OF o(4)] in auto)
    have f: "n \<noteq> []" "hd n AND 0x80 = 0x80" "hd n AND 0x40 = 0x40" "\<And>rest. qpack_decode_int (n @ rest) 6 = Some (of_nat i, length n)"
      "\<And>rest. qdecode_string (m @ rest) 7 = Some (v, length m)" using n(2) m(2) by (auto simp: int_written_def string_written_def)
    show ?thesis using f n(1) m(1) i(2) unat_index [OF i(1)] o(4,5) Some assms(3) qinsert_spec [OF assms(2) o(4)]
      by (simp add: apply_instruction_def apply_insert_name_ref_def resolve_def Let_def)
  next
    case (InsertLiteral nm v)
    then obtain out t where o: "encode_string_impl (use_huffman e) nm 0x40 5 0x20 cap [] = Some out" "qencode_string (use_huffman e) v cap out = Some b"
      "qinsert nm v (enc_table e) = (True, t)" "e' = e\<lparr>enc_table := t\<rparr>"
      using assms(1) Some by (auto simp: encode_insert_literal_name_def encode_name_5bit_def encode_name_nbit_def split: option.splits prod.splits if_splits)
    obtain n where n: "out = [] @ n" "string_written 5 0x40 nm n" "length out \<le> cap"
      by (rule encode_string_written [OF o(1)]) (use qinsert_small [OF o(3)] in \<open>auto simp: string_form_def\<close>)
    obtain m where m: "b = out @ m" "string_written 7 0 v m"
      by (rule encode_value_written [OF o(2) _ n(3)]) (use qinsert_small [OF o(3)] in auto)
    have f: "n \<noteq> []" "hd n AND 0x80 = 0" "hd n AND 0x40 = 0x40" "\<And>rest. qdecode_string (n @ rest) 5 = Some (nm, length n)"
      "\<And>rest. qdecode_string (m @ rest) 7 = Some (v, length m)" using n(2) m(2) by (auto simp: string_written_def)
    show ?thesis using f n(1) m(1) o(3,4) Some assms(3) qinsert_spec [OF assms(2) o(3)]
      by (simp add: apply_instruction_def apply_insert_literal_name_def Let_def)
  qed
qed

lemma encode_inserts_applied:
  assumes "encode_inserts xs e = (bs, e')" "qtable_ok (enc_table e)" "dec_table d = enc_table e"
  shows "qtable_ok (enc_table e') \<and> decode_encoder_stream (bs @ rest) d = decode_encoder_stream rest (d\<lparr>dec_table := enc_table e'\<rparr>)"
  using assms
proof (induction xs arbitrary: e d bs)
  case Nil
  then show ?case by (cases d) auto
next
  case (Cons x xs)
  obtain r e1 where x: "encode_insert (fst x) (snd x) e = (r, e1)" by (cases "encode_insert (fst x) (snd x) e")
  obtain cs where cs: "encode_inserts xs e1 = (cs, e')" "bs = (case r of None \<Rightarrow> cs | Some b \<Rightarrow> b @ cs)"
    using Cons.prems(1) x by (auto split: prod.splits)
  note a = encode_insert_applied [OF x Cons.prems(2,3)]
  show ?case
  proof (cases r)
    case None
    then show ?thesis using Cons.IH [OF cs(1)] a cs(2) Cons.prems(3) by simp
  next
    case (Some b)
    have "decode_encoder_stream (bs @ rest) d = decode_encoder_stream (cs @ rest) (d\<lparr>dec_table := enc_table e1\<rparr>)"
      using a Some cs(2) by (subst decode_encoder_stream.simps) simp
    then show ?thesis using Cons.IH [OF cs(1), of "d\<lparr>dec_table := enc_table e1\<rparr>"] a by simp
  qed
qed

section \<open>Sequences of table operations\<close>

datatype qtable_op = QInsert "byte list" "byte list" | QCapacity nat | QClear

fun run_qtable :: "qtable_op list \<Rightarrow> QpackDynamicTable \<Rightarrow> QpackDynamicTable" where
  "run_qtable [] t = t"
| "run_qtable (QInsert nm v # ops) t = run_qtable ops (snd (qinsert nm v t))"
| "run_qtable (QCapacity n # ops) t = run_qtable ops (set_capacity n t)"
| "run_qtable (QClear # ops) t = run_qtable ops (qclear t)"

fun run_queue :: "qtable_op list \<Rightarrow> queue \<Rightarrow> queue" where
  "run_queue [] q = q"
| "run_queue (QInsert nm v # ops) q = run_queue ops (snd (spec_insert nm v q))"
| "run_queue (QCapacity n # ops) q = run_queue ops (spec_capacity n q)"
| "run_queue (QClear # ops) q = run_queue ops (fst q, 0, [])"

lemma run_qtable_spec: "qtable_ok t \<Longrightarrow> qtable_ok (run_qtable ops t) \<and> qabs (run_qtable ops t) = run_queue ops (qabs t)"
proof (induction ops t rule: run_qtable.induct)
  case (2 nm v ops t)
  obtain ok t' where i: "qinsert nm v t = (ok, t')" by (cases "qinsert nm v t")
  note s = qinsert_spec [OF 2(2) i]
  have "qabs t' = snd (spec_insert nm v (qabs t))" using s by (metis snd_conv)
  then show ?case using 2(1) s i by simp
next
  case (3 n ops t)
  then show ?case using qset_capacity_spec [of t n] by simp
next
  case (4 ops t)
  then show ?case using qclear_spec [of t] by (simp add: qabs_def)
qed simp

lemma first_match_None: "first_match P xs k = None \<longleftrightarrow> (\<forall>x\<in>set xs. \<not> P x)"
  by (induction xs arbitrary: k) auto

lemma first_match_skips: "first_match P xs k = Some i \<Longrightarrow> j < i - k \<Longrightarrow> \<not> P (xs ! j)"
proof (induction xs arbitrary: k j)
  case (Cons x xs)
  show ?case
  proof (cases "P x")
    case False
    then have f: "first_match P xs (k + 1) = Some i" using Cons.prems by simp
    show ?thesis using Cons.IH [OF f, of "j - 1"] Cons.prems(2) False by (cases j) auto
  qed (use Cons.prems in auto)
qed simp

text \<open>
  What a search promises on a queue that has dropped \<open>d\<close> fields: not found when no field matches, otherwise the
  absolute index of the oldest field that does, as the 32 bit signed number it is narrowed to.
\<close>

definition search_result :: "(byte list \<times> byte list \<Rightarrow> bool) \<Rightarrow> nat \<Rightarrow> (byte list \<times> byte list) list \<Rightarrow> int \<Rightarrow> bool" where
  "search_result P d fs r \<longleftrightarrow>
     (if list_ex P fs then \<exists>j < length fs. P (fs ! j) \<and> (\<forall>k < j. \<not> P (fs ! k)) \<and> r = sint (of_nat (d + j) :: 32 word)
      else r = kNotFound)"

lemma search_result_first_match:
  "search_result P d (map g xs) (case first_match (\<lambda>e. P (g e)) xs d of None \<Rightarrow> kNotFound | Some i \<Rightarrow> sint (of_nat i :: 32 word))"
proof (cases "first_match (\<lambda>e. P (g e)) xs d")
  case None
  then have "\<not> list_ex P (map g xs)" by (simp add: first_match_None list_ex_iff)
  then show ?thesis using None by (simp only: search_result_def if_False option.case refl)
next
  case (Some i)
  note f = first_match_found [OF Some]
  show ?thesis using f first_match_skips [OF Some] Some
    by (auto simp: search_result_def list_ex_length intro!: exI [of _ "i - d"])
qed

lemma qfind_result: "search_result (\<lambda>f. f = (nm, v)) (drop_count t) (fields t) (qfind nm v t)"
  using search_result_first_match [of "\<lambda>f. f = (nm, v)" "drop_count t" "\<lambda>e. (entry_name e, entry_value e)" "ring_entries t"]
  by (simp add: qfind_def fields_def)

lemma qfind_name_result: "search_result (\<lambda>f. fst f = nm) (drop_count t) (fields t) (qfind_name nm t)"
  using search_result_first_match [of "\<lambda>f. fst f = nm" "drop_count t" "\<lambda>e. (entry_name e, entry_value e)" "ring_entries t"]
  by (simp add: qfind_name_def fields_def)

lemma sint_index: "n < 2 ^ 31 \<Longrightarrow> sint (of_nat n :: 32 word) = int n"
  by (simp add: sint_uint unsigned_of_nat take_bit_nat_eq_self signed_take_bit_eq_if_positive bit_iff_odd take_bit_int_eq_self)

text \<open>While fewer than \<open>2 ^ 31\<close> fields were ever inserted, the result is the absolute index itself.\<close>

lemma search_result_small:
  assumes "search_result P d fs r" "d + length fs \<le> 2 ^ 31"
  shows "if list_ex P fs then \<exists>j. r = int j \<and> d \<le> j \<and> j < d + length fs \<and> P (fs ! (j - d)) else r = kNotFound"
proof (cases "list_ex P fs")
  case True
  then obtain j where j: "j < length fs" "P (fs ! j)" "r = sint (of_nat (d + j) :: 32 word)" using assms(1) by (auto simp: search_result_def)
  have "d + j < 2 ^ 31" using j(1) assms(2) by linarith
  then show ?thesis using sint_index [of "d + j"] j True by (auto intro!: exI [of _ "d + j"])
qed (use assms in \<open>simp add: search_result_def\<close>)

lemma get_absolute_queue:
  assumes "qtable_ok t"
  shows "get_absolute j t =
    (if drop_count t \<le> j \<and> j < drop_count t + length (fields t) then Some (fields t ! (j - drop_count t)) else None)"
proof -
  have "insert_count t = drop_count t + num t" using assms by (auto simp: qtable_ok_def qtable_fits_def)
  moreover have "length (fields t) = num t" by (simp add: fields_def ring_entries_def)
  ultimately show ?thesis using get_absolute_fields [OF assms, of j] by simp
qed

lemma qfind_small:
  assumes "qtable_ok t" "drop_count t + length (fields t) \<le> 2 ^ 31"
  shows "if (nm, v) \<in> set (fields t) then 0 \<le> qfind nm v t \<and> get_absolute (nat (qfind nm v t)) t = Some (nm, v) else qfind nm v t = -1"
  using search_result_small [OF qfind_result [of nm v t] assms(2)]
  by (auto simp: get_absolute_queue [OF assms(1)] list_ex_iff kNotFound_def)

lemma qfind_name_small:
  assumes "qtable_ok t" "drop_count t + length (fields t) \<le> 2 ^ 31"
  shows "if nm \<in> fst ` set (fields t) then 0 \<le> qfind_name nm t \<and> (\<exists>w. get_absolute (nat (qfind_name nm t)) t = Some (nm, w))
    else qfind_name nm t = -1"
proof (cases "nm \<in> fst ` set (fields t)")
  case True
  then have "list_ex (\<lambda>f. fst f = nm) (fields t)" by (auto simp: list_ex_iff)
  then obtain j where "qfind_name nm t = int j" "drop_count t \<le> j" "j < drop_count t + length (fields t)" "fst (fields t ! (j - drop_count t)) = nm"
    using search_result_small [OF qfind_name_result [of nm t] assms(2)] by auto
  then show ?thesis using True by (auto simp: get_absolute_queue [OF assms(1)] prod_eq_iff)
next
  case False
  then have "\<not> list_ex (\<lambda>f. fst f = nm) (fields t)" by (auto simp: list_ex_iff)
  then show ?thesis using search_result_small [OF qfind_name_result [of nm t] assms(2)] False by (simp add: kNotFound_def)
qed

section \<open>Properties\<close>

text \<open>
  C12. QPACK field sections are read back. Whatever the encoder writes for a list of at most 256 headers, with names and
  values of at most 8192 bytes, is within the buffer it was given, and every decoder, whatever its dynamic table holds,
  reads from it exactly these headers in this order: indexed lines, lines with a static name and literal lines, with and
  without the Huffman code.
\<close>

theorem qpack_roundtrip:
  assumes "encode_field_section hs cap e = Some out" "length hs \<le> kQpackMaxHeaders"
    "list_all (\<lambda>h. length (fst h) \<le> kQpackMaxStringLen \<and> length (snd h) \<le> kQpackMaxStringLen) hs"
  shows "decode_field_section out d = (True, hs) \<and> length out \<le> cap"
  by (rule field_section_read_back [OF assms])

definition example_fields :: "(byte list \<times> byte list) list" where
  "example_fields = [(bytes_of '':path'', bytes_of ''/''), (bytes_of '':authority'', bytes_of ''000'')]"

lemma example_encoded: "encode_field_section example_fields 40 (qencoder_new 0) \<noteq> None"
proof -
  have start: "put_int 0 8 0 40 [] = Some [0]" "put_int 0 7 0 40 [0] = Some [0, 0]" by code_simp+
  have "encode_lines True example_fields 40 [0, 0] \<noteq> None" by code_simp
  then show ?thesis by (simp add: encode_field_section_def start qencoder_new_def)
qed

theorem qpack_roundtrip_witness:
  "\<exists>out. encode_field_section example_fields 40 (qencoder_new 0) = Some out \<and> decode_field_section out (qdecoder_new 0) = (True, example_fields)"
proof -
  obtain out where o: "encode_field_section example_fields 40 (qencoder_new 0) = Some out" using example_encoded by blast
  have "length example_fields \<le> kQpackMaxHeaders"
    "list_all (\<lambda>h. length (fst h) \<le> kQpackMaxStringLen \<and> length (snd h) \<le> kQpackMaxStringLen) example_fields"
    by (simp_all add: example_fields_def bytes_of_def kQpackMaxHeaders_def kQpackMaxStringLen_def)
  then show ?thesis using qpack_roundtrip [OF o, of "qdecoder_new 0"] o by blast
qed

text \<open>
  C5. The encoder and the decoder keep equal dynamic tables. After any sequence of insert instructions, each with its own
  output buffer, failed ones included (a name that is not static, a buffer too small, an entry the table refuses), the
  bytes sent on the encoder stream are all accepted by a decoder that started with the same capacity, and its table is
  then the encoder's; so every absolute index names the same entry at both ends.
\<close>

theorem qpack_tables_in_sync:
  "case encode_inserts xs (set_huffman huff (qencoder_new cap)) of (bs, e) \<Rightarrow>
     decode_encoder_stream bs (qdecoder_new cap) = (True, (qdecoder_new cap)\<lparr>dec_table := enc_table e\<rparr>) \<and> qtable_ok (enc_table e)"
proof -
  obtain bs e where x: "encode_inserts xs (set_huffman huff (qencoder_new cap)) = (bs, e)"
    by (cases "encode_inserts xs (set_huffman huff (qencoder_new cap))")
  have "qtable_ok (enc_table (set_huffman huff (qencoder_new cap)))" "dec_table (qdecoder_new cap) = enc_table (set_huffman huff (qencoder_new cap))"
    by (simp_all add: set_huffman_def qencoder_new_def qdecoder_new_def qtable_new_ok)
  note a = encode_inserts_applied [OF x this, of "[]"]
  have "decode_encoder_stream [] d = (True, d)" for d by (simp add: decode_encoder_stream.simps)
  then show ?thesis using a x by simp
qed

text \<open>
  C14. The ring of fixed slots is a queue of header fields. After any sequence of insertions, changes of capacity and
  clears, what the table holds is what the abstract queue holds: the newest fields, oldest first, dropped from the front
  only as far as an insertion or a smaller capacity needs, with the refused insertions changing nothing. The size never
  exceeds the capacity and a lookup by absolute index finds exactly the fields not yet dropped. A search, by name and
  value or by name alone, returns -1 if no field matches, and otherwise the absolute index of the oldest match narrowed
  to a 32 bit signed integer. So as long as at most \<open>2 ^ 31\<close> fields have been inserted since the last clear it is
  non-negative exactly when the table holds the field, and looks up to it; beyond that the narrowing loses the index:
  the one after \<open>2 ^ 31 - 1\<close> reads as negative, and that of \<open>2 ^ 32 - 1\<close> as not found. (The counters are 64 bit wide
  in the code; that \<open>2 ^ 64\<close> insertions would wrap them is not modelled.)
\<close>

theorem qpack_table_refines_queue:
  "let t = run_qtable ops (qtable_new cap) in
    qabs t = run_queue ops (cap, 0, []) \<and>
    (case run_queue ops (cap, 0, []) of (c, d, fs) \<Rightarrow>
       total fs \<le> c \<and> (get_absolute i t = (if d \<le> i \<and> i < d + length fs then Some (fs ! (i - d)) else None)) \<and>
       search_result (\<lambda>f. f = (nm, v)) d fs (qfind nm v t) \<and> search_result (\<lambda>f. fst f = nm) d fs (qfind_name nm t) \<and>
       (d + length fs \<le> 2 ^ 31 \<longrightarrow>
          (if (nm, v) \<in> set fs then 0 \<le> qfind nm v t \<and> get_absolute (nat (qfind nm v t)) t = Some (nm, v) else qfind nm v t = -1) \<and>
          (if nm \<in> fst ` set fs then 0 \<le> qfind_name nm t \<and> (\<exists>w. get_absolute (nat (qfind_name nm t)) t = Some (nm, w))
           else qfind_name nm t = -1)) \<and>
       sint (of_nat (2 ^ 31) :: 32 word) < 0 \<and> sint (of_nat (2 ^ 32 - 1) :: 32 word) = -1)"
proof -
  define t where "t = run_qtable ops (qtable_new cap)"
  have new: "qabs (qtable_new cap) = (cap, 0, [])" by (simp add: qabs_def qtable_new_def fields_def ring_entries_def)
  have t: "qtable_ok t" "qabs t = run_queue ops (cap, 0, [])" using run_qtable_spec [OF qtable_new_ok, of ops cap] new by (simp_all add: t_def)
  have fits: "qtable_fits t" "bytes t \<le> capacity t" "insert_count t = drop_count t + num t" using t(1) by (auto simp: qtable_ok_def qtable_fits_def)
  have q: "run_queue ops (cap, 0, []) = (capacity t, drop_count t, fields t)" using t(2) by (simp add: qabs_def)
  show ?thesis unfolding q t_def [symmetric] Let_def prod.case
    using fits(2) total_fields [OF fits(1)] get_absolute_queue [OF t(1), of i] qfind_small [OF t(1)] qfind_name_small [OF t(1)] qfind_result [of nm v t] qfind_name_result [of nm t]
    by (simp add: qabs_def)
qed

theorem qpack_table_refines_queue_witness:
  "qfind [1] [2] (run_qtable [QInsert [1] [3], QInsert [1] [2]] (qtable_new 4096)) = 1"
proof -
  have q: "run_queue [QInsert [1] [3], QInsert [1] [2]] (4096, 0, []) = (4096, 0, [([1], [3]), ([1], [2])])"
    by (simp add: spec_insert_def Let_def kRfcOverhead_def kEntryEntrySlot_def kMaxEntries_def total_def field_size_def)
  have "search_result (\<lambda>f. f = ([1], [2])) 0 [([1], [3]), ([1], [2])] (qfind [1] [2] (run_qtable [QInsert [1] [3], QInsert [1] [2]] (qtable_new 4096)))"
    using qpack_table_refines_queue [of "[QInsert [1] [3], QInsert [1] [2]]" 4096 0 "[1]" "[2]"] unfolding q Let_def by simp
  then show ?thesis by (auto simp: search_result_def less_Suc_eq numeral_2_eq_2)
qed

end
