(* ===== verification/Http1_Parser.thy ===== *)
theory Http1_Parser
  imports Bolt_Bytes
begin

text \<open>
  The HTTP/1 request parser (\<^verbatim>\<open>include/boltapi/http/http1_parser.h\<close>, \<^verbatim>\<open>src/http/http1_parser.cpp\<close>). The buffer is
  the list of bytes received so far; a string view is the list of the bytes it shows. The return codes
  0, -1 and 1 are \<open>Ok\<close>, \<open>More\<close> and \<open>Err\<close>. The header array with its count is the list of the headers counted.
\<close>

section \<open>Requests\<close>

datatype HTTP1Method = GET | HEAD | POST | PUT | DELETE | CONNECT | OPTIONS | TRACE | PATCH | UNKNOWN_METHOD

datatype HTTP1Version = HTTP_1_0 | HTTP_1_1 | HTTP_2_0 | UNKNOWN_VERSION

datatype HTTP1State = START | METHOD | URL | VERSION | HEADER_FIELD | HEADER_VALUE | BODY | COMPLETE | ERROR

record HTTP1Request =
  req_method :: HTTP1Method
  version :: HTTP1Version
  method_str :: "byte list"
  url :: "byte list"
  path :: "byte list"
  query :: "byte list"
  fragment :: "byte list"
  req_headers :: "(byte list \<times> byte list) list"
  body :: "byte list"
  content_length :: u64
  has_content_length :: bool
  chunked :: bool
  keep_alive :: bool
  upgrade :: bool
  upgrade_protocol :: "byte list"

definition MAX_HEADERS :: nat where "MAX_HEADERS = 100"

definition request_init :: HTTP1Request where
  "request_init = \<lparr>req_method = UNKNOWN_METHOD, version = HTTP_1_1, method_str = [], url = [], path = [], query = [], fragment = [],
     req_headers = [], body = [], content_length = 0, has_content_length = False, chunked = False, keep_alive = False,
     upgrade = False, upgrade_protocol = []\<rparr>"

definition lower_byte :: "byte \<Rightarrow> byte" where
  "lower_byte c = (if 0x41 \<le> c \<and> c \<le> 0x5A then c + 32 else c)"

definition str_eq_ci :: "byte list \<Rightarrow> byte list \<Rightarrow> bool" where
  "str_eq_ci a b \<longleftrightarrow> map lower_byte a = map lower_byte b"

definition ieq :: "byte list \<Rightarrow> byte list \<Rightarrow> bool" where
  "ieq a lower \<longleftrightarrow> map lower_byte a = lower"

fun find_header :: "(byte list \<times> byte list) list \<Rightarrow> byte list \<Rightarrow> byte list" where
  "find_header [] nm = []"
| "find_header (h # hs) nm = (if str_eq_ci (fst h) nm then snd h else find_header hs nm)"

definition get_header :: "HTTP1Request \<Rightarrow> byte list \<Rightarrow> byte list" where
  "get_header req nm = find_header (req_headers req) nm"

definition has_header :: "HTTP1Request \<Rightarrow> byte list \<Rightarrow> bool" where
  "has_header req nm \<longleftrightarrow> get_header req nm \<noteq> []"

section \<open>Message framing\<close>

definition kMaxLeadingEmptyLines :: nat where "kMaxLeadingEmptyLines = 4"
definition kMaxContentLength :: u64 where "kMaxContentLength = push_bit 53 1"
definition kMaxContentLengthDigits :: nat where "kMaxContentLengthDigits = 16"

fun content_digits :: "byte list \<Rightarrow> u64 \<Rightarrow> u64 option" where
  "content_digits [] n = Some n"
| "content_digits (c # v) n = (if c < 0x30 \<or> c > 0x39 then None else content_digits v (n * 10 + ucast (c - 0x30)))"

definition parse_content_length :: "byte list \<Rightarrow> u64 option" where
  "parse_content_length v =
     (if v = [] \<or> length v > kMaxContentLengthDigits then None
      else case content_digits v 0 of None \<Rightarrow> None | Some n \<Rightarrow> if n > kMaxContentLength then None else Some n)"

text \<open>The loop over the headers; the flag tells whether it met no error.\<close>

fun framing_loop :: "(byte list \<times> byte list) list \<Rightarrow> nat \<Rightarrow> HTTP1Request \<Rightarrow> bool \<times> HTTP1Request" where
  "framing_loop [] te_count req = (True, req)"
| "framing_loop (h # hs) te_count req =
     (if ieq (fst h) (bytes_of ''content-length'') then
        (case parse_content_length (snd h) of
           None \<Rightarrow> (False, req)
         | Some n \<Rightarrow>
             if has_content_length req \<and> n \<noteq> content_length req then (False, req)
             else framing_loop hs te_count (req\<lparr>content_length := n, has_content_length := True\<rparr>))
      else if ieq (fst h) (bytes_of ''transfer-encoding'') then
        (if te_count + 1 > 1 \<or> \<not> ieq (snd h) (bytes_of ''chunked'') then (False, req)
         else if version req \<noteq> HTTP_1_1 then (False, req)
         else framing_loop hs (te_count + 1) (req\<lparr>chunked := True\<rparr>))
      else framing_loop hs te_count req)"

definition extract_framing :: "HTTP1Request \<Rightarrow> bool \<times> HTTP1Request" where
  "extract_framing req =
     (case framing_loop (req_headers req) 0 req of
        (False, req) \<Rightarrow> (False, req)
      | (True, req) \<Rightarrow>
          if chunked req \<and> has_content_length req then (False, req)
          else
            let connection = get_header req (bytes_of ''connection'');
                req = req\<lparr>keep_alive := (if version req = HTTP_1_1 then connection = [] \<or> ieq connection (bytes_of ''keep-alive'')
                                        else ieq connection (bytes_of ''keep-alive''))\<rparr>;
                up = get_header req (bytes_of ''upgrade'')
            in (True, if up \<noteq> [] then req\<lparr>upgrade := True, upgrade_protocol := up\<rparr> else req))"

section \<open>Chunked bodies\<close>

datatype 'a scan = ScanOk 'a | ScanMore | ScanErr

definition hex_val :: "byte \<Rightarrow> u64 option" where
  "hex_val c =
     (if 0x30 \<le> c \<and> c \<le> 0x39 then Some (ucast (c - 0x30))
      else if 0x61 \<le> c \<and> c \<le> 0x66 then Some (ucast (c - 0x61 + 10))
      else if 0x41 \<le> c \<and> c \<le> 0x46 then Some (ucast (c - 0x41 + 10))
      else None)"

fun hex_digits :: "byte list \<Rightarrow> nat \<Rightarrow> u64 \<Rightarrow> nat \<times> u64" where
  "hex_digits [] i v = (i, v)"
| "hex_digits (b # p) i v =
     (if i < 17 then (case hex_val b of None \<Rightarrow> (i, v) | Some h \<Rightarrow> hex_digits p (i + 1) (push_bit 4 v OR h)) else (i, v))"

definition kMaxLine :: nat where "kMaxLine = 4096"

text \<open>The rest of the line from position \<open>i\<close>: the position after its CRLF.\<close>

fun line_rest :: "byte list \<Rightarrow> nat \<Rightarrow> nat scan" where
  "line_rest [] i = ScanMore"
| "line_rest (b # p) i =
     (if i < kMaxLine then
        (if b = 0x0A then ScanErr
         else if b \<noteq> 0x0D then line_rest p (i + 1)
         else case p of [] \<Rightarrow> ScanMore | c # rest \<Rightarrow> if c \<noteq> 0x0A then ScanErr else ScanOk (i + 2))
      else ScanErr)"

definition chunk_size_line :: "byte list \<Rightarrow> (nat \<times> u64) scan" where
  "chunk_size_line p =
     (let (i, v) = hex_digits p 0 0
      in if i > 16 then ScanErr
         else if i = length p then ScanMore
         else if i = 0 then ScanErr
         else case line_rest (drop i p) i of ScanOk line_len \<Rightarrow> ScanOk (line_len, v) | ScanMore \<Rightarrow> ScanMore | ScanErr \<Rightarrow> ScanErr)"

text \<open>The loop over the chunks: the position after the line of the last chunk.\<close>

fun scan_chunks :: "nat \<Rightarrow> byte list \<Rightarrow> nat \<Rightarrow> nat scan" where
  "scan_chunks 0 data p = ScanOk p"
| "scan_chunks (Suc guard) data p =
     (case chunk_size_line (drop p data) of
        ScanMore \<Rightarrow> ScanMore
      | ScanErr \<Rightarrow> ScanErr
      | ScanOk (line, sz) \<Rightarrow>
          let p = p + line
          in if sz = 0 then ScanOk p
             else if unat sz > length data - p then ScanMore
             else if length data - p - unat sz < 2 then ScanMore
             else if data ! (p + unat sz) \<noteq> 0x0D \<or> data ! (p + unat sz + 1) \<noteq> 0x0A then ScanErr
             else scan_chunks guard data (p + (unat sz + 2)))"

text \<open>The loop over the trailer lines.\<close>

fun scan_trailer :: "nat \<Rightarrow> byte list \<Rightarrow> nat \<Rightarrow> nat scan" where
  "scan_trailer 0 data p = ScanErr"
| "scan_trailer (Suc guard) data p =
     (let start = p;
          p = p + length (takeWhile (\<lambda>b. b \<noteq> 0x0A) (drop p data))
      in if p = length data then ScanMore
         else if p = start \<or> data ! (p - 1) \<noteq> 0x0D then ScanErr
         else if p + 1 - start = 2 then ScanOk (p + 1)
         else scan_trailer guard data (p + 1))"

definition scan_chunked :: "byte list \<Rightarrow> nat scan" where
  "scan_chunked data =
     (case scan_chunks (length data + 1) data 0 of
        ScanOk p \<Rightarrow> scan_trailer (length data + 1) data p
      | ScanMore \<Rightarrow> ScanMore
      | ScanErr \<Rightarrow> ScanErr)"

text \<open>Decoding in place: the buffer with the decoded length.\<close>

fun dechunk_loop :: "nat \<Rightarrow> nat \<Rightarrow> byte list \<Rightarrow> nat \<Rightarrow> nat \<Rightarrow> byte list \<times> nat" where
  "dechunk_loop 0 raw_len data rd wr = (data, wr)"
| "dechunk_loop (Suc guard) raw_len data rd wr =
     (case chunk_size_line (take (raw_len - rd) (drop rd data)) of
        ScanOk (line, sz) \<Rightarrow>
          if sz = 0 then (data, wr)
          else
            let rd = rd + line;
                data = put wr (take (unat sz) (drop rd data)) data
            in dechunk_loop guard raw_len data (rd + (unat sz + 2)) (wr + unat sz)
      | _ \<Rightarrow> (data, wr))"

definition dechunk_in_place :: "byte list \<Rightarrow> nat \<Rightarrow> byte list \<times> nat" where
  "dechunk_in_place data raw_len = dechunk_loop (raw_len + 1) raw_len data 0 0"

section \<open>The parser\<close>

datatype rc = Ok | More | Err

record HTTP1Parser =
  state :: HTTP1State
  not_http :: bool
  pos :: nat
  mark :: nat

type_synonym parse_step = "rc \<times> HTTP1Parser \<times> HTTP1Request"

definition parser_new :: HTTP1Parser where
  "parser_new = \<lparr>state = START, not_http = False, pos = 0, mark = 0\<rparr>"

definition reset :: "HTTP1Parser \<Rightarrow> HTTP1Parser" where
  "reset p = p\<lparr>state := START, pos := 0, mark := 0\<rparr>"

definition is_token_char :: "byte \<Rightarrow> bool" where
  "is_token_char c \<longleftrightarrow>
     (0x30 \<le> c \<and> c \<le> 0x39) \<or> (0x61 \<le> c \<and> c \<le> 0x7A) \<or> (0x41 \<le> c \<and> c \<le> 0x5A) \<or>
     c \<in> set (bytes_of ''!#$%&'' @ [0x27] @ bytes_of ''*+-.^_`|~'')"

definition is_whitespace :: "byte \<Rightarrow> bool" where
  "is_whitespace c \<longleftrightarrow> c = 0x20 \<or> c = 0x09 \<or> c = 0x0D \<or> c = 0x0A"

text \<open>
  The loops that advance to a stop byte: how far they go, and whether they stopped at a byte that is not allowed.
\<close>

fun scan_to :: "byte \<Rightarrow> (byte \<Rightarrow> bool) \<Rightarrow> byte list \<Rightarrow> nat \<times> bool" where
  "scan_to stop allowed [] = (0, False)"
| "scan_to stop allowed (b # bs) =
     (if b = stop then (0, False)
      else if \<not> allowed b then (0, True)
      else case scan_to stop allowed bs of (n, bad) \<Rightarrow> (Suc n, bad))"

definition fail :: "HTTP1Parser \<Rightarrow> HTTP1Request \<Rightarrow> parse_step" where
  "fail p req = (Err, p\<lparr>state := ERROR\<rparr>, req)"

definition method_of :: "byte list \<Rightarrow> HTTP1Method" where
  "method_of m =
     (if m = bytes_of ''GET'' then GET
      else if m = bytes_of ''POST'' then POST
      else if m = bytes_of ''PUT'' then PUT
      else if m = bytes_of ''DELETE'' then DELETE
      else if m = bytes_of ''HEAD'' then HEAD
      else if m = bytes_of ''OPTIONS'' then OPTIONS
      else if m = bytes_of ''PATCH'' then PATCH
      else if m = bytes_of ''CONNECT'' then CONNECT
      else if m = bytes_of ''TRACE'' then TRACE
      else UNKNOWN_METHOD)"

text \<open>The bytes between the mark and the position.\<close>

definition marked :: "byte list \<Rightarrow> HTTP1Parser \<Rightarrow> byte list" where
  "marked data p = take (pos p - mark p) (drop (mark p) data)"

definition parse_method :: "byte list \<Rightarrow> HTTP1Parser \<Rightarrow> HTTP1Request \<Rightarrow> parse_step" where
  "parse_method data p req =
     (let p = p\<lparr>mark := pos p\<rparr>;
          (n, bad) = scan_to 0x20 is_token_char (drop (pos p) data);
          p = p\<lparr>pos := pos p + n\<rparr>
      in if bad then fail p req
         else if pos p \<ge> length data then (More, p, req)
         else if pos p = mark p then fail p req
         else (Ok, p\<lparr>pos := pos p + 1, state := URL\<rparr>,
               req\<lparr>method_str := marked data p, req_method := method_of (marked data p)\<rparr>))"

definition parse_url :: "byte list \<Rightarrow> HTTP1Parser \<Rightarrow> HTTP1Request \<Rightarrow> parse_step" where
  "parse_url data p req =
     (let p = p\<lparr>mark := pos p\<rparr>;
          (n, bad) = scan_to 0x20 (\<lambda>c. \<not> (c < 0x21 \<or> c = 0x7F)) (drop (pos p) data);
          p = p\<lparr>pos := pos p + n\<rparr>
      in if bad then fail p req
         else if pos p \<ge> length data then (More, p, req)
         else if pos p = mark p then fail p req
         else (Ok, p\<lparr>pos := pos p + 1, state := VERSION\<rparr>, req\<lparr>url := marked data p\<rparr>))"

definition parse_version :: "byte list \<Rightarrow> HTTP1Parser \<Rightarrow> HTTP1Request \<Rightarrow> parse_step" where
  "parse_version data p req =
     (let avail = length data - pos p
      in if take (min avail 5) (drop (pos p) data) \<noteq> take (min avail 5) (bytes_of ''HTTP/'')
         then fail (p\<lparr>not_http := True\<rparr>) req
         else if pos p + 10 > length data then (More, p, req)
         else if take 10 (drop (pos p) data) = bytes_of ''HTTP/1.1'' @ [0x0D, 0x0A]
         then (Ok, p\<lparr>pos := pos p + 10, state := HEADER_FIELD\<rparr>, req\<lparr>version := HTTP_1_1\<rparr>)
         else if take 10 (drop (pos p) data) = bytes_of ''HTTP/1.0'' @ [0x0D, 0x0A]
         then (Ok, p\<lparr>pos := pos p + 10, state := HEADER_FIELD\<rparr>, req\<lparr>version := HTTP_1_0\<rparr>)
         else fail p req)"

text \<open>The name goes to the slot after the headers counted; it is passed on to the parser of the value.\<close>

definition parse_header_field :: "byte list \<Rightarrow> HTTP1Parser \<Rightarrow> HTTP1Request \<Rightarrow> parse_step \<times> byte list" where
  "parse_header_field data p req =
     (if length (req_headers req) \<ge> MAX_HEADERS then (fail p req, [])
      else
        let p = p\<lparr>mark := pos p\<rparr>;
            (n, bad) = scan_to 0x3A is_token_char (drop (pos p) data);
            p = p\<lparr>pos := pos p + n\<rparr>
        in if bad then (fail p req, [])
           else if pos p \<ge> length data then ((More, p, req), [])
           else if pos p = mark p then (fail p req, [])
           else
             let nm = marked data p;
                 p = p\<lparr>pos := pos p + 1\<rparr>;
                 p = p\<lparr>pos := pos p + length (takeWhile (\<lambda>c. c = 0x20 \<or> c = 0x09) (drop (pos p) data))\<rparr>
             in ((Ok, p\<lparr>state := HEADER_VALUE\<rparr>, req), nm))"

fun trim_end :: "byte list \<Rightarrow> nat \<Rightarrow> nat \<Rightarrow> nat" where
  "trim_end data lo 0 = 0"
| "trim_end data lo (Suc e) = (if Suc e > lo \<and> is_whitespace (data ! e) then trim_end data lo e else Suc e)"

definition parse_header_value :: "byte list \<Rightarrow> byte list \<Rightarrow> HTTP1Parser \<Rightarrow> HTTP1Request \<Rightarrow> parse_step" where
  "parse_header_value nm data p req =
     (let p = p\<lparr>mark := pos p\<rparr>;
          (n, bad) = scan_to 0x0D (\<lambda>c. \<not> ((c < 0x20 \<and> c \<noteq> 0x09) \<or> c = 0x7F)) (drop (pos p) data);
          p = p\<lparr>pos := pos p + n\<rparr>
      in if bad then fail p req
         else if pos p + 1 \<ge> length data then (More, p, req)
         else if data ! (pos p + 1) \<noteq> 0x0A then fail p req
         else
           let value_end = trim_end data (mark p) (pos p);
               v = take (value_end - mark p) (drop (mark p) data)
           in (Ok, p\<lparr>pos := pos p + 2, state := HEADER_FIELD\<rparr>, req\<lparr>req_headers := req_headers req @ [(nm, v)]\<rparr>))"

fun find_from :: "byte \<Rightarrow> byte list \<Rightarrow> nat \<Rightarrow> nat option" where
  "find_from c [] i = None"
| "find_from c (b # s) i = (if b = c then Some i else find_from c s (i + 1))"

definition parse_url_components :: "HTTP1Request \<Rightarrow> HTTP1Request" where
  "parse_url_components req =
     (let u = url req
      in case find_from 0x3F u 0 of
           Some query_pos \<Rightarrow>
             let req = req\<lparr>path := take query_pos u\<rparr>
             in (case find_from 0x23 (drop query_pos u) query_pos of
                   Some fragment_pos \<Rightarrow>
                     req\<lparr>query := take (fragment_pos - query_pos - 1) (drop (query_pos + 1) u),
                         fragment := drop (fragment_pos + 1) u\<rparr>
                 | None \<Rightarrow> req\<lparr>query := drop (query_pos + 1) u\<rparr>)
         | None \<Rightarrow>
             (case find_from 0x23 u 0 of
                Some fragment_pos \<Rightarrow> req\<lparr>path := take fragment_pos u, fragment := drop (fragment_pos + 1) u\<rparr>
              | None \<Rightarrow> req\<lparr>path := u\<rparr>))"

fun skip_empty_lines :: "nat \<Rightarrow> byte list \<Rightarrow> HTTP1Parser \<Rightarrow> HTTP1Request \<Rightarrow> parse_step" where
  "skip_empty_lines 0 data p req = (Ok, p, req)"
| "skip_empty_lines (Suc n) data p req =
     (if pos p < length data \<and> data ! pos p = 0x0D then
        (if pos p + 1 \<ge> length data then (More, p, req)
         else if data ! (pos p + 1) \<noteq> 0x0A then fail p req
         else skip_empty_lines n data (p\<lparr>pos := pos p + 2\<rparr>) req)
      else (Ok, p, req))"

text \<open>Sequencing as \<open>parse\<close> does it: a step that fails ends the parse with the code that the state tells.\<close>

definition and_then :: "parse_step \<Rightarrow> (HTTP1Parser \<Rightarrow> HTTP1Request \<Rightarrow> parse_step) \<Rightarrow> parse_step" where
  "and_then r k = (case r of (rc, p, req) \<Rightarrow>
     if rc \<noteq> Ok then (if state p = ERROR then Err else More, p, req) else k p req)"

definition parse_header :: "byte list \<Rightarrow> HTTP1Parser \<Rightarrow> HTTP1Request \<Rightarrow> parse_step" where
  "parse_header data p req =
     (case parse_header_field data p req of (r, nm) \<Rightarrow> and_then r (parse_header_value nm data))"

lemma parse_header_advances: "parse_header data p req = (Ok, p', req') \<Longrightarrow> pos p < pos p'"
  by (auto simp: parse_header_def parse_header_field_def parse_header_value_def and_then_def fail_def Let_def split: if_splits prod.splits)

function header_loop :: "byte list \<Rightarrow> HTTP1Parser \<Rightarrow> HTTP1Request \<Rightarrow> parse_step" where
  "header_loop data p req =
     (if pos p < length data then
        (if data ! pos p = 0x0D then
           (if pos p + 1 \<ge> length data then (More, p, req)
            else if data ! (pos p + 1) \<noteq> 0x0A then fail p req
            else (Ok, p\<lparr>pos := pos p + 2, state := BODY\<rparr>, req))
         else case parse_header data p req of
           (Ok, p, req) \<Rightarrow> header_loop data p req
         | (More, p, req) \<Rightarrow> (More, p, req)
         | (Err, p, req) \<Rightarrow> (Err, p, req))
      else (More, p, req))"
  by pat_completeness auto
termination
  by (relation "measure (\<lambda>(data, p, req). length data - pos p)") (auto dest!: sym [of "(Ok, _, _)"] parse_header_advances)

declare header_loop.simps [simp del]

definition parse_body :: "byte list \<Rightarrow> HTTP1Parser \<Rightarrow> HTTP1Request \<Rightarrow> parse_step" where
  "parse_body data p req =
     (case extract_framing (parse_url_components req) of
        (False, req) \<Rightarrow> fail p req
      | (True, req) \<Rightarrow>
          (case (if chunked req then scan_chunked (drop (pos p) data) else ScanOk 0) of
             ScanMore \<Rightarrow> (More, p, req)
           | ScanErr \<Rightarrow> fail p req
           | ScanOk raw_len \<Rightarrow>
               let (p, req) = (if chunked req then (p\<lparr>pos := pos p + raw_len\<rparr>, req\<lparr>body := take raw_len (drop (pos p) data)\<rparr>) else (p, req))
               in if has_content_length req \<and> content_length req > 0 then
                    (if length data - pos p < unat (content_length req) then (More, p, req)
                     else (Ok, p\<lparr>pos := pos p + unat (content_length req), state := COMPLETE\<rparr>,
                           req\<lparr>body := take (unat (content_length req)) (drop (pos p) data)\<rparr>))
                  else (Ok, p\<lparr>state := COMPLETE\<rparr>, req)))"

text \<open>On \<open>Ok\<close> the bytes consumed are the final position.\<close>

definition http1_parse :: "byte list \<Rightarrow> HTTP1Parser \<Rightarrow> HTTP1Request \<Rightarrow> parse_step" where
  "http1_parse data p req =
     (if data = [] then (More, p, req)
      else
        let p = p\<lparr>pos := 0, mark := 0, state := START, not_http := False\<rparr>;
            req = req\<lparr>req_headers := [], content_length := 0, has_content_length := False, chunked := False, upgrade := False\<rparr>
        in and_then (skip_empty_lines kMaxLeadingEmptyLines data p req) (\<lambda>p req.
           if pos p \<ge> length data then (More, p, req)
           else and_then (parse_method data p req) (\<lambda>p req.
           and_then (parse_url data p req) (\<lambda>p req.
           and_then (parse_version data p req) (\<lambda>p req.
           and_then (header_loop data p req) (parse_body data))))))"

end
