(* ===== verification/Http1_Correct.thy ===== *)
theory Http1_Correct
  imports Http1_Parser
begin

text \<open>
  The HTTP/1 parser on a growing buffer and the framing of the requests it accepts: each step of the parser, and
  their composition, keeps its verdict when more bytes arrive; an accepted request has one length only.
\<close>

section \<open>More bytes never change a verdict\<close>

lemma scan_to_bounds: "scan_to stop allowed xs = (n, bad) \<Longrightarrow> n \<le> length xs \<and> (bad \<longrightarrow> n < length xs)"
  by (induction xs arbitrary: n bad) (auto split: if_splits prod.splits)

lemma scan_to_append: "scan_to stop allowed xs = (n, bad) \<Longrightarrow> n < length xs \<Longrightarrow> scan_to stop allowed (xs @ ys) = (n, bad)"
  by (induction xs arbitrary: n bad) (auto split: if_splits prod.splits)

text \<open>
  A step of the parser that depends on nothing after what it has read: a verdict stays when more bytes arrive,
  an error is exactly the error state, and the position stays in the buffer.
\<close>

definition stable :: "(byte list \<Rightarrow> HTTP1Parser \<Rightarrow> HTTP1Request \<Rightarrow> parse_step) \<Rightarrow> bool" where
  "stable f \<longleftrightarrow> (\<forall>data ext p req rc p' req'. f data p req = (rc, p', req') \<longrightarrow> pos p \<le> length data \<longrightarrow> state p \<noteq> ERROR \<longrightarrow>
     (rc = Err \<longleftrightarrow> state p' = ERROR) \<and> (rc \<noteq> More \<longrightarrow> f (data @ ext) p req = (rc, p', req')) \<and> (rc = Ok \<longrightarrow> pos p' \<le> length data))"

lemma stableI:
  assumes "\<And>data ext p req rc p' req'. f data p req = (rc, p', req') \<Longrightarrow> pos p \<le> length data \<Longrightarrow> state p \<noteq> ERROR \<Longrightarrow>
     (rc = Err \<longleftrightarrow> state p' = ERROR) \<and> (rc \<noteq> More \<longrightarrow> f (data @ ext) p req = (rc, p', req')) \<and> (rc = Ok \<longrightarrow> pos p' \<le> length data)"
  shows "stable f"
  using assms by (auto simp: stable_def)

lemma stableD:
  assumes "stable f" "f data p req = (rc, p', req')" "pos p \<le> length data" "state p \<noteq> ERROR"
  shows "(rc = Err \<longleftrightarrow> state p' = ERROR) \<and> (rc \<noteq> More \<longrightarrow> f (data @ ext) p req = (rc, p', req')) \<and> (rc = Ok \<longrightarrow> pos p' \<le> length data)"
  using assms by (auto simp: stable_def)

lemma stable_and_then:
  assumes f: "stable f" and g: "stable g"
  shows "stable (\<lambda>data p req. and_then (f data p req) (g data))"
proof (rule stableI)
  fix data ext p req rc p' req'
  assume a: "and_then (f data p req) (g data) = (rc, p', req')" "pos p \<le> length data" "state p \<noteq> ERROR"
  obtain c q r where fr: "f data p req = (c, q, r)" by (cases "f data p req")
  note F = stableD [OF f fr a(2,3), of ext]
  show "(rc = Err \<longleftrightarrow> state p' = ERROR) \<and> (rc \<noteq> More \<longrightarrow> and_then (f (data @ ext) p req) (g (data @ ext)) = (rc, p', req')) \<and>
    (rc = Ok \<longrightarrow> pos p' \<le> length data)"
  proof (cases "c = Ok")
    case True
    then have "g data q r = (rc, p', req')" "pos q \<le> length data" "state q \<noteq> ERROR" using a F fr by (auto simp: and_then_def)
    from stableD [OF g this, of ext] show ?thesis using F True by (auto simp: and_then_def)
  next
    case False
    then show ?thesis using a F fr by (auto simp: and_then_def split: if_splits)
  qed
qed

lemma marked_append: "mark p + (pos p - mark p) \<le> length data \<Longrightarrow> marked (data @ ext) p = marked data p"
  by (simp add: marked_def)

lemma parse_method_stable: "stable parse_method"
proof (rule stableI)
  fix data ext p req rc p' req'
  assume a: "parse_method data p req = (rc, p', req')" "pos p \<le> length data" "state p \<noteq> ERROR"
  obtain n bad where s: "scan_to 0x20 is_token_char (drop (pos p) data) = (n, bad)" by fastforce
  note b = scan_to_bounds [OF s] and e = scan_to_append [OF s, of ext]
  show "(rc = Err \<longleftrightarrow> state p' = ERROR) \<and> (rc \<noteq> More \<longrightarrow> parse_method (data @ ext) p req = (rc, p', req')) \<and> (rc = Ok \<longrightarrow> pos p' \<le> length data)"
    using a b e s by (auto simp: parse_method_def fail_def Let_def marked_def split: if_splits)
qed

lemma parse_url_stable: "stable parse_url"
proof (rule stableI)
  fix data ext p req rc p' req'
  assume a: "parse_url data p req = (rc, p', req')" "pos p \<le> length data" "state p \<noteq> ERROR"
  obtain n bad where s: "scan_to 0x20 (\<lambda>c. \<not> (c < 0x21 \<or> c = 0x7F)) (drop (pos p) data) = (n, bad)" by fastforce
  note b = scan_to_bounds [OF s] and e = scan_to_append [OF s, of ext]
  show "(rc = Err \<longleftrightarrow> state p' = ERROR) \<and> (rc \<noteq> More \<longrightarrow> parse_url (data @ ext) p req = (rc, p', req')) \<and> (rc = Ok \<longrightarrow> pos p' \<le> length data)"
    using a b e s by (auto simp: parse_url_def fail_def Let_def marked_def split: if_splits)
qed

lemma take_differ: "take (min (length xs) n) xs \<noteq> take (min (length xs) n) ys \<Longrightarrow> take (min (length (xs @ zs)) n) (xs @ zs) \<noteq> take (min (length (xs @ zs)) n) ys"
proof
  assume d: "take (min (length xs) n) xs \<noteq> take (min (length xs) n) ys"
    and e: "take (min (length (xs @ zs)) n) (xs @ zs) = take (min (length (xs @ zs)) n) ys"
  have "take (min (length xs) n) (take (min (length (xs @ zs)) n) (xs @ zs)) = take (min (length xs) n) (take (min (length (xs @ zs)) n) ys)"
    by (simp only: e)
  then show False using d by (simp add: min_def split: if_splits)
qed

lemma parse_version_stable: "stable parse_version"
proof (rule stableI)
  fix data ext p req rc p' req'
  assume a: "parse_version data p req = (rc, p', req')" "pos p \<le> length data" "state p \<noteq> ERROR"
  let ?r = "drop (pos p) data" and ?h = "bytes_of ''HTTP/''"
  have d: "drop (pos p) (data @ ext) = ?r @ ext" using a(2) by simp
  show "(rc = Err \<longleftrightarrow> state p' = ERROR) \<and> (rc \<noteq> More \<longrightarrow> parse_version (data @ ext) p req = (rc, p', req')) \<and> (rc = Ok \<longrightarrow> pos p' \<le> length data)"
  proof (cases "take (min (length ?r) 5) ?r = take (min (length ?r) 5) ?h")
    case False
    then show ?thesis using a take_differ [OF False, of ext] d
      by (auto simp: parse_version_def fail_def Let_def simp del: drop_append take_append)
  next
    case True
    show ?thesis
    proof (cases "pos p + 10 \<le> length data")
      case t: True
      then have "min (length ?r) 5 = 5" by simp
      then show ?thesis using a True t by (auto simp: parse_version_def fail_def Let_def split: if_splits)
    qed (use a True in \<open>auto simp: parse_version_def fail_def Let_def split: if_splits\<close>)
  qed
qed

lemma skip_empty_lines_append:
  "skip_empty_lines n data p req = (rc, p', req') \<Longrightarrow> pos p \<le> length data \<Longrightarrow> state p \<noteq> ERROR \<Longrightarrow>
   (rc = Err \<longleftrightarrow> state p' = ERROR) \<and> (rc = Ok \<longrightarrow> pos p' \<le> length data) \<and>
   (rc = Err \<or> rc = Ok \<and> pos p' < length data \<longrightarrow> skip_empty_lines n (data @ ext) p req = (rc, p', req'))"
  by (induction n arbitrary: p) (auto simp: nth_append fail_def split: if_splits)

text \<open>Leading empty lines with the test for the start of the request line.\<close>

definition request_start :: "byte list \<Rightarrow> HTTP1Parser \<Rightarrow> HTTP1Request \<Rightarrow> parse_step" where
  "request_start data p req =
     and_then (skip_empty_lines kMaxLeadingEmptyLines data p req) (\<lambda>p req. if pos p \<ge> length data then (More, p, req) else (Ok, p, req))"

lemma request_start_stable: "stable request_start"
proof (rule stableI)
  fix data ext p req rc p' req'
  assume a: "request_start data p req = (rc, p', req')" "pos p \<le> length data" "state p \<noteq> ERROR"
  obtain c q r where s: "skip_empty_lines kMaxLeadingEmptyLines data p req = (c, q, r)" by (cases "skip_empty_lines kMaxLeadingEmptyLines data p req")
  show "(rc = Err \<longleftrightarrow> state p' = ERROR) \<and> (rc \<noteq> More \<longrightarrow> request_start (data @ ext) p req = (rc, p', req')) \<and> (rc = Ok \<longrightarrow> pos p' \<le> length data)"
    using a skip_empty_lines_append [OF s a(2,3), of ext] s by (cases c) (auto simp: request_start_def and_then_def split: if_splits)
qed

lemma takeWhile_append_stop: "length (takeWhile P xs) < length xs \<Longrightarrow> takeWhile P (xs @ ys) = takeWhile P xs"
  by (metis takeWhile_append1 takeWhile_eq_all_conv less_irrefl)

lemma parse_header_field_append:
  assumes "parse_header_field data p req = ((rc, p', req'), nm)" "pos p \<le> length data" "state p \<noteq> ERROR"
  shows "(rc = Err \<longleftrightarrow> state p' = ERROR) \<and> (rc = Ok \<longrightarrow> pos p' \<le> length data) \<and>
    (rc = Err \<or> rc = Ok \<and> pos p' < length data \<longrightarrow> parse_header_field (data @ ext) p req = ((rc, p', req'), nm))"
proof -
  obtain n bad where s: "scan_to 0x3A is_token_char (drop (pos p) data) = (n, bad)" by fastforce
  let ?q = "Suc (pos p + n)"
  let ?w = "takeWhile (\<lambda>c. c = 0x20 \<or> c = 0x09)"
  have w: "?q \<le> length data \<Longrightarrow> length (?w (drop ?q data)) \<le> length data - ?q" using length_takeWhile_le [of _ "drop ?q data"] by simp
  have x: "?q \<le> length data \<Longrightarrow> ?q + length (?w (drop ?q data)) < length data \<Longrightarrow> ?w (drop ?q data @ ext) = ?w (drop ?q data)"
    by (intro takeWhile_append_stop) simp
  show ?thesis
    using assms s scan_to_bounds [OF s] scan_to_append [OF s, of ext] w x
    by (auto simp: parse_header_field_def fail_def Let_def marked_def split: if_splits)
qed

lemma trim_end_append: "e \<le> length data \<Longrightarrow> trim_end (data @ ext) lo e = trim_end data lo e"
  by (induction e) (auto simp: nth_append)

lemma trim_end_le: "trim_end data lo e \<le> e"
  by (induction e) auto

lemma parse_header_value_append:
  assumes "parse_header_value nm data p req = (rc, p', req')" "pos p \<le> length data" "state p \<noteq> ERROR"
  shows "(rc = Err \<longleftrightarrow> state p' = ERROR) \<and> (rc \<noteq> More \<longrightarrow> parse_header_value nm (data @ ext) p req = (rc, p', req')) \<and> (rc = Ok \<longrightarrow> pos p' \<le> length data)"
proof -
  obtain n bad where s: "scan_to 0x0D (\<lambda>c. \<not> ((c < 0x20 \<and> c \<noteq> 0x09) \<or> c = 0x7F)) (drop (pos p) data) = (n, bad)" by fastforce
  have t: "trim_end data (pos p) (pos p + n) \<le> pos p + n" by (rule trim_end_le)
  show ?thesis
    using assms s scan_to_bounds [OF s] scan_to_append [OF s, of ext] t
    by (auto simp: parse_header_value_def fail_def Let_def nth_append trim_end_append split: if_splits)
qed

lemma parse_header_value_end: "pos p = length data \<Longrightarrow> fst (parse_header_value nm data p req) = More"
  by (simp add: parse_header_value_def Let_def)

lemma parse_header_stable: "stable parse_header"
proof (rule stableI)
  fix data ext p req rc p' req'
  assume a: "parse_header data p req = (rc, p', req')" "pos p \<le> length data" "state p \<noteq> ERROR"
  obtain c q r nm where f: "parse_header_field data p req = ((c, q, r), nm)" by (metis surj_pair)
  note F = parse_header_field_append [OF f a(2,3), of ext]
  show "(rc = Err \<longleftrightarrow> state p' = ERROR) \<and> (rc \<noteq> More \<longrightarrow> parse_header (data @ ext) p req = (rc, p', req')) \<and> (rc = Ok \<longrightarrow> pos p' \<le> length data)"
  proof (cases "c = Ok")
    case True
    then have v: "parse_header_value nm data q r = (rc, p', req')" "pos q \<le> length data" "state q \<noteq> ERROR"
      using a F f by (auto simp: parse_header_def and_then_def)
    note V = parse_header_value_append [OF v, of ext]
    have "pos q < length data" if "rc \<noteq> More" using parse_header_value_end [of q data nm r] v that by (cases "pos q = length data") auto
    then show ?thesis using F V True by (auto simp: parse_header_def and_then_def)
  next
    case False
    then show ?thesis using a F f by (auto simp: parse_header_def and_then_def split: if_splits)
  qed
qed

lemma header_loop_stable: "stable header_loop"
proof (rule stableI)
  fix data ext p req rc p' req'
  assume "header_loop data p req = (rc, p', req')" "pos p \<le> length data" "state p \<noteq> ERROR"
  then show "(rc = Err \<longleftrightarrow> state p' = ERROR) \<and> (rc \<noteq> More \<longrightarrow> header_loop (data @ ext) p req = (rc, p', req')) \<and> (rc = Ok \<longrightarrow> pos p' \<le> length data)"
  proof (induction data p req rule: header_loop.induct)
    case (1 data p req)
    obtain c q r where h: "parse_header data p req = (c, q, r)" by (cases "parse_header data p req")
    note H = stableD [OF parse_header_stable h 1(3,4), of ext]
    show ?case
    proof (cases "pos p < length data \<and> data ! pos p \<noteq> 0x0D \<and> c = Ok")
      case True
      then have "header_loop data q r = (rc, p', req')" using 1(2) h by (simp add: header_loop.simps [of data p])
      then have "(rc = Err \<longleftrightarrow> state p' = ERROR) \<and> (rc \<noteq> More \<longrightarrow> header_loop (data @ ext) q r = (rc, p', req')) \<and> (rc = Ok \<longrightarrow> pos p' \<le> length data)"
        using 1(1) [of c "(q, r)" q r] True h H by auto
      then show ?thesis using True H h by (auto simp: header_loop.simps [of "data @ ext" p] nth_append)
    next
      case False
      then show ?thesis using 1(2-) h H by (cases c) (auto simp: header_loop.simps [of data p] header_loop.simps [of "data @ ext" p] nth_append fail_def split: if_splits)
    qed
  qed
qed

lemma hex_digits_bounds: "hex_digits xs i v = (j, w) \<Longrightarrow> i \<le> j \<and> j \<le> i + length xs \<and> (i \<le> 17 \<longrightarrow> j \<le> 17)"
  by (induction xs arbitrary: i v) (fastforce split: if_splits option.splits)+

lemma hex_digits_append: "hex_digits xs i v = (j, w) \<Longrightarrow> j < i + length xs \<or> j > 16 \<Longrightarrow> i \<le> 17 \<Longrightarrow> hex_digits (xs @ ys) i v = (j, w)"
proof (induction xs arbitrary: i v)
  case Nil
  then show ?case by (cases ys) auto
qed (auto split: if_splits option.splits)

lemma line_rest_append: "line_rest xs i \<noteq> ScanMore \<Longrightarrow> line_rest (xs @ ys) i = line_rest xs i"
proof (induction xs arbitrary: i)
  case (Cons b xs)
  show ?case
  proof (cases "i < kMaxLine \<and> b \<noteq> 0x0A \<and> b \<noteq> 0x0D")
    case True
    then show ?thesis using Cons by simp
  next
    case False
    then show ?thesis using Cons.prems by (cases xs) auto
  qed
qed simp

lemma line_rest_bounds: "line_rest xs i = ScanOk n \<Longrightarrow> i + 2 \<le> n \<and> n \<le> i + length xs"
proof (induction xs arbitrary: i)
  case (Cons b xs)
  show ?case
  proof (cases "i < kMaxLine \<and> b \<noteq> 0x0A \<and> b \<noteq> 0x0D")
    case True
    then show ?thesis using Cons.IH [of "i + 1"] Cons.prems by simp
  next
    case False
    then show ?thesis using Cons.prems by (cases xs) (auto split: if_splits)
  qed
qed simp

lemma chunk_size_line_append: "chunk_size_line xs \<noteq> ScanMore \<Longrightarrow> chunk_size_line (xs @ ys) = chunk_size_line xs"
proof -
  assume a: "chunk_size_line xs \<noteq> ScanMore"
  obtain j w where h: "hex_digits xs 0 0 = (j, w)" by fastforce
  then have b: "j \<le> length xs" using hex_digits_bounds [OF h] by simp
  show ?thesis using a h b hex_digits_append [OF h, of ys] line_rest_append [of "drop j xs" j ys]
    by (auto simp: chunk_size_line_def split: scan.splits if_splits)
qed

lemma chunk_size_line_bounds: "chunk_size_line xs = ScanOk (n, sz) \<Longrightarrow> 3 \<le> n \<and> n \<le> length xs"
proof -
  assume a: "chunk_size_line xs = ScanOk (n, sz)"
  obtain j w where h: "hex_digits xs 0 0 = (j, w)" by fastforce
  show ?thesis using a h hex_digits_bounds [OF h] by (auto simp: chunk_size_line_def split: scan.splits if_splits dest!: line_rest_bounds)
qed

lemma scan_chunks_append:
  "scan_chunks g data p \<noteq> ScanMore \<Longrightarrow> p \<le> length data \<Longrightarrow> length data - p < g \<Longrightarrow> length data + length ext - p < g' \<Longrightarrow>
   scan_chunks g' (data @ ext) p = scan_chunks g data p \<and> (\<forall>q. scan_chunks g data p = ScanOk q \<longrightarrow> p + 3 \<le> q \<and> q \<le> length data)"
proof (induction g data p arbitrary: g' rule: scan_chunks.induct)
  case (2 g data p)
  obtain k where k: "g' = Suc k" using 2 by (cases g') auto
  show ?case
  proof (cases "chunk_size_line (drop p data)")
    case (ScanOk x)
    obtain line sz where x: "x = (line, sz)" by (cases x)
    have l: "3 \<le> line" "p + line \<le> length data" using chunk_size_line_bounds [of "drop p data" line sz] ScanOk x 2(3) by auto
    have e: "chunk_size_line (drop p data @ ext) = ScanOk (line, sz)" using chunk_size_line_append [of "drop p data" ext] ScanOk x by simp
    let ?q = "p + line"
    show ?thesis
    proof (cases "sz = 0 \<or> unat sz > length data - ?q \<or> length data - ?q - unat sz < 2 \<or> data ! (?q + unat sz) \<noteq> 0x0D \<or> data ! (?q + unat sz + 1) \<noteq> 0x0A")
      case True
      show ?thesis
      proof (cases "sz = 0")
        case True
        then show ?thesis using ScanOk x e l k 2(3) by simp
      next
        case nz: False
        have fits: "unat sz \<le> length data - ?q" "2 \<le> length data - ?q - unat sz"
          using 2(2) ScanOk x nz by (auto simp: Let_def not_less split: if_splits)
        then have "Suc (?q + unat sz) < length data" using l by linarith
        then have at: "(data @ ext) ! (?q + unat sz) = data ! (?q + unat sz)" "(data @ ext) ! Suc (?q + unat sz) = data ! Suc (?q + unat sz)"
          by (simp_all add: nth_append)
        have fits': "\<not> unat sz > length (data @ ext) - ?q" "\<not> length (data @ ext) - ?q - unat sz < 2" using fits by auto
        have bad: "data ! (?q + unat sz) \<noteq> 0x0D \<or> data ! Suc (?q + unat sz) \<noteq> 0x0A" using True nz fits by simp
        have "scan_chunks (Suc g) data p = ScanErr" using ScanOk x nz fits bad by (simp add: Let_def)
        moreover have "scan_chunks g' (data @ ext) p = ScanErr" using 2(3) e nz fits' bad at k l by (simp add: Let_def)
        ultimately show ?thesis by simp
      qed
    next
      case False
      have r: "scan_chunks (Suc g) data p = scan_chunks g data (?q + (unat sz + 2))" using False ScanOk x by (auto simp: Let_def)
      have q: "?q + (unat sz + 2) \<le> length data" using False by auto
      have "scan_chunks k (data @ ext) (?q + (unat sz + 2)) = scan_chunks g data (?q + (unat sz + 2)) \<and>
          (\<forall>y. scan_chunks g data (?q + (unat sz + 2)) = ScanOk y \<longrightarrow> ?q + (unat sz + 2) + 3 \<le> y \<and> y \<le> length data)"
        using 2(1) [OF ScanOk x [symmetric] refl, of k] 2(2-) r q k l False by auto
      moreover have "scan_chunks g' (data @ ext) p = scan_chunks k (data @ ext) (?q + (unat sz + 2))"
        using False q e 2(3) k by (auto simp: Let_def nth_append)
      ultimately show ?thesis using r by fastforce
    qed
  next
    case ScanErr
    then show ?thesis using 2(3) k chunk_size_line_append [of "drop p data" ext] by simp
  qed (use 2 in simp)
qed simp

lemma scan_trailer_append:
  "scan_trailer g data p \<noteq> ScanMore \<Longrightarrow> p \<le> length data \<Longrightarrow> length data - p < g \<Longrightarrow> length data + length ext - p < g' \<Longrightarrow>
   scan_trailer g' (data @ ext) p = scan_trailer g data p \<and> (\<forall>q. scan_trailer g data p = ScanOk q \<longrightarrow> p + 2 \<le> q \<and> q \<le> length data)"
proof (induction g data p arbitrary: g' rule: scan_trailer.induct)
  case (2 g data p)
  obtain k where k: "g' = Suc k" using 2 by (cases g') auto
  let ?t = "takeWhile (\<lambda>b. b \<noteq> 0x0A) (drop p data)"
  let ?q = "p + length ?t"
  have "length ?t \<le> length data - p" using length_takeWhile_le [of "\<lambda>b. b \<noteq> 0x0A" "drop p data"] by simp
  then have ne: "?q < length data" using 2(2,3) by (cases "?q = length data") (auto simp: Let_def)
  then have t: "takeWhile (\<lambda>b. b \<noteq> 0x0A) (drop p data @ ext) = ?t" by (intro takeWhile_append_stop) auto
  show ?case
  proof (cases "?q = p \<or> data ! (?q - 1) \<noteq> 0x0D \<or> ?q + 1 - p = 2")
    case True
    then show ?thesis using ne t k 2(3) by (auto simp: Let_def nth_append)
  next
    case False
    have r: "scan_trailer (Suc g) data p = scan_trailer g data (?q + 1)" using False ne by (auto simp: Let_def)
    have "scan_trailer k (data @ ext) (?q + 1) = scan_trailer g data (?q + 1) \<and>
        (\<forall>y. scan_trailer g data (?q + 1) = ScanOk y \<longrightarrow> ?q + 1 + 2 \<le> y \<and> y \<le> length data)"
      using 2(1) [of p ?q k] 2(2-) r ne k False by auto
    moreover have "scan_trailer g' (data @ ext) p = scan_trailer k (data @ ext) (?q + 1)"
      using False ne t k 2(3) by (auto simp: Let_def nth_append)
    ultimately show ?thesis using r by fastforce
  qed
qed simp

lemma scan_chunked_append:
  "scan_chunked data \<noteq> ScanMore \<Longrightarrow> scan_chunked (data @ ext) = scan_chunked data \<and> (\<forall>n. scan_chunked data = ScanOk n \<longrightarrow> 5 \<le> n \<and> n \<le> length data)"
proof -
  assume a: "scan_chunked data \<noteq> ScanMore"
  then have c: "scan_chunks (length data + 1) data 0 \<noteq> ScanMore" by (auto simp: scan_chunked_def)
  note C = scan_chunks_append [OF c, of ext "length (data @ ext) + 1"]
  show ?thesis
  proof (cases "scan_chunks (length data + 1) data 0")
    case (ScanOk q)
    then have q: "q \<le> length data" "3 \<le> q" "scan_chunks (length (data @ ext) + 1) (data @ ext) 0 = ScanOk q" using C by auto
    have "scan_trailer (length data + 1) data q \<noteq> ScanMore" using a ScanOk by (simp add: scan_chunked_def)
    from scan_trailer_append [OF this, of ext "length (data @ ext) + 1"] q ScanOk show ?thesis by (fastforce simp: scan_chunked_def)
  qed (use c C in \<open>auto simp: scan_chunked_def\<close>)
qed

lemma parse_body_stable: "stable parse_body"
proof (rule stableI)
  fix data ext p req rc p' req'
  assume a: "parse_body data p req = (rc, p', req')" "pos p \<le> length data" "state p \<noteq> ERROR"
  obtain ok r where f: "extract_framing (parse_url_components req) = (ok, r)" by fastforce
  note S = scan_chunked_append [of "drop (pos p) data" ext]
  show "(rc = Err \<longleftrightarrow> state p' = ERROR) \<and> (rc \<noteq> More \<longrightarrow> parse_body (data @ ext) p req = (rc, p', req')) \<and> (rc = Ok \<longrightarrow> pos p' \<le> length data)"
  proof (cases "ok \<and> chunked r")
    case True
    show ?thesis
    proof (cases "scan_chunked (drop (pos p) data)")
      case (ScanOk n)
      then have "n \<le> length data - pos p" "scan_chunked (drop (pos p) data @ ext) = ScanOk n" using S by auto
      then show ?thesis using a f True ScanOk by (auto simp: parse_body_def fail_def Let_def split: if_splits)
    qed (use a f True S in \<open>auto simp: parse_body_def fail_def\<close>)
  next
    case False
    show ?thesis
    proof (cases ok)
      case True
      then have "parse_body d p req = (if has_content_length r \<and> content_length r > 0 then
            (if length d - pos p < unat (content_length r) then (More, p, r)
             else (Ok, p\<lparr>pos := pos p + unat (content_length r), state := COMPLETE\<rparr>, r\<lparr>body := take (unat (content_length r)) (drop (pos p) d)\<rparr>))
          else (Ok, p\<lparr>state := COMPLETE\<rparr>, r))" for d
        using False f by (simp add: parse_body_def)
      then show ?thesis using a by (auto split: if_splits)
    qed (use a f in \<open>auto simp: parse_body_def fail_def\<close>)
  qed
qed

lemma and_then_assoc: "and_then (and_then r f) g = and_then r (\<lambda>p req. and_then (f p req) g)"
  by (auto simp: and_then_def split: prod.splits)

lemma request_start_seq:
  assumes "pos p \<le> length data" "state p \<noteq> ERROR"
  shows "and_then (skip_empty_lines kMaxLeadingEmptyLines data p req) (\<lambda>p req. if pos p \<ge> length data then (More, p, req) else k p req) =
   and_then (request_start data p req) k"
proof -
  obtain c q r where s: "skip_empty_lines kMaxLeadingEmptyLines data p req = (c, q, r)" by (cases "skip_empty_lines kMaxLeadingEmptyLines data p req")
  show ?thesis using skip_empty_lines_append [OF s assms] s by (auto simp: request_start_def and_then_def)
qed

text \<open>The parse of a buffer from the start, as a chain of steps.\<close>

definition parse_chain :: "byte list \<Rightarrow> HTTP1Parser \<Rightarrow> HTTP1Request \<Rightarrow> parse_step" where
  "parse_chain = (\<lambda>data p req. and_then (request_start data p req) (\<lambda>p req. and_then (parse_method data p req) (\<lambda>p req.
     and_then (parse_url data p req) (\<lambda>p req. and_then (parse_version data p req) (\<lambda>p req. and_then (header_loop data p req) (parse_body data))))))"

lemma parse_chain_stable: "stable parse_chain"
  unfolding parse_chain_def
  by (intro stable_and_then request_start_stable parse_method_stable parse_url_stable parse_version_stable header_loop_stable parse_body_stable)

definition parser_start :: "HTTP1Parser \<Rightarrow> HTTP1Parser" where
  "parser_start p = p\<lparr>pos := 0, mark := 0, state := START, not_http := False\<rparr>"

definition request_start_state :: "HTTP1Request \<Rightarrow> HTTP1Request" where
  "request_start_state req = req\<lparr>req_headers := [], content_length := 0, has_content_length := False, chunked := False, upgrade := False\<rparr>"

lemma http1_parse_chain: "data \<noteq> [] \<Longrightarrow> http1_parse data p req = parse_chain data (parser_start p) (request_start_state req)"
  using request_start_seq [of "parser_start p" data]
  by (simp add: http1_parse_def parse_chain_def Let_def) (simp add: parser_start_def request_start_state_def)

lemma http1_parse_append:
  assumes "http1_parse data p req = (rc, p', req')" "rc \<noteq> More"
  shows "http1_parse (data @ ext) p req = (rc, p', req') \<and> (rc = Err \<longleftrightarrow> state p' = ERROR) \<and> (rc = Ok \<longrightarrow> pos p' \<le> length data)"
proof -
  have d: "data \<noteq> []" using assms by (auto simp: http1_parse_def)
  then have "parse_chain data (parser_start p) (request_start_state req) = (rc, p', req')" using assms(1) http1_parse_chain by simp
  from stableD [OF parse_chain_stable this, of ext] show ?thesis
    using d assms(2) http1_parse_chain [of "data @ ext" p req] by (simp add: parser_start_def)
qed

section \<open>Message framing is unambiguous\<close>

definition decimal_value :: "byte list \<Rightarrow> nat" where
  "decimal_value v = foldl (\<lambda>n c. n * 10 + (unat c - 48)) 0 v"

lemma content_digits_value:
  assumes "content_digits v n = Some m" "unat n < 10 ^ k" "k + length v \<le> 16"
  shows "list_all (\<lambda>c. 0x30 \<le> c \<and> c \<le> 0x39) v \<and> unat m = foldl (\<lambda>n c. n * 10 + (unat c - 48)) (unat n) v"
  using assms
proof (induction v arbitrary: n k)
  case (Cons c v)
  then have c: "0x30 \<le> c" "c \<le> 0x39" "content_digits v (n * 10 + ucast (c - 0x30)) = Some m" by (auto split: if_splits)
  have u: "unat (c - 0x30) = unat c - 48" "unat c \<le> 57" "48 \<le> unat c"
    using c(1,2) by (simp_all add: unat_sub word_le_nat_alt)
  have k: "(10::nat) ^ Suc k \<le> 10 ^ 16" using Cons.prems(3) by (intro power_increasing) auto
  then have small: "unat n * 10 + (unat c - 48) < 10 ^ Suc k" using Cons.prems(2) u by simp
  then have big: "unat n * 10 + (unat c - 48) < 2 ^ 64" using k by simp
  then have "unat n * 10 < 2 ^ 64" by simp
  then have m: "unat (n * 10) = unat n * 10" by (simp add: unat_word_ariths)
  have "unat (ucast (c - 0x30) :: u64) = unat c - 48" using u by (simp add: word_nat)
  then have e: "unat (n * 10 + ucast (c - 0x30)) = unat n * 10 + (unat c - 48)"
    using big m unat_word_ariths(1) [of "n * 10" "ucast (c - 0x30)"] by simp
  then show ?case using Cons.IH [OF c(3), of "Suc k"] small Cons.prems(3) c(1,2) by simp
qed simp

lemma parse_content_length_value:
  "parse_content_length v = Some n \<Longrightarrow> v \<noteq> [] \<and> list_all (\<lambda>c. 0x30 \<le> c \<and> c \<le> 0x39) v \<and> unat n = decimal_value v \<and> decimal_value v \<le> 2 ^ 53"
  using content_digits_value [of v 0 n 0]
  by (auto simp: parse_content_length_def decimal_value_def kMaxContentLengthDigits_def kMaxContentLength_def word_le_nat_alt not_less
      split: if_splits option.splits)

lemma framing_loop_ok:
  assumes "framing_loop hs te req = (True, req')"
  shows "\<exists>n c ch. req' = req\<lparr>content_length := n, has_content_length := c, chunked := ch\<rparr> \<and>
    (has_content_length req \<longrightarrow> c \<and> n = content_length req) \<and> (chunked req \<longrightarrow> ch) \<and>
    (\<forall>h\<in>set hs. ieq (fst h) (bytes_of ''content-length'') \<longrightarrow> c \<and> parse_content_length (snd h) = Some n) \<and>
    (\<forall>h\<in>set hs. ieq (fst h) (bytes_of ''transfer-encoding'') \<longrightarrow> ch \<and> ieq (snd h) (bytes_of ''chunked'') \<and> version req = HTTP_1_1) \<and>
    (te \<le> 1 \<longrightarrow> te + length (filter (\<lambda>h. ieq (fst h) (bytes_of ''transfer-encoding'')) hs) \<le> 1) \<and>
    (c \<longrightarrow> has_content_length req \<or> (\<exists>h\<in>set hs. ieq (fst h) (bytes_of ''content-length''))) \<and>
    (ch \<longrightarrow> chunked req \<or> (\<exists>h\<in>set hs. ieq (fst h) (bytes_of ''transfer-encoding'')))"
  using assms
proof (induction hs te req rule: framing_loop.induct)
  case (1 te req)
  then show ?case by (intro exI [of _ "content_length req"] exI [of _ "has_content_length req"] exI [of _ "chunked req"]) simp
next
  case (2 h hs te req)
  have ne: "\<not> (ieq (fst h) (bytes_of ''content-length'') \<and> ieq (fst h) (bytes_of ''transfer-encoding''))"
    by (auto simp: ieq_def bytes_of_def)
  consider (cl) n where "ieq (fst h) (bytes_of ''content-length'')" "parse_content_length (snd h) = Some n"
      "\<not> (has_content_length req \<and> n \<noteq> content_length req)" "framing_loop hs te (req\<lparr>content_length := n, has_content_length := True\<rparr>) = (True, req')"
    | (te) "\<not> ieq (fst h) (bytes_of ''content-length'')" "ieq (fst h) (bytes_of ''transfer-encoding'')" "te = 0" "ieq (snd h) (bytes_of ''chunked'')"
      "version req = HTTP_1_1" "framing_loop hs (te + 1) (req\<lparr>chunked := True\<rparr>) = (True, req')"
    | (other) "\<not> ieq (fst h) (bytes_of ''content-length'')" "\<not> ieq (fst h) (bytes_of ''transfer-encoding'')" "framing_loop hs te req = (True, req')"
    using 2(4) by (auto split: if_splits option.splits)
  then show ?case
  proof cases
    case cl
    from 2(1) [OF cl] ne cl show ?thesis by auto
  next
    case te
    have "\<not> (te + 1 > 1 \<or> \<not> ieq (snd h) (bytes_of ''chunked''))" "\<not> version req \<noteq> HTTP_1_1" using te by auto
    from 2(2) [OF te(1,2) this te(6)] te show ?thesis by auto
  next
    case other
    from 2(3) [OF other] other show ?thesis by auto
  qed
qed

lemma extract_framing_ok:
  assumes "extract_framing req = (True, req')" "\<not> has_content_length req" "\<not> chunked req"
  shows "\<not> (chunked req' \<and> has_content_length req') \<and> req_headers req' = req_headers req \<and> version req' = version req \<and> body req' = body req \<and>
    (\<forall>(n, v) \<in> set (req_headers req').
       (ieq n (bytes_of ''content-length'') \<longrightarrow> has_content_length req' \<and> parse_content_length v = Some (content_length req')) \<and>
       (ieq n (bytes_of ''transfer-encoding'') \<longrightarrow> chunked req' \<and> ieq v (bytes_of ''chunked'') \<and> version req' = HTTP_1_1)) \<and>
    length (filter (\<lambda>h. ieq (fst h) (bytes_of ''transfer-encoding'')) (req_headers req')) \<le> 1 \<and>
    (has_content_length req' \<longrightarrow> (\<exists>v. \<exists>n. (n, v) \<in> set (req_headers req') \<and> ieq n (bytes_of ''content-length''))) \<and>
    (chunked req' \<longrightarrow> (\<exists>v. \<exists>n. (n, v) \<in> set (req_headers req') \<and> ieq n (bytes_of ''transfer-encoding'')))"
proof -
  obtain r where r: "framing_loop (req_headers req) 0 req = (True, r)" using assms(1) by (auto simp: extract_framing_def split: prod.splits bool.splits)
  obtain n c ch where l: "r = req\<lparr>content_length := n, has_content_length := c, chunked := ch\<rparr>"
    "\<forall>h\<in>set (req_headers req). ieq (fst h) (bytes_of ''content-length'') \<longrightarrow> c \<and> parse_content_length (snd h) = Some n"
    "\<forall>h\<in>set (req_headers req). ieq (fst h) (bytes_of ''transfer-encoding'') \<longrightarrow> ch \<and> ieq (snd h) (bytes_of ''chunked'') \<and> version req = HTTP_1_1"
    "length (filter (\<lambda>h. ieq (fst h) (bytes_of ''transfer-encoding'')) (req_headers req)) \<le> 1"
    "c \<longrightarrow> (\<exists>h\<in>set (req_headers req). ieq (fst h) (bytes_of ''content-length''))"
    "ch \<longrightarrow> (\<exists>h\<in>set (req_headers req). ieq (fst h) (bytes_of ''transfer-encoding''))"
    using framing_loop_ok [OF r] assms(2,3) by auto
  have e: "req_headers req' = req_headers req \<and> version req' = version req \<and> body req' = body req \<and> content_length req' = n \<and>
      has_content_length req' = c \<and> chunked req' = ch \<and> \<not> (ch \<and> c)"
    using assms(1) r l(1) by (auto simp: extract_framing_def Let_def split: if_splits)
  have ex: "(\<exists>h\<in>set hs. P (fst h)) \<longleftrightarrow> (\<exists>v n. (n, v) \<in> set hs \<and> P n)" for hs :: "(byte list \<times> byte list) list" and P by force
  show ?thesis unfolding e [THEN conjunct1] using l(2-) e by (simp add: case_prod_beta flip: ex)
qed

lemma and_then_Ok: "and_then r k = (Ok, p', req') \<longleftrightarrow> (\<exists>p req. r = (Ok, p, req) \<and> k p req = (Ok, p', req'))"
  by (auto simp: and_then_def split: prod.splits if_splits)

text \<open>The steps before the body leave the fields of the framing alone.\<close>

definition same_framing :: "HTTP1Request \<Rightarrow> HTTP1Request \<Rightarrow> bool" where
  "same_framing a b \<longleftrightarrow> has_content_length a = has_content_length b \<and> chunked a = chunked b"

lemma request_start_frame: "request_start data p req = (rc, p', req') \<Longrightarrow> req' = req"
proof -
  have "skip_empty_lines n data p req = (rc, p', req') \<Longrightarrow> req' = req" for n p rc p' req'
    by (induction n arbitrary: p) (auto simp: fail_def split: if_splits)
  then show "request_start data p req = (rc, p', req') \<Longrightarrow> req' = req"
    by (auto simp: request_start_def and_then_def split: prod.splits if_splits)
qed

lemma parse_method_frame: "parse_method data p req = (rc, p', req') \<Longrightarrow> same_framing req' req \<and> req_headers req' = req_headers req"
  by (auto simp: parse_method_def fail_def Let_def same_framing_def split: prod.splits if_splits)

lemma parse_url_frame: "parse_url data p req = (rc, p', req') \<Longrightarrow> same_framing req' req \<and> req_headers req' = req_headers req"
  by (auto simp: parse_url_def fail_def Let_def same_framing_def split: prod.splits if_splits)

lemma parse_version_frame: "parse_version data p req = (rc, p', req') \<Longrightarrow> same_framing req' req \<and> req_headers req' = req_headers req"
  by (auto simp: parse_version_def fail_def Let_def same_framing_def split: prod.splits if_splits)

lemma parse_header_frame:
  "parse_header data p req = (rc, p', req') \<Longrightarrow> same_framing req' req \<and> (length (req_headers req) \<le> MAX_HEADERS \<longrightarrow> length (req_headers req') \<le> MAX_HEADERS)"
proof -
  assume a: "parse_header data p req = (rc, p', req')"
  obtain c q r nm where f: "parse_header_field data p req = ((c, q, r), nm)" by (metis surj_pair)
  have F: "r = req \<and> (c = Ok \<longrightarrow> length (req_headers req) < MAX_HEADERS)"
    using f by (auto simp: parse_header_field_def fail_def Let_def split: prod.splits if_splits)
  have "parse_header_value nm data q r = (c', p', req') \<Longrightarrow> same_framing req' r \<and> length (req_headers req') \<le> Suc (length (req_headers r))" for c'
    by (auto simp: parse_header_value_def fail_def Let_def same_framing_def split: prod.splits if_splits)
  then show ?thesis using a f F by (auto simp: parse_header_def and_then_def same_framing_def split: if_splits)
qed

lemma header_loop_frame:
  "header_loop data p req = (rc, p', req') \<Longrightarrow> same_framing req' req \<and>
     (length (req_headers req) \<le> MAX_HEADERS \<longrightarrow> length (req_headers req') \<le> MAX_HEADERS) \<and>
     (rc = Ok \<longrightarrow> 2 \<le> pos p' \<and> pos p' \<le> length data \<and> take 2 (drop (pos p' - 2) data) = [0x0D, 0x0A])"
proof (induction data p req rule: header_loop.induct)
  case (1 data p req)
  obtain c q r where h: "parse_header data p req = (c, q, r)" by (cases "parse_header data p req")
  show ?case
  proof (cases "pos p < length data \<and> data ! pos p \<noteq> 0x0D \<and> c = Ok")
    case True
    then have "header_loop data q r = (rc, p', req')" using 1(2) h by (simp add: header_loop.simps [of data p])
    then show ?thesis using 1(1) [of c "(q, r)" q r] True h parse_header_frame [OF h] by (auto simp: same_framing_def)
  next
    case False
    have two: "take 2 (drop i data) = [data ! i, data ! Suc i]" if "Suc i < length data" for i
      using that by (simp add: numeral_2_eq_2 take_Suc_conv_app_nth)
    show ?thesis
    proof (cases "pos p < length data \<and> data ! pos p \<noteq> 0x0D")
      case True
      then have "rc = c \<and> req' = r \<and> c \<noteq> Ok" using False 1(2) h by (cases c) (auto simp: header_loop.simps [of data p])
      then show ?thesis using parse_header_frame [OF h] by simp
    next
      case False
      then have "rc = More \<and> req' = req \<or> rc = Err \<and> req' = req \<or>
          rc = Ok \<and> req' = req \<and> pos p' = pos p + 2 \<and> Suc (pos p) < length data \<and> data ! pos p = 0x0D \<and> data ! Suc (pos p) = 0x0A"
        using 1(2) by (auto simp: header_loop.simps [of data p] fail_def split: if_splits)
      then show ?thesis using two [of "pos p"] by (auto simp: same_framing_def)
    qed
  qed
qed

lemma parse_url_components_frame: "same_framing (parse_url_components req) req \<and> req_headers (parse_url_components req) = req_headers req"
  by (auto simp: parse_url_components_def Let_def same_framing_def split: option.splits)

lemma http1_parse_Ok:
  assumes "http1_parse data p req = (Ok, p', req')"
  obtains q r where "parse_body data q r = (Ok, p', req')" "\<not> has_content_length r" "\<not> chunked r" "length (req_headers r) \<le> MAX_HEADERS"
    "2 \<le> pos q" "pos q \<le> length data" "take 2 (drop (pos q - 2) data) = [0x0D, 0x0A]"
proof -
  have "data \<noteq> []" using assms by (auto simp: http1_parse_def)
  then have "parse_chain data (parser_start p) (request_start_state req) = (Ok, p', req')" using assms http1_parse_chain by simp
  then obtain p1 r1 p2 r2 p3 r3 p4 r4 p5 r5 where c: "request_start data (parser_start p) (request_start_state req) = (Ok, p1, r1)"
    "parse_method data p1 r1 = (Ok, p2, r2)" "parse_url data p2 r2 = (Ok, p3, r3)" "parse_version data p3 r3 = (Ok, p4, r4)"
    "header_loop data p4 r4 = (Ok, p5, r5)" "parse_body data p5 r5 = (Ok, p', req')"
    unfolding parse_chain_def and_then_Ok by blast
  have f: "same_framing r5 (request_start_state req) \<and> (length (req_headers r5) \<le> MAX_HEADERS)"
    using request_start_frame [OF c(1)] parse_method_frame [OF c(2)] parse_url_frame [OF c(3)] parse_version_frame [OF c(4)] header_loop_frame [OF c(5)]
    by (simp add: same_framing_def request_start_state_def)
  show thesis using that [OF c(6)] f header_loop_frame [OF c(5)] by (simp add: same_framing_def request_start_state_def)
qed

lemma http1_framing:
  assumes "http1_parse data p req = (Ok, p', req')"
  shows "\<not> (chunked req' \<and> has_content_length req') \<and> length (req_headers req') \<le> MAX_HEADERS \<and>
    (\<forall>(n, v) \<in> set (req_headers req').
       (ieq n (bytes_of ''content-length'') \<longrightarrow> has_content_length req' \<and> parse_content_length v = Some (content_length req')) \<and>
       (ieq n (bytes_of ''transfer-encoding'') \<longrightarrow> chunked req' \<and> ieq v (bytes_of ''chunked'') \<and> version req' = HTTP_1_1)) \<and>
    length (filter (\<lambda>h. ieq (fst h) (bytes_of ''transfer-encoding'')) (req_headers req')) \<le> 1 \<and>
    (has_content_length req' \<longrightarrow> (\<exists>v n. (n, v) \<in> set (req_headers req') \<and> ieq n (bytes_of ''content-length''))) \<and>
    (chunked req' \<longrightarrow> (\<exists>v n. (n, v) \<in> set (req_headers req') \<and> ieq n (bytes_of ''transfer-encoding''))) \<and>
    (\<exists>e\<le>length data. 2 \<le> e \<and> take 2 (drop (e - 2) data) = [0x0D, 0x0A] \<and>
       (if chunked req' then scan_chunked (drop e data) = ScanOk (pos p' - e) \<and> e \<le> pos p' \<and> body req' = take (pos p' - e) (drop e data)
        else if has_content_length req' \<and> content_length req' > 0
        then pos p' = e + unat (content_length req') \<and> pos p' \<le> length data \<and> body req' = take (unat (content_length req')) (drop e data)
        else pos p' = e))"
proof -
  obtain q r where b: "parse_body data q r = (Ok, p', req')" "\<not> has_content_length r" "\<not> chunked r" "length (req_headers r) \<le> MAX_HEADERS"
    "2 \<le> pos q" "pos q \<le> length data" "take 2 (drop (pos q - 2) data) = [0x0D, 0x0A]" by (rule http1_parse_Ok [OF assms])
  obtain f where f: "extract_framing (parse_url_components r) = (True, f)" using b(1) by (auto simp: parse_body_def fail_def split: prod.splits bool.splits)
  have fr: "\<not> has_content_length (parse_url_components r)" "\<not> chunked (parse_url_components r)"
    "req_headers (parse_url_components r) = req_headers r"
    using parse_url_components_frame [of r] b(2,3) by (simp_all add: same_framing_def)
  note E = extract_framing_ok [OF f fr(1,2)]
  obtain raw where raw: "(if chunked f then scan_chunked (drop (pos q) data) else ScanOk 0) = ScanOk raw"
    using b(1) f by (auto simp: parse_body_def fail_def split: scan.splits)
  have same: "chunked req' = chunked f" "has_content_length req' = has_content_length f" "content_length req' = content_length f"
    "req_headers req' = req_headers f" "version req' = version f"
    using b(1) f raw by (auto simp: parse_body_def fail_def Let_def split: if_splits)
  have pos: "if chunked f then pos p' = pos q + raw \<and> body req' = take raw (drop (pos q) data)
      else if has_content_length f \<and> content_length f > 0
        then pos p' = pos q + unat (content_length f) \<and> pos p' \<le> length data \<and> body req' = take (unat (content_length f)) (drop (pos q) data)
        else pos p' = pos q"
    using b(1,6) f raw E by (auto simp: parse_body_def fail_def Let_def split: if_splits)
  show ?thesis
    unfolding same using E fr(3) b(4-) pos raw by (intro conjI exI [of _ "pos q"]) (auto split: if_splits)
qed

end
