(* ===== verification/Http1_Chunked.thy ===== *)
theory Http1_Chunked
  imports Http1_Correct
begin

text \<open>
  The chunked transfer coding: the language the scanner accepts, decoding in place, and the grammar of RFC 9112, whose
  bodies are accepted and decoded.
\<close>

section \<open>Size lines\<close>

definition hex_value :: "byte list \<Rightarrow> nat" where
  "hex_value d = foldl (\<lambda>n b. n * 16 + unat (the (hex_val b))) 0 d"

definition line_ok :: "byte list \<Rightarrow> byte list \<Rightarrow> bool" where
  "line_ok d e \<longleftrightarrow> d \<noteq> [] \<and> length d \<le> 16 \<and> list_all (\<lambda>b. hex_val b \<noteq> None) d \<and> (e = [] \<or> hex_val (hd e) = None) \<and>
     list_all (\<lambda>b. b \<noteq> 0x0D \<and> b \<noteq> 0x0A) e \<and> length d + length e < kMaxLine"

definition size_line :: "byte list \<Rightarrow> byte list \<Rightarrow> byte list" where
  "size_line d e = d @ e @ [0x0D, 0x0A]"

lemma hex_val_less: "hex_val b = Some h \<Longrightarrow> unat h < 16"
proof -
  assume h: "hex_val b = Some h"
  have r: "unat (b - k + j) = unat b - unat k + unat j" if "k \<le> b" "unat b - unat k + unat j < 256" for k j :: byte
    using that by (simp add: unat_word_ariths unat_sub)
  from h show ?thesis
    by (auto simp: hex_val_def word_nat word_le_nat_alt unat_sub r split: if_splits)
qed

lemma hex_val_crlf [simp]: "hex_val 0x0D = None" "hex_val 0x0A = None"
  by (simp_all add: hex_val_def)

lemma hex_digits_split:
  assumes "hex_digits xs i v = (j, w)" "j \<le> 16"
  shows "\<exists>d rest. xs = d @ rest \<and> j = i + length d \<and> list_all (\<lambda>b. hex_val b \<noteq> None) d \<and> (rest = [] \<or> hex_val (hd rest) = None) \<and>
    w = foldl (\<lambda>v b. push_bit 4 v OR the (hex_val b)) v d"
  using assms
proof (induction xs arbitrary: i v)
  case (Cons b xs)
  show ?case
  proof (cases "hex_val b")
    case None
    then show ?thesis using Cons.prems by (intro exI [of _ "[]"] exI [of _ "b # xs"]) (auto split: if_splits)
  next
    case (Some h)
    then have "hex_digits xs (i + 1) (push_bit 4 v OR h) = (j, w)" using Cons.prems by (auto split: if_splits)
    from Cons.IH [OF this Cons.prems(2)] obtain d rest where "xs = d @ rest" "j = i + 1 + length d" "list_all (\<lambda>b. hex_val b \<noteq> None) d"
      "rest = [] \<or> hex_val (hd rest) = None" "w = foldl (\<lambda>v b. push_bit 4 v OR the (hex_val b)) (push_bit 4 v OR h) d" by blast
    then show ?thesis using Some by (intro exI [of _ "b # d"] exI [of _ rest]) simp
  qed
qed (auto intro!: exI [of _ "[]"])

lemma hex_digits_join:
  "list_all (\<lambda>b. hex_val b \<noteq> None) d \<Longrightarrow> i + length d \<le> 16 \<Longrightarrow> rest \<noteq> [] \<Longrightarrow> hex_val (hd rest) = None \<Longrightarrow>
   hex_digits (d @ rest) i v = (i + length d, foldl (\<lambda>v b. push_bit 4 v OR the (hex_val b)) v d)"
proof (induction d arbitrary: i v)
  case Nil
  then show ?case by (cases rest) auto
qed auto

lemma hex_fold_value:
  assumes "list_all (\<lambda>b. hex_val b \<noteq> None) d" "unat v < 16 ^ k" "k + length d \<le> 16"
  shows "unat (foldl (\<lambda>v b. push_bit 4 v OR the (hex_val b)) (v :: u64) d) = foldl (\<lambda>n b. n * 16 + unat (the (hex_val b))) (unat v) d"
  using assms
proof (induction d arbitrary: v k)
  case (Cons b d)
  obtain h where h: "hex_val b = Some h" using Cons.prems by auto
  have "(16::nat) ^ Suc k \<le> 16 ^ 16" using Cons.prems(3) by (intro power_increasing) auto
  then have s: "unat v * 16 + 15 < 2 ^ 64" using Cons.prems(2) by simp
  have p: "unat (push_bit 4 v) = unat v * 16" using s by (simp add: word_nat)
  have u: "unat (push_bit 4 v OR h) = unat v * 16 + unat h"
    using unat_or_disjoint [of 4 "push_bit 4 v" h] hex_val_less [OF h] p by simp
  have "unat v * 16 + unat h < 16 ^ Suc k" using Cons.prems(2) hex_val_less [OF h] by simp
  then show ?case using Cons.IH [of "push_bit 4 v OR h" "Suc k"] Cons.prems u h by simp
qed simp

lemma line_rest_split:
  assumes "line_rest xs i = ScanOk n"
  shows "\<exists>e rest. xs = e @ [0x0D, 0x0A] @ rest \<and> n = i + length e + 2 \<and> list_all (\<lambda>b. b \<noteq> 0x0D \<and> b \<noteq> 0x0A) e \<and> i + length e < kMaxLine"
  using assms
proof (induction xs arbitrary: i)
  case (Cons b xs)
  show ?case
  proof (cases "b = 0x0D")
    case True
    then show ?thesis using Cons.prems by (intro exI [of _ "[]"] exI [of _ "tl xs"]) (cases xs; auto split: if_splits)
  next
    case False
    then have "line_rest xs (i + 1) = ScanOk n" "b \<noteq> 0x0A" using Cons.prems by (auto split: if_splits)
    from Cons.IH [OF this(1)] obtain e rest where "xs = e @ [0x0D, 0x0A] @ rest" "n = i + 1 + length e + 2"
      "list_all (\<lambda>b. b \<noteq> 0x0D \<and> b \<noteq> 0x0A) e" "i + 1 + length e < kMaxLine" by blast
    then show ?thesis using False \<open>b \<noteq> 0x0A\<close> by (intro exI [of _ "b # e"] exI [of _ rest]) simp
  qed
qed simp

lemma line_rest_join:
  "list_all (\<lambda>b. b \<noteq> 0x0D \<and> b \<noteq> 0x0A) e \<Longrightarrow> i + length e < kMaxLine \<Longrightarrow> line_rest (e @ 0x0D # 0x0A # rest) i = ScanOk (i + length e + 2)"
  by (induction e arbitrary: i) auto

lemma size_line_accepted:
  assumes "line_ok d e"
  shows "\<exists>sz. chunk_size_line (size_line d e @ rest) = ScanOk (length (size_line d e), sz) \<and> unat sz = hex_value d"
proof -
  let ?sz = "foldl (\<lambda>v b. push_bit 4 v OR the (hex_val b)) (0 :: u64) d"
  have h: "hex_digits (d @ (e @ 0x0D # 0x0A # rest)) 0 0 = (length d, ?sz)"
    using hex_digits_join [of d 0 "e @ 0x0D # 0x0A # rest" 0] assms by (cases e) (auto simp: line_ok_def)
  have l: "line_rest (e @ 0x0D # 0x0A # rest) (length d) = ScanOk (length d + length e + 2)"
    using line_rest_join assms by (simp add: line_ok_def)
  have "unat ?sz = hex_value d" using hex_fold_value [of d 0 0] assms by (simp add: hex_value_def line_ok_def)
  moreover have "chunk_size_line (size_line d e @ rest) = ScanOk (length (size_line d e), ?sz)"
    using h l assms by (simp add: chunk_size_line_def size_line_def line_ok_def)
  ultimately show ?thesis by blast
qed

lemma size_line_split:
  assumes "chunk_size_line xs = ScanOk (n, sz)"
  shows "\<exists>d e rest. xs = size_line d e @ rest \<and> line_ok d e \<and> n = length (size_line d e) \<and> unat sz = hex_value d"
proof -
  obtain j w where h: "hex_digits xs 0 0 = (j, w)" by fastforce
  then have c: "j \<le> 16" "j \<noteq> 0" "line_rest (drop j xs) j = ScanOk n" "sz = w"
    using assms by (auto simp: chunk_size_line_def split: if_splits scan.splits)
  obtain d r where d: "xs = d @ r" "j = length d" "list_all (\<lambda>b. hex_val b \<noteq> None) d" "r = [] \<or> hex_val (hd r) = None"
    "w = foldl (\<lambda>v b. push_bit 4 v OR the (hex_val b)) 0 d" using hex_digits_split [OF h c(1)] by auto
  obtain e rest where e: "r = e @ [0x0D, 0x0A] @ rest" "n = length d + length e + 2" "list_all (\<lambda>b. b \<noteq> 0x0D \<and> b \<noteq> 0x0A) e"
    "length d + length e < kMaxLine" using line_rest_split [OF c(3)] d(1,2) by auto
  have "line_ok d e" using c d e by (cases e) (auto simp: line_ok_def)
  moreover have "unat sz = hex_value d" using hex_fold_value [OF d(3), of 0 0] c d by (simp add: hex_value_def)
  ultimately show ?thesis using d(1) e by (intro exI [of _ d] exI [of _ e] exI [of _ rest]) (simp add: size_line_def)
qed

section \<open>Bodies\<close>

text \<open>
  A chunk is its size line and its payload; a body has chunks, the line of the last chunk and trailer lines. These
  predicates describe what the scanner accepts, which is more than the chunked coding: what follows the digits of a
  size line, and a trailer line, are not parsed.
\<close>

type_synonym chunk = "(byte list \<times> byte list) \<times> byte list"

definition chunk_ok :: "chunk \<Rightarrow> bool" where
  "chunk_ok c \<longleftrightarrow> line_ok (fst (fst c)) (snd (fst c)) \<and> hex_value (fst (fst c)) = length (snd c) \<and> snd c \<noteq> []"

definition chunk_text :: "chunk \<Rightarrow> byte list" where
  "chunk_text c = size_line (fst (fst c)) (snd (fst c)) @ snd c @ [0x0D, 0x0A]"

definition trailer_ok :: "byte list \<Rightarrow> bool" where
  "trailer_ok t \<longleftrightarrow> t \<noteq> [] \<and> list_all (\<lambda>b. b \<noteq> 0x0A) t"

definition trailer_text :: "byte list list \<Rightarrow> byte list" where
  "trailer_text ts = concat (map (\<lambda>t. t @ [0x0D, 0x0A]) ts) @ [0x0D, 0x0A]"

definition body_ok :: "chunk list \<Rightarrow> byte list \<Rightarrow> byte list \<Rightarrow> byte list list \<Rightarrow> bool" where
  "body_ok cs d e ts \<longleftrightarrow> list_all chunk_ok cs \<and> line_ok d e \<and> hex_value d = 0 \<and> list_all trailer_ok ts"

definition body_text :: "chunk list \<Rightarrow> byte list \<Rightarrow> byte list \<Rightarrow> byte list list \<Rightarrow> byte list" where
  "body_text cs d e ts = concat (map chunk_text cs) @ size_line d e @ trailer_text ts"

lemma nth_drop_hd: "p < length data \<Longrightarrow> data ! p = hd (drop p data)"
  by (simp add: hd_drop_conv_nth)

lemma scan_chunks_join:
  assumes "list_all chunk_ok cs" "line_ok d e" "hex_value d = 0" "length pre + length (concat (map chunk_text cs)) < length pre + g"
  shows "scan_chunks g (pre @ concat (map chunk_text cs) @ size_line d e @ rest) (length pre) =
    ScanOk (length pre + length (concat (map chunk_text cs)) + length (size_line d e))"
  using assms
proof (induction cs arbitrary: pre g)
  case Nil
  obtain k where "g = Suc k" using Nil by (cases g) auto
  moreover obtain sz where "chunk_size_line (size_line d e @ rest) = ScanOk (length (size_line d e), sz)" "unat sz = 0"
    using size_line_accepted [OF Nil(2)] Nil(3) by metis
  ultimately show ?case by (simp add: word_unat_eq_iff)
next
  case (Cons c cs)
  obtain k where k: "g = Suc k" using Cons by (cases g) auto
  let ?l = "size_line (fst (fst c)) (snd (fst c))" and ?pl = "snd c" and ?r = "concat (map chunk_text cs) @ size_line d e @ rest"
  have c: "line_ok (fst (fst c)) (snd (fst c))" "hex_value (fst (fst c)) = length ?pl" "?pl \<noteq> []" using Cons.prems by (auto simp: chunk_ok_def)
  obtain sz where sz: "chunk_size_line (?l @ ?pl @ [0x0D, 0x0A] @ ?r) = ScanOk (length ?l, sz)" "unat sz = length ?pl"
    using size_line_accepted [OF c(1)] c(2) by metis
  let ?data = "pre @ chunk_text c @ ?r"
  have nz: "sz \<noteq> 0" using sz(2) c(3) by (auto simp: word_unat_eq_iff)
  have d: "?data = (pre @ ?l @ ?pl) @ [0x0D, 0x0A] @ ?r" by (simp add: chunk_text_def)
  have crlf: "?data ! (length pre + length ?l + length ?pl) = 0x0D" "?data ! Suc (length pre + length ?l + length ?pl) = 0x0A"
    unfolding d by (simp_all add: nth_append)
  have step: "scan_chunks g ?data (length pre) = scan_chunks k ?data (length (pre @ chunk_text c))"
    using sz nz crlf k by (simp add: chunk_text_def Let_def add.assoc)
  have "length (chunk_text c) > 0" by (simp add: chunk_text_def)
  moreover have "length (chunk_text c) + length (concat (map chunk_text cs)) < Suc k" using Cons.prems(4) k by simp
  ultimately have "length (concat (map chunk_text cs)) < k" by linarith
  then have "scan_chunks k ((pre @ chunk_text c) @ ?r) (length (pre @ chunk_text c)) =
      ScanOk (length (pre @ chunk_text c) + length (concat (map chunk_text cs)) + length (size_line d e))"
    using Cons.prems k by (intro Cons.IH) (auto simp del: append_assoc)
  then show ?case using step by simp
qed

lemma scan_chunks_split:
  assumes "scan_chunks g data p = ScanOk q" "p \<le> length data" "length data - p < g"
  shows "\<exists>cs d e rest. drop p data = concat (map chunk_text cs) @ size_line d e @ rest \<and> list_all chunk_ok cs \<and> line_ok d e \<and> hex_value d = 0 \<and>
    q = p + length (concat (map chunk_text cs)) + length (size_line d e)"
  using assms
proof (induction g data p rule: scan_chunks.induct)
  case (2 g data p)
  obtain line sz where l: "chunk_size_line (drop p data) = ScanOk (line, sz)" using 2(2) by (auto split: scan.splits)
  obtain d e rest where s: "drop p data = size_line d e @ rest" "line_ok d e" "line = length (size_line d e)" "unat sz = hex_value d"
    using size_line_split [OF l] by blast
  show ?case
  proof (cases "sz = 0")
    case True
    then have "q = p + line" using 2(2) l by simp
    then show ?thesis using s True by (intro exI [of _ "[]"] exI [of _ d] exI [of _ e] exI [of _ rest]) simp
  next
    case False
    let ?q = "p + line" and ?n = "unat sz"
    have f: "\<not> ?n > length data - ?q" "\<not> length data - ?q - ?n < 2" "data ! (?q + ?n) = 0x0D" "data ! (?q + ?n + 1) = 0x0A"
      "scan_chunks g data (?q + (?n + 2)) = ScanOk q" using 2(2) l False by (auto simp: Let_def split: if_splits)
    have lb: "?q \<le> length data" using chunk_size_line_bounds [OF l] 2(3) by auto
    then have qn: "?q + (?n + 2) \<le> length data" using f by linarith
    have gd: "length data - (?q + (?n + 2)) < g" using 2(4) chunk_size_line_bounds [OF l] qn by linarith
    obtain cs d' e' rest' where IH: "drop (?q + (?n + 2)) data = concat (map chunk_text cs) @ size_line d' e' @ rest'" "list_all chunk_ok cs"
      "line_ok d' e'" "hex_value d' = 0" "q = ?q + (?n + 2) + length (concat (map chunk_text cs)) + length (size_line d' e')"
      using 2(1) [OF l refl refl False f(1,2)] f(3-) qn gd by auto
    have r: "rest = drop ?q data" using s(1,3) by (metis append_eq_conv_conj drop_drop add.commute)
    have pl: "drop ?q data = take ?n (drop ?q data) @ [0x0D, 0x0A] @ drop (?q + (?n + 2)) data"
    proof -
      have "drop (?q + ?n) data = [0x0D, 0x0A] @ drop (?q + (?n + 2)) data"
        using f(3,4) qn by (simp add: Cons_nth_drop_Suc [symmetric] numeral_2_eq_2)
      then show ?thesis by (metis append_take_drop_id drop_drop add.commute)
    qed
    let ?c = "((d, e), take ?n (drop ?q data))"
    have ok: "chunk_ok ?c" using s False qn by (auto simp: chunk_ok_def word_unat_eq_iff)
    have "drop p data = chunk_text ?c @ drop (?q + (?n + 2)) data" using s(1) r pl by (simp add: chunk_text_def)
    moreover have "length (chunk_text ?c) = line + (?n + 2)" using s(3) qn by (simp add: chunk_text_def)
    ultimately show ?thesis using IH ok by (intro exI [of _ "?c # cs"] exI [of _ d'] exI [of _ e'] exI [of _ rest']) simp
  qed
qed simp

lemma takeWhile_no_lf: "list_all (\<lambda>b. b \<noteq> 0x0A) t \<Longrightarrow> takeWhile (\<lambda>b. b \<noteq> 0x0A) (t @ 0x0A # rest) = t"
  by (induction t) auto

lemma scan_trailer_join:
  assumes "list_all trailer_ok ts" "length (trailer_text ts) < g"
  shows "scan_trailer g (pre @ trailer_text ts @ rest) (length pre) = ScanOk (length pre + length (trailer_text ts))"
  using assms
proof (induction ts arbitrary: pre g)
  case Nil
  obtain k where "g = Suc k" using Nil by (cases g) auto
  moreover have "takeWhile (\<lambda>b. b \<noteq> 0x0A) ([0x0D, 0x0A] @ rest) = [0x0D]" by simp
  ultimately show ?case by (simp add: trailer_text_def nth_append)
next
  case (Cons t ts)
  obtain k where k: "g = Suc k" using Cons by (cases g) auto
  let ?r = "trailer_text ts @ rest" and ?data = "pre @ trailer_text (t # ts) @ rest"
  have d: "?data = pre @ (t @ [0x0D]) @ 0x0A # ?r" by (simp add: trailer_text_def)
  have t: "t \<noteq> []" "list_all (\<lambda>b. b \<noteq> 0x0A) (t @ [0x0D])" using Cons.prems by (auto simp: trailer_ok_def)
  have w: "takeWhile (\<lambda>b. b \<noteq> 0x0A) (drop (length pre) ?data) = t @ [0x0D]" using takeWhile_no_lf [OF t(2), of ?r] by (simp add: d)
  have cr: "?data ! (length pre + length t) = 0x0D" unfolding d by (simp add: nth_append)
  have "length (t @ [0x0D]) \<noteq> 1" using t(1) by simp
  then have step: "scan_trailer g ?data (length pre) = scan_trailer k ?data (length (pre @ t @ [0x0D, 0x0A]))"
    unfolding k scan_trailer.simps Let_def w using cr t(1) by (simp add: d)
  have "scan_trailer k ((pre @ t @ [0x0D, 0x0A]) @ ?r) (length (pre @ t @ [0x0D, 0x0A])) = ScanOk (length (pre @ t @ [0x0D, 0x0A]) + length (trailer_text ts))"
    using Cons.prems k by (intro Cons.IH) (auto simp: trailer_text_def)
  then show ?case using step by (simp add: trailer_text_def)
qed

lemma scan_trailer_split:
  assumes "scan_trailer g data p = ScanOk q" "p \<le> length data"
  shows "\<exists>ts rest. drop p data = trailer_text ts @ rest \<and> list_all trailer_ok ts \<and> q = p + length (trailer_text ts)"
  using assms
proof (induction g data p rule: scan_trailer.induct)
  case (2 g data p)
  let ?t = "takeWhile (\<lambda>b. b \<noteq> 0x0A) (drop p data)"
  let ?q = "p + length ?t"
  have "length ?t \<le> length data - p" using length_takeWhile_le [of "\<lambda>b. b \<noteq> 0x0A" "drop p data"] by simp
  then have ne: "?q < length data" using 2(2,3) by (cases "?q = length data") (auto simp: Let_def)
  have c: "?q \<noteq> p" "data ! (?q - 1) = 0x0D" using 2(2) ne by (auto simp: Let_def split: if_splits)
  have lf: "drop ?q data = 0x0A # drop (Suc ?q) data"
  proof -
    have "length ?t < length (drop p data)" using ne by simp
    then have "\<not> (drop p data ! length ?t \<noteq> 0x0A)" by (rule nth_length_takeWhile)
    then have "data ! ?q = 0x0A" using ne by simp
    then show ?thesis using Cons_nth_drop_Suc [OF ne] by simp
  qed
  have t: "?t = butlast ?t @ [0x0D]"
  proof -
    have n: "?t \<noteq> []" using c(1) by auto
    then have "last ?t = drop p data ! (length ?t - 1)" by (simp add: last_conv_nth takeWhile_nth)
    also have "\<dots> = 0x0D" using c(2) n ne by (simp add: Nat.add_diff_assoc Suc_leI)
    finally show ?thesis using n by (metis append_butlast_last_id)
  qed
  have dp: "drop p data = butlast ?t @ [0x0D, 0x0A] @ drop (Suc ?q) data"
  proof -
    have "drop p data = ?t @ dropWhile (\<lambda>b. b \<noteq> 0x0A) (drop p data)" by simp
    also have "dropWhile (\<lambda>b. b \<noteq> 0x0A) (drop p data) = drop ?q data" by (simp add: dropWhile_eq_drop add.commute)
    finally show ?thesis using lf t by (metis append.assoc append_Cons append_Nil)
  qed
  have nolf: "list_all (\<lambda>b. b \<noteq> 0x0A) (butlast ?t)" by (auto simp: list_all_iff dest!: in_set_butlastD set_takeWhileD)
  show ?case
  proof (cases "length ?t = 1")
    case True
    then have q: "q = p + 2" using 2(2) ne c by (auto simp: Let_def)
    have "length (butlast ?t) = 0" using True by simp
    then have "butlast ?t = []" by (simp only: length_0_conv)
    then show ?thesis using dp q by (intro exI [of _ "[]"] exI [of _ "drop (Suc ?q) data"]) (simp add: trailer_text_def)
  next
    case False
    then have "scan_trailer g data (?q + 1) = ScanOk q" using 2(2) ne c by (auto simp: Let_def)
    then obtain ts rest where IH: "drop (?q + 1) data = trailer_text ts @ rest" "list_all trailer_ok ts" "q = ?q + 1 + length (trailer_text ts)"
      using 2(1) [of p ?q] ne c False by auto
    have "butlast ?t \<noteq> []" using False t by (metis append_Nil length_Cons list.size(3) One_nat_def)
    then have "trailer_ok (butlast ?t)" using nolf by (simp add: trailer_ok_def)
    moreover have "length ?t = Suc (length (butlast ?t))" using t by (metis length_append_singleton)
    ultimately show ?thesis using IH dp by (intro exI [of _ "butlast ?t # ts"] exI [of _ rest]) (simp add: trailer_text_def)
  qed
qed simp

lemma put_take: "wr + length src \<le> length data \<Longrightarrow> take (wr + length src) (put wr src data) = take wr data @ src"
  by (simp add: put_def)

lemma put_drop: "wr + length src \<le> i \<Longrightarrow> i \<le> length data \<Longrightarrow> drop i (put wr src data) = drop i data"
  by (simp add: put_def)

lemma dechunk_loop_chunks:
  assumes "list_all chunk_ok cs" "line_ok d e" "hex_value d = 0" "wr \<le> rd" "rd \<le> raw" "raw \<le> length data" "length cs < g"
    "take (raw - rd) (drop rd data) = concat (map chunk_text cs) @ size_line d e @ tr"
  shows "\<exists>data'. dechunk_loop g raw data rd wr = (data', wr + length (concat (map snd cs))) \<and> length data' = length data \<and>
    take (wr + length (concat (map snd cs))) data' = take wr data @ concat (map snd cs) \<and> drop raw data' = drop raw data"
  using assms
proof (induction cs arbitrary: g data rd wr)
  case Nil
  obtain k where "g = Suc k" using Nil by (cases g) auto
  moreover obtain sz where "chunk_size_line (size_line d e @ tr) = ScanOk (length (size_line d e), sz)" "unat sz = 0"
    using size_line_accepted [OF Nil(2)] Nil(3) by metis
  ultimately show ?case using Nil by (simp add: word_unat_eq_iff)
next
  case (Cons c cs)
  obtain k where k: "g = Suc k" using Cons by (cases g) auto
  let ?l = "size_line (fst (fst c)) (snd (fst c))" and ?pl = "snd c" and ?r = "concat (map chunk_text cs) @ size_line d e @ tr"
  have c: "line_ok (fst (fst c)) (snd (fst c))" "hex_value (fst (fst c)) = length ?pl" "?pl \<noteq> []" using Cons.prems by (auto simp: chunk_ok_def)
  have tx: "take (raw - rd) (drop rd data) = ?l @ ?pl @ [0x0D, 0x0A] @ ?r" using Cons.prems(8) by (simp add: chunk_text_def [of c])
  obtain sz where sz: "chunk_size_line (?l @ ?pl @ [0x0D, 0x0A] @ ?r) = ScanOk (length ?l, sz)" "unat sz = length ?pl"
    using size_line_accepted [OF c(1)] c(2) by metis
  have nz: "sz \<noteq> 0" using sz(2) c(3) by (auto simp: word_unat_eq_iff)
  let ?rd = "rd + length ?l" and ?rd' = "rd + length ?l + (length ?pl + 2)"
  have len: "raw - rd = length (?l @ ?pl @ [0x0D, 0x0A] @ ?r)" using arg_cong [OF tx, of length] Cons.prems(5,6) by simp
  then have rd': "?rd' \<le> raw" using Cons.prems(5) by simp
  have pl: "take (length ?pl) (drop ?rd data) = ?pl"
  proof -
    have "take (length ?pl) (drop (length ?l) (take (raw - rd) (drop rd data))) = ?pl" unfolding tx by simp
    then show ?thesis using len by (simp add: drop_take add.commute)
  qed
  let ?data = "put wr ?pl data"
  have L: "length ?data = length data" using rd' Cons.prems(4,6) by (intro length_put) simp
  have rest: "take (raw - ?rd') (drop ?rd' ?data) = ?r"
  proof -
    have "drop ?rd' ?data = drop ?rd' data" using rd' Cons.prems(4,6) by (intro put_drop) auto
    moreover have "drop (length ?l + (length ?pl + 2)) (take (raw - rd) (drop rd data)) = ?r" unfolding tx by simp
    ultimately show ?thesis using rd' by (simp add: drop_take ac_simps)
  qed
  have step: "dechunk_loop g raw data rd wr = dechunk_loop k raw ?data ?rd' (wr + length ?pl)"
    using sz nz pl k by (simp add: tx)
  obtain data' where IH: "dechunk_loop k raw ?data ?rd' (wr + length ?pl) = (data', wr + length ?pl + length (concat (map snd cs)))"
    "length data' = length ?data" "take (wr + length ?pl + length (concat (map snd cs))) data' = take (wr + length ?pl) ?data @ concat (map snd cs)"
    "drop raw data' = drop raw ?data"
    using Cons.IH [of "wr + length ?pl" ?rd' ?data k] Cons.prems(1-4,6,7) rd' L rest k by auto
  have "take (wr + length ?pl) ?data = take wr data @ ?pl" using rd' Cons.prems(4,6) by (intro put_take) simp
  moreover have "drop raw ?data = drop raw data" using rd' Cons.prems(4,6) by (intro put_drop) auto
  ultimately show ?case using IH step L by (simp add: add.assoc)
qed

lemma body_text_scanned: "body_ok cs d e ts \<Longrightarrow> scan_chunked (body_text cs d e ts @ rest) = ScanOk (length (body_text cs d e ts))"
proof -
  assume b: "body_ok cs d e ts"
  let ?data = "body_text cs d e ts @ rest" and ?c = "concat (map chunk_text cs)"
  have 1: "scan_chunks (length ?data + 1) ?data 0 = ScanOk (length (?c @ size_line d e))"
    using scan_chunks_join [of cs d e "[]" "length ?data + 1" "trailer_text ts @ rest"] b by (simp add: body_ok_def body_text_def)
  have 2: "scan_trailer (length ?data + 1) ((?c @ size_line d e) @ trailer_text ts @ rest) (length (?c @ size_line d e)) =
      ScanOk (length (?c @ size_line d e) + length (trailer_text ts))"
    using b by (intro scan_trailer_join) (auto simp: body_ok_def body_text_def)
  show ?thesis using 1 2 by (simp add: scan_chunked_def body_text_def)
qed

lemma scan_chunked_split:
  assumes "scan_chunked data = ScanOk n"
  shows "\<exists>cs d e ts rest. data = body_text cs d e ts @ rest \<and> body_ok cs d e ts \<and> n = length (body_text cs d e ts)"
proof -
  obtain q where q: "scan_chunks (length data + 1) data 0 = ScanOk q" "scan_trailer (length data + 1) data q = ScanOk n"
    using assms by (auto simp: scan_chunked_def split: scan.splits)
  obtain cs d e r where c: "data = concat (map chunk_text cs) @ size_line d e @ r" "list_all chunk_ok cs" "line_ok d e" "hex_value d = 0"
    "q = length (concat (map chunk_text cs)) + length (size_line d e)" using scan_chunks_split [OF q(1)] by auto
  have "drop q data = r" "q \<le> length data" using c(1,5) by simp_all
  then obtain ts rest where "r = trailer_text ts @ rest" "list_all trailer_ok ts" "n = q + length (trailer_text ts)"
    using scan_trailer_split [OF q(2)] by auto
  then show ?thesis using c
    by (intro exI [of _ cs] exI [of _ d] exI [of _ e] exI [of _ ts] exI [of _ rest]) (simp add: body_text_def body_ok_def)
qed

lemma body_text_dechunked:
  assumes "body_ok cs d e ts"
  shows "\<exists>buf. dechunk_in_place (body_text cs d e ts @ rest) (length (body_text cs d e ts)) = (buf, length (concat (map snd cs))) \<and>
    take (length (concat (map snd cs))) buf = concat (map snd cs) \<and> length buf = length (body_text cs d e ts @ rest) \<and>
    drop (length (body_text cs d e ts)) buf = rest"
proof -
  have "length cs \<le> length (concat (map chunk_text cs))" for cs by (induction cs) (auto simp: chunk_text_def)
  then have "length cs < length (body_text cs d e ts) + 1" by (simp add: body_text_def le_imp_less_Suc trans_le_add1)
  then show ?thesis
    using dechunk_loop_chunks [of cs d e 0 0 "length (body_text cs d e ts)" "body_text cs d e ts @ rest" "length (body_text cs d e ts) + 1" "trailer_text ts"] assms
    by (auto simp: dechunk_in_place_def body_ok_def body_text_def)
qed

section \<open>The chunked coding of RFC 9112\<close>

text \<open>
  The grammar of section 7.1, on the parts of a body: the characters, chunk extensions (a token name, and a token or
  quoted string as its value, with optional white space around the signs), trailer field lines, and bodies.
\<close>

definition tchar :: "byte \<Rightarrow> bool" where
  "tchar b \<longleftrightarrow> 0x30 \<le> b \<and> b \<le> 0x39 \<or> 0x41 \<le> b \<and> b \<le> 0x5A \<or> 0x61 \<le> b \<and> b \<le> 0x7A \<or>
     b \<in> {0x21, 0x23, 0x24, 0x25, 0x26, 0x27, 0x2A, 0x2B, 0x2D, 0x2E, 0x5E, 0x5F, 0x60, 0x7C, 0x7E}"

definition is_token :: "byte list \<Rightarrow> bool" where
  "is_token s \<longleftrightarrow> s \<noteq> [] \<and> list_all tchar s"

definition wsp :: "byte \<Rightarrow> bool" where
  "wsp b \<longleftrightarrow> b = 0x20 \<or> b = 0x09"

definition text_char :: "byte \<Rightarrow> bool" where
  "text_char b \<longleftrightarrow> wsp b \<or> 0x21 \<le> b \<and> b \<le> 0x7E \<or> 0x80 \<le> b"

inductive quoted_text :: "byte list \<Rightarrow> bool" where
  quoted_end: "quoted_text []"
| quoted_char: "quoted_text s \<Longrightarrow> text_char b \<Longrightarrow> b \<noteq> 0x22 \<Longrightarrow> b \<noteq> 0x5C \<Longrightarrow> quoted_text (b # s)"
| quoted_pair: "quoted_text s \<Longrightarrow> text_char b \<Longrightarrow> quoted_text (0x5C # b # s)"

inductive ext_value :: "byte list \<Rightarrow> bool" where
  no_value: "ext_value []"
| token_value: "list_all wsp w \<Longrightarrow> list_all wsp w' \<Longrightarrow> is_token v \<Longrightarrow> ext_value (w @ 0x3D # w' @ v)"
| quoted_value: "list_all wsp w \<Longrightarrow> list_all wsp w' \<Longrightarrow> quoted_text v \<Longrightarrow> ext_value (w @ 0x3D # w' @ 0x22 # v @ [0x22])"

inductive chunk_ext :: "byte list \<Rightarrow> bool" where
  no_ext: "chunk_ext []"
| ext: "list_all wsp w \<Longrightarrow> list_all wsp w' \<Longrightarrow> is_token nm \<Longrightarrow> ext_value v \<Longrightarrow> chunk_ext tl' \<Longrightarrow>
    chunk_ext (w @ 0x3B # w' @ nm @ v @ tl')"

definition field_line :: "byte list \<Rightarrow> bool" where
  "field_line l \<longleftrightarrow> (\<exists>nm v. l = nm @ 0x3A # v \<and> is_token nm \<and> list_all text_char v)"

definition hexdig :: "byte \<Rightarrow> bool" where
  "hexdig b \<longleftrightarrow> 0x30 \<le> b \<and> b \<le> 0x39 \<or> 0x41 \<le> b \<and> b \<le> 0x46 \<or> 0x61 \<le> b \<and> b \<le> 0x66"

definition hexdig_value :: "byte \<Rightarrow> nat" where
  "hexdig_value b = (if b \<le> 0x39 then unat b - 48 else if b \<le> 0x46 then unat b - 55 else unat b - 87)"

definition chunk_size :: "byte list \<Rightarrow> nat" where
  "chunk_size d = foldl (\<lambda>n b. 16 * n + hexdig_value b) 0 d"

definition rfc_body :: "chunk list \<Rightarrow> byte list \<Rightarrow> byte list \<Rightarrow> byte list list \<Rightarrow> bool" where
  "rfc_body cs d e ts \<longleftrightarrow>
     list_all (\<lambda>((digits, ex), payload). digits \<noteq> [] \<and> list_all hexdig digits \<and> chunk_ext ex \<and>
       payload \<noteq> [] \<and> chunk_size digits = length payload) cs \<and>
     d \<noteq> [] \<and> list_all (\<lambda>b. b = 0x30) d \<and> chunk_ext e \<and> list_all field_line ts"

text \<open>The limits of the implementation: sixteen digits, and lines below 4096 bytes.\<close>

definition within_limits :: "chunk list \<Rightarrow> byte list \<Rightarrow> byte list \<Rightarrow> bool" where
  "within_limits cs d e \<longleftrightarrow>
     list_all (\<lambda>(digits, ex). length digits \<le> 16 \<and> length digits + length ex < 4096) ((d, e) # map fst cs)"

definition no_break :: "byte list \<Rightarrow> bool" where
  "no_break s \<longleftrightarrow> list_all (\<lambda>b. b \<noteq> 0x0D \<and> b \<noteq> 0x0A) s"

lemma no_break_simps [simp]:
  "no_break []" "no_break (b # s) \<longleftrightarrow> b \<noteq> 0x0D \<and> b \<noteq> 0x0A \<and> no_break s" "no_break (s @ s') \<longleftrightarrow> no_break s \<and> no_break s'"
  by (auto simp: no_break_def)

lemma char_no_break: "tchar b \<Longrightarrow> b \<noteq> 0x0D \<and> b \<noteq> 0x0A" "wsp b \<Longrightarrow> b \<noteq> 0x0D \<and> b \<noteq> 0x0A" "text_char b \<Longrightarrow> b \<noteq> 0x0D \<and> b \<noteq> 0x0A"
  by (auto simp: tchar_def wsp_def text_char_def)

lemma list_no_break:
  "list_all wsp s \<Longrightarrow> no_break s" "is_token s \<Longrightarrow> no_break s" "list_all text_char s \<Longrightarrow> no_break s"
  using char_no_break by (auto simp: no_break_def is_token_def list_all_iff)

lemma quoted_no_break: "quoted_text s \<Longrightarrow> no_break s"
  by (induction rule: quoted_text.induct) (auto dest: char_no_break)

lemma ext_value_no_break: "ext_value v \<Longrightarrow> no_break v"
  by (induction rule: ext_value.induct) (auto dest: list_no_break quoted_no_break)

lemma chunk_ext_no_break: "chunk_ext e \<Longrightarrow> no_break e"
  by (induction rule: chunk_ext.induct) (auto dest: list_no_break ext_value_no_break)

lemma chunk_ext_start: "chunk_ext e \<Longrightarrow> e = [] \<or> hex_val (hd e) = None \<and> 0x3B \<in> set e"
proof (induction rule: chunk_ext.induct)
  case (ext w w' nm v tl')
  have "hd (w @ 0x3B # w' @ nm @ v @ tl') \<in> {0x20, 0x09, 0x3B}" using ext(1) by (cases w) (auto simp: wsp_def)
  then show ?case by (auto simp: hex_val_def)
qed simp

lemma field_line_ok: "field_line l \<Longrightarrow> trailer_ok l \<and> 0x3A \<in> set l"
  using list_no_break by (fastforce simp: field_line_def trailer_ok_def no_break_def list_all_iff)

lemma hexdig_val: "hexdig b \<Longrightarrow> hex_val b \<noteq> None \<and> unat (the (hex_val b)) = hexdig_value b"
proof -
  have s: "unat (b - k) = unat b - unat k" if "k \<le> b" for k using that by (simp add: unat_sub)
  have r: "unat (b - k + 10) = unat b - unat k + 10" if "k \<le> b" "unat b - unat k + 10 < 256" for k
    using that by (simp add: unat_word_ariths unat_sub)
  assume "hexdig b"
  then show ?thesis
    by (auto simp: hexdig_def hex_val_def hexdig_value_def s r word_le_nat_alt)
qed

lemma chunk_size_hex_value: "list_all hexdig d \<Longrightarrow> list_all (\<lambda>b. hex_val b \<noteq> None) d \<and> hex_value d = chunk_size d"
proof -
  assume h: "list_all hexdig d"
  have "foldl (\<lambda>n b. n * 16 + unat (the (hex_val b))) m d = foldl (\<lambda>n b. 16 * n + hexdig_value b) m d" for m
    using h hexdig_val by (intro foldl_cong refl) (auto simp: list_all_iff)
  then show ?thesis using h hexdig_val by (auto simp: hex_value_def chunk_size_def list_all_iff)
qed

lemma rfc_line_ok:
  assumes "d \<noteq> []" "list_all hexdig d" "chunk_ext e" "length d \<le> 16" "length d + length e < 4096"
  shows "line_ok d e" "hex_value d = chunk_size d"
  using assms chunk_size_hex_value [of d] chunk_ext_no_break [of e] chunk_ext_start [of e]
  by (auto simp: line_ok_def kMaxLine_def no_break_def)

lemma zeros_size: "list_all (\<lambda>b. b = 0x30) d \<Longrightarrow> list_all hexdig d \<and> chunk_size d = 0"
  unfolding chunk_size_def by (induction d) (auto simp: hexdig_def hexdig_value_def)

lemma rfc_body_ok: "rfc_body cs d e ts \<Longrightarrow> within_limits cs d e \<Longrightarrow> body_ok cs d e ts"
  using rfc_line_ok zeros_size [of d] field_line_ok
  by (fastforce simp: rfc_body_def within_limits_def body_ok_def chunk_ok_def list_all_iff)

text \<open>What decoding in place must do with a body in front of other bytes.\<close>

definition decodes_to :: "byte list \<Rightarrow> byte list \<Rightarrow> byte list \<Rightarrow> bool" where
  "decodes_to text rest payload \<longleftrightarrow>
     (case dechunk_in_place (text @ rest) (length text) of (buf, m) \<Rightarrow>
        m = length payload \<and> m \<le> length buf \<and> take m buf = payload \<and> drop (length text) buf = rest)"

lemma body_text_decodes: "body_ok cs d e ts \<Longrightarrow> decodes_to (body_text cs d e ts) rest (concat (map snd cs))"
  using body_text_dechunked [of cs d e ts rest] unfolding decodes_to_def
  by (metis (mono_tags, lifting) case_prod_conv length_take min.cobounded1)

definition lax_example :: "chunk list" where
  "lax_example = [((bytes_of ''5'', bytes_of '' junk''), bytes_of ''hello'')]"

lemma lax_example_accepted:
  "body_ok lax_example (bytes_of ''0'') [] [bytes_of ''no colon''] \<and> \<not> chunk_ext (bytes_of '' junk'') \<and> \<not> field_line (bytes_of ''no colon'')"
  using chunk_ext_start [of "bytes_of '' junk''"] field_line_ok [of "bytes_of ''no colon''"]
  by (auto simp: lax_example_def body_ok_def chunk_ok_def line_ok_def trailer_ok_def hex_value_def hex_val_def kMaxLine_def bytes_of_def)

section \<open>Property\<close>

text \<open>
  C8. Chunked bodies are decoded. Every body of the chunked coding of RFC 9112, section 7.1 (chunks with optional
  extensions, a last chunk of zeros, trailer field lines, an empty line), whose size lines keep the limits of the
  implementation (16 digits, fewer than 4096 bytes), is accepted with its exact length whatever follows it, and
  decoding in place leaves the payloads, concatenated, at the front of the buffer, reports their total length and
  does not touch what follows the body. The scanner accepts more than the coding, and the second part says exactly
  what: it does not parse extensions, any bytes but CR and LF may follow the digits, with no semicolon, and it does not
  parse trailers, any non-empty line without LF passes. The payloads of such bodies are decoded the same way. The last
  part is a body that is accepted and not in the coding: \<open>5 junk\<close> as a size line, \<open>no colon\<close> as a trailer.
\<close>

theorem chunked_body_decoded:
  "(rfc_body cs d e ts \<and> within_limits cs d e \<longrightarrow>
      scan_chunked (body_text cs d e ts @ rest) = ScanOk (length (body_text cs d e ts)) \<and>
      decodes_to (body_text cs d e ts) rest (concat (map snd cs))) \<and>
   (scan_chunked data = ScanOk n \<longleftrightarrow>
      (\<exists>cs d e ts rest. data = body_text cs d e ts @ rest \<and> body_ok cs d e ts \<and> n = length (body_text cs d e ts))) \<and>
   (body_ok cs d e ts \<longrightarrow> decodes_to (body_text cs d e ts) rest (concat (map snd cs))) \<and>
   body_ok lax_example (bytes_of ''0'') [] [bytes_of ''no colon''] \<and>
   \<not> chunk_ext (bytes_of '' junk'') \<and> \<not> field_line (bytes_of ''no colon'')"
proof (intro conjI impI)
  show "scan_chunked data = ScanOk n \<longleftrightarrow> (\<exists>cs d e ts rest. data = body_text cs d e ts @ rest \<and> body_ok cs d e ts \<and> n = length (body_text cs d e ts))"
    using scan_chunked_split body_text_scanned by metis
qed (use rfc_body_ok body_text_scanned body_text_decodes lax_example_accepted in blast)+

definition chunked_example :: "chunk list" where
  "chunked_example = [((bytes_of ''4'', bytes_of '';x=1''), bytes_of ''Wiki''), ((bytes_of ''3'', []), bytes_of ''ped'')]"

lemma chunked_example_rfc: "rfc_body chunked_example (bytes_of ''0'') [] [bytes_of ''A: b'']" "within_limits chunked_example (bytes_of ''0'') []"
proof -
  have "chunk_ext ([] @ 0x3B # [] @ bytes_of ''x'' @ ([] @ 0x3D # [] @ bytes_of ''1'') @ [])"
    by (intro chunk_ext.intros ext_value.intros) (simp_all add: is_token_def tchar_def bytes_of_def)
  moreover have "field_line (bytes_of ''A'' @ 0x3A # bytes_of '' b'')"
    unfolding field_line_def
    by (intro exI [of _ "bytes_of ''A''"] exI [of _ "bytes_of '' b''"]) (simp add: is_token_def tchar_def text_char_def wsp_def bytes_of_def)
  ultimately show "rfc_body chunked_example (bytes_of ''0'') [] [bytes_of ''A: b'']"
    by (simp add: rfc_body_def chunked_example_def bytes_of_def hexdig_def hexdig_value_def chunk_size_def chunk_ext.no_ext)
  show "within_limits chunked_example (bytes_of ''0'') []" by (simp add: within_limits_def chunked_example_def bytes_of_def)
qed

theorem chunked_body_decoded_witness:
  "scan_chunked (body_text chunked_example (bytes_of ''0'') [] [bytes_of ''A: b''] @ [0x47]) = ScanOk 32 \<and>
   decodes_to (body_text chunked_example (bytes_of ''0'') [] [bytes_of ''A: b'']) [0x47] (bytes_of ''Wikiped'')"
proof -
  have len: "length (body_text chunked_example (bytes_of ''0'') [] [bytes_of ''A: b'']) = 32"
    by (simp add: chunked_example_def body_text_def chunk_text_def size_line_def trailer_text_def bytes_of_def)
  have pl: "concat (map snd chunked_example) = bytes_of ''Wikiped''" by (simp add: chunked_example_def bytes_of_def)
  show ?thesis
    using chunked_body_decoded [THEN conjunct1, THEN mp, OF conjI [OF chunked_example_rfc], of "[0x47]"] unfolding len pl .
qed

end
