(* ===== verification/Http1_Resume.thy ===== *)
theory Http1_Resume
  imports Http1_Chunked
begin

text \<open>
  The connection loop passes the same parser and request object to every attempt. What an attempt that needs more bytes
  leaves in them does not change the next one. The locale \<open>resumed_step\<close> is the contract of a step of the parse that makes
  this hold, and is interpreted for the steps of the request line.
\<close>

section \<open>What each step writes\<close>

lemma skip_empty_lines_writes: "skip_empty_lines n data p r = (c, p', r1) \<Longrightarrow> r1 = r \<and> skip_empty_lines n data p r' = (c, p', r')"
  by (induction n arbitrary: p) (auto simp: fail_def split: if_splits)

lemma request_start_writes:
  assumes "request_start data p r = (c, p', r1)"
  shows "r1 = r \<and> request_start data p r' = (c, p', r')"
proof -
  obtain c0 q r0 where s: "skip_empty_lines kMaxLeadingEmptyLines data p r = (c0, q, r0)" by (cases "skip_empty_lines kMaxLeadingEmptyLines data p r")
  show ?thesis using assms skip_empty_lines_writes [OF s, of r'] s by (auto simp: request_start_def and_then_def split: if_splits)
qed

lemma parse_method_writes:
  "parse_method data p r = (c, p', r1) \<Longrightarrow>
   parse_method data p r' = (c, p', if c = Ok then r'\<lparr>method_str := method_str r1, req_method := req_method r1\<rparr> else r')"
  by (auto simp: parse_method_def Let_def fail_def split: prod.splits if_splits)

lemma parse_url_writes:
  "parse_url data p r = (c, p', r1) \<Longrightarrow> parse_url data p r' = (c, p', if c = Ok then r'\<lparr>url := url r1\<rparr> else r')"
  by (auto simp: parse_url_def Let_def fail_def split: prod.splits if_splits)

lemma parse_version_writes:
  "parse_version data p r = (c, p', r1) \<Longrightarrow> parse_version data p r' = (c, p', if c = Ok then r'\<lparr>version := version r1\<rparr> else r')"
  by (auto simp: parse_version_def Let_def fail_def split: if_splits)

lemma parse_header_field_writes:
  "parse_header_field data p r = ((c, p', r1), nm) \<Longrightarrow> req_headers r' = req_headers r \<Longrightarrow> r1 = r \<and> parse_header_field data p r' = ((c, p', r'), nm)"
  by (auto simp: parse_header_field_def Let_def fail_def split: prod.splits if_splits)

lemma parse_header_value_writes:
  "parse_header_value nm data p r = (c, p', r1) \<Longrightarrow> req_headers r' = req_headers r \<Longrightarrow>
   r1 = r\<lparr>req_headers := req_headers r1\<rparr> \<and> parse_header_value nm data p r' = (c, p', r'\<lparr>req_headers := req_headers r1\<rparr>)"
  by (auto simp: parse_header_value_def Let_def fail_def split: prod.splits if_splits)

lemma parse_header_writes:
  assumes "parse_header data p r = (c, p', r1)" "req_headers r' = req_headers r"
  shows "r1 = r\<lparr>req_headers := req_headers r1\<rparr> \<and> parse_header data p r' = (c, p', r'\<lparr>req_headers := req_headers r1\<rparr>)"
proof -
  obtain c0 q r0 nm where f: "parse_header_field data p r = ((c0, q, r0), nm)" by (metis prod.collapse)
  note F = parse_header_field_writes [OF f assms(2)]
  show ?thesis
  proof (cases "c0 = Ok")
    case True
    then have "parse_header_value nm data q r = (c, p', r1)" using assms(1) f F by (simp add: parse_header_def and_then_def)
    from parse_header_value_writes [OF this assms(2)] show ?thesis using True F by (simp add: parse_header_def and_then_def)
  next
    case False
    then show ?thesis using assms f F by (auto simp: parse_header_def and_then_def)
  qed
qed

lemma header_loop_writes:
  "header_loop data p r = (c, p', r1) \<Longrightarrow> req_headers r' = req_headers r \<Longrightarrow>
   r1 = r\<lparr>req_headers := req_headers r1\<rparr> \<and> header_loop data p r' = (c, p', r'\<lparr>req_headers := req_headers r1\<rparr>)"
proof (induction data p r arbitrary: r' rule: header_loop.induct)
  case (1 data p r)
  show ?case
  proof (cases "pos p < length data \<and> data ! pos p \<noteq> 0x0D")
    case False
    have e: "header_loop data p x = (if pos p + 1 < length data then
        (if data ! (pos p + 1) \<noteq> 0x0A then fail p x else (Ok, p\<lparr>pos := pos p + 2, state := BODY\<rparr>, x)) else (More, p, x))" for x
      using False by (simp add: header_loop.simps [of data p])
    have "r1 = r \<and> header_loop data p r' = (c, p', r')" using 1(2) unfolding e by (simp add: fail_def split: if_splits)
    then show ?thesis using 1(3) by (metis HTTP1Request.surjective HTTP1Request.update_convs(8))
  next
    case True
    obtain c0 q r0 where h: "parse_header data p r = (c0, q, r0)" by (cases "parse_header data p r")
    note H = parse_header_writes [OF h 1(3)]
    show ?thesis
    proof (cases "c0 = Ok")
      case ok: True
      have l: "header_loop data q r0 = (c, p', r1)" using 1(2) True h ok by (simp add: header_loop.simps [of data p])
      have I: "r1 = r0\<lparr>req_headers := req_headers r1\<rparr> \<and> header_loop data q (r'\<lparr>req_headers := req_headers r0\<rparr>) =
          (c, p', r'\<lparr>req_headers := req_headers r0\<rparr>\<lparr>req_headers := req_headers r1\<rparr>)"
        by (rule 1(1) [of c0 "(q, r0)" q r0]) (use True h ok l in simp_all)
      have "r1 = r\<lparr>req_headers := req_headers r0\<rparr>\<lparr>req_headers := req_headers r1\<rparr>" using I H by metis
      moreover have "header_loop data p r' = header_loop data q (r'\<lparr>req_headers := req_headers r0\<rparr>)"
        using True H ok by (simp add: header_loop.simps [of data p])
      ultimately show ?thesis using I by simp
    next
      case False
      then show ?thesis using 1(2) True h H by (cases c0) (auto simp: header_loop.simps [of data p])
    qed
  qed
qed

section \<open>The framing of an unfinished attempt\<close>

lemma framing_loop_writes:
  "framing_loop hs te r = (ok, r1) \<Longrightarrow> version r' = version r \<Longrightarrow> content_length r' = content_length r \<Longrightarrow>
   has_content_length r' = has_content_length r \<Longrightarrow> chunked r' = chunked r \<Longrightarrow>
   r1 = r\<lparr>content_length := content_length r1, has_content_length := has_content_length r1, chunked := chunked r1\<rparr> \<and>
   framing_loop hs te r' =
     (ok, r'\<lparr>content_length := content_length r1, has_content_length := has_content_length r1, chunked := chunked r1\<rparr>)"
proof (induction hs arbitrary: te r r')
  case (Cons h hs)
  show ?case
  proof (cases "ieq (fst h) (bytes_of ''content-length'')")
    case True
    show ?thesis
    proof (cases "parse_content_length (snd h)")
      case (Some n)
      show ?thesis
      proof (cases "has_content_length r \<and> n \<noteq> content_length r")
        case False
        have l: "framing_loop hs te (r\<lparr>content_length := n, has_content_length := True\<rparr>) = (ok, r1)" using Cons.prems True Some False by simp
        have "framing_loop (h # hs) te r' = framing_loop hs te (r'\<lparr>content_length := n, has_content_length := True\<rparr>)"
          using Cons.prems(3,4) True Some False by auto
        then show ?thesis using Cons.IH [OF l, of "r'\<lparr>content_length := n, has_content_length := True\<rparr>"] Cons.prems(2,5) by simp
      qed (use Cons.prems True Some in auto)
    qed (use Cons.prems True in auto)
  next
    case False
    show ?thesis
    proof (cases "ieq (fst h) (bytes_of ''transfer-encoding'')")
      case True
      show ?thesis
      proof (cases "te + 1 > 1 \<or> \<not> ieq (snd h) (bytes_of ''chunked'') \<or> version r \<noteq> HTTP_1_1")
        case no: False
        have l: "framing_loop hs (te + 1) (r\<lparr>chunked := True\<rparr>) = (ok, r1)" using Cons.prems True False no by simp
        have "framing_loop (h # hs) te r' = framing_loop hs (te + 1) (r'\<lparr>chunked := True\<rparr>)" using Cons.prems(2) True False no by simp
        then show ?thesis using Cons.IH [OF l, of "r'\<lparr>chunked := True\<rparr>"] Cons.prems(2-4) by simp
      next
        case bad: True
        have "framing_loop (h # hs) te z = (False, z)" if "version z = version r" for z using True False bad that by auto
        then show ?thesis using Cons.prems by simp
      qed
    next
      case no: False
      then show ?thesis using Cons False by simp
    qed
  qed
qed auto

text \<open>The fields a new attempt starts with.\<close>

definition fresh_flags :: "HTTP1Request \<Rightarrow> bool" where
  "fresh_flags r \<longleftrightarrow> content_length r = 0 \<and> \<not> has_content_length r \<and> \<not> chunked r \<and> \<not> upgrade r"

definition reset_flags :: "HTTP1Request \<Rightarrow> HTTP1Request" where
  "reset_flags r = r\<lparr>content_length := 0, has_content_length := False, chunked := False, upgrade := False\<rparr>"

lemma url_components_again:
  assumes "url f = url r" "path f = path (parse_url_components r)" "query f = query (parse_url_components r)" "fragment f = fragment (parse_url_components r)"
  shows "parse_url_components f = f"
proof -
  have "f\<lparr>path := path f\<rparr> = f" "f\<lparr>query := query f\<rparr> = f" "f\<lparr>fragment := fragment f\<rparr> = f" by simp_all
  then show ?thesis using assms by (auto simp: parse_url_components_def Let_def split: option.splits)
qed

definition finish :: "HTTP1Request \<Rightarrow> HTTP1Request" where
  "finish req =
     (let connection = get_header req (bytes_of ''connection'');
          req = req\<lparr>keep_alive := (if version req = HTTP_1_1 then connection = [] \<or> ieq connection (bytes_of ''keep-alive'')
                                  else ieq connection (bytes_of ''keep-alive''))\<rparr>;
          up = get_header req (bytes_of ''upgrade'')
      in if up \<noteq> [] then req\<lparr>upgrade := True, upgrade_protocol := up\<rparr> else req)"

lemma extract_framing_finish:
  "extract_framing g = (True, f) \<longleftrightarrow>
     (\<exists>h. framing_loop (req_headers g) 0 g = (True, h) \<and> \<not> (chunked h \<and> has_content_length h) \<and> f = finish h)"
proof -
  have "extract_framing g = (case framing_loop (req_headers g) 0 g of (False, req) \<Rightarrow> (False, req)
      | (True, req) \<Rightarrow> if chunked req \<and> has_content_length req then (False, req) else (True, finish req))"
    unfolding extract_framing_def finish_def Let_def by (rule refl)
  then show ?thesis by (cases "framing_loop (req_headers g) 0 g") (auto split: bool.splits)
qed

lemma finish_again: "\<not> upgrade h \<Longrightarrow> finish ((finish h)\<lparr>upgrade := False\<rparr>) = finish h"
  by (auto simp: finish_def get_header_def Let_def)

lemma finish_fields:
  "req_headers (finish h) = req_headers h" "version (finish h) = version h" "url (finish h) = url h" "path (finish h) = path h"
  "query (finish h) = query h" "fragment (finish h) = fragment h" "content_length (finish h) = content_length h"
  "has_content_length (finish h) = has_content_length h" "chunked (finish h) = chunked h" "body (finish h) = body h"
  "method_str (finish h) = method_str h" "req_method (finish h) = req_method h"
  by (simp_all add: finish_def Let_def)

lemma framing_again:
  assumes "extract_framing (parse_url_components r) = (True, f)" "fresh_flags r"
  shows "extract_framing (parse_url_components (reset_flags f)) = (True, f)"
proof -
  define g where "g = parse_url_components r"
  have g: "fresh_flags g" "url g = url r"
    using assms(2) by (auto simp: g_def fresh_flags_def parse_url_components_def Let_def split: option.splits)
  obtain h where h: "framing_loop (req_headers g) 0 g = (True, h)" "\<not> (chunked h \<and> has_content_length h)" "f = finish h"
    using assms(1) unfolding g_def [symmetric] extract_framing_finish by blast
  let ?f = "reset_flags f"
  have hg: "h = g\<lparr>content_length := content_length h, has_content_length := has_content_length h, chunked := chunked h\<rparr>"
    using framing_loop_writes [OF h(1), of g] by simp
  have hf: "version h = version g" "req_headers h = req_headers g" "url h = url g" "path h = path g" "query h = query g" "fragment h = fragment g" "upgrade h = upgrade g"
    by (subst hg, simp)+
  have "parse_url_components ?f = ?f"
    by (rule url_components_again [of _ r]) (simp_all add: reset_flags_def h(3) finish_fields hf g(2) [unfolded g_def] g_def)
  moreover have "framing_loop (req_headers ?f) 0 ?f = (True, ?f\<lparr>content_length := content_length h, has_content_length := has_content_length h, chunked := chunked h\<rparr>)"
    using framing_loop_writes [OF h(1), of ?f] g(1) by (simp add: reset_flags_def h(3) finish_fields hf fresh_flags_def)
  moreover have "?f\<lparr>content_length := content_length h, has_content_length := has_content_length h, chunked := chunked h\<rparr> = (finish h)\<lparr>upgrade := False\<rparr>"
    using finish_fields [of h] by (simp add: reset_flags_def h(3))
  moreover have "\<not> upgrade h" using hf g(1) by (simp add: fresh_flags_def)
  ultimately show ?thesis unfolding extract_framing_finish using h(2,3) finish_again [of h] by (auto simp: finish_fields)
qed

section \<open>An attempt after an unfinished one\<close>

definition fresh :: "HTTP1Request \<Rightarrow> bool" where
  "fresh r \<longleftrightarrow> req_headers r = [] \<and> fresh_flags r"

lemma fresh_start: "fresh r \<Longrightarrow> request_start_state r = r" "fresh (request_start_state r)"
  by (auto simp: fresh_def request_start_state_def fresh_flags_def)

lemma url_components_fields:
  "req_headers (parse_url_components r) = req_headers r" "method_str (parse_url_components r) = method_str r"
  "req_method (parse_url_components r) = req_method r" "url (parse_url_components r) = url r" "version (parse_url_components r) = version r"
  by (auto simp: parse_url_components_def Let_def split: option.splits)

lemma parse_body_resumed:
  assumes "parse_body x p r = (More, p', r')" "fresh_flags r"
  shows "parse_body d p (reset_flags r') = parse_body d p r \<and> req_headers r' = req_headers r \<and>
    method_str r' = method_str r \<and> req_method r' = req_method r \<and> url r' = url r \<and> version r' = version r"
proof -
  obtain f where f: "extract_framing (parse_url_components r) = (True, f)"
    using assms(1) by (cases "extract_framing (parse_url_components r)") (auto simp: parse_body_def fail_def split: bool.splits)
  obtain h where h: "framing_loop (req_headers (parse_url_components r)) 0 (parse_url_components r) = (True, h)"
    "\<not> (chunked h \<and> has_content_length h)" "f = finish h" using f unfolding extract_framing_finish by blast
  have "r' = f" using assms(1) f h(2,3)
    by (auto simp: parse_body_def fail_def Let_def finish_fields split: scan.splits if_splits)
  moreover have "parse_body d p (reset_flags f) = parse_body d p r" using framing_again [OF f assms(2)] f by (simp add: parse_body_def)
  moreover obtain a b c where "h = (parse_url_components r)\<lparr>content_length := a, has_content_length := b, chunked := c\<rparr>"
    using framing_loop_writes [OF h(1), of "parse_url_components r"] by blast
  ultimately show ?thesis using h(3) by (simp add: finish_fields url_components_fields)
qed

text \<open>The rest of the parse from the header fields on, and from each earlier step on.\<close>

definition from_headers :: "byte list \<Rightarrow> HTTP1Parser \<Rightarrow> HTTP1Request \<Rightarrow> parse_step" where
  "from_headers data = (\<lambda>p req. and_then (header_loop data p req) (parse_body data))"

lemma from_headers_resumed:
  assumes "from_headers x p r = (More, p', r')" "fresh r" "pos p \<le> length x" "state p \<noteq> ERROR"
  shows "from_headers (x @ y) p (request_start_state r') = from_headers (x @ y) p r \<and>
    method_str r' = method_str r \<and> req_method r' = req_method r \<and> url r' = url r \<and> version r' = version r"
proof -
  obtain c q s where h: "header_loop x p r = (c, q, s)" by (cases "header_loop x p r")
  obtain hs where s: "s = r\<lparr>req_headers := hs\<rparr>" using header_loop_writes [OF h, of r] by blast
  then have keep: "method_str s = method_str r" "req_method s = req_method r" "url s = url r" "version s = version r" "fresh_flags s"
    using assms(2) by (simp_all add: fresh_def fresh_flags_def)
  show ?thesis
  proof (cases "c = Ok")
    case False
    then have "r' = s" using assms(1) h by (simp add: from_headers_def and_then_def)
    then have "request_start_state r' = request_start_state r" using s by (simp add: request_start_state_def)
    then have "request_start_state r' = r" using fresh_start(1) [OF assms(2)] by simp
    then show ?thesis using \<open>r' = s\<close> keep by simp
  next
    case True
    then have b: "parse_body x q s = (More, p', r')" using assms(1) h by (simp add: from_headers_def and_then_def)
    note B = parse_body_resumed [OF b keep(5), of "x @ y"]
    have S: "header_loop (x @ y) p r = (Ok, q, s)" using stableD [OF header_loop_stable h assms(3,4), of y] True by simp
    have "header_loop (x @ y) p (request_start_state r') = (Ok, q, (request_start_state r')\<lparr>req_headers := req_headers s\<rparr>)"
      using header_loop_writes [OF S, of "request_start_state r'"] assms(2) by (simp add: fresh_def request_start_state_def)
    moreover have "(request_start_state r')\<lparr>req_headers := req_headers s\<rparr> = reset_flags r'"
      using B by (simp add: request_start_state_def reset_flags_def)
    ultimately show ?thesis using B S keep by (simp add: from_headers_def and_then_def)
  qed
qed

text \<open>
  A step that copies what it read into some fields of the request, in front of the rest of the parse: an attempt on more
  bytes, with the request an unfinished attempt left behind, is the attempt with the request that one started with.
\<close>

locale resumed_step =
  fixes step rest :: "byte list \<Rightarrow> HTTP1Parser \<Rightarrow> HTTP1Request \<Rightarrow> parse_step"
    and copy :: "HTTP1Request \<Rightarrow> HTTP1Request \<Rightarrow> HTTP1Request"
    and same :: "HTTP1Request \<Rightarrow> HTTP1Request \<Rightarrow> bool"
  assumes step_stable: "stable step"
    and writes: "step data p r = (c, p', r1) \<Longrightarrow> step data p z = (c, p', if c = Ok then copy r1 z else z)"
    and copy_start: "copy a (request_start_state z) = request_start_state (copy a z)"
    and copy_fresh: "fresh z \<Longrightarrow> fresh (copy a z)"
    and same_refl: "same r r"
    and same_copy: "same (copy a z) w \<Longrightarrow> same z w"
    and rest_resumed: "rest x p r = (More, p', r') \<Longrightarrow> fresh r \<Longrightarrow> pos p \<le> length x \<Longrightarrow> state p \<noteq> ERROR \<Longrightarrow>
      rest (x @ y) p (request_start_state r') = rest (x @ y) p r \<and> copy r r' = r' \<and> same r r'"
begin

lemma step_resumed:
  assumes "and_then (step x p r) (rest x) = (More, p', r')" "fresh r" "pos p \<le> length x" "state p \<noteq> ERROR"
  shows "and_then (step (x @ y) p (request_start_state r')) (rest (x @ y)) = and_then (step (x @ y) p r) (rest (x @ y)) \<and> same r r'"
proof -
  obtain c q s where f: "step x p r = (c, q, s)" by (cases "step x p r")
  show ?thesis
  proof (cases "c = Ok")
    case False
    then have "r' = r" using assms(1) f writes [OF f, of r] by (simp add: and_then_def)
    then show ?thesis using fresh_start(1) [OF assms(2)] same_refl by simp
  next
    case True
    have S: "step (x @ y) p r = (Ok, q, s)" "pos q \<le> length x" "state q \<noteq> ERROR" using stableD [OF step_stable f assms(3,4), of y] True by simp_all
    have s: "s = copy s r" using writes [OF f, of r] f True by simp
    then have "fresh s" using copy_fresh [OF assms(2), of s] by simp
    moreover have "rest x q s = (More, p', r')" using assms(1) f True by (simp add: and_then_def)
    ultimately have G: "rest (x @ y) q (request_start_state r') = rest (x @ y) q s" "copy s r' = r'" "same s r'" using rest_resumed S(2,3) by blast+
    have "step (x @ y) p (request_start_state r') = (Ok, q, request_start_state r')"
      using writes [OF S(1), of "request_start_state r'"] copy_start [of s r'] G(2) by simp
    then show ?thesis using G(1,3) S(1) s same_copy [of s r r'] by (simp add: and_then_def)
  qed
qed

end

definition from_version :: "byte list \<Rightarrow> HTTP1Parser \<Rightarrow> HTTP1Request \<Rightarrow> parse_step" where
  "from_version data = (\<lambda>p req. and_then (parse_version data p req) (from_headers data))"

definition from_url :: "byte list \<Rightarrow> HTTP1Parser \<Rightarrow> HTTP1Request \<Rightarrow> parse_step" where
  "from_url data = (\<lambda>p req. and_then (parse_url data p req) (from_version data))"

definition from_method :: "byte list \<Rightarrow> HTTP1Parser \<Rightarrow> HTTP1Request \<Rightarrow> parse_step" where
  "from_method data = (\<lambda>p req. and_then (parse_method data p req) (from_url data))"

lemma parse_chain_steps: "parse_chain data p req = and_then (request_start data p req) (from_method data)"
  by (simp add: parse_chain_def from_method_def from_url_def from_version_def from_headers_def)

lemmas copy_simps = fresh_def fresh_flags_def request_start_state_def

interpretation version_step: resumed_step parse_version from_headers "\<lambda>a z. z\<lparr>version := version a\<rparr>"
  "\<lambda>r r'. method_str r' = method_str r \<and> req_method r' = req_method r \<and> url r' = url r"
proof
  show "parse_version data p z = (c, p', if c = Ok then z\<lparr>version := version r1\<rparr> else z)" if "parse_version data p r = (c, p', r1)" for data p r c p' r1 z
    using that by (rule parse_version_writes)
next
  fix x p r p' r' y
  assume "from_headers x p r = (More, p', r')" "fresh r" "pos p \<le> length x" "state p \<noteq> ERROR"
  note H = from_headers_resumed [OF this, of y]
  then have "r'\<lparr>version := version r\<rparr> = r'" by simp
  with H show "from_headers (x @ y) p (request_start_state r') = from_headers (x @ y) p r \<and> r'\<lparr>version := version r\<rparr> = r' \<and>
    method_str r' = method_str r \<and> req_method r' = req_method r \<and> url r' = url r" by blast
qed (use parse_version_stable in \<open>simp_all add: copy_simps\<close>)

interpretation url_step: resumed_step parse_url from_version "\<lambda>a z. z\<lparr>url := url a\<rparr>"
  "\<lambda>r r'. method_str r' = method_str r \<and> req_method r' = req_method r"
proof
  show "parse_url data p z = (c, p', if c = Ok then z\<lparr>url := url r1\<rparr> else z)" if "parse_url data p r = (c, p', r1)" for data p r c p' r1 z
    using that by (rule parse_url_writes)
next
  fix x p r p' r' y
  assume "from_version x p r = (More, p', r')" "fresh r" "pos p \<le> length x" "state p \<noteq> ERROR"
  note H = version_step.step_resumed [OF this [unfolded from_version_def], of y, folded from_version_def]
  then have "r'\<lparr>url := url r\<rparr> = r'" by simp
  with H show "from_version (x @ y) p (request_start_state r') = from_version (x @ y) p r \<and> r'\<lparr>url := url r\<rparr> = r' \<and>
    method_str r' = method_str r \<and> req_method r' = req_method r" by (simp add: from_version_def)
qed (use parse_url_stable in \<open>simp_all add: copy_simps\<close>)

interpretation method_step: resumed_step parse_method from_url "\<lambda>a z. z\<lparr>method_str := method_str a, req_method := req_method a\<rparr>" "\<lambda>r r'. True"
proof
  show "parse_method data p z = (c, p', if c = Ok then z\<lparr>method_str := method_str r1, req_method := req_method r1\<rparr> else z)"
    if "parse_method data p r = (c, p', r1)" for data p r c p' r1 z
    using that by (rule parse_method_writes)
next
  fix x p r p' r' y
  assume "from_url x p r = (More, p', r')" "fresh r" "pos p \<le> length x" "state p \<noteq> ERROR"
  note H = url_step.step_resumed [OF this [unfolded from_url_def], of y]
  then have "r'\<lparr>method_str := method_str r, req_method := req_method r\<rparr> = r'" by simp
  with H show "from_url (x @ y) p (request_start_state r') = from_url (x @ y) p r \<and>
    r'\<lparr>method_str := method_str r, req_method := req_method r\<rparr> = r' \<and> True" by (simp add: from_url_def)
qed (use parse_method_stable in \<open>simp_all add: copy_simps\<close>)

interpretation start_step: resumed_step request_start from_method "\<lambda>a z. z" "\<lambda>r r'. True"
proof
  show "request_start data p z = (c, p', if c = Ok then z else z)" if "request_start data p r = (c, p', r1)" for data p r c p' r1 z
    using request_start_writes [OF that, of z] by simp
next
  fix x p r p' r' y
  assume "from_method x p r = (More, p', r')" "fresh r" "pos p \<le> length x" "state p \<noteq> ERROR"
  from method_step.step_resumed [OF this [unfolded from_method_def], of y]
  show "from_method (x @ y) p (request_start_state r') = from_method (x @ y) p r \<and> r' = r' \<and> True" by (simp add: from_method_def)
qed (use request_start_stable in simp_all)

text \<open>Whatever an unfinished attempt left in the parser and in the request does not matter to the next one.\<close>

lemma http1_parse_resumed:
  assumes "http1_parse x p r = (More, p', r')"
  shows "http1_parse (x @ y) p' r' = http1_parse (x @ y) p r"
proof (cases "x = []")
  case True
  then show ?thesis using assms by (simp add: http1_parse_def)
next
  case False
  have start: "parser_start p' = parser_start p" by (simp add: parser_start_def)
  have "and_then (request_start x (parser_start p) (request_start_state r)) (from_method x) = (More, p', r')"
    using assms False http1_parse_chain [of x p r] parse_chain_steps [of x] by simp
  moreover have "pos (parser_start p) \<le> length x" "state (parser_start p) \<noteq> ERROR" by (simp_all add: parser_start_def)
  ultimately have "parse_chain (x @ y) (parser_start p') (request_start_state r') = parse_chain (x @ y) (parser_start p) (request_start_state r)"
    unfolding parse_chain_steps start using start_step.step_resumed fresh_start(2) by blast
  then show ?thesis using False http1_parse_chain [of "x @ y"] by simp
qed

section \<open>The loop of a connection\<close>

text \<open>
  Parse after every read: the same parser and the same request go to every attempt, which sees all the bytes received.
\<close>

fun parse_reads :: "byte list \<Rightarrow> byte list list \<Rightarrow> HTTP1Parser \<Rightarrow> HTTP1Request \<Rightarrow> parse_step" where
  "parse_reads buf [] p req = (More, p, req)"
| "parse_reads buf (frag # frags) p req =
     (case http1_parse (buf @ frag) p req of
        (More, p, req) \<Rightarrow> parse_reads (buf @ frag) frags p req
      | done \<Rightarrow> done)"

lemma parse_reads_verdict:
  "(\<And>x. http1_parse (buf @ x) p req = http1_parse (buf @ x) p0 req0) \<Longrightarrow>
   fst (http1_parse (buf @ concat frags) p0 req0) \<noteq> More \<Longrightarrow> frags \<noteq> [] \<Longrightarrow>
   parse_reads buf frags p req = http1_parse (buf @ concat frags) p0 req0"
proof (induction frags arbitrary: buf p req)
  case (Cons frag frags)
  obtain c q r where h: "http1_parse (buf @ frag) p req = (c, q, r)" by (cases "http1_parse (buf @ frag) p req")
  show ?case
  proof (cases "c = More")
    case True
    have "fst (http1_parse (buf @ frag) p0 req0) = More" using Cons.prems(1) [of frag] h True by (metis fst_conv)
    then have "frags \<noteq> []" using Cons.prems(2) by auto
    moreover have "http1_parse ((buf @ frag) @ x) q r = http1_parse ((buf @ frag) @ x) p0 req0" for x
      using http1_parse_resumed [of "buf @ frag" p req q r x] h True Cons.prems(1) [of "frag @ x"] by simp
    ultimately show ?thesis using Cons.IH [of "buf @ frag" q r] Cons.prems(2) h True by simp
  next
    case False
    then have "http1_parse ((buf @ frag) @ concat frags) p0 req0 = (c, q, r)"
      using http1_parse_append [of "buf @ frag" p0 req0 c q r "concat frags"] h Cons.prems(1) [of frag] by simp
    then show ?thesis using h False by (cases c) simp_all
  qed
qed simp

end
