(* ===== verification/Http1_Request.thy ===== *)
theory Http1_Request
  imports Http1_Resume
begin

text \<open>
  Requests end to end: a request written as the grammar of HTTP/1 has it is parsed back, field by field, and the
  bytes consumed are exactly its own; and the properties of the parser.
\<close>

section \<open>Requests as text\<close>

definition token :: "byte list \<Rightarrow> bool" where
  "token t \<longleftrightarrow> t \<noteq> [] \<and> list_all is_token_char t"

definition target :: "byte list \<Rightarrow> bool" where
  "target u \<longleftrightarrow> u \<noteq> [] \<and> list_all (\<lambda>c. \<not> (c < 0x21 \<or> c = 0x7F)) u"

definition field_ok :: "byte list \<times> byte list \<Rightarrow> bool" where
  "field_ok h \<longleftrightarrow> token (fst h) \<and> list_all (\<lambda>c. \<not> ((c < 0x20 \<and> c \<noteq> 0x09) \<or> c = 0x7F)) (snd h) \<and>
     (snd h \<noteq> [] \<longrightarrow> \<not> is_whitespace (hd (snd h)) \<and> \<not> is_whitespace (last (snd h)))"

definition version_text :: "HTTP1Version \<Rightarrow> byte list" where
  "version_text v = (if v = HTTP_1_1 then bytes_of ''HTTP/1.1'' else bytes_of ''HTTP/1.0'') @ [0x0D, 0x0A]"

definition field_text :: "byte list \<times> byte list \<Rightarrow> byte list" where
  "field_text h = fst h @ [0x3A, 0x20] @ snd h @ [0x0D, 0x0A]"

definition head_text :: "byte list \<Rightarrow> byte list \<Rightarrow> HTTP1Version \<Rightarrow> (byte list \<times> byte list) list \<Rightarrow> byte list" where
  "head_text m u v hs = m @ [0x20] @ u @ [0x20] @ version_text v @ concat (map field_text hs) @ [0x0D, 0x0A]"

lemma not_token [simp]: "\<not> is_token_char 0x20" "\<not> is_token_char 0x3A" "\<not> is_token_char 0x0D"
  by (simp_all add: is_token_char_def bytes_of_def)

lemma scan_to_stop: "list_all allowed xs \<Longrightarrow> stop \<notin> set xs \<Longrightarrow> scan_to stop allowed (xs @ stop # ys) = (length xs, False)"
  by (induction xs) auto

lemma drop_at: "drop i data = xs @ ys \<Longrightarrow> i \<le> length data \<Longrightarrow> take (length xs) (drop i data) = xs \<and> drop (i + length xs) data = ys \<and> i + length xs \<le> length data"
proof -
  assume a: "drop i data = xs @ ys" "i \<le> length data"
  have "drop (length xs) (drop i data) = ys" unfolding a(1) by simp
  then have "drop (i + length xs) data = ys" by (simp add: add.commute)
  moreover have "length data - i = length xs + length ys" using arg_cong [OF a(1), of length] by simp
  ultimately show ?thesis using a by simp
qed

lemma parse_method_text:
  assumes "drop (pos p) data = m @ 0x20 # rest" "pos p \<le> length data" "token m"
  shows "\<exists>p'. parse_method data p req = (Ok, p', req\<lparr>method_str := m, req_method := method_of m\<rparr>) \<and>
    pos p' = pos p + length m + 1 \<and> drop (pos p') data = rest \<and> pos p' \<le> length data"
proof -
  have s: "scan_to 0x20 is_token_char (drop (pos p) data) = (length m, False)"
    unfolding assms(1) using assms(3) by (intro scan_to_stop) (auto simp: token_def list_all_iff)
  have l: "pos p + length m < length data" using arg_cong [OF assms(1), of length] assms(2) by simp
  note d = drop_at [of "pos p" data "m @ [0x20]" rest] drop_at [of "pos p" data m "0x20 # rest"]
  show ?thesis using assms s l d by (auto simp: parse_method_def marked_def token_def)
qed

lemma parse_url_text:
  assumes "drop (pos p) data = u @ 0x20 # rest" "pos p \<le> length data" "target u"
  shows "\<exists>p'. parse_url data p req = (Ok, p', req\<lparr>url := u\<rparr>) \<and>
    pos p' = pos p + length u + 1 \<and> drop (pos p') data = rest \<and> pos p' \<le> length data"
proof -
  have s: "scan_to 0x20 (\<lambda>c. \<not> (c < 0x21 \<or> c = 0x7F)) (drop (pos p) data) = (length u, False)"
    unfolding assms(1) using assms(3) by (intro scan_to_stop) (auto simp: target_def list_all_iff)
  have l: "pos p + length u < length data" using arg_cong [OF assms(1), of length] assms(2) by simp
  note d = drop_at [of "pos p" data "u @ [0x20]" rest] drop_at [of "pos p" data u "0x20 # rest"]
  show ?thesis using assms s l d by (auto simp: parse_url_def marked_def target_def)
qed

lemma parse_version_text:
  assumes "drop (pos p) data = version_text v @ rest" "pos p \<le> length data" "v = HTTP_1_0 \<or> v = HTTP_1_1"
  shows "\<exists>p'. parse_version data p req = (Ok, p', req\<lparr>version := v\<rparr>) \<and> state p' \<noteq> ERROR \<and> pos p' = pos p + 10 \<and> drop (pos p') data = rest \<and> pos p' \<le> length data"
proof -
  have ten: "length (version_text v) = 10" by (simp add: version_text_def bytes_of_def)
  note d = drop_at [OF assms(1,2)]
  have avail: "min (length data - pos p) 5 = 5" "\<not> pos p + 10 > length data" using d ten by auto
  have "take 5 (drop (pos p) data) = take 5 (version_text v)" unfolding assms(1) using ten by simp
  also have "\<dots> = take 5 (bytes_of ''HTTP/'')" by (simp add: version_text_def bytes_of_def)
  finally have five: "take 5 (drop (pos p) data) = take 5 (bytes_of ''HTTP/'')" .
  have t: "take 10 (drop (pos p) data) = version_text v" using d ten by simp
  have ne: "bytes_of ''HTTP/1.0'' \<noteq> bytes_of ''HTTP/1.1''" by (simp add: bytes_of_def)
  show ?thesis using assms(3) avail five t d ten ne
    by (auto simp: parse_version_def Let_def version_text_def add.commute)
qed

lemma trim_end_none: "lo \<le> e \<Longrightarrow> (lo < e \<longrightarrow> \<not> is_whitespace (data ! (e - 1))) \<Longrightarrow> trim_end data lo e = e"
  by (cases e) auto

lemma parse_header_text:
  assumes "drop (pos p) data = field_text h @ rest" "pos p \<le> length data" "field_ok h" "length (req_headers req) < MAX_HEADERS" "state p \<noteq> ERROR"
  shows "\<exists>p'. parse_header data p req = (Ok, p', req\<lparr>req_headers := req_headers req @ [h]\<rparr>) \<and>
    pos p' = pos p + length (field_text h) \<and> drop (pos p') data = rest \<and> pos p' \<le> length data \<and> state p' = HEADER_FIELD"
proof -
  obtain n v where h: "h = (n, v)" by (cases h)
  have f: "token n" "list_all (\<lambda>c. \<not> ((c < 0x20 \<and> c \<noteq> 0x09) \<or> c = 0x7F)) v" "v \<noteq> [] \<Longrightarrow> \<not> is_whitespace (hd v) \<and> \<not> is_whitespace (last v)"
    using assms(3) h by (auto simp: field_ok_def)
  have tx: "drop (pos p) data = n @ 0x3A # 0x20 # v @ 0x0D # 0x0A # rest" using assms(1) h by (simp add: field_text_def)
  have s: "scan_to 0x3A is_token_char (drop (pos p) data) = (length n, False)"
    unfolding tx using f(1) by (intro scan_to_stop) (auto simp: token_def list_all_iff)
  note d1 = drop_at [of "pos p" data n "0x3A # 0x20 # v @ 0x0D # 0x0A # rest"]
  note d2 = drop_at [of "pos p" data "n @ [0x3A]" "0x20 # v @ 0x0D # 0x0A # rest"]
  note d3 = drop_at [of "pos p" data "n @ [0x3A, 0x20]" "v @ 0x0D # 0x0A # rest"]
  note d4 = drop_at [of "pos p" data "n @ [0x3A, 0x20] @ v @ [0x0D, 0x0A]" rest]
  have ws: "takeWhile (\<lambda>c. c = 0x20 \<or> c = 0x09) (0x20 # v @ 0x0D # 0x0A # rest) = [0x20]"
    using f(3) by (cases v) (auto simp: is_whitespace_def)
  let ?q = "pos p + length n + 2"
  have field: "parse_header_field data p req = ((Ok, p\<lparr>mark := pos p, pos := ?q, state := HEADER_VALUE\<rparr>, req), n)"
    using assms(2,4) s tx d1 d2 ws f(1) by (simp add: parse_header_field_def Let_def marked_def token_def)
  have s2: "scan_to 0x0D (\<lambda>c. \<not> ((c < 0x20 \<and> c \<noteq> 0x09) \<or> c = 0x7F)) (drop ?q data) = (length v, False)"
  proof -
    have "drop ?q data = v @ 0x0D # 0x0A # rest" using d3 tx assms(2) by simp
    moreover have "0x0D \<notin> set v" using f(2) by (auto simp: list_all_iff)
    ultimately show ?thesis using scan_to_stop [of _ v "0x0D" "0x0A # rest"] f(2) by simp
  qed
  have dq: "drop ?q data = v @ 0x0D # 0x0A # rest" "?q \<le> length data" using d3 tx assms(2) by simp_all
  have lf: "data ! Suc (?q + length v) = 0x0A" "Suc (?q + length v) < length data"
    using drop_at [of ?q data "v @ [0x0D]" "0x0A # rest"] drop_at [of ?q data "v @ [0x0D, 0x0A]" "rest"] dq
    by (simp_all add: nth_via_drop Suc_le_eq)
  have last: "?q < ?q + length v \<longrightarrow> \<not> is_whitespace (data ! (?q + length v - 1))"
  proof
    assume "?q < ?q + length v"
    then have v: "v \<noteq> []" by auto
    have "drop ?q data ! (length v - 1) = last v" unfolding dq using v by (simp add: nth_append last_conv_nth)
    then have "data ! (?q + (length v - 1)) = last v" using dq(2) v lf(2) by (subst (asm) nth_drop) simp_all
    then show "\<not> is_whitespace (data ! (?q + length v - 1))" using f(3) v by (simp add: Nat.add_diff_assoc Suc_leI)
  qed
  have val: "parse_header_value n data (p\<lparr>mark := pos p, pos := ?q, state := HEADER_VALUE\<rparr>) req =
      (Ok, p\<lparr>mark := ?q, pos := ?q + length v + 2, state := HEADER_FIELD\<rparr>, req\<lparr>req_headers := req_headers req @ [(n, v)]\<rparr>)"
    using s2 lf dq trim_end_none [OF _ last] by (simp add: parse_header_value_def Let_def)
  show ?thesis using field val d4 tx assms(2) h by (simp add: parse_header_def and_then_def field_text_def add.assoc)
qed

lemma field_text_start: "field_ok h \<Longrightarrow> \<exists>c r. field_text h = c # r \<and> c \<noteq> 0x0D"
  by (cases "fst h") (auto simp: field_ok_def token_def field_text_def)

lemma header_loop_text:
  assumes "drop (pos p) data = concat (map field_text hs) @ 0x0D # 0x0A # rest" "pos p \<le> length data" "list_all field_ok hs"
    "length (req_headers req) + length hs \<le> MAX_HEADERS" "state p \<noteq> ERROR"
  shows "\<exists>p'. header_loop data p req = (Ok, p', req\<lparr>req_headers := req_headers req @ hs\<rparr>) \<and>
    pos p' = pos p + length (concat (map field_text hs)) + 2 \<and> drop (pos p') data = rest \<and> pos p' \<le> length data"
  using assms
proof (induction hs arbitrary: p req)
  case Nil
  note d = drop_at [of "pos p" data "[0x0D, 0x0A]" rest] drop_at [of "pos p" data "[0x0D]" "0x0A # rest"]
  have "data ! pos p = 0x0D" "data ! Suc (pos p) = 0x0A" using Nil d by (simp_all add: nth_via_drop)
  then show ?case using Nil d by (subst header_loop.simps) (auto simp: Suc_le_eq)
next
  case (Cons h hs)
  have d: "drop (pos p) data = field_text h @ concat (map field_text hs) @ 0x0D # 0x0A # rest" using Cons.prems(1) by simp
  obtain c r where c: "field_text h = c # r" "c \<noteq> 0x0D" using field_text_start [of h] Cons.prems(3) by auto
  have at: "data ! pos p = c" "pos p < length data"
    using d c drop_at [of "pos p" data "[c]" "r @ concat (map field_text hs) @ 0x0D # 0x0A # rest"] Cons.prems(2) by (simp_all add: nth_via_drop)
  obtain p1 where p1: "parse_header data p req = (Ok, p1, req\<lparr>req_headers := req_headers req @ [h]\<rparr>)" "pos p1 = pos p + length (field_text h)"
    "drop (pos p1) data = concat (map field_text hs) @ 0x0D # 0x0A # rest" "pos p1 \<le> length data" "state p1 = HEADER_FIELD"
    using parse_header_text [OF d Cons.prems(2), of req] Cons.prems(3-5) by auto
  have "\<exists>p'. header_loop data p1 (req\<lparr>req_headers := req_headers req @ [h]\<rparr>) = (Ok, p', req\<lparr>req_headers := req_headers req @ h # hs\<rparr>) \<and>
    pos p' = pos p1 + length (concat (map field_text hs)) + 2 \<and> drop (pos p') data = rest \<and> pos p' \<le> length data"
    using Cons.IH [OF p1(3,4), of "req\<lparr>req_headers := req_headers req @ [h]\<rparr>"] Cons.prems(3,4) p1(5) by simp
  moreover have "header_loop data p req = header_loop data p1 (req\<lparr>req_headers := req_headers req @ [h]\<rparr>)"
    using at c(2) p1(1) by (subst header_loop.simps) simp
  ultimately show ?case using p1(2) by auto
qed

lemma skip_empty_lines_text:
  assumes "drop (pos p) data = concat (replicate k [0x0D, 0x0A]) @ c # rest" "pos p \<le> length data" "k \<le> n" "c \<noteq> 0x0D"
  shows "\<exists>p'. skip_empty_lines n data p req = (Ok, p', req) \<and> pos p' = pos p + 2 * k \<and> drop (pos p') data = c # rest \<and> pos p' < length data \<and> state p' = state p"
  using assms
proof (induction k arbitrary: p n)
  case 0
  have "data ! pos p = c" "pos p < length data"
    using 0 drop_at [of "pos p" data "[c]" rest] by (simp_all add: nth_via_drop)
  then show ?case using 0 by (cases n) auto
next
  case (Suc k)
  obtain n' where n: "n = Suc n'" "k \<le> n'" using Suc.prems(3) by (cases n) auto
  let ?r = "concat (replicate k [0x0D, 0x0A]) @ c # rest"
  note d = drop_at [of "pos p" data "[0x0D, 0x0A]" ?r] drop_at [of "pos p" data "[0x0D]" "0x0A # ?r"]
  have at: "data ! pos p = 0x0D" "data ! Suc (pos p) = 0x0A" "Suc (pos p) < length data"
    using Suc.prems d by (simp_all add: nth_via_drop Suc_le_eq)
  have "drop (pos (p\<lparr>pos := pos p + 2\<rparr>)) data = ?r" using Suc.prems d by simp
  from Suc.IH [OF this _ n(2) Suc.prems(4)] at(3)
  obtain p' where "skip_empty_lines n' data (p\<lparr>pos := pos p + 2\<rparr>) req = (Ok, p', req)" "pos p' = pos p + 2 + 2 * k" "drop (pos p') data = c # rest"
    "pos p' < length data" "state p' = state p" by auto
  then show ?case using n at by simp
qed

definition named :: "byte list \<Rightarrow> byte list \<Rightarrow> HTTP1Version \<Rightarrow> (byte list \<times> byte list) list \<Rightarrow> HTTP1Request \<Rightarrow> HTTP1Request" where
  "named m u v hs req = req\<lparr>method_str := m, req_method := method_of m, url := u, version := v, req_headers := hs\<rparr>"

lemma head_parsed:
  assumes "k \<le> kMaxLeadingEmptyLines" "token m" "target u" "v = HTTP_1_0 \<or> v = HTTP_1_1" "list_all field_ok hs" "length hs \<le> MAX_HEADERS"
    and data_def: "data = concat (replicate k [0x0D, 0x0A]) @ head_text m u v hs @ rest"
  shows "\<exists>q. http1_parse data p req = and_then (Ok, q, named m u v hs (request_start_state req)) (parse_body data) \<and>
     pos q = 2 * k + length (head_text m u v hs) \<and> drop (pos q) data = rest \<and> pos q \<le> length data"
proof -
  obtain c m' where c: "m = c # m'" "is_token_char c" using assms(2) by (cases m) (auto simp: token_def)
  have c13: "c \<noteq> 0x0D" using c(2) not_token(3) by metis
  let ?hs = "concat (map field_text hs)" and ?r = "request_start_state req"
  have "drop (pos (parser_start p)) data = concat (replicate k [0x0D, 0x0A]) @ c # m' @ 0x20 # u @ 0x20 # version_text v @ ?hs @ 0x0D # 0x0A # rest"
    by (simp add: data_def head_text_def c parser_start_def)
  from skip_empty_lines_text [OF this _ assms(1) c13, of ?r]
  obtain p1 where p1: "skip_empty_lines kMaxLeadingEmptyLines data (parser_start p) ?r = (Ok, p1, ?r)" "pos p1 = 2 * k"
    "drop (pos p1) data = m @ 0x20 # u @ 0x20 # version_text v @ ?hs @ 0x0D # 0x0A # rest" "pos p1 < length data" "state p1 = START"
    by (auto simp: parser_start_def c)
  from parse_method_text [OF p1(3) less_imp_le [OF p1(4)] assms(2), of ?r]
  obtain p2 where p2: "parse_method data p1 ?r = (Ok, p2, ?r\<lparr>method_str := m, req_method := method_of m\<rparr>)" "pos p2 = pos p1 + length m + 1"
    "drop (pos p2) data = u @ 0x20 # version_text v @ ?hs @ 0x0D # 0x0A # rest" "pos p2 \<le> length data" by blast
  from parse_url_text [OF p2(3,4) assms(3), of "?r\<lparr>method_str := m, req_method := method_of m\<rparr>"]
  obtain p3 where p3: "parse_url data p2 (?r\<lparr>method_str := m, req_method := method_of m\<rparr>) = (Ok, p3, ?r\<lparr>method_str := m, req_method := method_of m, url := u\<rparr>)"
    "pos p3 = pos p2 + length u + 1" "drop (pos p3) data = version_text v @ ?hs @ 0x0D # 0x0A # rest" "pos p3 \<le> length data" by auto
  from parse_version_text [OF p3(3,4) assms(4), of "?r\<lparr>method_str := m, req_method := method_of m, url := u\<rparr>"]
  obtain p4 where p4: "parse_version data p3 (?r\<lparr>method_str := m, req_method := method_of m, url := u\<rparr>) = (Ok, p4, named m u v [] ?r)" "state p4 \<noteq> ERROR"
    "pos p4 = pos p3 + 10" "drop (pos p4) data = ?hs @ 0x0D # 0x0A # rest" "pos p4 \<le> length data"
    by (auto simp: named_def request_start_state_def)
  from header_loop_text [OF p4(4,5) assms(5), of "named m u v [] ?r"] p4(2) assms(6)
  obtain p5 where p5: "header_loop data p4 (named m u v [] ?r) = (Ok, p5, named m u v hs ?r)"
    "pos p5 = pos p4 + length ?hs + 2" "drop (pos p5) data = rest" "pos p5 \<le> length data"
    by (auto simp: named_def)
  have "data \<noteq> []" using p1(4) by auto
  then have "http1_parse data p req = and_then (Ok, p5, named m u v hs ?r) (parse_body data)"
    using p1(1,4) p2(1) p3(1) p4(1) p5(1) by (simp add: http1_parse_chain parse_chain_def request_start_def and_then_def)
  moreover have "length (version_text v) = 10" by (simp add: version_text_def bytes_of_def)
  ultimately show ?thesis using p1(2) p2(2) p3(2) p4(3) p5(2-4) by (intro exI [of _ p5]) (simp add: head_text_def)
qed

lemma framing_loop_names: "framing_loop hs te req = (ok, req') \<Longrightarrow> method_str req' = method_str req \<and> url req' = url req \<and> req_method req' = req_method req"
  by (induction hs arbitrary: te req) (auto split: if_splits option.splits)

lemma extract_framing_names:
  assumes "extract_framing (parse_url_components req) = (True, f)"
  shows "method_str f = method_str req \<and> url f = url req \<and> req_method f = req_method req"
proof -
  obtain ok g where g: "framing_loop (req_headers (parse_url_components req)) 0 (parse_url_components req) = (ok, g)"
    by (cases "framing_loop (req_headers (parse_url_components req)) 0 (parse_url_components req)")
  have "method_str f = method_str g \<and> url f = url g \<and> req_method f = req_method g"
    using assms g by (auto simp: extract_framing_def Let_def split: bool.splits if_splits)
  moreover have "method_str (parse_url_components req) = method_str req \<and> url (parse_url_components req) = url req \<and> req_method (parse_url_components req) = req_method req"
    by (auto simp: parse_url_components_def Let_def split: option.splits)
  ultimately show ?thesis using framing_loop_names [OF g] by simp
qed

text \<open>The body that a framing asks for.\<close>

definition framed_by :: "HTTP1Request \<Rightarrow> byte list \<Rightarrow> bool" where
  "framed_by f b \<longleftrightarrow>
     (if chunked f then scan_chunked b = ScanOk (length b)
      else length b = (if has_content_length f then unat (content_length f) else 0))"

lemma parse_body_text:
  assumes "extract_framing (parse_url_components req) = (True, f)" "\<not> (chunked f \<and> has_content_length f)" "framed_by f b"
    "drop (pos p) data = b @ rest" "pos p \<le> length data"
  shows "\<exists>p'. parse_body data p req = (Ok, p', if b = [] then f else f\<lparr>body := b\<rparr>) \<and> pos p' = pos p + length b"
proof (cases "chunked f")
  case True
  then have s: "scan_chunked (b @ rest) = ScanOk (length b)" "5 \<le> length b" "\<not> has_content_length f"
    using assms(2,3) scan_chunked_append [of b rest] by (auto simp: framed_by_def)
  then have "b \<noteq> []" by auto
  then show ?thesis using True s assms(1,4) by (simp add: parse_body_def)
next
  case False
  have l: "length data - pos p = length b + length rest" using arg_cong [OF assms(4), of length] by simp
  show ?thesis
  proof (cases "has_content_length f \<and> content_length f > 0")
    case True
    then have "length b = unat (content_length f)" "b \<noteq> []" using False assms(3) by (auto simp: framed_by_def word_less_nat_alt)
    then show ?thesis using True False assms(1,4) l by (simp add: parse_body_def)
  next
    case no: False
    then have "b = []" using False assms(3) by (auto simp: framed_by_def word_gt_0 split: if_splits)
    then show ?thesis using no False assms(1) by (simp add: parse_body_def Let_def if_not_P)
  qed
qed


section \<open>Properties\<close>

text \<open>
  C15. The verdict on a buffer does not depend on what arrives later. Once \<open>parse\<close> accepts or rejects the bytes received
  so far, it gives the same verdict, the same request and the same number of bytes consumed on every longer buffer; it
  rejects exactly when the parser is left in the state ERROR, and it never claims to have consumed more than it was
  given. An attempt that needs more bytes changes the parser and fills part of the request (method, target, headers,
  framing), and the connection loop passes both on to the next attempt on a longer buffer: that attempt gives what it
  would give with the parser and the request from before. So the loop gets, however the bytes are cut into reads, the
  verdict, the request and the length it would get on all the bytes at once. (The loop is the sequence of attempts; the
  limits on the buffer that make the server give up are not part of it.)
\<close>

theorem http1_parse_stable:
  assumes "http1_parse data p req = (rc, p', req')" "rc \<noteq> More"
  shows "http1_parse (data @ ext) p req = (rc, p', req') \<and> (rc = Err \<longleftrightarrow> state p' = ERROR) \<and> (rc = Ok \<longrightarrow> pos p' \<le> length data) \<and>
    (http1_parse x p req = (More, q, s) \<longrightarrow> http1_parse (x @ y) q s = http1_parse (x @ y) p req) \<and>
    (concat frags = data @ ext \<longrightarrow> parse_reads [] frags p req = (rc, p', req'))"
proof -
  note a = http1_parse_append [OF assms, of ext]
  have "data \<noteq> []" using assms by (auto simp: http1_parse_def)
  then have "parse_reads [] frags p req = (rc, p', req')" if "concat frags = data @ ext"
    using parse_reads_verdict [of "[]" p req p req frags] that a assms(2) by (cases frags) simp_all
  then show ?thesis using a http1_parse_resumed [of x p req q s y] by blast
qed

definition put_fields :: "(byte list \<times> byte list) list" where
  "put_fields = [(bytes_of ''Content-Length'', bytes_of ''2'')]"

definition put_text :: "byte list" where
  "put_text = head_text (bytes_of ''PUT'') (bytes_of ''/x?q'') HTTP_1_1 put_fields @ bytes_of ''ab''"

definition put_request :: HTTP1Request where
  "put_request = named (bytes_of ''PUT'') (bytes_of ''/x?q'') HTTP_1_1 put_fields (request_start_state request_init)"

lemma put_text_parsed:
  "case http1_parse put_text parser_new request_init of (c, p, r) \<Rightarrow> c = Ok \<and> has_content_length r \<and> content_length r > 0"
  by code_simp

theorem http1_parse_stable_witness:
  "fst (http1_parse put_text parser_new request_init) = Ok \<and>
   http1_parse (put_text @ bytes_of ''GET'') parser_new request_init = http1_parse put_text parser_new request_init \<and>
   parse_reads [] [take 20 put_text, [], drop 20 put_text, bytes_of ''GET''] parser_new request_init = http1_parse put_text parser_new request_init"
proof -
  obtain c q r where e: "http1_parse put_text parser_new request_init = (c, q, r)" by (cases "http1_parse put_text parser_new request_init")
  then have "c = Ok" using put_text_parsed by simp
  then show ?thesis
    using http1_parse_stable [OF e, of "bytes_of ''GET''" _ _ _ _ "[take 20 put_text, [], drop 20 put_text, bytes_of ''GET'']"] e by simp
qed

text \<open>
  C11. Parsing a written request gives it back. A head of a token, a target, a version line and up to 100 well formed
  fields, after at most four empty lines, followed by a body that fits the framing its headers announce (a Content-Length
  body of that many bytes, a chunked body, or nothing), is accepted: method, target, version and the headers in order are
  the ones written, the body is the one sent, and exactly the bytes of this request are consumed, whatever follows it.
\<close>

theorem http1_roundtrip:
  assumes "k \<le> kMaxLeadingEmptyLines" "token m" "target u" "v = HTTP_1_0 \<or> v = HTTP_1_1" "list_all field_ok hs" "length hs \<le> MAX_HEADERS"
    and "extract_framing (parse_url_components (named m u v hs (request_start_state req))) = (True, f)" "framed_by f b"
  shows "\<exists>p'. http1_parse (concat (replicate k [0x0D, 0x0A]) @ head_text m u v hs @ b @ rest) p req = (Ok, p', if b = [] then f else f\<lparr>body := b\<rparr>) \<and>
     pos p' = 2 * k + length (head_text m u v hs) + length b \<and>
     method_str f = m \<and> req_method f = method_of m \<and> url f = u \<and> version f = v \<and> req_headers f = hs"
proof -
  let ?data = "concat (replicate k [0x0D, 0x0A]) @ head_text m u v hs @ b @ rest" and ?r = "named m u v hs (request_start_state req)"
  obtain q where q: "http1_parse ?data p req = and_then (Ok, q, ?r) (parse_body ?data)" "pos q = 2 * k + length (head_text m u v hs)"
    "drop (pos q) ?data = b @ rest" "pos q \<le> length ?data" using head_parsed [OF assms(1-6) refl] by blast
  have clear: "\<not> has_content_length (parse_url_components ?r)" "\<not> chunked (parse_url_components ?r)"
    "req_headers (parse_url_components ?r) = hs" "version (parse_url_components ?r) = v"
    using parse_url_components_frame [of ?r]
    by (auto simp: same_framing_def named_def request_start_state_def parse_url_components_def Let_def split: option.splits)
  note E = extract_framing_ok [OF assms(7) clear(1,2)]
  have "\<exists>p'. parse_body ?data q ?r = (Ok, p', if b = [] then f else f\<lparr>body := b\<rparr>) \<and> pos p' = pos q + length b"
    by (rule parse_body_text [OF assms(7) _ assms(8) q(3,4)]) (use E in blast)
  moreover have "method_str f = m \<and> req_method f = method_of m \<and> url f = u"
    using extract_framing_names [OF assms(7)] by (simp add: named_def)
  ultimately show ?thesis using q(1,2) E clear(3,4) by (auto simp: and_then_def)
qed

theorem http1_roundtrip_witness:
  "\<exists>p' f. http1_parse (concat (replicate 1 [0x0D, 0x0A]) @ head_text (bytes_of ''PUT'') (bytes_of ''/x?q'') HTTP_1_1 put_fields @ bytes_of ''ab'' @ bytes_of ''GET'')
      parser_new request_init = (Ok, p', f\<lparr>body := bytes_of ''ab''\<rparr>) \<and> req_headers f = put_fields"
proof -
  let ?f = "snd (extract_framing (parse_url_components put_request))"
  have "fst (extract_framing (parse_url_components put_request)) = True" by code_simp
  then have f: "extract_framing (parse_url_components (named (bytes_of ''PUT'') (bytes_of ''/x?q'') HTTP_1_1 put_fields (request_start_state request_init))) = (True, ?f)"
    by (simp add: put_request_def prod_eq_iff)
  have b: "framed_by ?f (bytes_of ''ab'')" by code_simp
  have ok: "token (bytes_of ''PUT'')" "target (bytes_of ''/x?q'')" "list_all field_ok put_fields" by code_simp+
  have le: "1 \<le> kMaxLeadingEmptyLines" "length put_fields \<le> MAX_HEADERS" "bytes_of ''ab'' \<noteq> []" by code_simp+
  show ?thesis
    using http1_roundtrip [OF le(1) ok(1,2) disjI2 [OF refl] ok(3) le(2) f b, of "bytes_of ''GET''" parser_new] le(3) by auto
qed



end
