(* ===== verification/Spec2Isabelle.thy ===== *)
theory Spec2Isabelle
  imports Quic_Pn_Space Quic_Packet Quic_Ack Quic_Stream_Correct Quic_Recovery Http2_Frame Ws_Delivery Hpack Qpack_Correct Http1_Request
begin

text \<open>
  Verification of BoltAPI, a C++ network library that speaks HTTP/1, HTTP/2, HTTP/3 over QUIC, WebSocket, WebRTC and
  some database protocols from one server. This development models the protocol engines that are written in the
  repository and are independent of sockets and of third-party code, and proves them correct. Paths below are relative
  to the repository.

  \<^bold>\<open>How the code is modelled.\<close> A C++ struct or class is a record with the fields of the source, an enum is a datatype,
  a \<open>uintN_t\<close> is a word of that width (types \<open>byte\<close>, \<open>u16\<close>, \<open>u32\<close>, \<open>u64\<close>) wherever wrap-around or bits matter, and a
  \<open>size_t\<close> that counts bytes of a buffer is a natural number. A pointer with a length is a list of bytes; an output
  buffer with a capacity is the list written and a bound. A method is a function from the object to the object, with
  its result; an error return is \<open>None\<close> or a value of the source's own status type. Loops are structural recursions or
  functions with a termination proof; the fuel of a bounded C++ loop is the bound the C++ loop has (the guard of
  \<open>HPACKDecoder::decode\<close>, the step bound of \<open>WebSocketConnection::feed\<close>) and the properties show that it is not what
  ends the loop. Callbacks are events in a log.

  \<^bold>\<open>Foundations.\<close> \<open>Bolt_Prelude\<close> holds the machine types, facts on words and lists and the locale \<open>prefix_codec\<close> of
  self-delimiting codecs; \<open>Bolt_Bytes\<close> holds big-endian words and stores into buffers.

  \<^bold>\<open>QUIC\<close> (\<^verbatim>\<open>include/boltapi/quic\<close>).
  \<^item> \<open>Quic_Varint\<close> models \<^verbatim>\<open>varint.h\<close>; decoding is the inverse of encoding, reads only what it consumes, and is the
    instance of \<open>prefix_codec\<close> the frame codecs use.
  \<^item> \<open>Quic_Pn_Space\<close> models \<^verbatim>\<open>pn_space.h\<close>: numbers are never reused, and a truncated number is recovered as long as the
    receiver is not too far ahead, with the exact bound.
  \<^item> \<open>Quic_Packet\<close> models \<^verbatim>\<open>packet.h\<close>; \<open>Quic_Frames\<close> models \<^verbatim>\<open>frames.h\<close>: parsers stay in bounds and invert the writers.
  \<^item> \<open>Quic_Ack\<close> models \<^verbatim>\<open>ack.h\<close>: the tracker holds exactly the received numbers, and its ACK frame, sent and walked by
    the peer, marks exactly them.
  \<^item> \<open>Quic_Extents\<close>, \<open>Quic_Stream\<close> and \<open>Quic_Stream_Correct\<close> model \<^verbatim>\<open>stream.h\<close>: frames in any order, duplicated and
    overlapping, deliver the peer's bytes in order, and no byte the application wrote is given up before it is
    acknowledged. A run of the sender carries what the application wrote beside the state, bytes that wait outside the
    ring included. The locale \<open>extent_tracker\<close> is what both halves of a stream need of the extent set.
  \<^item> \<open>Quic_Loss\<close> models \<^verbatim>\<open>loss.h\<close>, and \<open>Quic_Recovery\<close> the recovery part of \<^verbatim>\<open>connection.h\<close> (recording, ACK processing,
    loss detection, probe timeout, discarding spaces, restarting the handshake, establishment): the count of bytes in
    flight differs from the sizes of the packets in flight exactly by what a restarted handshake leaks and what
    establishment forgets, and is exact without the two; an ACK frame acknowledges and loses exactly what it should,
    lost data is requeued and a probe timeout makes progress. The locale \<open>entry_loop\<close> has the laws that the loops
    over the ring of sent packets share.

  \<^bold>\<open>HTTP/2 and header compression\<close> (\<^verbatim>\<open>include/boltapi/http\<close>, \<^verbatim>\<open>src/http\<close>).
  \<^item> \<open>Http2_Frame\<close> models \<^verbatim>\<open>http2_frame.cpp\<close>: frames read back, padding is validated exactly, and both families of
    writers agree.
  \<^item> \<open>Huffman_Tables\<close> and \<open>Huffman\<close> model \<^verbatim>\<open>huffman.cpp\<close>, \<^verbatim>\<open>huffman_table.cpp\<close> and \<^verbatim>\<open>huffman_table_data.cpp\<close>, tables
    included. \<open>Huffman_Tree\<close> evaluates the tables against the code as a tree; \<open>Huffman_Correct\<close> shows that the automaton
    decodes exactly the valid strings.
  \<^item> \<open>Hpack_Table\<close> and \<open>Hpack\<close> model \<^verbatim>\<open>hpack.cpp\<close>: the ring-buffer dynamic table refines the list of RFC 7541, through the
    locale \<open>header_table\<close>; decoding inverts encoding and keeps the table sizes of the two ends in step; no input breaks
    the decoder's invariant.
  \<^item> \<open>Qpack_Huffman\<close> models \<^verbatim>\<open>include/boltapi/http3/qpack_huffman.h\<close>, which decodes by canonical code ranges; it computes
    what the automaton computes. \<open>Qpack\<close> models \<^verbatim>\<open>include/boltapi/http3/qpack.h\<close> and the static table; \<open>Qpack_Correct\<close> shows
    that field sections are read back, that the ring of slots refines a queue of fields, searches and their narrowing to
    \<open>int\<close> included, and that the instructions on the encoder stream keep the decoder's table equal to the encoder's.

  \<^bold>\<open>HTTP/1\<close> (\<^verbatim>\<open>src/http/http1_parser.cpp\<close>).
  \<^item> \<open>Http1_Parser\<close> models the request parser, its message framing and the chunked coding. The two guards of
    \<open>scan_chunked\<close> and the one of \<open>dechunk_in_place\<close> are the bounds of the C++ loops, one more than the length of the input.
  \<^item> \<open>Http1_Correct\<close> shows that a verdict stays when more bytes arrive and that an accepted request has one length only.
    \<open>Http1_Resume\<close> shows that the request and the parser an unfinished attempt leaves behind do not change the next
    attempt (the locale \<open>resumed_step\<close>, interpreted for the steps of the request line), so that the connection loop,
    which passes them on, gets the verdict on all the bytes. \<open>Http1_Chunked\<close> has the grammar of the chunked coding of
    RFC 9112: its bodies are accepted and decoded in place, and what else the scanner accepts is described exactly.
    \<open>Http1_Request\<close> shows that a written request is parsed back, consuming exactly its bytes.

  \<^bold>\<open>WebSocket\<close> (\<^verbatim>\<open>src/http/websocket_parser.cpp\<close>, \<^verbatim>\<open>src/http/websocket.cpp\<close>).
  \<^item> \<open>Ws_Parser\<close> models frames, masking, close payloads, UTF-8 validation and the upgrade checks; the digest of the accept
    key is a parameter.
  \<^item> \<open>Ws_Conn\<close> models the connection; receiving does not depend on how the bytes are segmented, and sending and receiving
    terminate unless the fragment size is 0. \<open>Ws_Delivery\<close> shows that what a client sends is delivered.

  \<^bold>\<open>Not modelled.\<close> Cryptography (packet protection, TLS, DTLS, SRTP, tokens) is OpenSSL. Sockets, coroutines, threads,
  the event loop, the application object and the server loop are I/O and scheduling. JSON, compression and Flight SQL
  wrap third-party libraries. The HTTP/1 connection
  object, the HTTP/2 and HTTP/3 connection state machines, the router, the database protocols and
  WebRTC are self-contained code of the same kind as the modelled parts and are left out for their size. Memory
  safety below the level of lists and indices, and the timing of concurrent callers, are outside the model.
\<close>

end
